(* ===== verification/Prelude.thy ===== *)
theory Prelude
  imports Main "HOL-Library.Word"
begin

text \<open>
  Shared ground of the development: the widths of the C++ integer types the code uses, the
  collections of rewrite rules the component theories fill and use, the one combinator by
  which a C++ member function that may throw is composed, and generic facts on lists,
  options and maps.
\<close>

section \<open>Integer widths\<close>

type_synonym u8 = "8 word"
type_synonym u16 = "16 word"
type_synonym u32 = "32 word"
type_synonym u64 = "64 word"

section \<open>Rule collections\<close>

named_theorems text_simps \<open>rewriting of searches and slices of strings\<close>
named_theorems io_simps \<open>rewriting of one step of a scripted system call\<close>
named_theorems inv_intros \<open>introduction rules for component invariants\<close>

section \<open>Member functions that may throw\<close>

text \<open>
  A member function of a stateful class maps the object to a pair: what it returns or throws
  (\<open>Inl\<close> an exception, \<open>Inr\<close> a result) and the object afterwards. The object is kept on
  the throwing branch too, because C++ does not roll back the writes made before a
  \<^verbatim>\<open>throw\<close>. \<open>and_then\<close> is the sequencing of two such calls.
\<close>

fun and_then :: "('e + 'a) \<times> 's \<Rightarrow> ('a \<Rightarrow> 's \<Rightarrow> ('e + 'b) \<times> 's) \<Rightarrow> ('e + 'b) \<times> 's" where
  "and_then (Inl e, s) k = (Inl e, s)"
| "and_then (Inr a, s) k = k a s"

lemma and_then_cong [fundef_cong]:
  assumes "m = m'" and "\<And>a s. m' = (Inr a, s) \<Longrightarrow> k a s = k' a s"
  shows "and_then m k = and_then m' k'"
  using assms by (cases m' rule: prod.exhaust; cases "fst m'") auto

lemma and_then_Inr_iff:
  "and_then m k = (Inr b, t) \<longleftrightarrow> (\<exists>a s. m = (Inr a, s) \<and> k a s = (Inr b, t))"
  by (cases m rule: prod.exhaust; cases "fst m") auto

lemma and_then_Inl_iff:
  "and_then m k = (Inl e, t) \<longleftrightarrow>
     m = (Inl e, t) \<or> (\<exists>a s. m = (Inr a, s) \<and> k a s = (Inl e, t))"
  by (cases m rule: prod.exhaust; cases "fst m") auto

section \<open>Lists\<close>

text \<open>Overwriting a slice of a buffer, as \<^verbatim>\<open>read(fd, buf + pos, n)\<close> or \<^verbatim>\<open>memcpy\<close> do.\<close>

definition splice :: "nat \<Rightarrow> 'a list \<Rightarrow> 'a list \<Rightarrow> 'a list" where
  "splice pos xs buf = take pos buf @ xs @ drop (pos + length xs) buf"

lemma length_splice [simp]:
  "pos + length xs \<le> length buf \<Longrightarrow> length (splice pos xs buf) = length buf"
  by (simp add: splice_def)

lemma splice_Nil [simp]: "splice pos [] buf = buf"
  by (simp add: splice_def)

lemma take_splice_before: "n \<le> pos \<Longrightarrow> pos \<le> length buf \<Longrightarrow> take n (splice pos xs buf) = take n buf"
  by (simp add: splice_def min_def)

lemma take_splice_after [text_simps]:
  "pos \<le> length buf \<Longrightarrow> take (pos + length xs) (splice pos xs buf) = take pos buf @ xs"
  by (simp add: splice_def)

lemma drop_splice_after:
  "pos \<le> length buf \<Longrightarrow> drop (pos + length xs) (splice pos xs buf) = drop (pos + length xs) buf"
  by (simp add: splice_def)

lemma nth_splice_other:
  "pos + length xs \<le> length buf \<Longrightarrow> i < pos \<or> pos + length xs \<le> i \<Longrightarrow> i < length buf \<Longrightarrow>
     splice pos xs buf ! i = buf ! i"
  by (auto simp: splice_def nth_append)

lemma nth_splice_same:
  "pos + length xs \<le> length buf \<Longrightarrow> pos \<le> i \<Longrightarrow> i < pos + length xs \<Longrightarrow>
     splice pos xs buf ! i = xs ! (i - pos)"
  by (auto simp: splice_def nth_append)

lemma take_Suc_append_last:
  "n < length xs \<Longrightarrow> take (Suc n) xs = take n xs @ [xs ! n]"
  by (rule take_Suc_conv_app_nth)

lemma find_Some_append: "find P xs = Some x \<Longrightarrow> find P (xs @ ys) = Some x"
  by (induction xs) auto

lemma find_None_append: "find P xs = None \<Longrightarrow> find P (xs @ ys) = find P ys"
  by (induction xs) auto

section \<open>Maps\<close>

lemma dom_restrict_Compl: "dom (m |` (- {k})) = dom m - {k}"
  by auto

lemma map_le_upd_other: "k \<noteq> k' \<Longrightarrow> (m(k \<mapsto> v)) k' = m k'"
  by simp

end
