(* ===== verification/Cpp_String.thy ===== *)
theory Cpp_String
  imports Prelude "HOL-Library.Sublist"
begin

text \<open>
  The part of the C++ and C string library the program uses, on \<^typ>\<open>string\<close> (a list of
  bytes): \<^verbatim>\<open>string_view::find\<close> with \<^verbatim>\<open>npos\<close> as \<^term>\<open>None\<close>, \<^verbatim>\<open>substr\<close>,
  \<^verbatim>\<open>starts_with\<close>, \<^verbatim>\<open>c_str\<close>, ASCII \<^verbatim>\<open>tolower\<close>, \<^verbatim>\<open>strcasecmp\<close>,
  \<^verbatim>\<open>std::to_string\<close> on unsigned values, \<^verbatim>\<open>std::stoull\<close> and \<^verbatim>\<open>std::from_chars\<close>.
\<close>

section \<open>Characters\<close>

abbreviation CR :: char where "CR \<equiv> CHR 0x0D"
abbreviation LF :: char where "LF \<equiv> CHR 0x0A"
abbreviation NUL :: char where "NUL \<equiv> CHR 0x00"
abbreviation SP :: char where "SP \<equiv> CHR 0x20"

definition CRLF :: string where
  "CRLF = [CR, LF]"

definition CRLF2 :: string where
  "CRLF2 = [CR, LF, CR, LF]"

lemma length_CRLF [simp]: "length CRLF = 2" "length CRLF2 = 4"
  by (simp_all add: CRLF_def CRLF2_def)

lemma CRLF_neq_Nil [simp]: "CRLF \<noteq> []" "CRLF2 \<noteq> []"
  by (simp_all add: CRLF_def CRLF2_def)

lemma CRLF2_append: "CRLF2 = CRLF @ CRLF"
  by (simp add: CRLF_def CRLF2_def)

section \<open>Searching\<close>

fun find_char :: "char \<Rightarrow> string \<Rightarrow> nat option" where
  "find_char c [] = None"
| "find_char c (x # xs) = (if x = c then Some 0 else map_option Suc (find_char c xs))"

fun find_sub :: "string \<Rightarrow> string \<Rightarrow> nat option" where
  "find_sub pat [] = (if pat = [] then Some 0 else None)"
| "find_sub pat (x # xs) =
     (if prefix pat (x # xs) then Some 0 else map_option Suc (find_sub pat xs))"

definition substr :: "nat \<Rightarrow> nat \<Rightarrow> string \<Rightarrow> string" where
  "substr pos n s = take n (drop pos s)"

text \<open>\<^verbatim>\<open>substr\<close> throws if it should begin behind the end; \<open>None\<close> here.\<close>

definition substr_at :: "nat \<Rightarrow> nat \<Rightarrow> string \<Rightarrow> string option" where
  "substr_at pos n s = (if length s < pos then None else Some (substr pos n s))"

definition starts_with :: "string \<Rightarrow> string \<Rightarrow> bool" where
  "starts_with s p = prefix p s"

lemma find_char_None [text_simps]: "find_char c s = None \<longleftrightarrow> c \<notin> set s"
  by (induction s) auto

lemma find_char_first [text_simps]:
  "c \<notin> set a \<Longrightarrow> find_char c (a @ c # b) = Some (length a)"
  by (induction a) auto

lemma find_char_SomeD:
  "find_char c s = Some i \<Longrightarrow> i < length s \<and> s ! i = c \<and> c \<notin> set (take i s)"
  by (induction s arbitrary: i) (auto split: if_splits)

lemma find_char_split:
  assumes "find_char c s = Some i"
  obtains a b where "s = a @ c # b" "length a = i" "c \<notin> set a"
proof -
  from find_char_SomeD [OF assms] have "s = take i s @ c # drop (Suc i) s" "c \<notin> set (take i s)"
    by (auto simp: id_take_nth_drop)
  moreover have "length (take i s) = i"
    using find_char_SomeD [OF assms] by simp
  ultimately show thesis using that by blast
qed

lemma find_sub_SomeD:
  "find_sub pat s = Some i \<Longrightarrow>
     i \<le> length s \<and> prefix pat (drop i s) \<and> (\<forall>j<i. \<not> prefix pat (drop j s))"
proof (induction s arbitrary: i)
  case Nil
  then show ?case by (auto split: if_splits)
next
  case (Cons x xs)
  show ?case
  proof (cases "prefix pat (x # xs)")
    case True
    with Cons.prems show ?thesis by simp
  next
    case False
    with Cons.prems obtain k where k: "find_sub pat xs = Some k" "i = Suc k"
      by auto
    from Cons.IH [OF k(1)] False k(2) show ?thesis
      by (auto simp: less_Suc_eq_0_disj)
  qed
qed

lemma find_sub_SomeI:
  "prefix pat (drop i s) \<Longrightarrow> i \<le> length s \<Longrightarrow> (\<forall>j<i. \<not> prefix pat (drop j s)) \<Longrightarrow>
     find_sub pat s = Some i"
proof (induction s arbitrary: i)
  case Nil
  then show ?case by auto
next
  case (Cons x xs)
  show ?case
  proof (cases i)
    case 0
    with Cons.prems show ?thesis by simp
  next
    case (Suc k)
    from Cons.prems(3) Suc have "\<not> prefix pat (x # xs)"
      by (metis drop0 zero_less_Suc)
    moreover have "\<forall>j<k. \<not> prefix pat (drop j xs)"
      using Cons.prems(3) Suc by (metis Suc_mono drop_Suc_Cons)
    ultimately show ?thesis
      using Cons.IH [of k] Cons.prems(1,2) Suc by simp
  qed
qed

lemma find_sub_None:
  "find_sub pat s = None \<longleftrightarrow> (\<forall>j\<le>length s. \<not> prefix pat (drop j s))"
proof
  assume "find_sub pat s = None"
  then show "\<forall>j\<le>length s. \<not> prefix pat (drop j s)"
  proof (induction s)
    case Nil
    then show ?case by (auto split: if_splits)
  next
    case (Cons x xs)
    then have "\<not> prefix pat (x # xs)" "find_sub pat xs = None"
      by (auto split: if_splits)
    with Cons.IH show ?case
      by (auto simp: le_Suc_eq drop_Cons split: nat.splits)
  qed
next
  assume "\<forall>j\<le>length s. \<not> prefix pat (drop j s)"
  then show "find_sub pat s = None"
    using find_sub_SomeD [of pat s] by (cases "find_sub pat s") auto
qed

lemma find_sub_length:
  "find_sub pat s = Some i \<Longrightarrow> i + length pat \<le> length s"
  using find_sub_SomeD [of pat s i] prefix_length_le [of pat "drop i s"] by auto

text \<open>A match stays the first match when more text arrives behind it.\<close>

lemma find_sub_extend [text_simps]:
  assumes "find_sub pat s = Some i"
  shows "find_sub pat (s @ t) = Some i"
proof (rule find_sub_SomeI)
  note D = find_sub_SomeD [OF assms]
  have len: "i + length pat \<le> length s"
    using assms by (rule find_sub_length)
  show "prefix pat (drop i (s @ t))"
    using D by (simp add: prefix_def) (metis append_assoc)
  show "i \<le> length (s @ t)" using D by simp
  show "\<forall>j<i. \<not> prefix pat (drop j (s @ t))"
  proof (intro allI impI)
    fix j assume j: "j < i"
    then have "length pat \<le> length (drop j s)" using len by simp
    then show "\<not> prefix pat (drop j (s @ t))"
      using D j len
      by (metis append_eq_append_conv_if append_take_drop_id drop_append prefixI prefix_def)
  qed
qed

lemma find_sub_CRLF_first [text_simps]:
  "CR \<notin> set a \<Longrightarrow> find_sub CRLF (a @ CRLF @ b) = Some (length a)"
proof (induction a)
  case Nil
  then show ?case by (cases b) (simp_all add: CRLF_def)
next
  case (Cons x a)
  then have "\<not> prefix CRLF (x # a @ CRLF @ b)"
    by (auto simp: CRLF_def)
  with Cons show ?case by simp
qed

lemma find_sub_CRLF_absent: "CR \<notin> set s \<Longrightarrow> find_sub CRLF s = None"
  by (induction s) (auto simp: CRLF_def)

text \<open>
  A block of lines, each ended by CRLF, then an empty line: the first double CRLF is the one
  that ends the last line.
\<close>

definition lines_text :: "string list \<Rightarrow> string" where
  "lines_text ls = concat (map (\<lambda>l. l @ CRLF) ls)"

lemma lines_text_simps [simp]:
  "lines_text [] = []"
  "lines_text (l # ls) = l @ CRLF @ lines_text ls"
  by (simp_all add: lines_text_def)

lemma lines_text_append: "lines_text (ls @ ms) = lines_text ls @ lines_text ms"
  by (simp add: lines_text_def)

lemma find_sub_CRLF2_step:
  assumes "CR \<notin> set l" and "t \<noteq> []" and "hd t \<noteq> CR"
  shows "find_sub CRLF2 (l @ CRLF @ t) = map_option (\<lambda>n. n + (length l + 2)) (find_sub CRLF2 t)"
  using assms(1)
proof (induction l)
  case Nil
  from assms(2,3) have "\<not> prefix CRLF2 (CR # LF # t)"
    by (cases t) (auto simp: CRLF2_def)
  moreover have "\<not> prefix CRLF2 (LF # t)" by (simp add: CRLF2_def)
  ultimately show ?case by (simp add: CRLF_def option.map_comp o_def)
next
  case (Cons x l)
  then have "\<not> prefix CRLF2 (x # l @ CRLF @ t)" by (auto simp: CRLF2_def)
  with Cons show ?case by (simp add: option.map_comp o_def)
qed

lemma find_sub_CRLF2_end:
  assumes "CR \<notin> set l"
  shows "find_sub CRLF2 (l @ CRLF @ CRLF @ t) = Some (length l)"
  using assms
proof (induction l)
  case Nil
  then show ?case by (simp add: CRLF_def CRLF2_def)
next
  case (Cons x l)
  then have "\<not> prefix CRLF2 (x # l @ CRLF @ CRLF @ t)" by (auto simp: CRLF2_def)
  with Cons show ?case by simp
qed

lemma find_sub_CRLF2_lines:
  assumes "ls \<noteq> []" and "\<forall>l\<in>set ls. CR \<notin> set l \<and> l \<noteq> []"
  shows "find_sub CRLF2 (lines_text ls @ CRLF @ t) = Some (length (lines_text ls) - 2)"
  using assms
proof (induction ls)
  case Nil
  then show ?case by simp
next
  case (Cons l ls)
  show ?case
  proof (cases "ls = []")
    case True
    with Cons.prems show ?thesis by (simp add: find_sub_CRLF2_end)
  next
    case False
    then obtain m ms where ms: "ls = m # ms" by (cases ls) auto
    with Cons.prems(2) have "m \<noteq> []" "hd m \<noteq> CR" "CR \<notin> set l"
      by (auto dest: hd_in_set)
    then have "find_sub CRLF2 (l @ CRLF @ (lines_text ls @ CRLF @ t)) =
        map_option (\<lambda>n. n + (length l + 2)) (find_sub CRLF2 (lines_text ls @ CRLF @ t))"
      by (intro find_sub_CRLF2_step) (simp_all add: ms)
    with Cons.IH Cons.prems False show ?thesis by (simp add: ms)
  qed
qed

section \<open>C strings and case-insensitive comparison\<close>

definition c_str :: "string \<Rightarrow> string" where
  "c_str s = takeWhile (\<lambda>c. c \<noteq> NUL) s"

definition ascii_tolower :: "char \<Rightarrow> char" where
  "ascii_tolower c =
     (let n = (of_char c :: nat) in if 65 \<le> n \<and> n \<le> 90 then char_of (n + 32) else c)"

definition strcasecmp_eq :: "string \<Rightarrow> string \<Rightarrow> bool" where
  "strcasecmp_eq a b = (map ascii_tolower (c_str a) = map ascii_tolower (c_str b))"

lemma c_str_id [simp]: "NUL \<notin> set s \<Longrightarrow> c_str s = s"
  by (induction s) (auto simp: c_str_def)

section \<open>Numbers\<close>

definition is_digit :: "char \<Rightarrow> bool" where
  "is_digit c = (let n = (of_char c :: nat) in 48 \<le> n \<and> n \<le> 57)"

definition digit_val :: "char \<Rightarrow> nat" where
  "digit_val c = of_char c - 48"

definition digit_char :: "nat \<Rightarrow> char" where
  "digit_char n = char_of (48 + n)"

definition is_space :: "char \<Rightarrow> bool" where
  "is_space c = (let n = (of_char c :: nat) in n = 32 \<or> (9 \<le> n \<and> n \<le> 13))"

fun to_dec :: "nat \<Rightarrow> string" where
  "to_dec n = (if n < 10 then [digit_char n] else to_dec (n div 10) @ [digit_char (n mod 10)])"

declare to_dec.simps [simp del]

definition dec_val :: "string \<Rightarrow> nat" where
  "dec_val s = foldl (\<lambda>acc c. 10 * acc + digit_val c) 0 s"

datatype num_error = InvalidArgument | OutOfRange

text \<open>\<^verbatim>\<open>std::stoull(const char*)\<close>: leading blanks, an optional sign, then digits; a
  negative number is negated modulo \<open>2 ^ 64\<close>; what follows the digits is ignored.\<close>

definition stoull :: "string \<Rightarrow> num_error + nat" where
  "stoull s =
     (let t = dropWhile is_space (c_str s);
          neg = (t \<noteq> [] \<and> hd t = CHR ''-'');
          u = (if t \<noteq> [] \<and> (hd t = CHR ''-'' \<or> hd t = CHR ''+'') then tl t else t);
          ds = takeWhile is_digit u;
          v = dec_val ds
      in if ds = [] then Inl InvalidArgument
         else if 2 ^ 64 \<le> v then Inl OutOfRange
         else Inr (if neg then (2 ^ 64 - v) mod 2 ^ 64 else v))"

text \<open>\<^verbatim>\<open>std::from_chars\<close> into a 64-bit unsigned value: digits only.\<close>

definition from_chars_u64 :: "string \<Rightarrow> num_error + nat" where
  "from_chars_u64 s =
     (let ds = takeWhile is_digit s; v = dec_val ds
      in if ds = [] then Inl InvalidArgument
         else if 2 ^ 64 \<le> v then Inl OutOfRange
         else Inr v)"

lemma of_char_digit_char [simp]: "n < 10 \<Longrightarrow> (of_char (digit_char n) :: nat) = 48 + n"
  by (simp add: digit_char_def)

lemma digit_val_digit_char [simp]: "n < 10 \<Longrightarrow> digit_val (digit_char n) = n"
  by (simp add: digit_val_def)

lemma is_digit_digit_char [simp]: "n < 10 \<Longrightarrow> is_digit (digit_char n)"
  by (simp add: is_digit_def)

lemma to_dec_digits: "c \<in> set (to_dec n) \<Longrightarrow> is_digit c"
  by (induction n rule: to_dec.induct) (subst (asm) (2) to_dec.simps, auto split: if_splits)

lemma to_dec_neq_Nil [simp]: "to_dec n \<noteq> []"
  by (subst to_dec.simps) simp

lemma dec_val_append_digit:
  "dec_val (s @ [c]) = 10 * dec_val s + digit_val c"
  by (simp add: dec_val_def)

lemma dec_val_to_dec [simp]: "dec_val (to_dec n) = n"
proof (induction n rule: to_dec.induct)
  case (1 n)
  show ?case
  proof (cases "n < 10")
    case True
    then show ?thesis by (subst to_dec.simps) (simp add: dec_val_def)
  next
    case False
    with 1 show ?thesis by (subst to_dec.simps) (simp add: dec_val_append_digit)
  qed
qed

lemma takeWhile_digits_to_dec: "takeWhile is_digit (to_dec n) = to_dec n"
  by (rule takeWhile_eq_all_conv [THEN iffD2]) (auto dest: to_dec_digits)

lemma from_chars_to_dec: "n < 2 ^ 64 \<Longrightarrow> from_chars_u64 (to_dec n) = Inr n"
  by (simp add: from_chars_u64_def takeWhile_digits_to_dec)

lemma is_digit_not_special:
  "is_digit c \<Longrightarrow> c \<noteq> NUL \<and> \<not> is_space c \<and> c \<noteq> CHR ''-'' \<and> c \<noteq> CHR ''+'' \<and> c \<noteq> CR \<and> c \<noteq> SP"
  by (auto simp: is_digit_def is_space_def Let_def)

lemma dropWhile_space_to_dec: "dropWhile is_space (to_dec n) = to_dec n"
  using to_dec_digits [of "hd (to_dec n)" n] is_digit_not_special
  by (cases "to_dec n") auto

lemma stoull_to_dec: "n < 2 ^ 64 \<Longrightarrow> stoull (to_dec n) = Inr n"
proof -
  assume n: "n < 2 ^ 64"
  have "NUL \<notin> set (to_dec n)"
    using to_dec_digits is_digit_not_special by blast
  then have c: "c_str (to_dec n) = to_dec n" by simp
  have "is_digit (hd (to_dec n))"
    by (rule to_dec_digits [of _ n]) simp
  then have h: "hd (to_dec n) \<noteq> CHR ''-''" "hd (to_dec n) \<noteq> CHR ''+''"
    using is_digit_not_special by blast+
  show ?thesis
    using n h by (simp add: stoull_def c dropWhile_space_to_dec takeWhile_digits_to_dec)
qed

end
