(* ===== verification/Protocol.thy ===== *)
theory Protocol
  imports Cpp_String
begin

text \<open>
  \<^verbatim>\<open>include/http/protocol.hpp\<close> and \<^verbatim>\<open>lib/http/protocol.cpp\<close>: the enumerations of the HTTP
  layer with their textual forms, the case-insensitive key comparison and hash, and the
  dictionary (\<^verbatim>\<open>std::unordered_map\<close> over these two) that holds headers and query
  parameters. A dictionary is an association list in insertion order; the locale
  \<open>key_equiv\<close> states what the container needs of the comparison, \<open>hashed_keys\<close> what it
  needs of the hash, and both are interpreted on the code's own functors.
\<close>

section \<open>Enumerations\<close>

datatype HttpVersion = HTTP1_0 | HTTP1_1

datatype HttpMethod = GET | POST | PUT | DELETE

datatype HttpStatusCode =
    CONTINUE | SWITCHING_PROTOCOLS | OK | CREATED | ACCEPTED | NO_CONTENT | PARTIAL_CONTENT
    | MULTIPLE_CHOICES | MOVED_PERMANENTLY | FOUND | SEE_OTHER | USE_PROXY
    | TEMPORARY_REDIRECT | BAD_REQUEST | UNAUTHORIZED | PAYMENT_REQUIRED | FORBIDDEN
    | NOT_FOUND | METHOD_NOT_ALLOWED | NOT_ACCEPTABLE | PROXY_AUTHENTICATION_REQUIRED
    | REQUEST_TIMEOUT | CONFLICT | GONE | LENGTH_REQUIRED | PRECONDITION_FAILED
    | REQUEST_ENTITY_TOO_LARGE | REQUEST_URI_TOO_LARGE | REQUESTED_RANGE_NOT_SATISFIABLE
    | EXPECTATION_FAILED | INTERNAL_SERVER_ERROR | NOT_IMPLEMENTED | BAD_GATEWAY
    | SERVICE_UNABAILABLE | GATEWAY_TIMEOUT | HTTP_VERSION_NOT_SUPPORTED

fun code_value :: "HttpStatusCode \<Rightarrow> u16" where
  "code_value CONTINUE = 100"
| "code_value SWITCHING_PROTOCOLS = 101"
| "code_value OK = 200"
| "code_value CREATED = 201"
| "code_value ACCEPTED = 202"
| "code_value NO_CONTENT = 204"
| "code_value PARTIAL_CONTENT = 206"
| "code_value MULTIPLE_CHOICES = 300"
| "code_value MOVED_PERMANENTLY = 301"
| "code_value FOUND = 302"
| "code_value SEE_OTHER = 303"
| "code_value USE_PROXY = 305"
| "code_value TEMPORARY_REDIRECT = 307"
| "code_value BAD_REQUEST = 400"
| "code_value UNAUTHORIZED = 401"
| "code_value PAYMENT_REQUIRED = 402"
| "code_value FORBIDDEN = 403"
| "code_value NOT_FOUND = 404"
| "code_value METHOD_NOT_ALLOWED = 405"
| "code_value NOT_ACCEPTABLE = 406"
| "code_value PROXY_AUTHENTICATION_REQUIRED = 407"
| "code_value REQUEST_TIMEOUT = 408"
| "code_value CONFLICT = 409"
| "code_value GONE = 410"
| "code_value LENGTH_REQUIRED = 411"
| "code_value PRECONDITION_FAILED = 412"
| "code_value REQUEST_ENTITY_TOO_LARGE = 413"
| "code_value REQUEST_URI_TOO_LARGE = 414"
| "code_value REQUESTED_RANGE_NOT_SATISFIABLE = 416"
| "code_value EXPECTATION_FAILED = 417"
| "code_value INTERNAL_SERVER_ERROR = 500"
| "code_value NOT_IMPLEMENTED = 501"
| "code_value BAD_GATEWAY = 502"
| "code_value SERVICE_UNABAILABLE = 503"
| "code_value GATEWAY_TIMEOUT = 504"
| "code_value HTTP_VERSION_NOT_SUPPORTED = 505"

definition all_codes :: "HttpStatusCode list" where
  "all_codes =
    [CONTINUE, SWITCHING_PROTOCOLS, OK, CREATED, ACCEPTED, NO_CONTENT, PARTIAL_CONTENT
     , MULTIPLE_CHOICES, MOVED_PERMANENTLY, FOUND, SEE_OTHER, USE_PROXY, TEMPORARY_REDIRECT
     , BAD_REQUEST, UNAUTHORIZED, PAYMENT_REQUIRED, FORBIDDEN, NOT_FOUND, METHOD_NOT_ALLOWED
     , NOT_ACCEPTABLE, PROXY_AUTHENTICATION_REQUIRED, REQUEST_TIMEOUT, CONFLICT, GONE
     , LENGTH_REQUIRED, PRECONDITION_FAILED, REQUEST_ENTITY_TOO_LARGE, REQUEST_URI_TOO_LARGE
     , REQUESTED_RANGE_NOT_SATISFIABLE, EXPECTATION_FAILED, INTERNAL_SERVER_ERROR
     , NOT_IMPLEMENTED, BAD_GATEWAY, SERVICE_UNABAILABLE, GATEWAY_TIMEOUT
     , HTTP_VERSION_NOT_SUPPORTED]"

definition code_of :: "u16 \<Rightarrow> HttpStatusCode option" where
  "code_of w = find (\<lambda>c. code_value c = w) all_codes"

fun reason_phrase_of :: "HttpStatusCode \<Rightarrow> string" where
  "reason_phrase_of OK = ''OK''"
| "reason_phrase_of BAD_REQUEST = ''Bad Request''"
| "reason_phrase_of NOT_FOUND = ''Not Found''"
| "reason_phrase_of INTERNAL_SERVER_ERROR = ''Internal Server Error''"
| "reason_phrase_of CONTINUE = ''Continue''"
| "reason_phrase_of SWITCHING_PROTOCOLS = ''Switching Protocols''"
| "reason_phrase_of CREATED = ''Created''"
| "reason_phrase_of ACCEPTED = ''Accepted''"
| "reason_phrase_of NO_CONTENT = ''No Content''"
| "reason_phrase_of PARTIAL_CONTENT = ''Partial Content''"
| "reason_phrase_of MULTIPLE_CHOICES = ''Multiple Choices''"
| "reason_phrase_of MOVED_PERMANENTLY = ''Moved Permanently''"
| "reason_phrase_of FOUND = ''Found''"
| "reason_phrase_of SEE_OTHER = ''See Other''"
| "reason_phrase_of USE_PROXY = ''User Proxy''"
| "reason_phrase_of TEMPORARY_REDIRECT = ''Temporary Redirect''"
| "reason_phrase_of UNAUTHORIZED = ''Unauthorized''"
| "reason_phrase_of PAYMENT_REQUIRED = ''Payment Required''"
| "reason_phrase_of FORBIDDEN = ''Forbidden''"
| "reason_phrase_of METHOD_NOT_ALLOWED = ''Method Not Allowed''"
| "reason_phrase_of NOT_ACCEPTABLE = ''Not Acceptable''"
| "reason_phrase_of PROXY_AUTHENTICATION_REQUIRED = ''Proxy Authentication Requried''"
| "reason_phrase_of REQUEST_TIMEOUT = ''Request Timeout''"
| "reason_phrase_of CONFLICT = ''Conflict''"
| "reason_phrase_of GONE = ''Gone''"
| "reason_phrase_of LENGTH_REQUIRED = ''Length Required''"
| "reason_phrase_of PRECONDITION_FAILED = ''Precondition Failed''"
| "reason_phrase_of REQUEST_ENTITY_TOO_LARGE = ''Request Entity Too Large''"
| "reason_phrase_of REQUEST_URI_TOO_LARGE = ''Request URI Too Large''"
| "reason_phrase_of REQUESTED_RANGE_NOT_SATISFIABLE = ''Requested Range Not Satisfiable''"
| "reason_phrase_of EXPECTATION_FAILED = ''Expectation Failed''"
| "reason_phrase_of NOT_IMPLEMENTED = ''Not Implemented''"
| "reason_phrase_of BAD_GATEWAY = ''Bad Gateway''"
| "reason_phrase_of SERVICE_UNABAILABLE = ''Service Unavailable''"
| "reason_phrase_of GATEWAY_TIMEOUT = ''Gateway Time-Out''"
| "reason_phrase_of HTTP_VERSION_NOT_SUPPORTED = ''HTTP Version Not Supported''"

text \<open>The \<^verbatim>\<open>switch\<close> falls through to the empty string on a value that is no enumerator.\<close>

definition reason_phrase_of_raw :: "u16 \<Rightarrow> string" where
  "reason_phrase_of_raw w = (case code_of w of Some c \<Rightarrow> reason_phrase_of c | None \<Rightarrow> [])"

fun show_version :: "HttpVersion \<Rightarrow> string" where
  "show_version HTTP1_0 = ''HTTP/1.0''"
| "show_version HTTP1_1 = ''HTTP/1.1''"

fun show_method :: "HttpMethod \<Rightarrow> string" where
  "show_method GET = ''GET''"
| "show_method POST = ''POST''"
| "show_method PUT = ''PUT''"
| "show_method DELETE = ''DELETE''"

lemma code_of_value [simp]: "code_of (code_value c) = Some c"
  by (cases c) (simp_all add: code_of_def all_codes_def)

lemma code_value_inject [simp]: "code_value c = code_value d \<longleftrightarrow> c = d"
  by (metis code_of_value option.inject)

lemma reason_phrase_of_raw_value [simp]:
  "reason_phrase_of_raw (code_value c) = reason_phrase_of c"
  by (simp add: reason_phrase_of_raw_def)

lemma reason_phrase_text: "CR \<notin> set (reason_phrase_of c)" "reason_phrase_of c \<noteq> []"
  by (cases c; simp)+

lemma reason_phrase_raw_CR: "CR \<notin> set (reason_phrase_of_raw w)"
  by (simp add: reason_phrase_of_raw_def reason_phrase_text split: option.splits)

lemma show_version_text: "CR \<notin> set (show_version v)" "SP \<notin> set (show_version v)" "show_version v \<noteq> []"
  by (cases v; simp)+

section \<open>Case-insensitive keys\<close>

definition CaseInsensitiveComparator :: "string \<Rightarrow> string \<Rightarrow> bool" where
  "CaseInsensitiveComparator left right = strcasecmp_eq left right"

text \<open>
  The hash lowers every byte (the whole \<^verbatim>\<open>std::string\<close>, NUL bytes included), applies the
  library's \<^verbatim>\<open>std::hash\<close> (the parameter \<open>std_hash\<close>) and narrows the result to \<^verbatim>\<open>int\<close>.
\<close>

definition CaseInsensitiveHash :: "(string \<Rightarrow> u64) \<Rightarrow> string \<Rightarrow> u32" where
  "CaseInsensitiveHash std_hash s = ucast (std_hash (map ascii_tolower s))"

section \<open>Dictionaries\<close>

type_synonym dict = "(string \<times> string) list"

definition dict_find :: "(string \<Rightarrow> string \<Rightarrow> bool) \<Rightarrow> string \<Rightarrow> dict \<Rightarrow> string option" where
  "dict_find eq k d = map_option snd (find (\<lambda>e. eq (fst e) k) d)"

definition dict_insert :: "(string \<Rightarrow> string \<Rightarrow> bool) \<Rightarrow> string \<times> string \<Rightarrow> dict \<Rightarrow> dict" where
  "dict_insert eq e d = (if dict_find eq (fst e) d = None then d @ [e] else d)"

text \<open>The container's own search: only the entries of the key's bucket are compared.\<close>

definition dict_find_bucket ::
    "(string \<Rightarrow> string \<Rightarrow> bool) \<Rightarrow> (string \<Rightarrow> u32) \<Rightarrow> string \<Rightarrow> dict \<Rightarrow> string option" where
  "dict_find_bucket eq h k d = map_option snd (find (\<lambda>e. h (fst e) = h k \<and> eq (fst e) k) d)"

locale key_equiv =
  fixes eq :: "string \<Rightarrow> string \<Rightarrow> bool"
  assumes eq_refl: "eq k k"
    and eq_sym: "eq k l \<Longrightarrow> eq l k"
    and eq_trans: "eq k l \<Longrightarrow> eq l m \<Longrightarrow> eq k m"
begin

lemma find_cong_key: "eq k l \<Longrightarrow> dict_find eq k d = dict_find eq l d"
  unfolding dict_find_def
  by (rule arg_cong [where f = "map_option snd"], rule find_cong) (auto intro: eq_sym eq_trans)

lemma find_insert_same:
  "eq (fst e) k \<Longrightarrow>
     dict_find eq k (dict_insert eq e d) =
       (case dict_find eq k d of None \<Rightarrow> Some (snd e) | Some v \<Rightarrow> Some v)"
  using find_cong_key [of "fst e" k d]
  by (auto simp: dict_insert_def dict_find_def find_None_append find_Some_append split: option.splits)

lemma find_insert_other:
  "\<not> eq (fst e) k \<Longrightarrow> dict_find eq k (dict_insert eq e d) = dict_find eq k d"
  by (cases "find (\<lambda>e. eq (fst e) k) d")
     (auto simp: dict_insert_def dict_find_def find_None_append find_Some_append)

lemma find_foldl_insert:
  "dict_find eq k (foldl (\<lambda>d e. dict_insert eq e d) d es) =
     (case dict_find eq k d of Some v \<Rightarrow> Some v | None \<Rightarrow> dict_find eq k es)"
proof (induction es arbitrary: d)
  case Nil
  then show ?case by (simp add: dict_find_def split: option.splits)
next
  case (Cons e es)
  show ?case
  proof (cases "eq (fst e) k")
    case True
    then show ?thesis
      by (auto simp: Cons.IH find_insert_same split: option.splits) (simp add: dict_find_def)
  next
    case False
    then have "dict_find eq k (e # es) = dict_find eq k es" by (simp add: dict_find_def)
    with False show ?thesis by (simp add: Cons.IH find_insert_other split: option.splits)
  qed
qed

end

text \<open>
  The container compares keys within one bucket, that is with equal hashes. What \<open>eq\<close> has to be so
  that looking through all entries gives the same: on the keys in question, equal hashes and the
  comparator's consent.
\<close>

locale hashed_keys = key_equiv +
  fixes cmp :: "string \<Rightarrow> string \<Rightarrow> bool" and h :: "string \<Rightarrow> u32" and ok :: "string \<Rightarrow> bool"
  assumes eq_hash: "ok k \<Longrightarrow> ok l \<Longrightarrow> eq k l \<longleftrightarrow> h k = h l \<and> cmp k l"
begin

lemma find_bucket:
  assumes "ok k" and "\<And>e. e \<in> set d \<Longrightarrow> ok (fst e)"
  shows "dict_find_bucket cmp h k d = dict_find eq k d"
  unfolding dict_find_bucket_def dict_find_def
  by (rule arg_cong [where f = "map_option snd"], rule find_cong)
     (use assms eq_hash in auto)

end

text \<open>
  The keys of the program's containers are the same if the comparator says so and the strings that
  are hashed, NUL bytes included, are equal; different strings are taken to have different hashes,
  which matters only for keys with a NUL byte.
\<close>

definition same_key :: "string \<Rightarrow> string \<Rightarrow> bool" where
  "same_key left right \<longleftrightarrow>
     CaseInsensitiveComparator left right \<and> map ascii_tolower left = map ascii_tolower right"

interpretation ci: key_equiv same_key
  by unfold_locales (auto simp: same_key_def CaseInsensitiveComparator_def strcasecmp_eq_def)

interpretation cih: hashed_keys same_key CaseInsensitiveComparator "CaseInsensitiveHash std_hash"
    "\<lambda>k. NUL \<notin> set k" for std_hash
  by unfold_locales
     (auto simp: same_key_def CaseInsensitiveComparator_def strcasecmp_eq_def CaseInsensitiveHash_def)

text \<open>With a hash that separates the keys at hand this is what the container finds, NUL bytes or not.\<close>

lemma find_bucket_separated:
  assumes "\<And>e. e \<in> set d \<Longrightarrow> CaseInsensitiveHash std_hash (fst e) = CaseInsensitiveHash std_hash k \<Longrightarrow>
    map ascii_tolower (fst e) = map ascii_tolower k"
  shows "dict_find_bucket CaseInsensitiveComparator (CaseInsensitiveHash std_hash) k d = dict_find same_key k d"
  unfolding dict_find_bucket_def dict_find_def
  by (rule arg_cong [where f = "map_option snd"], rule find_cong)
     (use assms in \<open>auto simp: same_key_def CaseInsensitiveHash_def\<close>)

type_synonym Headers = dict
type_synonym QueryParameters = dict

abbreviation ci_find :: "string \<Rightarrow> dict \<Rightarrow> string option" where
  "ci_find \<equiv> dict_find same_key"

abbreviation ci_insert :: "string \<times> string \<Rightarrow> dict \<Rightarrow> dict" where
  "ci_insert \<equiv> dict_insert same_key"

end
