(* ===== verification/Http_Message.thy ===== *)
theory Http_Message
  imports Protocol
begin

text \<open>
  \<^verbatim>\<open>include/http/http_request.hpp\<close>, \<^verbatim>\<open>lib/http/http_request.cpp\<close>,
  \<^verbatim>\<open>include/http/http_response.hpp\<close>, \<^verbatim>\<open>lib/http/http_response.cpp\<close>, the exceptions of
  \<^verbatim>\<open>lib/http/exceptions.cpp\<close> and the printers of \<^verbatim>\<open>include/http/utils.hpp\<close>: the request
  object with its look-ups, the response builder and its serialisation.
\<close>

section \<open>Exceptions\<close>

text \<open>
  The exceptions that can leave the HTTP code: the four classes of
  \<^verbatim>\<open>http/exceptions.hpp\<close>, the two of \<^verbatim>\<open>std::stoull\<close>, the \<^verbatim>\<open>std::out_of_range\<close> of \<^verbatim>\<open>substr\<close>, and
  what a user's request handler throws. \<open>Undefined\<close> is not an exception: it marks a run that has reached undefined
  behaviour (a read through a dangling \<^verbatim>\<open>string_view\<close>), after which nothing is promised.
\<close>

datatype http_exn =
    ParsingException string HttpStatusCode
  | ReadingException string
  | WritingException string
  | TimeoutException string
  | StdNumError num_error
  | StdOutOfRange
  | CallbackException string
  | Undefined

fun getCode :: "http_exn \<Rightarrow> HttpStatusCode option" where
  "getCode (ParsingException m c) = Some c"
| "getCode (ReadingException m) = Some INTERNAL_SERVER_ERROR"
| "getCode (WritingException m) = Some INTERNAL_SERVER_ERROR"
| "getCode (TimeoutException m) = Some REQUEST_TIMEOUT"
| "getCode _ = None"

fun what :: "http_exn \<Rightarrow> string" where
  "what (ParsingException m c) = m"
| "what (ReadingException m) = m"
| "what (WritingException m) = m"
| "what (TimeoutException m) = m"
| "what (StdNumError e) = ''stoull''"
| "what StdOutOfRange = ''basic_string_view::substr''"
| "what (CallbackException m) = m"
| "what Undefined = []"

section \<open>Requests\<close>

record HttpRequest =
  rq_headers :: Headers
  rq_query :: QueryParameters
  rq_body :: string
  rq_path :: string
  rq_version :: HttpVersion
  rq_method :: HttpMethod

definition mk_HttpRequest ::
    "Headers \<Rightarrow> QueryParameters \<Rightarrow> string \<Rightarrow> string \<Rightarrow> HttpVersion \<Rightarrow> HttpMethod \<Rightarrow> HttpRequest" where
  "mk_HttpRequest headers query_parameters body path version meth =
     \<lparr>rq_headers = headers, rq_query = query_parameters, rq_body = body, rq_path = path,
      rq_version = version, rq_method = meth\<rparr>"

definition getHeader :: "HttpRequest \<Rightarrow> string \<Rightarrow> string option" where
  "getHeader r header_name = ci_find header_name (rq_headers r)"

text \<open>
  The code compares the iterator found in the query parameters with the end of the
  \<^emph>\<open>headers\<close>; both ends are the null iterator in the implementation, so the test is still
  "not found".
\<close>

definition getQueryParameter :: "HttpRequest \<Rightarrow> string \<Rightarrow> string option" where
  "getQueryParameter r param_name = ci_find param_name (rq_query r)"

section \<open>Responses\<close>

record HttpResponse =
  rs_version :: HttpVersion
  rs_code :: u16
  rs_headers :: "(string \<times> string) list"
  rs_body :: string

text \<open>\<^verbatim>\<open>HttpResponse()\<close> is value-initialisation: version and code are zero.\<close>

definition HttpResponse_init :: HttpResponse where
  "HttpResponse_init = \<lparr>rs_version = HTTP1_0, rs_code = 0, rs_headers = [], rs_body = []\<rparr>"

definition setVersion :: "HttpVersion \<Rightarrow> HttpResponse \<Rightarrow> HttpResponse" where
  "setVersion v r = r\<lparr>rs_version := v\<rparr>"

definition setStatusCode :: "HttpStatusCode \<Rightarrow> HttpResponse \<Rightarrow> HttpResponse" where
  "setStatusCode c r = r\<lparr>rs_code := code_value c\<rparr>"

definition addHeader :: "string \<Rightarrow> string \<Rightarrow> HttpResponse \<Rightarrow> HttpResponse" where
  "addHeader key v r = r\<lparr>rs_headers := rs_headers r @ [(key, v)]\<rparr>"

definition addHeaders :: "(string \<times> string) list \<Rightarrow> HttpResponse \<Rightarrow> HttpResponse" where
  "addHeaders hs r = foldl (\<lambda>r (key, v). addHeader key v r) r hs"

definition setBody :: "string \<Rightarrow> HttpResponse \<Rightarrow> HttpResponse" where
  "setBody body r =
     r\<lparr>rs_body := body, rs_headers := rs_headers r @ [(''Content-Length'', to_dec (length body))]\<rparr>"

definition status_line :: "HttpResponse \<Rightarrow> string" where
  "status_line r =
     show_version (rs_version r) @ '' '' @ to_dec (unat (rs_code r)) @ '' '' @
     reason_phrase_of_raw (rs_code r)"

definition header_line :: "string \<times> string \<Rightarrow> string" where
  "header_line h = fst h @ '':'' @ snd h"

definition dump :: "HttpResponse \<Rightarrow> string" where
  "dump r =
     status_line r @ CRLF @ concat (map (\<lambda>h. header_line h @ CRLF) (rs_headers r)) @
     CRLF @ rs_body r"

lemma dump_lines:
  "dump r = lines_text (status_line r # map header_line (rs_headers r)) @ CRLF @ rs_body r"
  by (simp add: dump_def lines_text_def o_def)

lemma dump_neq_Nil [simp]: "dump r \<noteq> []"
  by (simp add: dump_def)

lemma status_line_text: "CR \<notin> set (status_line r)" "status_line r \<noteq> []"
  using to_dec_digits is_digit_not_special
  by (auto simp: status_line_def show_version_text reason_phrase_raw_CR)

lemma addHeaders_headers: "rs_headers (addHeaders hs r) = rs_headers r @ hs"
  by (induction hs arbitrary: r) (auto simp: addHeaders_def addHeader_def split: prod.splits)

text \<open>
  Framing: when no header carries a CR, the first empty line of the serialisation ends the
  header block and everything after it is the body.
\<close>

lemma dump_framing_aux:
  assumes "\<forall>h\<in>set (rs_headers r). CR \<notin> set (fst h) \<and> CR \<notin> set (snd h)"
  shows "\<exists>n. find_sub CRLF2 (dump r) = Some n \<and> drop (n + 4) (dump r) = rs_body r \<and>
      take (n + 2) (dump r) = lines_text (status_line r # map header_line (rs_headers r))"
proof -
  let ?ls = "status_line r # map header_line (rs_headers r)"
  have "\<forall>l\<in>set ?ls. CR \<notin> set l \<and> l \<noteq> []"
    using assms by (auto simp: status_line_text header_line_def)
  then have "find_sub CRLF2 (lines_text ?ls @ CRLF @ rs_body r) = Some (length (lines_text ?ls) - 2)"
    by (intro find_sub_CRLF2_lines) auto
  moreover have "2 \<le> length (lines_text ?ls)" by simp
  ultimately show ?thesis
    unfolding dump_lines
    by (intro exI [of _ "length (lines_text ?ls) - 2"]) (simp add: algebra_simps del: lines_text_simps)
qed

section \<open>Printing a request\<close>

definition PrettyRequestInfo :: "HttpRequest \<Rightarrow> string" where
  "PrettyRequestInfo req =
     ''[Version]: '' @ show_version (rq_version req) @ [LF] @
     ''[Method]: '' @ show_method (rq_method req) @ [LF] @
     ''[Resource Target]:'' @ rq_path req @ [LF] @
     ''[Query Parameters]'' @ [LF] @
     concat (map (\<lambda>p. fst p @ '': '' @ snd p @ [LF]) (rq_query req)) @
     ''[Headers]'' @ [LF] @
     concat (map (\<lambda>p. fst p @ '': '' @ snd p @ [LF]) (rq_headers req))"

definition PrettyRequest :: "HttpRequest \<Rightarrow> string" where
  "PrettyRequest req =
     PrettyRequestInfo req @ (if rq_body req \<noteq> [] then ''[Body]'' @ [LF] @ rq_body req else [])"

end
