(* ===== verification/Http_Parser.thy ===== *)
theory Http_Parser
  imports Http_Message
begin

text \<open>
  \<^verbatim>\<open>include/http/parser.hpp\<close> and \<^verbatim>\<open>lib/http/parser.cpp\<close>: the incremental request parser.
  The parser keeps \<^verbatim>\<open>string_view\<close>s of the path and the body, so a view is modelled as
  what it is (an allocation, an offset, a length) and \<open>buildRequest\<close> reads through it in
  the memory of the moment; reading through a view of a freed allocation is \<open>Undefined\<close>.
\<close>

section \<open>Views\<close>

datatype strview = NullView | View (view_base: nat) (view_off: nat) (view_len: nat)

type_synonym memory = "nat \<rightharpoonup> string"

fun read_view :: "memory \<Rightarrow> strview \<Rightarrow> string option" where
  "read_view mem NullView = Some []"
| "read_view mem (View b off len) =
     (case mem b of
        None \<Rightarrow> None
      | Some s \<Rightarrow> if off + len \<le> length s then Some (substr off len s) else None)"

text \<open>A message being parsed: a view together with the bytes it shows.\<close>

record message =
  m_base :: nat
  m_off :: nat
  m_text :: string

definition mk_message :: "nat \<Rightarrow> string \<Rightarrow> message" where
  "mk_message b s = \<lparr>m_base = b, m_off = 0, m_text = s\<rparr>"

definition remove_prefix :: "nat \<Rightarrow> message \<Rightarrow> message" where
  "remove_prefix n m = m\<lparr>m_off := m_off m + n, m_text := drop n (m_text m)\<rparr>"

definition m_prefix :: "nat \<Rightarrow> message \<Rightarrow> message" where
  "m_prefix n m = m\<lparr>m_text := take n (m_text m)\<rparr>"

definition view_of :: "message \<Rightarrow> strview" where
  "view_of m = View (m_base m) (m_off m) (length (m_text m))"

lemma message_simps [simp]:
  "m_text (remove_prefix n m) = drop n (m_text m)"
  "m_off (remove_prefix n m) = m_off m + n"
  "m_base (remove_prefix n m) = m_base m"
  "m_text (m_prefix n m) = take n (m_text m)"
  "m_off (m_prefix n m) = m_off m"
  "m_base (m_prefix n m) = m_base m"
  "m_text (mk_message b s) = s"
  "m_off (mk_message b s) = 0"
  "m_base (mk_message b s) = b"
  by (simp_all add: remove_prefix_def m_prefix_def mk_message_def)

lemma message_eqI:
  "m_base m = m_base n \<Longrightarrow> m_off m = m_off n \<Longrightarrow> m_text m = m_text n \<Longrightarrow> m = (n :: message)"
  by (cases m; cases n) simp

section \<open>The parser object\<close>

datatype HttpRequestState = READING_REQUEST_LINE | READING_HEADERS | READING_BODY | DONE | ERROR

record HttpRequestParser =
  hp_body_length :: nat
  hp_parsed_total :: nat
  hp_state :: HttpRequestState
  hp_query :: QueryParameters
  hp_headers :: Headers
  hp_body :: strview
  hp_path :: strview
  hp_version :: HttpVersion
  hp_method :: HttpMethod

definition HttpRequestParser_init :: HttpRequestParser where
  "HttpRequestParser_init =
     \<lparr>hp_body_length = 0, hp_parsed_total = 0, hp_state = READING_REQUEST_LINE,
      hp_query = [], hp_headers = [], hp_body = NullView, hp_path = NullView,
      hp_version = HTTP1_0, hp_method = GET\<rparr>"

type_synonym 'a parse_result = "(http_exn + 'a) \<times> HttpRequestParser"

abbreviation bad_request :: "string \<Rightarrow> http_exn" where
  "bad_request m \<equiv> ParsingException m BAD_REQUEST"

section \<open>The request line\<close>

definition parse_request_token :: "string \<Rightarrow> HttpRequestParser \<Rightarrow> nat parse_result" where
  "parse_request_token message p =
     (case find_char SP message of
        None \<Rightarrow> (Inl (bad_request ''expected single space after request token''), p)
      | Some after_token \<Rightarrow>
          if starts_with message ''GET'' then (Inr (after_token + 1), p\<lparr>hp_method := GET\<rparr>)
          else if starts_with message ''POST'' then (Inr (after_token + 1), p\<lparr>hp_method := POST\<rparr>)
          else if starts_with message ''DELETE'' then (Inr (after_token + 1), p\<lparr>hp_method := DELETE\<rparr>)
          else if starts_with message ''PUT'' then (Inr (after_token + 1), p\<lparr>hp_method := PUT\<rparr>)
          else (Inl (bad_request ''invalid request token''), p))"

definition parse_version :: "string \<Rightarrow> HttpRequestParser \<Rightarrow> unit parse_result" where
  "parse_version version p =
     (if version = ''HTTP/1.1'' then (Inr (), p\<lparr>hp_version := HTTP1_1\<rparr>)
      else if version = ''HTTP/1.0'' then (Inr (), p\<lparr>hp_version := HTTP1_0\<rparr>)
      else (Inl (ParsingException ''unsupported HTTP version'' HTTP_VERSION_NOT_SUPPORTED), p))"

text \<open>One round of the parameter loop: the parameter that ends at \<open>param_end\<close>.\<close>

definition parse_query_parameter :: "string \<Rightarrow> HttpRequestParser \<Rightarrow> unit parse_result" where
  "parse_query_parameter param p =
     (case find_char CHR ''='' param of
        None \<Rightarrow> (Inl (bad_request ''invalid query parameter''), p)
      | Some d \<Rightarrow>
          (Inr (), p\<lparr>hp_query := ci_insert (take d param, drop (d + 1) param) (hp_query p)\<rparr>))"

function parse_query_parameters :: "string \<Rightarrow> HttpRequestParser \<Rightarrow> unit parse_result" where
  "parse_query_parameters query p =
     (case find_char CHR ''&'' query of
        None \<Rightarrow> parse_query_parameter query p
      | Some param_end \<Rightarrow>
          and_then (parse_query_parameter (take param_end query) p)
            (\<lambda>_ p. parse_query_parameters (drop (param_end + 1) query) p))"
  by pat_completeness auto
termination
  by (relation "measure (\<lambda>(query, p). length query)") (auto dest: find_char_SomeD)

declare parse_query_parameters.simps [simp del]

text \<open>The end of \<^verbatim>\<open>parse_url\<close>: the path is kept, then checked not to be empty.\<close>

definition set_path :: "message \<Rightarrow> HttpRequestParser \<Rightarrow> unit parse_result" where
  "set_path path p =
     (let p = p\<lparr>hp_path := view_of path\<rparr>
      in if m_text path = [] then
           (Inl (bad_request ''invalid resource target''), p\<lparr>hp_state := ERROR\<rparr>)
         else (Inr (), p))"

definition parse_url :: "message \<Rightarrow> HttpRequestParser \<Rightarrow> unit parse_result" where
  "parse_url m p =
     (case find_char CHR ''?'' (m_text m) of
        None \<Rightarrow> set_path m p
      | Some query_begin \<Rightarrow>
          if query_begin + 1 < length (m_text m) then
            and_then (parse_query_parameters (drop (query_begin + 1) (m_text m)) p)
              (\<lambda>_. set_path (m_prefix query_begin m))
          else set_path (m_prefix query_begin m) p)"

definition parse_path :: "message \<Rightarrow> HttpRequestParser \<Rightarrow> nat parse_result" where
  "parse_path m p =
     (case find_char SP (m_text m) of
        None \<Rightarrow> (Inl (bad_request ''expected space after resource target''), p)
      | Some path_end \<Rightarrow>
          and_then (parse_url (m_prefix path_end m) p) (\<lambda>_ p. (Inr (path_end + 1), p)))"

definition parse_start_line :: "message \<Rightarrow> HttpRequestParser \<Rightarrow> unit parse_result" where
  "parse_start_line m p =
     and_then (parse_request_token (m_text m) p) (\<lambda>token_end p.
       let m = remove_prefix token_end m in
       and_then (parse_path m p) (\<lambda>path_end p.
         parse_version (m_text (remove_prefix path_end m)) p))"

section \<open>The header block\<close>

text \<open>
  \<^verbatim>\<open>header[header_delim + 1]\<close> may read one byte behind the header's view. The caller cuts
  the view in front of a CRLF, so that byte is always the CR.
\<close>

definition header_at :: "string \<Rightarrow> nat \<Rightarrow> char" where
  "header_at header i = (if i < length header then header ! i else CR)"

definition parse_header :: "string \<Rightarrow> HttpRequestParser \<Rightarrow> unit parse_result" where
  "parse_header header p =
     (case find_char CHR '':'' header of
        None \<Rightarrow> (Inl (bad_request ''invalid header''), p)
      | Some header_delim0 \<Rightarrow>
          if length header \<le> header_delim0 then (Inl (bad_request ''invalid header''), p)
          else
            let header_name_end = header_delim0;
                header_delim =
                  (if header_at header (header_delim0 + 1) = SP then header_delim0 + 1
                   else header_delim0);
                header_end = (if last header = SP then length header - 1 else length header);
                header_value_begin = header_delim + 1
            in (case substr_at header_value_begin header_end header of
                  None \<Rightarrow> (Inl StdOutOfRange, p)
                | Some header_value \<Rightarrow>
                    (Inr (),
                     p\<lparr>hp_headers := ci_insert (substr 0 header_name_end header, header_value) (hp_headers p)\<rparr>)))"

text \<open>A colon at the end is followed by the CR: the value never begins behind the header.\<close>

lemma header_value_in_range:
  assumes "find_char CHR '':'' header = Some d"
  shows "substr_at ((if header_at header (d + 1) = SP then d + 1 else d) + 1) n header =
    Some (substr ((if header_at header (d + 1) = SP then d + 1 else d) + 1) n header)"
  using find_char_SomeD [OF assms] by (auto simp: substr_at_def header_at_def)

lemma parse_header_alt:
  "parse_header header p =
     (case find_char CHR '':'' header of
        None \<Rightarrow> (Inl (bad_request ''invalid header''), p)
      | Some d \<Rightarrow>
          (Inr (),
           p\<lparr>hp_headers := ci_insert
               (substr 0 d header,
                substr ((if header_at header (d + 1) = SP then d + 1 else d) + 1)
                  (if last header = SP then length header - 1 else length header) header) (hp_headers p)\<rparr>))"
  using find_char_SomeD [of "CHR '':''" header] header_value_in_range [of header]
  by (auto simp: parse_header_def Let_def split: option.splits)

text \<open>
  On \<^verbatim>\<open>npos\<close> (no CRLF left) the loop would take the whole rest as a header and then remove
  \<^verbatim>\<open>npos + 2\<close>, that is one, byte; the only caller passes a text that ends with CRLF.
\<close>

function parse_headers :: "string \<Rightarrow> HttpRequestParser \<Rightarrow> unit parse_result" where
  "parse_headers headers p =
     (if headers = [] then (Inr (), p)
      else case find_sub CRLF headers of
             Some header_len \<Rightarrow>
               and_then (parse_header (take header_len headers) p)
                 (\<lambda>_ p. parse_headers (drop (header_len + 2) headers) p)
           | None \<Rightarrow>
               and_then (parse_header headers p) (\<lambda>_ p. parse_headers (drop 1 headers) p))"
  by pat_completeness auto
termination
  by (relation "measure (\<lambda>(headers, p). length headers)") (auto dest: find_sub_length)

declare parse_headers.simps [simp del]

section \<open>The whole request\<close>

text \<open>The three \<^verbatim>\<open>if\<close> blocks of \<^verbatim>\<open>parse\<close>; \<open>None\<close> is an early \<^verbatim>\<open>return state_\<close>.\<close>

definition request_line_block :: "message \<Rightarrow> HttpRequestParser \<Rightarrow> message parse_result" where
  "request_line_block m p =
     (if hp_state p = READING_REQUEST_LINE then
        case find_sub CRLF (m_text m) of
          Some req_line_idx \<Rightarrow>
            and_then (parse_start_line (m_prefix req_line_idx m) p)
              (\<lambda>_ p. (Inr (remove_prefix (req_line_idx + 2) m),
                       p\<lparr>hp_state := READING_HEADERS, hp_parsed_total := req_line_idx + 2\<rparr>))
        | None \<Rightarrow> (Inr m, p)
      else (Inr m, p))"

definition headers_block :: "message \<Rightarrow> HttpRequestParser \<Rightarrow> message option parse_result" where
  "headers_block m p =
     (if hp_state p = READING_HEADERS then
        case find_sub CRLF2 (m_text m) of
          None \<Rightarrow> (Inr None, p)
        | Some headers_end \<Rightarrow>
            and_then (parse_headers (substr 0 (headers_end + 2) (m_text m)) p) (\<lambda>_ p.
              if hp_method p = GET \<or> hp_method p = DELETE then (Inr None, p\<lparr>hp_state := DONE\<rparr>)
              else case ci_find ''Content-Length'' (hp_headers p) of
                     None \<Rightarrow> (Inr None, p\<lparr>hp_state := DONE\<rparr>)
                   | Some content_length \<Rightarrow>
                       (case stoull content_length of
                          Inl e \<Rightarrow> (Inl (StdNumError e), p)
                        | Inr n \<Rightarrow>
                            (Inr (Some (remove_prefix (headers_end + 4) m)),
                             p\<lparr>hp_body_length := n, hp_state := READING_BODY,
                               hp_parsed_total := hp_parsed_total p + (headers_end + 4)\<rparr>)))
      else (Inr (Some m), p))"

definition body_block :: "message \<Rightarrow> HttpRequestParser \<Rightarrow> HttpRequestState parse_result" where
  "body_block m p =
     (if hp_state p = READING_BODY \<and> hp_body_length p \<le> length (m_text m) then
        (Inr DONE, p\<lparr>hp_body := view_of (m_prefix (hp_body_length p) m), hp_state := DONE\<rparr>)
      else (Inr (hp_state p), p))"

definition parse :: "message \<Rightarrow> HttpRequestParser \<Rightarrow> HttpRequestState parse_result" where
  "parse message p =
     and_then (request_line_block (remove_prefix (hp_parsed_total p) message) p) (\<lambda>m p.
     and_then (headers_block m p) (\<lambda>r p.
       case r of
         None \<Rightarrow> (Inr (hp_state p), p)
       | Some m \<Rightarrow> body_block m p))"

definition buildRequest :: "memory \<Rightarrow> HttpRequestParser \<Rightarrow> http_exn + HttpRequest" where
  "buildRequest mem p =
     (case (read_view mem (hp_body p), read_view mem (hp_path p)) of
        (Some body, Some path) \<Rightarrow>
          Inr (mk_HttpRequest (hp_headers p) (hp_query p) body path (hp_version p) (hp_method p))
      | _ \<Rightarrow> Inl Undefined)"

end
