(* ===== verification/Parser_Resume.thy ===== *)
theory Parser_Resume
  imports Http_Parser
begin

text \<open>
  What each parsing function may change, the bounds the parser keeps, and independence of
  the way the bytes arrive: a parse that stopped because it needs more bytes continues,
  once they have arrived, exactly as a fresh parse of everything would.
\<close>

section \<open>Frames\<close>

lemma parse_header_frame:
  "parse_header h p = (r, p') \<Longrightarrow> p' = p\<lparr>hp_headers := hp_headers p'\<rparr>"
  by (auto simp: parse_header_alt Let_def split: option.splits if_splits)

lemma parse_headers_frame:
  "parse_headers hs p = (r, p') \<Longrightarrow> p' = p\<lparr>hp_headers := hp_headers p'\<rparr>"
proof (induction hs p arbitrary: r p' rule: parse_headers.induct)
  case (1 hs p)
  have step: "p' = p\<lparr>hp_headers := hp_headers p'\<rparr>"
    if "parse_header h p = (q, p1)" and "p' = p1 \<or> p' = p1\<lparr>hp_headers := hp_headers p'\<rparr>" for h q p1
    using parse_header_frame [OF that(1)] that(2)
    by (metis HttpRequestParser.surjective HttpRequestParser.update_convs(5))
  show ?case
  proof (cases "hs = []")
    case True
    with 1(3) show ?thesis by (simp add: parse_headers.simps)
  next
    case False
    show ?thesis
    proof (cases "find_sub CRLF hs")
      case None
      obtain q p1 where h: "parse_header hs p = (q, p1)" by fastforce
      have "p' = p1 \<or> p' = p1\<lparr>hp_headers := hp_headers p'\<rparr>"
        using 1(1) [OF False None] 1(3) False None h
        by (cases q) (auto simp: parse_headers.simps [of hs p])
      with h show ?thesis by (rule step)
    next
      case (Some n)
      obtain q p1 where h: "parse_header (take n hs) p = (q, p1)" by fastforce
      have "p' = p1 \<or> p' = p1\<lparr>hp_headers := hp_headers p'\<rparr>"
        using 1(2) [OF False Some] 1(3) False Some h
        by (cases q) (auto simp: parse_headers.simps [of hs p])
      with h show ?thesis by (rule step)
    qed
  qed
qed

lemma parse_headers_keeps:
  assumes "parse_headers hs p = (r, p')"
  shows "hp_state p' = hp_state p" "hp_parsed_total p' = hp_parsed_total p"
    "hp_method p' = hp_method p" "hp_path p' = hp_path p" "hp_query p' = hp_query p"
    "hp_version p' = hp_version p" "hp_body p' = hp_body p"
    "hp_body_length p' = hp_body_length p"
  using parse_headers_frame [OF assms] by (metis HttpRequestParser.select_convs
      HttpRequestParser.surjective HttpRequestParser.update_convs(5))+

section \<open>Messages that grow\<close>

definition more_text :: "string \<Rightarrow> message \<Rightarrow> message" where
  "more_text t m = m\<lparr>m_text := m_text m @ t\<rparr>"

lemma more_text_simps [simp]:
  "m_text (more_text t m) = m_text m @ t"
  "m_base (more_text t m) = m_base m"
  "m_off (more_text t m) = m_off m"
  "more_text t (mk_message b s) = mk_message b (s @ t)"
  by (simp_all add: more_text_def mk_message_def)

lemma remove_prefix_more:
  "n \<le> length (m_text m) \<Longrightarrow> remove_prefix n (more_text t m) = more_text t (remove_prefix n m)"
  by (rule message_eqI) simp_all

lemma m_prefix_more: "n \<le> length (m_text m) \<Longrightarrow> m_prefix n (more_text t m) = m_prefix n m"
  by (rule message_eqI) simp_all

lemma remove_prefix_add: "remove_prefix a (remove_prefix b m) = remove_prefix (b + a) m"
  by (rule message_eqI) (simp_all add: add.commute)

lemma remove_prefix_0 [simp]: "remove_prefix 0 m = m"
  by (rule message_eqI) simp_all

section \<open>The parser's invariant\<close>

text \<open>
  The consumed prefix lies within the bytes seen so far, and nothing counts as consumed
  while the request line is awaited. The first part is what makes \<^verbatim>\<open>remove_prefix\<close>
  defined.
\<close>

definition parser_inv :: "nat \<Rightarrow> HttpRequestParser \<Rightarrow> bool" where
  "parser_inv n p \<longleftrightarrow>
     hp_parsed_total p \<le> n \<and> (hp_state p = READING_REQUEST_LINE \<longrightarrow> hp_parsed_total p = 0)"

lemma parser_inv_init [inv_intros]: "parser_inv n HttpRequestParser_init"
  by (simp add: parser_inv_def HttpRequestParser_init_def)

lemma parser_inv_mono: "parser_inv n p \<Longrightarrow> n \<le> n' \<Longrightarrow> parser_inv n' p"
  by (auto simp: parser_inv_def)

text \<open>Where the first block leaves the parser when it does not throw.\<close>

lemma request_line_block_Inr:
  assumes "request_line_block m p = (Inr m1, p1)"
  shows "(m1 = m \<and> p1 = p \<and> (hp_state p = READING_REQUEST_LINE \<longrightarrow> find_sub CRLF (m_text m) = None))
     \<or> (\<exists>i q. hp_state p = READING_REQUEST_LINE \<and> find_sub CRLF (m_text m) = Some i \<and>
          parse_start_line (m_prefix i m) p = (Inr (), q) \<and> m1 = remove_prefix (i + 2) m \<and>
          p1 = q\<lparr>hp_state := READING_HEADERS, hp_parsed_total := i + 2\<rparr>)"
  using assms
  by (auto simp: request_line_block_def and_then_Inr_iff split: if_splits option.splits)

lemma headers_block_Inr_Some:
  assumes "headers_block m p = (Inr (Some m2), p2)"
  shows "(hp_state p \<noteq> READING_HEADERS \<and> m2 = m \<and> p2 = p) \<or>
     (\<exists>e q n. hp_state p = READING_HEADERS \<and> find_sub CRLF2 (m_text m) = Some e \<and>
        parse_headers (take (e + 2) (m_text m)) p = (Inr (), q) \<and>
        m2 = remove_prefix (e + 4) m \<and>
        p2 = q\<lparr>hp_body_length := n, hp_state := READING_BODY,
               hp_parsed_total := hp_parsed_total q + (e + 4)\<rparr>)"
  using assms
  by (auto simp: headers_block_def and_then_Inr_iff substr_def
      split: if_splits option.splits sum.splits)

lemma headers_block_Inr_None:
  assumes "headers_block m p = (Inr None, p2)"
  shows "hp_state p = READING_HEADERS \<and>
     ((find_sub CRLF2 (m_text m) = None \<and> p2 = p) \<or> hp_state p2 = DONE)"
  using assms
  by (auto simp: headers_block_def and_then_Inr_iff split: if_splits option.splits sum.splits)

lemma request_line_block_more:
  assumes "request_line_block m p = (Inr m1, p1)"
    and "hp_state p = READING_REQUEST_LINE \<Longrightarrow> find_sub CRLF (m_text m) \<noteq> None"
  shows "request_line_block (more_text t m) p = (Inr (more_text t m1), p1)"
proof (cases "hp_state p = READING_REQUEST_LINE")
  case False
  with assms(1) show ?thesis by (simp add: request_line_block_def)
next
  case True
  with assms(2) obtain i where i: "find_sub CRLF (m_text m) = Some i" by auto
  then have len: "i + 2 \<le> length (m_text m)" using find_sub_length [OF i] by simp
  from i have "find_sub CRLF (m_text m @ t) = Some i" by (rule find_sub_extend)
  with True i assms(1) len show ?thesis
    by (auto simp: request_line_block_def and_then_Inr_iff m_prefix_more remove_prefix_more)
qed

lemma headers_block_more:
  assumes "headers_block m p = (Inr (Some m2), p2)"
  shows "headers_block (more_text t m) p = (Inr (Some (more_text t m2)), p2)"
proof (cases "hp_state p = READING_HEADERS")
  case False
  with assms show ?thesis by (simp add: headers_block_def)
next
  case True
  with headers_block_Inr_Some [OF assms] obtain e where
    e: "find_sub CRLF2 (m_text m) = Some e" by auto
  then have len: "e + 4 \<le> length (m_text m)" using find_sub_length [OF e] by simp
  from e have e': "find_sub CRLF2 (m_text m @ t) = Some e" by (rule find_sub_extend)
  from assms True e obtain q where q: "parse_headers (take (e + 2) (m_text m)) p = (Inr (), q)"
    by (auto simp: headers_block_def and_then_Inr_iff substr_def)
  from assms True e q have meth: "\<not> (hp_method q = GET \<or> hp_method q = DELETE)"
    by (auto simp: headers_block_def substr_def)
  from assms True e q meth obtain v where v: "ci_find ''Content-Length'' (hp_headers q) = Some v"
    by (auto simp: headers_block_def substr_def split: option.splits)
  from assms True e q meth v obtain n where n: "stoull v = Inr n"
    by (auto simp: headers_block_def substr_def split: sum.splits)
  from assms True e q meth v n have "m2 = remove_prefix (e + 4) m"
    "p2 = q\<lparr>hp_body_length := n, hp_state := READING_BODY,
             hp_parsed_total := hp_parsed_total q + (e + 4)\<rparr>"
    by (simp_all add: headers_block_def substr_def)
  with True e' q meth v n len show ?thesis
    by (simp add: headers_block_def substr_def remove_prefix_more)
qed

text \<open>The phases of a parse that ends without a complete request.\<close>

lemma parse_not_done_cases:
  assumes parse: "parse m p = (Inr s, p')" and s: "s \<noteq> DONE" and inv: "parser_inv (length (m_text m)) p"
  obtains
    (same) "p' = p"
  | (line) m1 where "request_line_block (remove_prefix (hp_parsed_total p) m) p = (Inr m1, p')"
      "find_sub CRLF (m_text m) \<noteq> None" "hp_state p = READING_REQUEST_LINE"
      "hp_state p' = READING_HEADERS" "m1 = remove_prefix (hp_parsed_total p') m"
  | (body) m1 p1 m2 where "request_line_block (remove_prefix (hp_parsed_total p) m) p = (Inr m1, p1)"
      "hp_state p = READING_REQUEST_LINE \<longrightarrow> find_sub CRLF (m_text m) \<noteq> None"
      "headers_block m1 p1 = (Inr (Some m2), p')" "hp_state p' = READING_BODY"
      "m2 = remove_prefix (hp_parsed_total p') m"
proof -
  let ?m = "remove_prefix (hp_parsed_total p) m"
  from parse obtain m1 p1 where b1: "request_line_block ?m p = (Inr m1, p1)"
    and rest: "and_then (headers_block m1 p1) (\<lambda>r p.
       case r of None \<Rightarrow> (Inr (hp_state p), p) | Some m \<Rightarrow> body_block m p) = (Inr s, p')"
    by (auto simp: parse_def and_then_Inr_iff)
  from rest obtain r p2 where b2: "headers_block m1 p1 = (Inr r, p2)"
    and b3: "(case r of None \<Rightarrow> (Inr (hp_state p2), p2) | Some m \<Rightarrow> body_block m p2) = (Inr s, p')"
    by (auto simp: and_then_Inr_iff)
  have body_same: "p' = p2" if "r = Some m2" for m2
    using b3 that s by (auto simp: body_block_def split: if_splits)
  have none_same: "p' = p2" "hp_state p2 \<noteq> DONE" if "r = None"
    using b3 that s by auto
  have start: "hp_parsed_total p = 0" if "hp_state p = READING_REQUEST_LINE"
    using inv that by (simp add: parser_inv_def)
  from request_line_block_Inr [OF b1] show thesis
  proof (elim disjE exE conjE)
    assume a: "m1 = ?m" "p1 = p" "hp_state p = READING_REQUEST_LINE \<longrightarrow> find_sub CRLF (m_text ?m) = None"
    show thesis
    proof (cases r)
      case None
      with headers_block_Inr_None [OF b2 [unfolded None]] none_same a(2) have "p' = p" by auto
      then show thesis by (rule same)
    next
      case (Some m2)
      from headers_block_Inr_Some [OF b2 [unfolded Some]] show thesis
      proof (elim disjE exE conjE)
        assume "p2 = p1"
        with body_same [OF Some] a have "p' = p" by simp
        then show thesis by (rule same)
      next
        fix e q n assume h: "hp_state p1 = READING_HEADERS" "m2 = remove_prefix (e + 4) m1"
          "parse_headers (take (e + 2) (m_text m1)) p1 = (Inr (), q)"
          "p2 = q\<lparr>hp_body_length := n, hp_state := READING_BODY,
               hp_parsed_total := hp_parsed_total q + (e + 4)\<rparr>"
        from parse_headers_keeps(2) [OF h(3)] h a body_same [OF Some]
        have "m2 = remove_prefix (hp_parsed_total p') m"
          by (simp add: remove_prefix_add)
        with h a body_same [OF Some] b1 b2 Some show thesis
          by (intro body [of m1 p1 m2]) auto
      qed
    qed
  next
    fix i q assume a: "hp_state p = READING_REQUEST_LINE" "find_sub CRLF (m_text ?m) = Some i"
      "m1 = remove_prefix (i + 2) ?m" "p1 = q\<lparr>hp_state := READING_HEADERS, hp_parsed_total := i + 2\<rparr>"
    have m: "?m = m" using start [OF a(1)] by simp
    show thesis
    proof (cases r)
      case None
      with headers_block_Inr_None [OF b2 [unfolded None]] none_same have "p' = p1" by auto
      with a m b1 show thesis by (intro line [of m1]) auto
    next
      case (Some m2)
      from headers_block_Inr_Some [OF b2 [unfolded Some]] a(4) obtain e q' n where h:
        "m2 = remove_prefix (e + 4) m1" "parse_headers (take (e + 2) (m_text m1)) p1 = (Inr (), q')"
        "p2 = q'\<lparr>hp_body_length := n, hp_state := READING_BODY,
               hp_parsed_total := hp_parsed_total q' + (e + 4)\<rparr>"
        by auto
      from parse_headers_keeps(2) [OF h(2)] h a m body_same [OF Some]
      have "m2 = remove_prefix (hp_parsed_total p') m"
        by (simp add: remove_prefix_add)
      with h a m body_same [OF Some] b1 b2 Some show thesis
        by (intro body [of m1 p1 m2]) auto
    qed
  qed
qed

section \<open>Resuming equals starting over\<close>

lemma parse_unfold_from:
  assumes "request_line_block (remove_prefix (hp_parsed_total p) m) p = (Inr m1, p1)"
  shows "parse m p = and_then (headers_block m1 p1) (\<lambda>r p.
       case r of None \<Rightarrow> (Inr (hp_state p), p) | Some m \<Rightarrow> body_block m p)"
  using assms by (simp add: parse_def)

lemma request_line_block_skip [simp]:
  "hp_state p \<noteq> READING_REQUEST_LINE \<Longrightarrow> request_line_block m p = (Inr m, p)"
  by (simp add: request_line_block_def)

lemma headers_block_skip [simp]:
  "hp_state p \<noteq> READING_HEADERS \<Longrightarrow> headers_block m p = (Inr (Some m), p)"
  by (simp add: headers_block_def)

lemma parse_inv_kept:
  assumes "parse m p = (Inr s, p')" and "s \<noteq> DONE" and "parser_inv (length (m_text m)) p"
  shows "parser_inv (length (m_text m)) p'"
  using assms
proof (cases rule: parse_not_done_cases)
  case same
  with assms(3) show ?thesis by simp
next
  case (line m1)
  from line(2) obtain i where i: "find_sub CRLF (m_text m) = Some i" by auto
  have "hp_parsed_total p = 0" using line(3) assms(3) by (simp add: parser_inv_def)
  with line(1,3) i have "hp_parsed_total p' = i + 2"
    by (auto simp: request_line_block_def and_then_Inr_iff)
  with line(4) find_sub_length [OF i] show ?thesis by (simp add: parser_inv_def)
next
  case (body m1 p1 m2)
  from request_line_block_Inr [OF body(1)] have len: "hp_parsed_total p1 \<le> length (m_text m)"
    "m_text m1 = drop (hp_parsed_total p1) (m_text m)"
    using assms(3) find_sub_length [of CRLF] by (auto simp: parser_inv_def)
  from headers_block_Inr_Some [OF body(3)] show ?thesis
  proof (elim disjE exE conjE)
    assume "p' = p1"
    with len body(4) show ?thesis by (simp add: parser_inv_def)
  next
    fix e q n assume h: "find_sub CRLF2 (m_text m1) = Some e"
      "parse_headers (take (e + 2) (m_text m1)) p1 = (Inr (), q)"
      "p' = q\<lparr>hp_body_length := n, hp_state := READING_BODY,
             hp_parsed_total := hp_parsed_total q + (e + 4)\<rparr>"
    from find_sub_length [OF h(1)] len have "hp_parsed_total p1 + (e + 4) \<le> length (m_text m)"
      by simp
    with h(3) parse_headers_keeps(2) [OF h(2)] show ?thesis by (simp add: parser_inv_def)
  qed
qed

lemma parse_resume_aux:
  assumes parse: "parse m p = (Inr s, p')" and s: "s \<noteq> DONE"
    and inv: "parser_inv (length (m_text m)) p"
  shows "parse (more_text t m) p' = parse (more_text t m) p"
proof -
  have inv': "hp_parsed_total p' \<le> length (m_text m)"
    using parse_inv_kept [OF assms] by (simp add: parser_inv_def)
  have len: "hp_parsed_total p \<le> length (m_text m)" using inv by (simp add: parser_inv_def)
  from assms show ?thesis
  proof (cases rule: parse_not_done_cases)
    case same
    then show ?thesis by simp
  next
    case (line m1)
    have "hp_parsed_total p = 0" using line(3) inv by (simp add: parser_inv_def)
    with line len have "request_line_block (remove_prefix (hp_parsed_total p) (more_text t m)) p
        = (Inr (more_text t m1), p')"
      using request_line_block_more [OF line(1)] by (simp add: remove_prefix_more)
    moreover have "request_line_block (remove_prefix (hp_parsed_total p') (more_text t m)) p'
        = (Inr (more_text t m1), p')"
      using line(4,5) inv' by (simp add: remove_prefix_more)
    ultimately show ?thesis by (simp add: parse_unfold_from)
  next
    case (body m1 p1 m2)
    have "hp_state p = READING_REQUEST_LINE \<Longrightarrow>
        find_sub CRLF (m_text (remove_prefix (hp_parsed_total p) m)) \<noteq> None"
      using body(2) inv by (simp add: parser_inv_def)
    with request_line_block_more [OF body(1)] len
    have "request_line_block (remove_prefix (hp_parsed_total p) (more_text t m)) p
        = (Inr (more_text t m1), p1)"
      by (simp add: remove_prefix_more)
    moreover have "headers_block (more_text t m1) p1 = (Inr (Some (more_text t m2)), p')"
      by (rule headers_block_more [OF body(3)])
    moreover have "request_line_block (remove_prefix (hp_parsed_total p') (more_text t m)) p'
        = (Inr (more_text t m2), p')"
      using body(4,5) inv' by (simp add: remove_prefix_more)
    ultimately show ?thesis using body(4) by (simp add: parse_unfold_from)
  qed
qed

text \<open>A run of \<open>parse\<close> over growing prefixes of the bytes, as they arrive in chunks.\<close>

fun parse_chunks :: "nat \<Rightarrow> string \<Rightarrow> string list \<Rightarrow> HttpRequestParser \<Rightarrow> HttpRequestState parse_result" where
  "parse_chunks b seen [] p = (Inr (hp_state p), p)"
| "parse_chunks b seen (c # cs) p =
     and_then (parse (mk_message b (seen @ c)) p) (\<lambda>s p.
       if s = DONE \<or> cs = [] then (Inr s, p) else parse_chunks b (seen @ c) cs p)"

lemma parse_chunks_resume:
  assumes "parser_inv (length seen) p"
    and "\<And>k. k < length cs - 1 \<Longrightarrow>
      \<exists>s q. parse (mk_message b (seen @ concat (take (Suc k) cs))) p = (Inr s, q) \<and> s \<noteq> DONE"
    and "cs \<noteq> []"
  shows "parse_chunks b seen cs p = parse (mk_message b (seen @ concat cs)) p"
  using assms
proof (induction cs arbitrary: seen p)
  case Nil
  then show ?case by simp
next
  case (Cons c cs)
  show ?case
  proof (cases cs)
    case Nil
    then show ?thesis
      by (cases "parse (mk_message b (seen @ c)) p" rule: prod.exhaust;
          cases "fst (parse (mk_message b (seen @ c)) p)") auto
  next
    case (Cons c' cs')
    from Cons.prems(2) [of 0] Cons obtain s q where q:
      "parse (mk_message b (seen @ c)) p = (Inr s, q)" "s \<noteq> DONE" by auto
    have inv: "parser_inv (length (m_text (mk_message b (seen @ c)))) p"
      using Cons.prems(1) parser_inv_mono by fastforce
    have resume: "parse (mk_message b (seen @ c @ t)) q = parse (mk_message b (seen @ c @ t)) p" for t
      using parse_resume_aux [OF q inv, of t] by simp
    have "parse_chunks b (seen @ c) cs q = parse (mk_message b ((seen @ c) @ concat cs)) q"
    proof (rule Cons.IH)
      show "parser_inv (length (seen @ c)) q" using parse_inv_kept [OF q inv] by simp
      show "cs \<noteq> []" using Cons by simp
      fix k assume "k < length cs - 1"
      then have "Suc k < length (c # cs) - 1" by simp
      from Cons.prems(2) [OF this] show "\<exists>s q'. parse (mk_message b ((seen @ c) @
          concat (take (Suc k) cs))) q = (Inr s, q') \<and> s \<noteq> DONE"
        by (simp add: resume)
    qed
    with q Cons show ?thesis using resume [of "concat cs"] by simp
  qed
qed

end
