(* ===== verification/Parser_Roundtrip.thy ===== *)
theory Parser_Roundtrip
  imports Parser_Resume
begin

text \<open>
  The printed form of a request (what a client sends) and the proof that the parser reads it
  back: method, path, query parameters, version, headers and body.
\<close>

section \<open>The printed form\<close>

definition render_header :: "string \<times> string \<Rightarrow> string" where
  "render_header h = fst h @ '': '' @ snd h"

definition render_param :: "string \<times> string \<Rightarrow> string" where
  "render_param q = fst q @ ''='' @ snd q"

fun render_params :: "(string \<times> string) list \<Rightarrow> string" where
  "render_params [] = []"
| "render_params [q] = render_param q"
| "render_params (q # qs) = render_param q @ ''&'' @ render_params qs"

definition render_target :: "string \<Rightarrow> (string \<times> string) list \<Rightarrow> string" where
  "render_target path qs = path @ (if qs = [] then [] else ''?'' @ render_params qs)"

definition render_line :: "HttpMethod \<Rightarrow> string \<Rightarrow> (string \<times> string) list \<Rightarrow> HttpVersion \<Rightarrow> string" where
  "render_line meth path qs v =
     show_method meth @ '' '' @ render_target path qs @ '' '' @ show_version v"

definition render_head ::
    "HttpMethod \<Rightarrow> string \<Rightarrow> (string \<times> string) list \<Rightarrow> HttpVersion \<Rightarrow> (string \<times> string) list \<Rightarrow> string" where
  "render_head meth path qs v hs =
     render_line meth path qs v @ CRLF @ lines_text (map render_header hs) @ CRLF"

definition ok_header :: "string \<times> string \<Rightarrow> bool" where
  "ok_header h \<longleftrightarrow> CHR '':'' \<notin> set (fst h) \<and> CR \<notin> set (fst h) \<and> CR \<notin> set (snd h)"

definition ok_param :: "string \<times> string \<Rightarrow> bool" where
  "ok_param q \<longleftrightarrow> set (fst q) \<inter> {CHR ''='', CHR ''&'', SP, CR} = {} \<and>
     set (snd q) \<inter> {CHR ''&'', SP, CR} = {}"

definition ok_path :: "string \<Rightarrow> bool" where
  "ok_path path \<longleftrightarrow> path \<noteq> [] \<and> set path \<inter> {CHR ''?'', SP, CR} = {}"

definition collect :: "(string \<times> string) list \<Rightarrow> dict \<Rightarrow> dict" where
  "collect es d = foldl (\<lambda>d e. ci_insert e d) d es"

lemma collect_simps [simp]:
  "collect [] d = d"
  "collect (e # es) d = collect es (ci_insert e d)"
  by (simp_all add: collect_def)

lemma ci_find_collect [simp]: "ci_find k (collect es []) = ci_find k es"
  using ci.find_foldl_insert [of k "[]" es] by (simp add: collect_def dict_find_def)

section \<open>Headers\<close>

lemma parse_header_render:
  assumes "ok_header h"
  shows "parse_header (render_header h) p = (Inr (), p\<lparr>hp_headers := ci_insert h (hp_headers p)\<rparr>)"
proof -
  obtain k v where h: "h = (k, v)" by (cases h)
  have f: "find_char CHR '':'' (render_header h) = Some (length k)"
    using assms find_char_first [of "CHR '':''" k "SP # v"]
    by (simp add: h ok_header_def render_header_def)
  have at: "header_at (render_header h) (length k + 1) = SP"
    by (simp add: header_at_def h render_header_def nth_append)
  have sub: "substr (Suc (Suc (length k))) n (render_header (k, v)) = v"
    if "Suc (length k + length v) \<le> n" for n
    using that by (simp add: substr_def render_header_def)
  have n: "length (render_header h) = length k + length v + 2"
    by (simp add: h render_header_def)
  have key: "substr 0 (length k) (render_header h) = k"
    by (simp add: substr_def h render_header_def)
  show ?thesis
    using f at key n by (simp add: parse_header_alt Let_def sub h)
qed

lemma render_header_text:
  "ok_header h \<Longrightarrow> CR \<notin> set (render_header h)" "render_header h \<noteq> []"
  by (auto simp: ok_header_def render_header_def)

lemma parse_headers_render:
  "\<forall>h\<in>set hs. ok_header h \<Longrightarrow>
     parse_headers (lines_text (map render_header hs)) p =
       (Inr (), p\<lparr>hp_headers := collect hs (hp_headers p)\<rparr>)"
proof (induction hs arbitrary: p)
  case Nil
  then show ?case by (simp add: parse_headers.simps)
next
  case (Cons h hs)
  let ?t = "lines_text (map render_header hs)"
  have "find_sub CRLF (render_header h @ CRLF @ ?t) = Some (length (render_header h))"
    using Cons.prems render_header_text by (intro find_sub_CRLF_first) auto
  with Cons.prems show ?case
    by (subst parse_headers.simps) (simp add: render_header_text parse_header_render Cons.IH)
qed

section \<open>The request line\<close>

lemma parse_query_parameter_render:
  "ok_param q \<Longrightarrow>
     parse_query_parameter (render_param q) p = (Inr (), p\<lparr>hp_query := ci_insert q (hp_query p)\<rparr>)"
  using find_char_first [of "CHR ''=''" "fst q" "snd q"]
  by (auto simp: ok_param_def parse_query_parameter_def render_param_def)

lemma parse_query_parameters_render:
  "qs \<noteq> [] \<Longrightarrow> \<forall>q\<in>set qs. ok_param q \<Longrightarrow>
     parse_query_parameters (render_params qs) p =
       (Inr (), p\<lparr>hp_query := collect qs (hp_query p)\<rparr>)"
proof (induction qs arbitrary: p rule: render_params.induct)
  case 1
  then show ?case by simp
next
  case (2 q)
  then have "find_char CHR ''&'' (render_param q) = None"
    by (auto simp: find_char_None ok_param_def render_param_def)
  with 2 show ?case
    by (subst parse_query_parameters.simps) (simp add: parse_query_parameter_render)
next
  case (3 q q' qs)
  let ?r = "render_params (q' # qs)"
  have "CHR ''&'' \<notin> set (render_param q)"
    using 3 by (auto simp: ok_param_def render_param_def)
  from find_char_first [OF this, of ?r] 3 show ?case
    by (subst parse_query_parameters.simps) (simp add: parse_query_parameter_render)
qed

lemma render_param_text: "ok_param q \<Longrightarrow> set (render_param q) \<inter> {SP, CR} = {}"
  by (auto simp: ok_param_def render_param_def)

lemma render_params_text: "\<forall>q\<in>set qs. ok_param q \<Longrightarrow> set (render_params qs) \<inter> {SP, CR} = {}"
proof (induction qs rule: render_params.induct)
  case (3 q q' qs)
  then show ?case using render_param_text [of q] by auto
qed (use render_param_text in auto)

lemma render_params_neq_Nil: "qs \<noteq> [] \<Longrightarrow> render_params qs \<noteq> []"
  by (cases qs rule: render_params.cases) (auto simp: render_param_def)

lemma render_target_text:
  "ok_path path \<Longrightarrow> \<forall>q\<in>set qs. ok_param q \<Longrightarrow> set (render_target path qs) \<inter> {SP, CR} = {}"
  using render_params_text [of qs] by (auto simp: render_target_def ok_path_def)

lemma parse_url_render:
  assumes "m_text m = render_target path qs" and "ok_path path" and "\<forall>q\<in>set qs. ok_param q"
  shows "parse_url m p =
    (Inr (), p\<lparr>hp_query := collect qs (hp_query p),
               hp_path := View (m_base m) (m_off m) (length path)\<rparr>)"
proof (cases "qs = []")
  case True
  with assms have "find_char CHR ''?'' (m_text m) = None"
    by (auto simp: find_char_None render_target_def ok_path_def)
  with True assms show ?thesis
    by (simp add: parse_url_def set_path_def view_of_def render_target_def ok_path_def)
next
  case False
  with assms have t: "m_text m = path @ CHR ''?'' # render_params qs"
    by (simp add: render_target_def)
  have f: "find_char CHR ''?'' (m_text m) = Some (length path)"
    using assms(2) unfolding t by (intro find_char_first) (auto simp: ok_path_def)
  have more: "length path + 1 < length (m_text m)"
    using render_params_neq_Nil [OF False] by (simp add: t)
  have "drop (length path + 1) (m_text m) = render_params qs" by (simp add: t)
  with f more False assms(2,3) show ?thesis
    by (simp add: parse_url_def set_path_def view_of_def parse_query_parameters_render ok_path_def t)
qed

lemma parse_version_render: "parse_version (show_version v) p = (Inr (), p\<lparr>hp_version := v\<rparr>)"
  by (cases v) (simp_all add: parse_version_def)

lemma parse_request_token_render:
  "parse_request_token (show_method meth @ SP # rest) p =
     (Inr (length (show_method meth) + 1), p\<lparr>hp_method := meth\<rparr>)"
  by (cases meth) (simp_all add: parse_request_token_def starts_with_def)

lemma parse_path_render:
  assumes "m_text m = render_target path qs @ SP # rest" and "ok_path path"
    and "\<forall>q\<in>set qs. ok_param q"
  shows "parse_path m p =
    (Inr (length (render_target path qs) + 1),
     p\<lparr>hp_query := collect qs (hp_query p),
       hp_path := View (m_base m) (m_off m) (length path)\<rparr>)"
proof -
  have "find_char SP (m_text m) = Some (length (render_target path qs))"
    unfolding assms(1) using render_target_text [OF assms(2,3)] by (intro find_char_first) auto
  with assms show ?thesis
    by (simp add: parse_path_def parse_url_render [where path = path and qs = qs])
qed

lemma parse_start_line_render:
  assumes "m_text m = render_line meth path qs v" and "ok_path path" and "\<forall>q\<in>set qs. ok_param q"
  shows "parse_start_line m p =
    (Inr (), p\<lparr>hp_method := meth, hp_query := collect qs (hp_query p),
               hp_path := View (m_base m) (m_off m + length (show_method meth) + 1) (length path),
               hp_version := v\<rparr>)"
proof -
  let ?rest = "render_target path qs @ SP # show_version v"
  have t: "m_text m = show_method meth @ SP # ?rest"
    using assms(1) by (simp add: render_line_def)
  have r: "m_text (remove_prefix (length (show_method meth) + 1) m) = ?rest"
    by (simp add: t)
  show ?thesis
    unfolding parse_start_line_def t parse_request_token_render
    using parse_path_render [OF r assms(2,3)]
    by (simp add: Let_def t parse_version_render add.assoc)
qed

section \<open>The whole request\<close>

lemma render_line_text:
  "ok_path path \<Longrightarrow> \<forall>q\<in>set qs. ok_param q \<Longrightarrow> CR \<notin> set (render_line meth path qs v)"
  using render_target_text [of path qs] show_version_text [of v]
  by (cases meth) (auto simp: render_line_def)

text \<open>The state after the two head blocks.\<close>

definition parsed_head ::
    "nat \<Rightarrow> HttpMethod \<Rightarrow> string \<Rightarrow> (string \<times> string) list \<Rightarrow> HttpVersion \<Rightarrow>
     (string \<times> string) list \<Rightarrow> HttpRequestParser" where
  "parsed_head b meth path qs v hs =
     HttpRequestParser_init\<lparr>
       hp_method := meth, hp_query := collect qs [],
       hp_path := View b (length (show_method meth) + 1) (length path), hp_version := v,
       hp_state := READING_HEADERS, hp_parsed_total := length (render_line meth path qs v) + 2,
       hp_headers := collect hs []\<rparr>"

lemma request_line_block_render:
  assumes "ok_path path" and "\<forall>q\<in>set qs. ok_param q"
  shows "request_line_block (mk_message b (render_line meth path qs v @ CRLF @ rest)) HttpRequestParser_init =
    (Inr (remove_prefix (length (render_line meth path qs v) + 2)
            (mk_message b (render_line meth path qs v @ CRLF @ rest))),
     parsed_head b meth path qs v [])"
proof -
  let ?l = "render_line meth path qs v"
  let ?m = "mk_message b (?l @ CRLF @ rest)"
  have "find_sub CRLF (m_text ?m) = Some (length ?l)"
    using render_line_text [OF assms] by (simp add: find_sub_CRLF_first)
  moreover have "m_text (m_prefix (length ?l) ?m) = ?l" by simp
  note parse_start_line_render [OF this assms]
  ultimately show ?thesis
    by (simp add: request_line_block_def HttpRequestParser_init_def parsed_head_def)
qed

lemma headers_block_render:
  assumes hs: "hs \<noteq> []" "\<forall>h\<in>set hs. ok_header h"
    and m: "m_text m = lines_text (map render_header hs) @ CRLF @ rest"
    and p: "p = parsed_head b meth path qs v []"
  shows "headers_block m p =
    (let q = parsed_head b meth path qs v hs
     in if meth = GET \<or> meth = DELETE then (Inr None, q\<lparr>hp_state := DONE\<rparr>)
        else case ci_find ''Content-Length'' hs of
               None \<Rightarrow> (Inr None, q\<lparr>hp_state := DONE\<rparr>)
             | Some content_length \<Rightarrow>
                 (case stoull content_length of
                    Inl e \<Rightarrow> (Inl (StdNumError e), q)
                  | Inr n \<Rightarrow>
                      (Inr (Some (remove_prefix (length (lines_text (map render_header hs)) + 2) m)),
                       q\<lparr>hp_body_length := n, hp_state := READING_BODY,
                         hp_parsed_total := hp_parsed_total q +
                           (length (lines_text (map render_header hs)) + 2)\<rparr>)))"
proof -
  let ?t = "lines_text (map render_header hs)"
  have "\<forall>l\<in>set (map render_header hs). CR \<notin> set l \<and> l \<noteq> []"
    using hs by (auto simp: render_header_text)
  then have f: "find_sub CRLF2 (m_text m) = Some (length ?t - 2)"
    unfolding m using hs(1) by (intro find_sub_CRLF2_lines) auto
  have two: "2 \<le> length ?t" using hs(1) by (cases hs) auto
  have "parse_headers ?t p = (Inr (), parsed_head b meth path qs v hs)"
    using parse_headers_render [OF hs(2), of p] by (simp add: p parsed_head_def)
  with two m have ph: "parse_headers (substr 0 (length ?t - 2 + 2) (m_text m)) p =
      (Inr (), parsed_head b meth path qs v hs)"
    by (simp add: substr_def)
  have fields: "hp_state p = READING_HEADERS" "hp_method (parsed_head b meth path qs v hs) = meth"
    "hp_headers (parsed_head b meth path qs v hs) = collect hs []"
    by (simp_all add: p parsed_head_def)
  have shift: "length ?t - 2 + 4 = length ?t + 2" using two by simp
  show ?thesis
    unfolding headers_block_def
    by (simp only: f ph shift fields ci_find_collect and_then.simps option.case if_True
        Let_def simp_thms)
qed

lemma parse_render_no_body:
  assumes "ok_path path" and "\<forall>q\<in>set qs. ok_param q" and "hs \<noteq> []" and "\<forall>h\<in>set hs. ok_header h"
    and "meth = GET \<or> meth = DELETE \<or> ci_find ''Content-Length'' hs = None"
  shows "parse (mk_message b (render_head meth path qs v hs @ rest)) HttpRequestParser_init =
    (Inr DONE, (parsed_head b meth path qs v hs)\<lparr>hp_state := DONE\<rparr>)"
proof -
  let ?l = "render_line meth path qs v"
  let ?r = "lines_text (map render_header hs) @ CRLF @ rest"
  have t: "render_head meth path qs v hs @ rest = ?l @ CRLF @ ?r"
    by (simp add: render_head_def)
  have m: "m_text (remove_prefix (length ?l + 2) (mk_message b (?l @ CRLF @ ?r))) = ?r" by simp
  have "parse (mk_message b (?l @ CRLF @ ?r)) HttpRequestParser_init =
    and_then (headers_block (remove_prefix (length ?l + 2) (mk_message b (?l @ CRLF @ ?r)))
                (parsed_head b meth path qs v []))
      (\<lambda>r p. case r of None \<Rightarrow> (Inr (hp_state p), p) | Some m \<Rightarrow> body_block m p)"
    using request_line_block_render [OF assms(1,2), of b meth v ?r]
    by (simp add: parse_def HttpRequestParser_init_def)
  with assms(5) show ?thesis
    unfolding t headers_block_render [OF assms(3,4) m refl]
    by (auto simp: Let_def split: option.splits)
qed

lemma parse_render_body:
  assumes "ok_path path" and "\<forall>q\<in>set qs. ok_param q" and "hs \<noteq> []" and "\<forall>h\<in>set hs. ok_header h"
    and "meth = POST \<or> meth = PUT"
    and "ci_find ''Content-Length'' hs = Some cl" and "stoull cl = Inr n"
  shows "parse (mk_message b (render_head meth path qs v hs @ body)) HttpRequestParser_init =
    (let q = (parsed_head b meth path qs v hs)\<lparr>hp_body_length := n, hp_state := READING_BODY,
               hp_parsed_total := length (render_head meth path qs v hs)\<rparr>
     in if n \<le> length body
        then (Inr DONE, q\<lparr>hp_body := View b (length (render_head meth path qs v hs)) n,
                          hp_state := DONE\<rparr>)
        else (Inr READING_BODY, q))"
proof -
  let ?l = "render_line meth path qs v"
  let ?t = "lines_text (map render_header hs)"
  let ?r = "?t @ CRLF @ body"
  have t: "render_head meth path qs v hs @ body = ?l @ CRLF @ ?r"
    by (simp add: render_head_def)
  have m: "m_text (remove_prefix (length ?l + 2) (mk_message b (?l @ CRLF @ ?r))) = ?r" by simp
  have len: "length (render_head meth path qs v hs) = length ?l + 2 + (length ?t + 2)"
    by (simp add: render_head_def)
  have meth: "meth \<noteq> GET" "meth \<noteq> DELETE" using assms(5) by auto
  have "parse (mk_message b (?l @ CRLF @ ?r)) HttpRequestParser_init =
    and_then (headers_block (remove_prefix (length ?l + 2) (mk_message b (?l @ CRLF @ ?r)))
                (parsed_head b meth path qs v []))
      (\<lambda>r p. case r of None \<Rightarrow> (Inr (hp_state p), p) | Some m \<Rightarrow> body_block m p)"
    using request_line_block_render [OF assms(1,2), of b meth v ?r]
    by (simp add: parse_def HttpRequestParser_init_def)
  with assms(6,7) meth len show ?thesis
    unfolding t headers_block_render [OF assms(3,4) m refl]
    by (auto simp: Let_def body_block_def view_of_def parsed_head_def min_def)
qed

end
