(* ===== verification/Parser_Props.thy ===== *)
theory Parser_Props
  imports Parser_Roundtrip
begin

text \<open>
  The parser's views stay inside the bytes they were cut from, and its properties.
\<close>

section \<open>Views are cut inside the message\<close>

definition view_within :: "message \<Rightarrow> strview \<Rightarrow> bool" where
  "view_within m v \<longleftrightarrow>
     view_base v = m_base m \<and> m_off m \<le> view_off v \<and>
     view_off v + view_len v \<le> m_off m + length (m_text m) \<and> v \<noteq> NullView"

lemma view_within_prefix:
  "view_within (m_prefix n m) v \<Longrightarrow> view_within m v"
  by (auto simp: view_within_def)

lemma view_within_remove_prefix:
  "n \<le> length (m_text m) \<Longrightarrow> view_within (remove_prefix n m) v \<Longrightarrow> view_within m v"
  by (auto simp: view_within_def)

lemma view_of_within: "view_within m (view_of m)"
  by (simp add: view_within_def view_of_def)

lemma parse_query_parameter_frame:
  "parse_query_parameter s p = (r, p') \<Longrightarrow> p' = p\<lparr>hp_query := hp_query p'\<rparr>"
  by (auto simp: parse_query_parameter_def split: option.splits)

lemma parse_query_parameters_frame:
  "parse_query_parameters s p = (r, p') \<Longrightarrow> p' = p\<lparr>hp_query := hp_query p'\<rparr>"
proof (induction s p arbitrary: r p' rule: parse_query_parameters.induct)
  case (1 s p)
  show ?case
  proof (cases "find_char CHR ''&'' s")
    case None
    with 1(2) show ?thesis
      by (auto simp: parse_query_parameters.simps [of s p] dest: parse_query_parameter_frame)
  next
    case (Some n)
    obtain q p1 where h: "parse_query_parameter (take n s) p = (q, p1)" by fastforce
    have "p' = p1 \<or> p' = p1\<lparr>hp_query := hp_query p'\<rparr>"
      using 1(1) [OF Some] 1(2) Some h
      by (cases q) (auto simp: parse_query_parameters.simps [of s p])
    with parse_query_parameter_frame [OF h] show ?thesis
      by (metis HttpRequestParser.surjective HttpRequestParser.update_convs(4))
  qed
qed

lemma parse_url_cases:
  obtains (plain) k where "parse_url m p = set_path (m_prefix k m) p"
  | (query) q where "parse_url m p =
      and_then (parse_query_parameters (drop (q + 1) (m_text m)) p) (\<lambda>_. set_path (m_prefix q m))"
proof (cases "find_char CHR ''?'' (m_text m)")
  case None
  have "m_prefix (length (m_text m)) m = m" by (rule message_eqI) simp_all
  with None plain [of "length (m_text m)"] show thesis
    by (simp add: parse_url_def)
next
  case (Some q)
  with plain [of q] query [of q] show thesis
    by (cases "q + 1 < length (m_text m)") (simp_all add: parse_url_def)
qed

lemma set_path_Inr:
  "set_path m p = (Inr (), p') \<Longrightarrow> p' = p\<lparr>hp_path := view_of m\<rparr>"
  by (auto simp: set_path_def Let_def split: if_splits)

lemma parse_url_Inr:
  assumes "parse_url m p = (Inr (), p')"
  shows "p' = p\<lparr>hp_query := hp_query p', hp_path := hp_path p'\<rparr> \<and> view_within m (hp_path p')"
proof (cases m p rule: parse_url_cases)
  case (plain k)
  with assms set_path_Inr have p': "p' = p\<lparr>hp_path := view_of (m_prefix k m)\<rparr>" by metis
  have "view_within m (view_of (m_prefix k m))" by (rule view_within_prefix, rule view_of_within)
  with p' show ?thesis by simp
next
  case (query q)
  with assms obtain p1 where
    p1: "parse_query_parameters (drop (q + 1) (m_text m)) p = (Inr (), p1)" and
    s: "set_path (m_prefix q m) p1 = (Inr (), p')"
    by (auto simp: and_then_Inr_iff)
  from set_path_Inr [OF s] have p': "p' = p1\<lparr>hp_path := view_of (m_prefix q m)\<rparr>" .
  have "view_within m (view_of (m_prefix q m))" by (rule view_within_prefix, rule view_of_within)
  with p' show ?thesis
    using parse_query_parameters_frame [OF p1]
    by (metis HttpRequestParser.select_convs(4,7) HttpRequestParser.surjective
        HttpRequestParser.update_convs(4,7))
qed

lemma parse_request_token_Inr:
  assumes "parse_request_token s p = (Inr n, p')"
  shows "n \<le> length s \<and> p' = p\<lparr>hp_method := hp_method p'\<rparr>"
  using assms
  by (auto simp: parse_request_token_def split: option.splits if_splits dest!: find_char_SomeD)

lemma parse_version_Inr:
  "parse_version s p = (Inr (), p') \<Longrightarrow> p' = p\<lparr>hp_version := hp_version p'\<rparr>"
  by (auto simp: parse_version_def split: if_splits)

lemma parse_start_line_Inr:
  assumes "parse_start_line m p = (Inr (), p')"
  shows "view_within m (hp_path p') \<and> hp_body p' = hp_body p \<and> hp_headers p' = hp_headers p"
proof -
  from assms obtain n p1 k p2 where
    t: "parse_request_token (m_text m) p = (Inr n, p1)" and
    u: "parse_path (remove_prefix n m) p1 = (Inr k, p2)" and
    v: "parse_version (m_text (remove_prefix k (remove_prefix n m))) p2 = (Inr (), p')"
    by (auto simp: parse_start_line_def and_then_Inr_iff Let_def)
  from u obtain e where
    e: "parse_url (m_prefix e (remove_prefix n m)) p1 = (Inr (), p2)"
    by (auto simp: parse_path_def and_then_Inr_iff split: option.splits)
  have n: "n \<le> length (m_text m)" using parse_request_token_Inr [OF t] by simp
  have "view_within m (hp_path p2)"
    using parse_url_Inr [OF e] n
    by (blast intro: view_within_prefix view_within_remove_prefix)
  moreover have "hp_path p' = hp_path p2" "hp_body p' = hp_body p2" "hp_headers p' = hp_headers p2"
    using parse_version_Inr [OF v] by (metis HttpRequestParser.select_convs
        HttpRequestParser.surjective HttpRequestParser.update_convs(8))+
  moreover have "hp_body p2 = hp_body p1" "hp_headers p2 = hp_headers p1"
    using parse_url_Inr [OF e] by (metis HttpRequestParser.select_convs
        HttpRequestParser.surjective HttpRequestParser.update_convs(4,7))+
  moreover have "hp_body p1 = hp_body p" "hp_headers p1 = hp_headers p"
    using parse_request_token_Inr [OF t] by (metis HttpRequestParser.select_convs
        HttpRequestParser.surjective HttpRequestParser.update_convs(9))+
  ultimately show ?thesis by simp
qed

text \<open>
  Across one call of \<open>parse\<close>: the path view is the old one or was cut from this message (and
  then the request line was read in this call); the body view likewise, at the end.
\<close>

lemma body_block_views:
  assumes "body_block m p = (Inr s, p')"
  shows "hp_path p' = hp_path p \<and>
    (hp_body p' = hp_body p \<or> (s = DONE \<and> view_within m (hp_body p')))"
proof -
  have "view_within m (view_of (m_prefix (hp_body_length p) m))"
    by (rule view_within_prefix, rule view_of_within)
  with assms show ?thesis by (auto simp: body_block_def split: if_splits)
qed

lemma headers_block_views:
  assumes "headers_block m p = (Inr r, p')"
  shows "hp_path p' = hp_path p \<and> hp_body p' = hp_body p \<and>
    (\<forall>m2. r = Some m2 \<longrightarrow> (\<exists>k\<le>length (m_text m). m2 = remove_prefix k m))"
proof (cases "hp_state p = READING_HEADERS \<and> find_sub CRLF2 (m_text m) \<noteq> None")
  case False
  with assms have "(r = None \<and> p' = p) \<or> (r = Some m \<and> p' = p)"
    by (auto simp: headers_block_def split: if_splits option.splits)
  then show ?thesis by (metis le0 remove_prefix_0 option.distinct(1) option.inject)
next
  case True
  then obtain e where e: "find_sub CRLF2 (m_text m) = Some e" by auto
  with assms True obtain q where q: "parse_headers (take (e + 2) (m_text m)) p = (Inr (), q)"
    by (auto simp: headers_block_def and_then_Inr_iff substr_def)
  from assms True e q have "(r = None \<and> p' = q\<lparr>hp_state := DONE\<rparr>) \<or>
      (r = Some (remove_prefix (e + 4) m) \<and> hp_path p' = hp_path q \<and> hp_body p' = hp_body q)"
    by (auto simp: headers_block_def substr_def split: if_splits option.splits sum.splits)
  with parse_headers_keeps [OF q] find_sub_length [OF e] show ?thesis by auto
qed

lemma request_line_block_views:
  assumes "request_line_block m p = (Inr m1, p1)"
  shows "hp_body p1 = hp_body p \<and> (\<exists>k\<le>length (m_text m). m1 = remove_prefix k m) \<and>
    (hp_path p1 = hp_path p \<or> (hp_state p = READING_REQUEST_LINE \<and> view_within m (hp_path p1)))"
  using request_line_block_Inr [OF assms]
proof (elim disjE exE conjE)
  assume "m1 = m" "p1 = p"
  then show ?thesis by (metis le0 remove_prefix_0)
next
  fix i q assume h: "find_sub CRLF (m_text m) = Some i" "parse_start_line (m_prefix i m) p = (Inr (), q)"
    "m1 = remove_prefix (i + 2) m" "p1 = q\<lparr>hp_state := READING_HEADERS, hp_parsed_total := i + 2\<rparr>"
    "hp_state p = READING_REQUEST_LINE"
  with parse_start_line_Inr [OF h(2)] find_sub_length [OF h(1)] show ?thesis
    by (auto intro: view_within_prefix)
qed

lemma parse_views:
  assumes "parse m p = (Inr s, p')" and "hp_parsed_total p \<le> length (m_text m)"
  shows "(hp_path p' = hp_path p \<or> (hp_state p = READING_REQUEST_LINE \<and> view_within m (hp_path p')))
       \<and> (hp_body p' = hp_body p \<or> (s = DONE \<and> view_within m (hp_body p')))"
proof -
  let ?m = "remove_prefix (hp_parsed_total p) m"
  from assms(1) obtain m1 p1 r p2 where
    b1: "request_line_block ?m p = (Inr m1, p1)" and
    b2: "headers_block m1 p1 = (Inr r, p2)" and
    b3: "(case r of None \<Rightarrow> (Inr (hp_state p2), p2) | Some m \<Rightarrow> body_block m p2) = (Inr s, p')"
    by (auto simp: parse_def and_then_Inr_iff)
  note v1 = request_line_block_views [OF b1] and v2 = headers_block_views [OF b2]
  have sub: "view_within m v" if "view_within ?m v" for v
    using that assms(2) by (rule view_within_remove_prefix [rotated])
  show ?thesis
  proof (cases r)
    case None
    with b3 v1 v2 sub show ?thesis by auto
  next
    case (Some m2)
    with b3 have b: "body_block m2 p2 = (Inr s, p')" by simp
    from v1 v2 Some obtain k l where m2: "m2 = remove_prefix l m1" "l \<le> length (m_text m1)"
      "m1 = remove_prefix k ?m" "k \<le> length (m_text ?m)" by blast
    have "view_within m v" if "view_within m2 v" for v
      using that m2 sub by (blast intro: view_within_remove_prefix)
    with body_block_views [OF b] v1 v2 sub show ?thesis by auto
  qed
qed

lemma read_view_within:
  assumes "view_within (mk_message b s) v" and "mem b = Some buf" and "prefix s buf"
  shows "\<exists>t. read_view mem v = Some t"
  using assms prefix_length_le [OF assms(3)]
  by (cases v) (auto simp: view_within_def)

section \<open>Properties\<close>

text \<open>
  C14: Reading back what a client sends. A request printed in the usual form (request line with
  path and query parameters, at least one header, an empty line, then the announced body) is
  recognised in one call of \<open>parse\<close>, whatever follows it in the buffer, and \<open>buildRequest\<close>
  returns exactly its method, path, version, body, and the first value of every header and
  query parameter name.
\<close>

theorem parse_build_roundtrip:
  assumes "ok_path path" and "\<forall>q\<in>set qs. ok_param q" and "hs \<noteq> []" and "\<forall>h\<in>set hs. ok_header h"
    and "(if meth = POST \<or> meth = PUT
          then ci_find ''Content-Length'' hs = Some (to_dec (length body)) else body = [])"
    and "length body < 2 ^ 64"
    and "mem b = Some (render_head meth path qs v hs @ body @ rest)"
  shows "\<exists>p. parse (mk_message b (render_head meth path qs v hs @ body @ rest)) HttpRequestParser_init
             = (Inr DONE, p) \<and>
           buildRequest mem p =
             Inr (mk_HttpRequest (collect hs []) (collect qs []) body path v meth)"
proof -
  let ?h = "render_head meth path qs v hs"
  have path: "read_view mem (View b (length (show_method meth) + 1) (length path)) = Some path"
    using assms(7) by (auto simp: render_head_def render_line_def render_target_def substr_def)
  show ?thesis
  proof (cases "meth = POST \<or> meth = PUT")
    case True
    with assms(5,6) have "stoull (to_dec (length body)) = Inr (length body)"
      "ci_find ''Content-Length'' hs = Some (to_dec (length body))"
      by (simp_all add: stoull_to_dec)
    note parse_render_body [OF assms(1-4) True this(2,1), of b v "body @ rest"]
    moreover have "read_view mem (View b (length ?h) (length body)) = Some body"
      using assms(7) by (simp add: substr_def)
    ultimately show ?thesis
      using path by (auto simp: buildRequest_def parsed_head_def Let_def)
  next
    case False
    then have "meth = GET \<or> meth = DELETE \<or> ci_find ''Content-Length'' hs = None"
      by (cases meth) auto
    from parse_render_no_body [OF assms(1-4) this, of b v "body @ rest"] False assms(5) path
    show ?thesis
      by (simp add: buildRequest_def parsed_head_def HttpRequestParser_init_def)
  qed
qed

theorem parse_build_roundtrip_witness:
  "\<exists>p. parse (mk_message 0 (render_head POST ''/a'' [(''k'', ''v'')] HTTP1_1
             [(''Content-Length'', ''2'')] @ ''xy'' @ ''z'')) HttpRequestParser_init = (Inr DONE, p) \<and>
     buildRequest [0 \<mapsto> render_head POST ''/a'' [(''k'', ''v'')] HTTP1_1
             [(''Content-Length'', ''2'')] @ ''xy'' @ ''z''] p =
       Inr (mk_HttpRequest (collect [(''Content-Length'', ''2'')] []) (collect [(''k'', ''v'')] [])
             ''xy'' ''/a'' HTTP1_1 POST)"
proof (rule parse_build_roundtrip)
  have "to_dec (length ''xy'') = ''2''" by code_simp
  then show "if POST = POST \<or> POST = PUT
      then ci_find ''Content-Length'' [(''Content-Length'', ''2'')] = Some (to_dec (length ''xy''))
      else ''xy'' = []"
    by (simp add: dict_find_def ci.eq_refl)
qed (simp_all add: ok_path_def ok_param_def ok_header_def)

text \<open>
  C16: The way the bytes arrive does not matter. Feeding the parser the growing prefixes of a
  request, chunk by chunk, ends in exactly the state, result or exception that one call on
  all the bytes gives a fresh parser, as long as no earlier prefix was already complete or
  malformed.
\<close>

theorem parse_chunking:
  assumes "cs \<noteq> []"
    and "\<And>k. k < length cs - 1 \<Longrightarrow>
      \<exists>s q. parse (mk_message b (concat (take (Suc k) cs))) HttpRequestParser_init = (Inr s, q) \<and> s \<noteq> DONE"
  shows "parse_chunks b [] cs HttpRequestParser_init =
    parse (mk_message b (concat cs)) HttpRequestParser_init"
  using parse_chunks_resume [OF parser_inv_init, of cs b "[]"] assms by simp

theorem parse_chunking_witness:
  "parse_chunks 0 [] [''GET /a HT'', ''TP/1.1'' @ CRLF @ ''A: b'' @ CRLF2] HttpRequestParser_init =
   parse (mk_message 0 (concat [''GET /a HT'', ''TP/1.1'' @ CRLF @ ''A: b'' @ CRLF2])) HttpRequestParser_init"
proof (rule parse_chunking)
  fix k assume "k < length [''GET /a HT'', ''TP/1.1'' @ CRLF @ ''A: b'' @ CRLF2] - 1"
  then have "k = 0" by simp
  have "parse (mk_message 0 ''GET /a HT'') HttpRequestParser_init =
      (Inr READING_REQUEST_LINE, HttpRequestParser_init)"
    by code_simp
  then show "\<exists>s q. parse (mk_message 0 (concat (take (Suc k)
      [''GET /a HT'', ''TP/1.1'' @ CRLF @ ''A: b'' @ CRLF2]))) HttpRequestParser_init = (Inr s, q) \<and> s \<noteq> DONE"
    unfolding \<open>k = 0\<close> by simp
qed simp

text \<open>
  A header line is cut at its first colon; one blank after the colon is skipped and
  everything behind it is the value. In particular trailing blanks stay in the value: the
  bound \<^verbatim>\<open>header_end\<close>, computed to drop a trailing blank, is passed to \<^verbatim>\<open>substr\<close> as a
  length, where it never cuts anything.
\<close>

theorem parse_header_value:
  assumes "CHR '':'' \<notin> set k"
  shows "parse_header (k @ CHR '':'' # w) p =
    (Inr (), p\<lparr>hp_headers :=
       ci_insert (k, if w \<noteq> [] \<and> hd w = SP then tl w else w) (hp_headers p)\<rparr>)"
proof -
  have f: "find_char CHR '':'' (k @ CHR '':'' # w) = Some (length k)"
    using assms by (rule find_char_first)
  have key: "substr 0 (length k) (k @ CHR '':'' # w) = k" by (simp add: substr_def)
  show ?thesis
  proof (cases w)
    case Nil
    with f key show ?thesis by (simp add: parse_header_alt header_at_def substr_def)
  next
    case (Cons c w')
    have "header_at (k @ CHR '':'' # w) (length k + 1) = c"
      by (simp add: header_at_def Cons nth_append)
    with f key show ?thesis
      by (simp add: parse_header_alt Let_def substr_def Cons)
  qed
qed

theorem parse_header_value_witness:
  "parse_header (''Host'' @ CHR '':'' # '' a '') HttpRequestParser_init =
    (Inr (), HttpRequestParser_init\<lparr>hp_headers :=
       ci_insert (''Host'', if '' a '' \<noteq> [] \<and> hd '' a '' = SP then tl '' a '' else '' a '')
         (hp_headers HttpRequestParser_init)\<rparr>)"
  by (rule parse_header_value) simp

text \<open>
  A request without any header line is never recognised. Once its request line is read,
  the parser searches the rest for a double CRLF, but the first CRLF of the empty line
  that should end the head has been consumed with the request line: the parser waits for
  headers for as long as no double CRLF follows.
\<close>

theorem headerless_request_not_done:
  assumes "ok_path path" and "\<forall>q\<in>set qs. ok_param q" and "find_sub CRLF2 (CRLF @ rest) = None"
  shows "\<exists>p. parse (mk_message b (render_head meth path qs v [] @ rest)) HttpRequestParser_init =
    (Inr READING_HEADERS, p)"
proof -
  have "render_head meth path qs v [] @ rest = render_line meth path qs v @ CRLF @ (CRLF @ rest)"
    by (simp add: render_head_def)
  with request_line_block_render [OF assms(1,2), of b meth v "CRLF @ rest"] assms(3) show ?thesis
    by (simp add: parse_def HttpRequestParser_init_def headers_block_def parsed_head_def)
qed

theorem headerless_request_not_done_witness:
  "\<exists>p. parse (mk_message 0 (render_head GET ''/'' [] HTTP1_1 [] @ [NUL])) HttpRequestParser_init =
    (Inr READING_HEADERS, p)"
  by (rule headerless_request_not_done) (simp_all add: ok_path_def CRLF_def CRLF2_def)

section \<open>Types of the parser's views\<close>

text \<open>
  A view is well typed for an allocation of at least \<open>n\<close> bytes if it is null or lies inside them; a
  parser is, if its views are and, unless it is done, what it counts as consumed is there.
\<close>

definition typed_view :: "nat \<Rightarrow> nat \<Rightarrow> strview \<Rightarrow> bool" where
  "typed_view b n v \<longleftrightarrow> (case v of NullView \<Rightarrow> True | View c off len \<Rightarrow> c = b \<and> off + len \<le> n)"

definition parser_typed :: "nat \<Rightarrow> nat \<Rightarrow> HttpRequestParser \<Rightarrow> bool" where
  "parser_typed b n p \<longleftrightarrow>
     (hp_state p = DONE \<or> parser_inv n p) \<and> typed_view b n (hp_path p) \<and> typed_view b n (hp_body p)"

lemma typed_view_mono: "typed_view b n v \<Longrightarrow> n \<le> n' \<Longrightarrow> typed_view b n' v"
  by (cases v) (auto simp: typed_view_def)

lemma parser_typed_mono: "parser_typed b n p \<Longrightarrow> n \<le> n' \<Longrightarrow> parser_typed b n' p"
  by (auto simp: parser_typed_def intro: typed_view_mono parser_inv_mono)

lemma within_typed: "view_within (mk_message b s) v \<Longrightarrow> typed_view b (length s) v"
  by (cases v) (auto simp: view_within_def typed_view_def)

lemma typed_view_reads:
  "typed_view b n v \<Longrightarrow> mem b = Some buf \<Longrightarrow> n \<le> length buf \<Longrightarrow> read_view mem v \<noteq> None"
  by (cases v) (auto simp: typed_view_def)

lemma typed_build: 
  assumes "parser_typed b n p" and "n \<le> length buf"
  shows "buildRequest [b \<mapsto> buf] p \<noteq> Inl Undefined"
proof -
  have "read_view [b \<mapsto> buf] (hp_path p) \<noteq> None" "read_view [b \<mapsto> buf] (hp_body p) \<noteq> None"
    using assms typed_view_reads [of b n] by (simp_all add: parser_typed_def)
  then show ?thesis by (auto simp: buildRequest_def)
qed

lemma body_block_state: "body_block m p = (Inr s, p') \<Longrightarrow> hp_state p' = s"
  by (auto simp: body_block_def split: if_splits)

lemma parse_state: "parse m p = (Inr s, p') \<Longrightarrow> hp_state p' = s"
  by (auto simp: parse_def and_then_Inr_iff split: option.splits dest: body_block_state)

text \<open>A call keeps the types; a finished parser is not called again.\<close>

lemma parse_typed:
  assumes "parse (mk_message b s) p = (Inr st, p')" and "parser_typed b (length s) p" and "hp_state p \<noteq> DONE"
  shows "parser_typed b (length s) p'"
proof -
  have inv: "parser_inv (length (m_text (mk_message b s))) p" using assms(2,3) by (simp add: parser_typed_def)
  then have "hp_parsed_total p \<le> length (m_text (mk_message b s))" by (simp add: parser_inv_def)
  from parse_views [OF assms(1) this] assms(2)
  have "typed_view b (length s) (hp_path p')" "typed_view b (length s) (hp_body p')"
    by (auto simp: parser_typed_def intro: within_typed)
  moreover have "hp_state p' = DONE \<or> parser_inv (length s) p'"
    using parse_inv_kept [OF assms(1) _ inv] parse_state [OF assms(1)] by auto
  ultimately show ?thesis by (simp add: parser_typed_def)
qed

lemma parse_chunks_typed:
  "parse_chunks b seen cs p = (Inr st, p') \<Longrightarrow> parser_typed b (length seen) p \<Longrightarrow> hp_state p \<noteq> DONE \<Longrightarrow>
     parser_typed b (length (seen @ concat cs)) p'"
proof (induction b seen cs p rule: parse_chunks.induct)
  case (1 b seen p)
  then show ?case by simp
next
  case (2 b seen c cs p)
  from 2(2) obtain s q where q: "parse (mk_message b (seen @ c)) p = (Inr s, q)"
    and rest: "(if s = DONE \<or> cs = [] then (Inr s, q) else parse_chunks b (seen @ c) cs q) = (Inr st, p')"
    by (auto simp: and_then_Inr_iff)
  have "parser_typed b (length (seen @ c)) p" using 2(3) by (rule parser_typed_mono) simp
  from parse_typed [OF q this 2(4)] have tq: "parser_typed b (length (seen @ c)) q" .
  show ?case
  proof (cases "s = DONE \<or> cs = []")
    case True
    with rest tq show ?thesis by (auto intro: parser_typed_mono)
  next
    case False
    with 2(1) [OF q False] rest tq parse_state [OF q] show ?thesis
      by (simp add: add.assoc)
  qed
qed

text \<open>
  C15: The parser's views are well typed, and well-typed parsers do not go wrong. A fresh parser is well
  typed for every buffer; feeding it the bytes of one buffer as they arrive, in any pieces and whatever
  they are, leads to a well-typed parser again, in which every view is null or inside the bytes seen
  so far; and building the request from such a parser never reads outside the buffer, as long as the
  buffer has not been moved.
\<close>

theorem parser_views_typed:
  assumes "parse_chunks b seen cs p = (Inr st, p')" and "parser_typed b (length seen) p" and "hp_state p \<noteq> DONE"
    and "prefix (seen @ concat cs) buf"
  shows "parser_typed b n HttpRequestParser_init \<and> parser_typed b (length (seen @ concat cs)) p' \<and>
    buildRequest [b \<mapsto> buf] p' \<noteq> Inl Undefined"
proof (intro conjI)
  show "parser_typed b n HttpRequestParser_init"
    using parser_inv_init [of n] by (simp add: parser_typed_def typed_view_def HttpRequestParser_init_def)
  show t: "parser_typed b (length (seen @ concat cs)) p'" by (rule parse_chunks_typed [OF assms(1-3)])
  show "buildRequest [b \<mapsto> buf] p' \<noteq> Inl Undefined"
    by (rule typed_build [OF t prefix_length_le [OF assms(4)]])
qed

theorem parser_views_typed_witness:
  "parser_typed 0 (length (concat [''GET /a HT'', ''TP/1.1'' @ CRLF, ''A: b'' @ CRLF2]))
     (snd (parse_chunks 0 [] [''GET /a HT'', ''TP/1.1'' @ CRLF, ''A: b'' @ CRLF2] HttpRequestParser_init)) \<and>
   buildRequest [0 \<mapsto> ''GET /a HTTP/1.1'' @ CRLF @ ''A: b'' @ CRLF2 @ ''rest'']
     (snd (parse_chunks 0 [] [''GET /a HT'', ''TP/1.1'' @ CRLF, ''A: b'' @ CRLF2] HttpRequestParser_init)) \<noteq> Inl Undefined"
proof -
  let ?cs = "[''GET /a HT'', ''TP/1.1'' @ CRLF, ''A: b'' @ CRLF2]"
  have "fst (parse_chunks 0 [] ?cs HttpRequestParser_init) = Inr DONE" by code_simp
  then have p: "parse_chunks 0 [] ?cs HttpRequestParser_init =
      (Inr DONE, snd (parse_chunks 0 [] ?cs HttpRequestParser_init))" by (simp add: prod_eq_iff)
  have i: "parser_typed 0 (length ([] :: string)) HttpRequestParser_init"
    by (simp add: parser_typed_def parser_inv_def typed_view_def HttpRequestParser_init_def)
  have d: "hp_state HttpRequestParser_init \<noteq> DONE" by (simp add: HttpRequestParser_init_def)
  have b: "prefix ([] @ concat ?cs) (''GET /a HTTP/1.1'' @ CRLF @ ''A: b'' @ CRLF2 @ ''rest'')"
    by (simp add: CRLF_def CRLF2_def)
  from parser_views_typed [OF p i d b, where n = 0] show ?thesis unfolding append_Nil by (elim conjE) (rule conjI)
qed

end
