(* ===== verification/Parser_Errors.thy ===== *)
theory Parser_Errors
  imports Parser_Props
begin

text \<open>
  What a malformed request raises, exactly: a definition of the first fault of a text, by splitting
  it at its separators and without a parser, and the proof that \<open>parse\<close> throws for that fault and
  for nothing else.
\<close>

section \<open>Splitting a text\<close>

definition before :: "char \<Rightarrow> string \<Rightarrow> string" where
  "before c s = takeWhile (\<lambda>x. x \<noteq> c) s"

definition behind :: "char \<Rightarrow> string \<Rightarrow> string" where
  "behind c s = drop (Suc (length (before c s))) s"

fun pieces :: "char \<Rightarrow> string \<Rightarrow> string list" where
  "pieces c [] = [[]]"
| "pieces c (x # s) = (if x = c then [] # pieces c s else (x # hd (pieces c s)) # tl (pieces c s))"

fun lines_of :: "string \<Rightarrow> string list" where
  "lines_of [] = []"
| "lines_of [x] = [[x]]"
| "lines_of (x # y # s) =
     (if x = CR \<and> y = LF then [] # lines_of s
      else (case lines_of (y # s) of [] \<Rightarrow> [[x]] | l # ls \<Rightarrow> (x # l) # ls))"

lemma find_char_Some:
  assumes "find_char c s = Some i"
  shows "c \<in> set s" "before c s = take i s" "behind c s = drop (Suc i) s"
proof -
  obtain a b where s: "s = a @ c # b" "length a = i" "c \<notin> set a" using assms by (rule find_char_split)
  from s(3) have "takeWhile (\<lambda>x. x \<noteq> c) (a @ c # b) = a" by (induction a) auto
  then have "before c s = a" unfolding before_def s(1) .
  with s show "c \<in> set s" "before c s = take i s" "behind c s = drop (Suc i) s"
    by (simp_all add: behind_def)
qed

lemma find_char_absent:
  assumes "find_char c s = None"
  shows "c \<notin> set s" "before c s = s" "behind c s = []"
proof -
  show c: "c \<notin> set s" using assms by (simp add: find_char_None)
  then show "before c s = s" by (auto simp: before_def takeWhile_eq_all_conv)
  then show "behind c s = []" by (simp add: behind_def)
qed

lemma pieces_neq_Nil [simp]: "pieces c s \<noteq> []"
  by (cases s) simp_all

lemma pieces_find: "find_char c s = Some i \<Longrightarrow> pieces c s = take i s # pieces c (drop (Suc i) s)"
  by (induction s arbitrary: i) (auto split: if_splits)

lemma pieces_absent: "c \<notin> set s \<Longrightarrow> pieces c s = [s]"
  by (induction s) auto

lemma lines_of_find:
  "find_sub CRLF s = Some i \<Longrightarrow> lines_of s = take i s # lines_of (drop (i + 2) s)"
proof (induction s arbitrary: i rule: lines_of.induct)
  case (3 x y s)
  then show ?case by (cases "x = CR \<and> y = LF") (auto simp: CRLF_def)
qed (auto simp: CRLF_def)

section \<open>The first fault of a text\<close>

definition method_of :: "string \<Rightarrow> HttpMethod option" where
  "method_of line = find (\<lambda>m. prefix (show_method m) line) [GET, POST, PUT, DELETE]"

definition line_fault :: "string \<Rightarrow> http_exn option" where
  "line_fault line =
     (let rest = behind SP line; target = before SP rest; query = behind CHR ''?'' target
      in if SP \<notin> set line then Some (bad_request ''expected single space after request token'')
         else if method_of line = None then Some (bad_request ''invalid request token'')
         else if SP \<notin> set rest then Some (bad_request ''expected space after resource target'')
         else if query \<noteq> [] \<and> (\<exists>q\<in>set (pieces CHR ''&'' query). CHR ''='' \<notin> set q) then
           Some (bad_request ''invalid query parameter'')
         else if before CHR ''?'' target = [] then Some (bad_request ''invalid resource target'')
         else if behind SP rest \<notin> {''HTTP/1.1'', ''HTTP/1.0''} then
           Some (ParsingException ''unsupported HTTP version'' HTTP_VERSION_NOT_SUPPORTED)
         else None)"

definition header_of :: "string \<Rightarrow> string \<times> string" where
  "header_of line =
     (let w = behind CHR '':'' line
      in (before CHR '':'' line, if w \<noteq> [] \<and> hd w = SP then tl w else w))"

definition headers_fault :: "HttpMethod \<Rightarrow> string list \<Rightarrow> http_exn option" where
  "headers_fault meth ls =
     (if \<exists>l\<in>set ls. CHR '':'' \<notin> set l then Some (bad_request ''invalid header'')
      else if meth = GET \<or> meth = DELETE then None
      else (case ci_find ''Content-Length'' (map header_of ls) of
              None \<Rightarrow> None
            | Some v \<Rightarrow> (case stoull v of Inl e \<Rightarrow> Some (StdNumError e) | Inr n \<Rightarrow> None)))"

text \<open>A text without a whole first line, or without an empty line behind it, has only the faults before.\<close>

definition request_fault :: "string \<Rightarrow> http_exn option" where
  "request_fault s =
     (case find_sub CRLF s of
        None \<Rightarrow> None
      | Some i \<Rightarrow>
          (case line_fault (take i s) of
             Some e \<Rightarrow> Some e
           | None \<Rightarrow>
               (case find_sub CRLF2 (drop (i + 2) s) of
                  None \<Rightarrow> None
                | Some k \<Rightarrow>
                    headers_fault (the (method_of (take i s))) (lines_of (take (k + 2) (drop (i + 2) s))))))"

section \<open>What the parser throws\<close>

definition thrown :: "'a parse_result \<Rightarrow> http_exn option" where
  "thrown x = (case fst x of Inl e \<Rightarrow> Some e | Inr a \<Rightarrow> None)"

lemma thrown_simps [simp]:
  "thrown (Inl e, p) = Some e" "thrown (Inr a, p) = None"
  by (simp_all add: thrown_def)

lemma thrown_and_then:
  "thrown (and_then x f) = (case fst x of Inl e \<Rightarrow> Some e | Inr a \<Rightarrow> thrown (f a (snd x)))"
  by (cases x; cases "fst x") auto

lemma thrown_None: "thrown x = None \<longleftrightarrow> (\<exists>a p. x = (Inr a, p))"
  by (cases x; cases "fst x") auto

lemma thrown_Some: "thrown x = Some e \<longleftrightarrow> (\<exists>p. x = (Inl e, p))"
  by (cases x; cases "fst x") auto

lemma thrown_query_parameter:
  "thrown (parse_query_parameter q p) =
     (if CHR ''='' \<in> set q then None else Some (bad_request ''invalid query parameter''))"
  by (auto simp: parse_query_parameter_def find_char_None dest: find_char_Some(1) split: option.splits)

lemma thrown_query_parameters:
  "thrown (parse_query_parameters s p) =
     (if \<exists>q\<in>set (pieces CHR ''&'' s). CHR ''='' \<notin> set q then Some (bad_request ''invalid query parameter'')
      else None)"
proof (induction s p rule: parse_query_parameters.induct)
  case (1 s p)
  show ?case
  proof (cases "find_char CHR ''&'' s")
    case None
    then show ?thesis
      by (simp add: parse_query_parameters.simps [of s p] thrown_query_parameter
          pieces_absent [OF find_char_absent(1) [OF None]])
  next
    case (Some i)
    obtain r p1 where r: "parse_query_parameter (take i s) p = (r, p1)" by fastforce
    show ?thesis
      using 1 [OF Some] thrown_query_parameter [of "take i s" p] r Some
      by (cases r) (simp_all add: parse_query_parameters.simps [of s p] thrown_and_then pieces_find split: if_splits)
  qed
qed


lemma thrown_set_path:
  "thrown (set_path m p) = (if m_text m = [] then Some (bad_request ''invalid resource target'') else None)"
  by (simp add: set_path_def Let_def)

lemma thrown_url:
  "thrown (parse_url m p) =
     (if behind CHR ''?'' (m_text m) \<noteq> [] \<and>
         (\<exists>q\<in>set (pieces CHR ''&'' (behind CHR ''?'' (m_text m))). CHR ''='' \<notin> set q) then
        Some (bad_request ''invalid query parameter'')
      else if before CHR ''?'' (m_text m) = [] then Some (bad_request ''invalid resource target'')
      else None)"
proof (cases "find_char CHR ''?'' (m_text m)")
  case None
  with find_char_absent [OF None] show ?thesis by (simp add: parse_url_def thrown_set_path)
next
  case (Some i)
  note f = find_char_Some(2,3) [OF Some]
  show ?thesis
  proof (cases "i + 1 < length (m_text m)")
    case True
    obtain r p1 where r: "parse_query_parameters (drop (Suc i) (m_text m)) p = (r, p1)" by fastforce
    show ?thesis
      using True Some f r thrown_query_parameters [of "drop (Suc i) (m_text m)" p]
      by (cases r) (auto simp: parse_url_def thrown_and_then thrown_set_path split: if_splits)
  next
    case False
    with Some f show ?thesis by (simp add: parse_url_def thrown_set_path)
  qed
qed

lemma parse_path_fault:
  "thrown (parse_path m p) =
     (if SP \<notin> set (m_text m) then Some (bad_request ''expected space after resource target'')
      else thrown (parse_url (m_prefix (length (before SP (m_text m))) m) p))"
  "parse_path m p = (Inr k, p') \<Longrightarrow> drop k (m_text m) = behind SP (m_text m)"
proof -
  have find: "SP \<in> set (m_text m)" "before SP (m_text m) = take i (m_text m)"
      "behind SP (m_text m) = drop (Suc i) (m_text m)" "i < length (m_text m)"
    if "find_char SP (m_text m) = Some i" for i
    using find_char_Some [OF that] find_char_SomeD [OF that] by simp_all
  show "thrown (parse_path m p) =
     (if SP \<notin> set (m_text m) then Some (bad_request ''expected space after resource target'')
      else thrown (parse_url (m_prefix (length (before SP (m_text m))) m) p))"
  proof (cases "find_char SP (m_text m)")
    case None
    with find_char_absent(1) [OF None] show ?thesis by (simp add: parse_path_def)
  next
    case (Some i)
    have "thrown (parse_path m p) = thrown (parse_url (m_prefix i m) p)"
      using Some by (cases "parse_url (m_prefix i m) p"; cases "fst (parse_url (m_prefix i m) p)")
        (simp_all add: parse_path_def)
    with find [OF Some] show ?thesis by simp
  qed
  show "parse_path m p = (Inr k, p') \<Longrightarrow> drop k (m_text m) = behind SP (m_text m)"
    using find(3) by (auto simp: parse_path_def and_then_Inr_iff split: option.splits)
qed

lemma parse_request_token_fault:
  "thrown (parse_request_token s p) =
     (if SP \<notin> set s then Some (bad_request ''expected single space after request token'')
      else if method_of s = None then Some (bad_request ''invalid request token'')
      else None)"
  "parse_request_token s p = (Inr k, p') \<Longrightarrow>
     drop k s = behind SP s \<and> p' = p\<lparr>hp_method := the (method_of s)\<rparr>"
proof -
  have disjoint: "\<not> (prefix ''DELETE'' s \<and> prefix ''PUT'' s)" by (cases s) auto
  have find: "drop (Suc i) s = behind SP s" "SP \<in> set s" if "find_char SP s = Some i" for i
    using find_char_Some [OF that] by simp_all
  show "thrown (parse_request_token s p) =
     (if SP \<notin> set s then Some (bad_request ''expected single space after request token'')
      else if method_of s = None then Some (bad_request ''invalid request token'')
      else None)"
    using find(2) find_char_absent(1) [of SP s]
    by (auto simp: parse_request_token_def method_of_def starts_with_def split: option.splits)
  show "parse_request_token s p = (Inr k, p') \<Longrightarrow>
     drop k s = behind SP s \<and> p' = p\<lparr>hp_method := the (method_of s)\<rparr>"
    using find(1) disjoint
    by (auto simp: parse_request_token_def method_of_def starts_with_def split: option.splits if_splits)
qed

lemma thrown_version:
  "thrown (parse_version s p) =
     (if s \<in> {''HTTP/1.1'', ''HTTP/1.0''} then None
      else Some (ParsingException ''unsupported HTTP version'' HTTP_VERSION_NOT_SUPPORTED))"
  by (simp add: parse_version_def)

lemma thrown_start_line: "thrown (parse_start_line m p) = line_fault (m_text m)"
proof -
  obtain r p1 where r: "parse_request_token (m_text m) p = (r, p1)" by fastforce
  note tok = parse_request_token_fault(1) [of "m_text m" p, unfolded r]
  show ?thesis
  proof (cases r)
    case (Inl e)
    with tok r show ?thesis by (auto simp: parse_start_line_def line_fault_def split: if_splits)
  next
    case (Inr k)
    let ?m = "remove_prefix k m"
    have rest: "m_text ?m = behind SP (m_text m)" using parse_request_token_fault(2) r Inr by simp
    have tok': "SP \<in> set (m_text m)" "method_of (m_text m) \<noteq> None" using tok Inr by (auto split: if_splits)
    obtain q p2 where q: "parse_path ?m p1 = (q, p2)" by fastforce
    have "take (length (before SP t)) t = before SP t" for t by (simp add: before_def takeWhile_eq_take [symmetric])
    then have target: "m_text (m_prefix (length (before SP (m_text ?m))) ?m) = before SP (behind SP (m_text m))"
      unfolding message_simps(4) rest by blast
    note path = parse_path_fault(1) [of ?m p1, unfolded q thrown_url target, unfolded rest]
    show ?thesis
    proof (cases q)
      case (Inl e)
      with path tok' show ?thesis
        by (auto simp: parse_start_line_def line_fault_def r Inr q Let_def split: if_splits)
    next
      case (Inr j)
      have "m_text (remove_prefix j ?m) = behind SP (behind SP (m_text m))"
        using parse_path_fault(2) [of ?m p1 j p2] q Inr unfolding message_simps(1) [of j] rest by simp
      then have "thrown (parse_start_line m p) = thrown (parse_version (behind SP (behind SP (m_text m))) p2)"
        by (simp add: parse_start_line_def r \<open>r = Inr k\<close> q Inr Let_def)
      with path tok' Inr show ?thesis
        by (auto simp: line_fault_def Let_def thrown_version split: if_splits)
    qed
  qed
qed


section \<open>Headers\<close>

lemma parse_header_line:
  "parse_header l p =
     (if CHR '':'' \<in> set l then (Inr (), p\<lparr>hp_headers := ci_insert (header_of l) (hp_headers p)\<rparr>)
      else (Inl (bad_request ''invalid header''), p))"
proof (cases "find_char CHR '':'' l")
  case None
  with find_char_absent(1) [OF None] show ?thesis by (simp add: parse_header_alt)
next
  case (Some i)
  then obtain k w where l: "l = k @ CHR '':'' # w" "CHR '':'' \<notin> set k" by (rule find_char_split)
  have "before CHR '':'' l = k" "behind CHR '':'' l = w"
    using find_char_Some(2,3) [OF find_char_first [OF l(2), of w]] l(1) by simp_all
  with parse_header_value [OF l(2), of w p] l(1) show ?thesis by (simp add: header_of_def Let_def)
qed

lemma find_CRLF_of_suffix:
  assumes "suffix CRLF s"
  obtains i where "find_sub CRLF s = Some i" "drop (i + 2) s = [] \<or> suffix CRLF (drop (i + 2) s)"
proof -
  obtain t where s: "s = t @ CRLF" using assms by (auto simp: suffix_def)
  have "find_sub CRLF s \<noteq> None"
    unfolding find_sub_None s by (auto intro!: exI [of _ "length t"])
  then obtain i where i: "find_sub CRLF s = Some i" by auto
  note D = find_sub_SomeD [OF i]
  have "i \<le> length t"
    using D by (metis append_eq_conv_conj linorder_not_less prefix_order.refl s)
  moreover have "i + 1 \<noteq> length t"
  proof
    assume "i + 1 = length t"
    then have "drop i s = [t ! i, CR, LF]" by (simp add: s CRLF_def drop_Cons' flip: Cons_nth_drop_Suc)
    with D show False by (simp add: CRLF_def)
  qed
  ultimately have "i = length t \<or> i + 2 \<le> length t" by linarith
  with i show thesis by (intro that) (auto simp: s suffix_def)
qed

lemma parse_headers_lines:
  "s = [] \<or> suffix CRLF s \<Longrightarrow>
     (if \<exists>l\<in>set (lines_of s). CHR '':'' \<notin> set l
      then thrown (parse_headers s p) = Some (bad_request ''invalid header'')
      else parse_headers s p =
        (Inr (), p\<lparr>hp_headers := collect (map header_of (lines_of s)) (hp_headers p)\<rparr>))"
proof (induction s arbitrary: p rule: length_induct)
  case (1 s)
  show ?case
  proof (cases "s = []")
    case True
    then show ?thesis by (simp add: parse_headers.simps)
  next
    case False
    with 1(2) obtain i where i: "find_sub CRLF s = Some i"
      "drop (i + 2) s = [] \<or> suffix CRLF (drop (i + 2) s)"
      using find_CRLF_of_suffix by blast
    have "length (drop (i + 2) s) < length s" using False by (cases s) auto
    note ih = 1(1) [rule_format, OF this i(2)]
    have "parse_headers s p = and_then (parse_header (take i s) p) (\<lambda>_. parse_headers (drop (i + 2) s))"
      using False i(1) by (simp add: parse_headers.simps [of s p])
    moreover note ls = lines_of_find [OF i(1)]
    ultimately show ?thesis
    proof (cases "CHR '':'' \<in> set (take i s)")
      case True
      let ?p = "p\<lparr>hp_headers := ci_insert (header_of (take i s)) (hp_headers p)\<rparr>"
      from True \<open>parse_headers s p = _\<close>
      have "parse_headers s p = parse_headers (drop (i + 2) s) ?p" by (simp add: parse_header_line)
      with True ih [of ?p] show ?thesis unfolding ls by (simp del: add_2_eq_Suc')
    qed (simp add: ls parse_header_line)
  qed
qed

section \<open>The whole request\<close>

lemma parse_start_line_method:
  assumes "parse_start_line m p = (Inr u, p')"
  shows "hp_method p' = the (method_of (m_text m))"
proof -
  obtain k p1 j p2 where "parse_request_token (m_text m) p = (Inr k, p1)"
    and u: "parse_path (remove_prefix k m) p1 = (Inr j, p2)"
    and v: "parse_version (m_text (remove_prefix j (remove_prefix k m))) p2 = (Inr u, p')"
    using assms by (auto simp: parse_start_line_def and_then_Inr_iff Let_def)
  then have "hp_method p1 = the (method_of (m_text m))" using parse_request_token_fault(2) by fastforce
  moreover obtain m' where "parse_url m' p1 = (Inr (), p2)"
    using u by (auto simp: parse_path_def and_then_Inr_iff split: option.splits)
  then have "hp_method p2 = hp_method p1" using parse_url_Inr by (metis HttpRequestParser.select_convs(9)
      HttpRequestParser.surjective HttpRequestParser.update_convs(4,7))
  moreover have "hp_method p' = hp_method p2" using v by (auto simp: parse_version_def split: if_splits)
  ultimately show ?thesis by simp
qed

lemma thrown_headers_block:
  assumes "hp_state p = READING_HEADERS" and "hp_headers p = []"
  shows "thrown (headers_block m p) =
    (case find_sub CRLF2 (m_text m) of None \<Rightarrow> None
     | Some k \<Rightarrow> headers_fault (hp_method p) (lines_of (take (k + 2) (m_text m))))"
proof (cases "find_sub CRLF2 (m_text m)")
  case None
  with assms show ?thesis by (simp add: headers_block_def)
next
  case (Some k)
  let ?s = "take (k + 2) (m_text m)"
  have "prefix CRLF2 (drop k (m_text m))" using find_sub_SomeD [OF Some] by simp
  then obtain t where "drop k (m_text m) = CRLF @ CRLF @ t" by (auto simp: CRLF2_append prefix_def)
  then have "?s = take k (m_text m) @ CRLF" unfolding take_add by (simp add: CRLF_def)
  then have "suffix CRLF ?s" by (auto simp: suffix_def)
  then have "?s = [] \<or> suffix CRLF ?s" by blast
  note ls = parse_headers_lines [OF this, of p]
  show ?thesis
  proof (cases "\<exists>l\<in>set (lines_of ?s). CHR '':'' \<notin> set l")
    case True
    with ls obtain p' where "parse_headers ?s p = (Inl (bad_request ''invalid header''), p')"
      by (auto simp: thrown_Some)
    with True Some assms show ?thesis by (simp add: headers_block_def substr_def headers_fault_def)
  next
    case False
    with ls have "parse_headers ?s p = (Inr (), p\<lparr>hp_headers := collect (map header_of (lines_of ?s)) []\<rparr>)"
      using assms(2) by simp
    with False Some assms show ?thesis
      by (auto simp: headers_block_def substr_def headers_fault_def split: option.splits sum.splits)
  qed
qed

lemma thrown_parse: "thrown (parse (mk_message b s) HttpRequestParser_init) = request_fault s"
proof -
  have init: "hp_parsed_total HttpRequestParser_init = 0" "hp_state HttpRequestParser_init = READING_REQUEST_LINE"
    by (simp_all add: HttpRequestParser_init_def)
  have nothing: "remove_prefix 0 (mk_message b s) = mk_message b s" by (simp add: remove_prefix_def)
  show ?thesis
  proof (cases "find_sub CRLF s")
    case None
    then show ?thesis using init nothing
      by (simp add: request_fault_def parse_def request_line_block_def headers_block_def body_block_def)
  next
    case (Some i)
    let ?m = "mk_message b s"
    obtain r p1 where r: "parse_start_line (m_prefix i ?m) HttpRequestParser_init = (r, p1)" by fastforce
    note line = thrown_start_line [of "m_prefix i ?m" HttpRequestParser_init, unfolded r]
    show ?thesis
    proof (cases r)
      case (Inl e)
      with line have "line_fault (take i s) = Some e" by simp
      with r Inl Some init nothing show ?thesis
        by (simp add: parse_def request_line_block_def request_fault_def)
    next
      case (Inr u)
      let ?p = "p1\<lparr>hp_state := READING_HEADERS, hp_parsed_total := i + 2\<rparr>" and ?r = "remove_prefix (i + 2) ?m"
      obtain q p2 where q: "headers_block ?r ?p = (q, p2)" by fastforce
      have "hp_headers p1 = []" using parse_start_line_Inr r Inr by (force simp: HttpRequestParser_init_def)
      moreover have "hp_method p1 = the (method_of (take i s))"
        using parse_start_line_method r Inr by fastforce
      ultimately have "thrown (q, p2) = (case find_sub CRLF2 (drop (i + 2) s) of None \<Rightarrow> None
          | Some k \<Rightarrow> headers_fault (the (method_of (take i s))) (lines_of (take (k + 2) (drop (i + 2) s))))"
        using thrown_headers_block [of ?p ?r] q by (simp cong: option.case_cong)
      moreover have "thrown (parse ?m HttpRequestParser_init) = thrown (q, p2)"
        using r Inr Some init nothing q
        by (cases q) (auto simp: parse_def request_line_block_def body_block_def split: option.splits)
      ultimately show ?thesis using line Inr Some by (simp add: request_fault_def)
    qed
  qed
qed

lemma request_fault_examples:
  "request_fault (''GET /a HTTP/2'' @ CRLF) =
     Some (ParsingException ''unsupported HTTP version'' HTTP_VERSION_NOT_SUPPORTED)"
  "request_fault (''GET /a?k HTTP/1.1'' @ CRLF) = Some (bad_request ''invalid query parameter'')"
  "request_fault (''POST /a HTTP/1.1'' @ CRLF @ ''Host'' @ CRLF2) = Some (bad_request ''invalid header'')"
  by code_simp+

text \<open>
  C17: A fresh parser raises exactly the first fault of a request. Given all bytes of a request it throws if
  and only if the text has a fault, and then for the first one: status 400 for a request line
  without two blanks or with an unknown method, for a query parameter without \<open>=\<close>, for an empty path
  and for a header without a colon; status 505 for another version than 1.0 and 1.1; and the number
  error of \<^verbatim>\<open>std::stoull\<close>, without an HTTP status, for a bad length of a body.
\<close>

theorem parse_errors:
  "(case fst (parse (mk_message b s) HttpRequestParser_init) of Inl e \<Rightarrow> Some e | Inr st \<Rightarrow> None) =
    request_fault s"
  using thrown_parse by (simp add: thrown_def)

end
