(* ===== verification/Events.thy ===== *)
theory Events
  imports Prelude
begin

unbundle bit_operations_syntax

text \<open>
  The epoll interest set of \<^verbatim>\<open>include/tcp/events.hpp\<close> and \<^verbatim>\<open>lib/tcp/events.cpp\<close>: a 32-bit
  mask and its operations, the abstract set of events the mask stands for, and the
  interface \<open>interest_set\<close> (add, sub, contains) that the connection code is written
  against, with \<open>EventsSet\<close> as its implementation. The enumerators' values are the Linux
  ABI's \<^verbatim>\<open>EPOLL*\<close> constants.
\<close>

section \<open>The enumeration\<close>

datatype Events = IN | OUT | ERR | PRI | HUP | RDHUP | EXCLUSIVE | EDGE | ONESHOT

fun event_bit :: "Events \<Rightarrow> u32" where
  "event_bit IN = 1"
| "event_bit OUT = 4"
| "event_bit ERR = 8"
| "event_bit PRI = 2"
| "event_bit HUP = 16"
| "event_bit RDHUP = 8192"
| "event_bit EXCLUSIVE = 268435456"
| "event_bit EDGE = 2147483648"
| "event_bit ONESHOT = 1073741824"

fun event_pos :: "Events \<Rightarrow> nat" where
  "event_pos IN = 0"
| "event_pos OUT = 2"
| "event_pos ERR = 3"
| "event_pos PRI = 1"
| "event_pos HUP = 4"
| "event_pos RDHUP = 13"
| "event_pos EXCLUSIVE = 28"
| "event_pos EDGE = 31"
| "event_pos ONESHOT = 30"

lemma event_pos_less: "event_pos e < 32"
  by (cases e) simp_all

lemma event_pos_inject [simp]: "event_pos e = event_pos f \<longleftrightarrow> e = f"
  by (cases e; cases f) simp_all

lemma event_bit_pow: "event_bit e = 2 ^ event_pos e"
  by (cases e) simp_all

lemma bit_event_bit: "bit (event_bit e) n \<longleftrightarrow> n = event_pos e"
  using event_pos_less [of e] by (auto simp: event_bit_pow bit_simps)

section \<open>The set\<close>

record EventsSet =
  es_events :: u32

definition EventsSet_default :: EventsSet where
  "EventsSet_default = \<lparr>es_events = 0\<rparr>"

definition EventsSet_of_mask :: "u32 \<Rightarrow> EventsSet" where
  "EventsSet_of_mask m = \<lparr>es_events = m\<rparr>"

fun EventsSet_of :: "Events list \<Rightarrow> EventsSet" where
  "EventsSet_of es = \<lparr>es_events = foldl (\<lambda>m e. m OR event_bit e) 0 es\<rparr>"

definition ev_sub :: "Events \<Rightarrow> EventsSet \<Rightarrow> EventsSet" where
  "ev_sub e s = s\<lparr>es_events := es_events s AND NOT (event_bit e)\<rparr>"

definition ev_add :: "Events \<Rightarrow> EventsSet \<Rightarrow> EventsSet" where
  "ev_add e s = s\<lparr>es_events := es_events s OR event_bit e\<rparr>"

definition ev_diff :: "EventsSet \<Rightarrow> EventsSet \<Rightarrow> EventsSet" where
  "ev_diff s other = EventsSet_of_mask (es_events other XOR es_events s)"

definition ev_data :: "EventsSet \<Rightarrow> u32" where
  "ev_data s = es_events s"

definition ev_empty :: "EventsSet \<Rightarrow> bool" where
  "ev_empty s \<longleftrightarrow> es_events s = 0"

definition haveIntersection :: "EventsSet \<Rightarrow> EventsSet \<Rightarrow> bool" where
  "haveIntersection s other \<longleftrightarrow> (es_events s AND es_events other) \<noteq> 0"

definition contains :: "EventsSet \<Rightarrow> Events \<Rightarrow> bool" where
  "contains s e \<longleftrightarrow> (es_events s AND event_bit e) \<noteq> 0"

definition ev_eq :: "EventsSet \<Rightarrow> EventsSet \<Rightarrow> bool" where
  "ev_eq l r \<longleftrightarrow> es_events l = es_events r"

definition ev_neq :: "EventsSet \<Rightarrow> EventsSet \<Rightarrow> bool" where
  "ev_neq l r \<longleftrightarrow> \<not> ev_eq l r"

lemma EventsSet_eq_iff: "l = r \<longleftrightarrow> es_events l = es_events (r :: EventsSet)"
  by (cases l; cases r) simp

lemma ev_eq_iff [simp]: "ev_eq l r \<longleftrightarrow> l = r"
  by (simp add: ev_eq_def EventsSet_eq_iff)

lemma ev_neq_iff [simp]: "ev_neq l r \<longleftrightarrow> l \<noteq> r"
  by (simp add: ev_neq_def)

lemma word_neq_0_iff_bit: "w \<noteq> 0 \<longleftrightarrow> (\<exists>n. bit (w :: u32) n)"
proof
  assume "w \<noteq> 0"
  then show "\<exists>n. bit w n" using bit_word_eqI [of w 0] by auto
next
  assume "\<exists>n. bit w n"
  then show "w \<noteq> 0" by auto
qed

lemma word_and_neq_0_iff: "a AND b \<noteq> 0 \<longleftrightarrow> (\<exists>n. bit (a :: u32) n \<and> bit b n)"
  by (subst word_neq_0_iff_bit) (rule ex_cong1, rule bit_and_iff)

lemma contains_bit: "contains s e \<longleftrightarrow> bit (es_events s) (event_pos e)"
proof
  assume "contains s e"
  then obtain n where "bit (es_events s AND event_bit e) n"
    by (auto simp: contains_def bit_eq_iff)
  then show "bit (es_events s) (event_pos e)"
    by (auto simp: bit_and_iff bit_event_bit)
next
  assume "bit (es_events s) (event_pos e)"
  then have "bit (es_events s AND event_bit e) (event_pos e)"
    by (simp add: bit_and_iff bit_event_bit)
  then show "contains s e" by (auto simp: contains_def)
qed

lemma contains_add [simp]: "contains (ev_add e s) f \<longleftrightarrow> f = e \<or> contains s f"
  by (auto simp: contains_bit ev_add_def bit_or_iff bit_event_bit)

lemma contains_sub [simp]: "contains (ev_sub e s) f \<longleftrightarrow> f \<noteq> e \<and> contains s f"
  using event_pos_less [of f]
  by (auto simp: contains_bit ev_sub_def bit_and_iff bit_not_iff bit_event_bit)

lemma contains_default [simp]: "\<not> contains EventsSet_default e"
  by (simp add: contains_bit EventsSet_default_def)

lemma bit_foldl_or:
  "bit (foldl (\<lambda>m e. m OR event_bit e) m es) n \<longleftrightarrow> bit m n \<or> (\<exists>e\<in>set es. n = event_pos e)"
  by (induction es arbitrary: m) (auto simp: bit_or_iff bit_event_bit)

lemma contains_of [simp]: "contains (EventsSet_of es) e \<longleftrightarrow> e \<in> set es"
  by (auto simp: contains_bit bit_foldl_or)

lemma haveIntersection_of:
  "haveIntersection s (EventsSet_of es) \<longleftrightarrow> (\<exists>e\<in>set es. contains s e)"
proof -
  have "haveIntersection s (EventsSet_of es) \<longleftrightarrow>
      (\<exists>n. bit (es_events s) n \<and> bit (es_events (EventsSet_of es)) n)"
    unfolding haveIntersection_def by (rule word_and_neq_0_iff)
  then show ?thesis by (auto simp: bit_foldl_or contains_bit)
qed

lemma ev_diff_empty_iff: "ev_empty (ev_diff s t) \<longleftrightarrow> s = t"
  by (auto simp: ev_empty_def ev_diff_def EventsSet_of_mask_def EventsSet_eq_iff bit_eq_iff bit_xor_iff)

section \<open>The interface the connection code uses\<close>

text \<open>
  A client switches a connection between waiting for input and waiting for room to write:
  it removes one direction and adds the other. All it needs to know of the set is how
  membership changes.
\<close>

locale interest_set =
  fixes member :: "'s \<Rightarrow> Events \<Rightarrow> bool"
    and add :: "Events \<Rightarrow> 's \<Rightarrow> 's"
    and sub :: "Events \<Rightarrow> 's \<Rightarrow> 's"
  assumes member_add: "member (add e s) f \<longleftrightarrow> f = e \<or> member s f"
    and member_sub: "member (sub e s) f \<longleftrightarrow> f \<noteq> e \<and> member s f"
begin

lemma switch_to: "e \<noteq> d \<Longrightarrow> member (add e (sub d s)) f \<longleftrightarrow> f = e \<or> (f \<noteq> d \<and> member s f)"
  by (auto simp: member_add member_sub)

lemma switch_back:
  "member s d \<Longrightarrow> \<not> member s e \<Longrightarrow> e \<noteq> d \<Longrightarrow>
     member (add d (sub e (add e (sub d s)))) f \<longleftrightarrow> member s f"
  by (auto simp: member_add member_sub)

end

interpretation evs: interest_set contains ev_add ev_sub
  by unfold_locales simp_all

section \<open>Concrete masks\<close>

definition only_IN :: EventsSet where
  "only_IN = EventsSet_of [IN]"

definition only_OUT :: EventsSet where
  "only_OUT = EventsSet_of [OUT]"

lemma to_write_mask: "ev_add OUT (ev_sub IN only_IN) = only_OUT"
  by (simp add: only_IN_def only_OUT_def ev_add_def ev_sub_def)

lemma to_read_mask: "ev_add IN (ev_sub OUT only_OUT) = only_IN"
  by (simp add: only_IN_def only_OUT_def ev_add_def ev_sub_def)

lemma only_IN_neq_OUT: "only_IN \<noteq> only_OUT"
  by (simp add: only_IN_def only_OUT_def)

end
