(* ===== verification/Posix_IO.thy ===== *)
theory Posix_IO
  imports Cpp_String
begin

text \<open>
  The descriptors the program reads from and writes to, seen from one process. What the
  peer and the kernel will do is a script: \<^verbatim>\<open>read\<close> takes the next piece of input or fails with
  the next error, \<^verbatim>\<open>write\<close> takes as many bytes as the next grant of room. An exhausted script
  means "not now": \<^verbatim>\<open>EAGAIN\<close>, which is what a non-blocking descriptor reports. An empty piece of
  input is the end of the stream and is never used up.
\<close>

section \<open>Error numbers\<close>

datatype errno =
  ESUCCESS | EAGAIN | EINTR | ECONNRESET | ECONNABORTED | EPERM | EMFILE | EBADF | EPIPE | ENOENT |
  EINVAL | ENOTCONN

fun strerror :: "errno \<Rightarrow> string" where
  "strerror ESUCCESS = ''Success''"
| "strerror EAGAIN = ''Resource temporarily unavailable''"
| "strerror EINTR = ''Interrupted system call''"
| "strerror ECONNRESET = ''Connection reset by peer''"
| "strerror ECONNABORTED = ''Software caused connection abort''"
| "strerror EPERM = ''Operation not permitted''"
| "strerror EMFILE = ''Too many open files''"
| "strerror EBADF = ''Bad file descriptor''"
| "strerror EPIPE = ''Broken pipe''"
| "strerror ENOENT = ''No such file or directory''"
| "strerror EINVAL = ''Invalid argument''"
| "strerror ENOTCONN = ''Transport endpoint is not connected''"

section \<open>Scripted descriptors\<close>

datatype rd_item = RBytes string | RError errno

datatype wr_item = WRoom nat | WError errno

record io =
  io_in :: "rd_item list"
  io_out :: "wr_item list"
  io_sent :: string
  io_errno :: errno

definition io_init :: "rd_item list \<Rightarrow> wr_item list \<Rightarrow> io" where
  "io_init i out = \<lparr>io_in = i, io_out = out, io_sent = [], io_errno = ESUCCESS\<rparr>"

text \<open>\<open>Inl\<close> is \<^verbatim>\<open>-1\<close> with its \<^verbatim>\<open>errno\<close>, \<open>Inr\<close> the bytes read; \<open>Inr []\<close> is the value 0.\<close>

definition sys_read :: "nat \<Rightarrow> io \<Rightarrow> (errno + string) \<times> io" where
  "sys_read n s =
     (case io_in s of
        [] \<Rightarrow> (Inl EAGAIN, s\<lparr>io_errno := EAGAIN\<rparr>)
      | RError e # rest \<Rightarrow> (Inl e, s\<lparr>io_in := rest, io_errno := e\<rparr>)
      | RBytes bs # rest \<Rightarrow>
          if bs = [] then (Inr [], s)
          else if n < length bs then (Inr (take n bs), s\<lparr>io_in := RBytes (drop n bs) # rest\<rparr>)
          else (Inr bs, s\<lparr>io_in := rest\<rparr>))"

definition sys_write :: "string \<Rightarrow> io \<Rightarrow> (errno + nat) \<times> io" where
  "sys_write bs s =
     (case io_out s of
        [] \<Rightarrow> (Inl EAGAIN, s\<lparr>io_errno := EAGAIN\<rparr>)
      | WError e # rest \<Rightarrow> (Inl e, s\<lparr>io_out := rest, io_errno := e\<rparr>)
      | WRoom k # rest \<Rightarrow>
          (Inr (min k (length bs)), s\<lparr>io_out := rest, io_sent := io_sent s @ take k bs\<rparr>))"

text \<open>Every successful read with room for a byte shortens the script.\<close>

fun item_weight :: "rd_item \<Rightarrow> nat" where
  "item_weight (RBytes bs) = length bs"
| "item_weight (RError e) = 1"

definition in_weight :: "io \<Rightarrow> nat" where
  "in_weight s = sum_list (map (\<lambda>i. item_weight i + 1) (io_in s))"

lemma sys_read_weight:
  assumes "sys_read n s = (Inr bs, s')" and "0 < n" and "bs \<noteq> []"
  shows "in_weight s' < in_weight s"
  using assms by (auto simp: sys_read_def in_weight_def split: list.splits rd_item.splits if_splits)

lemma sys_read_weight_le:
  assumes "sys_read n s = (r, s')"
  shows "in_weight s' \<le> in_weight s"
  using assms by (auto simp: sys_read_def in_weight_def split: list.splits rd_item.splits if_splits)

lemma sys_read_length: "sys_read n s = (Inr bs, s') \<Longrightarrow> length bs \<le> n"
  by (auto simp: sys_read_def split: list.splits rd_item.splits if_splits)

lemma sys_read_frame [io_simps]:
  "sys_read n s = (r, s') \<Longrightarrow> io_out s' = io_out s"
  "sys_read n s = (r, s') \<Longrightarrow> io_sent s' = io_sent s"
  by (auto simp: sys_read_def split: list.splits rd_item.splits if_splits)

lemma sys_write_shrinks:
  "sys_write bs s = (Inr n, s') \<Longrightarrow> length (io_out s') < length (io_out s)"
  by (auto simp: sys_write_def split: list.splits wr_item.splits)

lemma sys_write_frame [io_simps]: "sys_write bs s = (r, s') \<Longrightarrow> io_in s' = io_in s"
  by (auto simp: sys_write_def split: list.splits wr_item.splits)

lemma sys_write_sent [io_simps]:
  "sys_write bs s = (Inr n, s') \<Longrightarrow> io_sent s' = io_sent s @ take n bs \<and> n \<le> length bs"
  "sys_write bs s = (Inl e, s') \<Longrightarrow> io_sent s' = io_sent s"
  by (auto simp: sys_write_def min_def split: list.splits wr_item.splits if_splits)

lemma sys_write_errno: "sys_write bs s = (Inl e, s') \<Longrightarrow> io_errno s' = e"
  by (auto simp: sys_write_def split: list.splits wr_item.splits)

text \<open>What a script still has to deliver before its first error or its end.\<close>

fun pending :: "rd_item list \<Rightarrow> string" where
  "pending (RBytes bs # rest) = (if bs = [] then [] else bs @ pending rest)"
| "pending _ = []"

lemma sys_read_pending:
  "sys_read n s = (Inr bs, s') \<Longrightarrow> 0 < n \<Longrightarrow> pending (io_in s) = bs @ pending (io_in s')"
  by (auto simp: sys_read_def split: list.splits rd_item.splits if_splits)

lemma sys_read_fail: "sys_read n s = (Inl e, s') \<Longrightarrow> pending (io_in s) = []"
  by (auto simp: sys_read_def split: list.splits rd_item.splits if_splits)

end
