(* ===== verification/Coroutine.thy ===== *)
theory Coroutine
  imports Prelude
begin

text \<open>
  \<^verbatim>\<open>include/coroutine/coroutine.h\<close> and \<^verbatim>\<open>lib/coroutine/coroutine.cpp\<close>: the thread's
  \<open>ordinator\<close>, a table of routines with a queue of finished slots. What a routine executes
  between two switches is the parameter \<open>run\<close>: from a continuation and the caller's state it
  yields a new continuation, returns, or throws. The body of a routine does not itself call
  \<open>create\<close> or \<open>resume\<close> (nested routines are not supported by the code either: \<open>resume\<close>
  overwrites the one \<^verbatim>\<open>ctx\<close> and \<open>current\<close>).

  The interface \<open>coroutine_pool\<close> states what a client may rely on; the table implements it.
\<close>

section \<open>State\<close>

type_synonym routine_t = nat

datatype 'k coro_ctx = Fresh | Suspended 'k

datatype ('k, 'e) body_result = Yields 'k | Returns | Throws 'e

record ('k, 'e) Routine =
  rt_func :: "'k option"
  rt_finished :: bool
  rt_ctx :: "'k coro_ctx"
  rt_exception :: "'e option"

record ('k, 'e) Ordinator =
  or_routines :: "('k, 'e) Routine list"
  or_finished :: "routine_t list"
  or_current :: routine_t

definition Ordinator_init :: "('k, 'e) Ordinator" where
  "Ordinator_init = \<lparr>or_routines = [], or_finished = [], or_current = 0\<rparr>"

definition Routine_new :: "'k option \<Rightarrow> ('k, 'e) Routine" where
  "Routine_new f = \<lparr>rt_func = f, rt_finished = False, rt_ctx = Fresh, rt_exception = None\<rparr>"

definition Routine_reset :: "'k option \<Rightarrow> ('k, 'e) Routine \<Rightarrow> ('k, 'e) Routine" where
  "Routine_reset f r = r\<lparr>rt_func := f, rt_finished := False, rt_exception := None, rt_ctx := Fresh\<rparr>"

abbreviation routine :: "('k, 'e) Ordinator \<Rightarrow> routine_t \<Rightarrow> ('k, 'e) Routine" where
  "routine d rid \<equiv> or_routines d ! (rid - 1)"

definition update_routine ::
    "routine_t \<Rightarrow> (('k, 'e) Routine \<Rightarrow> ('k, 'e) Routine) \<Rightarrow> ('k, 'e) Ordinator \<Rightarrow> ('k, 'e) Ordinator" where
  "update_routine rid f d = d\<lparr>or_routines := (or_routines d)[rid - 1 := f (routine d rid)]\<rparr>"

section \<open>Operations\<close>

definition create :: "'k option \<Rightarrow> ('k, 'e) Ordinator \<Rightarrow> routine_t \<times> ('k, 'e) Ordinator" where
  "create f d =
     (case or_finished d of
        [] \<Rightarrow>
          let d = d\<lparr>or_routines := or_routines d @ [Routine_new f]\<rparr>
          in (length (or_routines d), d)
      | rid # rest \<Rightarrow> (rid, update_routine rid (Routine_reset f) (d\<lparr>or_finished := rest\<rparr>)))"

text \<open>\<^verbatim>\<open>yield()\<close>, seen from the table: the running routine is suspended at \<open>k\<close>.\<close>

definition yield :: "'k \<Rightarrow> ('k, 'e) Ordinator \<Rightarrow> ('k, 'e) Ordinator" where
  "yield k d =
     (let rid = or_current d
      in update_routine rid (\<lambda>r. r\<lparr>rt_ctx := Suspended k\<rparr>) (d\<lparr>or_current := 0\<rparr>))"

text \<open>The end of \<^verbatim>\<open>entry()\<close>: the function has returned or thrown.\<close>

definition entry_end :: "'e option \<Rightarrow> ('k, 'e) Ordinator \<Rightarrow> ('k, 'e) Ordinator" where
  "entry_end exc d =
     (let rid = or_current d;
          d = (case exc of None \<Rightarrow> d | Some e \<Rightarrow> update_routine rid (\<lambda>r. r\<lparr>rt_exception := Some e\<rparr>) d);
          d = update_routine rid (\<lambda>r. r\<lparr>rt_finished := True\<rparr>) d
      in d\<lparr>or_current := 0, or_finished := or_finished d @ [rid]\<rparr>)"

definition continuation :: "('k, 'e) Routine \<Rightarrow> 'k option" where
  "continuation r = (case rt_ctx r of Fresh \<Rightarrow> rt_func r | Suspended k \<Rightarrow> Some k)"

text \<open>
  What happens between the two halves of \<^verbatim>\<open>swapcontext\<close> in \<open>resume\<close>: the routine starts in
  \<^verbatim>\<open>entry()\<close> or goes on behind its last \<^verbatim>\<open>yield()\<close>. An empty \<^verbatim>\<open>std::function\<close> ends at once.
\<close>

definition switch_to ::
    "('k \<Rightarrow> 's \<Rightarrow> ('k, 'e) body_result \<times> 's) \<Rightarrow> ('k, 'e) Ordinator \<Rightarrow> 's \<Rightarrow> ('k, 'e) Ordinator \<times> 's" where
  "switch_to run d s =
     (case continuation (routine d (or_current d)) of
        None \<Rightarrow> (entry_end None d, s)
      | Some k \<Rightarrow>
          (case run k s of
             (Yields k', s') \<Rightarrow> (yield k' d, s')
           | (Returns, s') \<Rightarrow> (entry_end None d, s')
           | (Throws e, s') \<Rightarrow> (entry_end (Some e) d, s')))"

text \<open>\<open>switched\<close> tells whether \<^verbatim>\<open>swapcontext\<close> succeeds.\<close>

definition resume ::
    "('k \<Rightarrow> 's \<Rightarrow> ('k, 'e) body_result \<times> 's) \<Rightarrow> bool \<Rightarrow> routine_t \<Rightarrow>
     ('k, 'e) Ordinator \<Rightarrow> 's \<Rightarrow> ('e + bool) \<times> ('k, 'e) Ordinator \<times> 's" where
  "resume run switched rid d s =
     (if rid = 0 \<or> length (or_routines d) < rid then (Inr False, d, s)
      else if rt_finished (routine d rid) then (Inr False, d, s)
      else
        let d = d\<lparr>or_current := rid\<rparr>
        in if \<not> switched then (Inr False, d\<lparr>or_current := 0\<rparr>, s)
           else
             let (d, s) = switch_to run d s
             in case rt_exception (routine d rid) of
                  Some e \<Rightarrow> (Inl e, d, s)
                | None \<Rightarrow> (Inr (\<not> rt_finished (routine d rid)), d, s))"

definition current :: "('k, 'e) Ordinator \<Rightarrow> routine_t" where
  "current d = or_current d"

section \<open>Invariant and abstraction\<close>

definition live :: "('k, 'e) Ordinator \<Rightarrow> routine_t \<Rightarrow> bool" where
  "live d rid \<longleftrightarrow> 0 < rid \<and> rid \<le> length (or_routines d) \<and> \<not> rt_finished (routine d rid)"

definition cont :: "('k, 'e) Ordinator \<Rightarrow> routine_t \<Rightarrow> 'k option" where
  "cont d rid = continuation (routine d rid)"

text \<open>
  Between calls nothing is running, the queue holds every finished slot exactly once, and an
  unfinished slot carries no exception.
\<close>

definition coro_inv :: "('k, 'e) Ordinator \<Rightarrow> bool" where
  "coro_inv d \<longleftrightarrow>
     or_current d = 0 \<and> distinct (or_finished d) \<and>
     (\<forall>rid. rid \<in> set (or_finished d) \<longleftrightarrow>
        0 < rid \<and> rid \<le> length (or_routines d) \<and> rt_finished (routine d rid)) \<and>
     (\<forall>rid. live d rid \<longrightarrow> rt_exception (routine d rid) = None)"

lemma coro_inv_init [inv_intros]: "coro_inv Ordinator_init"
  by (auto simp: coro_inv_def Ordinator_init_def live_def)

lemma update_routine_simps [simp]:
  "length (or_routines (update_routine rid f d)) = length (or_routines d)"
  "or_finished (update_routine rid f d) = or_finished d"
  "or_current (update_routine rid f d) = or_current d"
  by (simp_all add: update_routine_def)

lemma routine_update:
  "0 < rid \<Longrightarrow> rid \<le> length (or_routines d) \<Longrightarrow> 0 < j \<Longrightarrow>
     routine (update_routine rid f d) j = (if j = rid then f (routine d rid) else routine d j)"
  by (auto simp: update_routine_def nth_list_update)

lemma create_laws:
  assumes inv: "coro_inv d" and "create f d = (rid, d')"
  shows "coro_inv d'" and "\<not> live d rid" and "0 < rid"
    and "live d' j \<longleftrightarrow> j = rid \<or> live d j"
    and "cont d' rid = f" and "live d j \<Longrightarrow> cont d' j = cont d j"
    and "length (or_routines d') =
      (if or_finished d = [] then length (or_routines d) + 1 else length (or_routines d))"
proof -
  have "coro_inv d' \<and> \<not> live d rid \<and> 0 < rid \<and> (\<forall>j. live d' j \<longleftrightarrow> j = rid \<or> live d j) \<and>
      cont d' rid = f \<and> (\<forall>j. live d j \<longrightarrow> cont d' j = cont d j) \<and>
      length (or_routines d') =
        (if or_finished d = [] then length (or_routines d) + 1 else length (or_routines d))"
  proof (cases "or_finished d")
    case Nil
    with assms(2) have d': "d' = d\<lparr>or_routines := or_routines d @ [Routine_new f]\<rparr>"
      "rid = length (or_routines d) + 1"
      by (auto simp: create_def Let_def)
    have old: "routine d' j = routine d j" if "0 < j" "j \<le> length (or_routines d)" for j
      using that by (auto simp: d' nth_append)
    have new: "routine d' rid = Routine_new f" by (simp add: d')
    have live': "live d' j \<longleftrightarrow> j = rid \<or> live d j" for j
      using old [of j] new by (auto simp: live_def d' Routine_new_def le_Suc_eq)
    show ?thesis
      using inv Nil live' old new
      by (auto simp: coro_inv_def d' live_def cont_def continuation_def Routine_new_def le_Suc_eq)
  next
    case (Cons i rest)
    with assms(2) have d': "d' = update_routine rid (Routine_reset f) (d\<lparr>or_finished := rest\<rparr>)"
      "rid = i" by (auto simp: create_def)
    have i: "0 < rid" "rid \<le> length (or_routines d)" "rt_finished (routine d rid)" "rid \<notin> set rest"
      "distinct rest"
      using inv Cons d'(2) by (auto simp: coro_inv_def)
    have r: "routine d' j = (if j = rid then Routine_reset f (routine d rid) else routine d j)"
      if "0 < j" for j
      unfolding d'(1) using that i by (subst routine_update) auto
    have len: "length (or_routines d') = length (or_routines d)" by (simp add: d'(1))
    have live': "live d' j \<longleftrightarrow> j = rid \<or> live d j" for j
      using r [of j] i len by (auto simp: live_def Routine_reset_def split: if_splits)
    have q: "k \<in> set rest \<longleftrightarrow> 0 < k \<and> k \<le> length (or_routines d) \<and> rt_finished (routine d k) \<and> k \<noteq> rid" for k
      using inv Cons d'(2) i by (auto simp: coro_inv_def)
    have fin: "or_finished d' = rest" "or_current d' = or_current d" by (simp_all add: d'(1))
    have "coro_inv d'"
      unfolding coro_inv_def
    proof (intro conjI allI impI)
      fix k
      show "k \<in> set (or_finished d') \<longleftrightarrow>
          0 < k \<and> k \<le> length (or_routines d') \<and> rt_finished (routine d' k)"
        using q [of k] r [of k] i len fin by (auto simp: Routine_reset_def split: if_splits)
      show "rt_exception (routine d' k) = None" if "live d' k"
        using that live' [of k] r [of k] inv i
        by (auto simp: coro_inv_def live_def Routine_reset_def)
    qed (use inv fin i in \<open>auto simp: coro_inv_def\<close>)
    moreover have "cont d' j = cont d j" if "live d j" for j
    proof -
      have "0 < j" "j \<noteq> rid" using that i by (auto simp: live_def)
      then show ?thesis by (simp only: cont_def r if_False)
    qed
    moreover have "cont d' rid = f"
      using r [of rid] i by (simp add: cont_def continuation_def Routine_reset_def)
    ultimately show ?thesis using live' len i Cons by (auto simp: live_def)
  qed
  then show "coro_inv d'" "\<not> live d rid" "0 < rid" "live d' j \<longleftrightarrow> j = rid \<or> live d j"
    "cont d' rid = f" "live d j \<Longrightarrow> cont d' j = cont d j"
    "length (or_routines d') =
      (if or_finished d = [] then length (or_routines d) + 1 else length (or_routines d))"
    by blast+
qed

section \<open>What \<open>resume\<close> does\<close>

text \<open>\<open>pool_step d rid d'\<close>: the table may have changed at \<open>rid\<close> only.\<close>

definition only_changes :: "('k, 'e) Ordinator \<Rightarrow> routine_t \<Rightarrow> ('k, 'e) Ordinator \<Rightarrow> bool" where
  "only_changes d rid d' \<longleftrightarrow>
     length (or_routines d') = length (or_routines d) \<and>
     (\<forall>j. j \<noteq> rid \<longrightarrow> live d' j = live d j \<and> (live d j \<longrightarrow> cont d' j = cont d j))"

lemma only_changes_refl [simp]: "only_changes d rid d"
  by (simp add: only_changes_def)

lemma only_changesD:
  assumes "only_changes d rid d'" and "j \<noteq> rid"
  shows "live d' j = live d j" and "live d j \<Longrightarrow> cont d' j = cont d j"
  using assms by (auto simp: only_changes_def)

lemma yield_running:
  assumes inv: "coro_inv d" and l: "live d rid"
    and d'_def: "d' = yield k (d\<lparr>or_current := rid\<rparr>)"
  shows "coro_inv d'" and "only_changes d rid d'" and "live d' rid" and "cont d' rid = Some k"
    and "rt_exception (routine d' rid) = None" and "\<not> rt_finished (routine d' rid)"
proof -
  have r: "routine d' j = (if j = rid then (routine d rid)\<lparr>rt_ctx := Suspended k\<rparr> else routine d j)"
    if "0 < j" for j
    unfolding d'_def yield_def Let_def update_routine_def using that l
    by (auto simp: live_def nth_list_update)
  have len: "length (or_routines d') = length (or_routines d)" "or_finished d' = or_finished d"
    "or_current d' = 0"
    by (simp_all add: d'_def yield_def Let_def)
  have lv: "live d' j = live d j" for j
    using r [of j] len l by (auto simp: live_def split: if_splits)
  have q: "j \<in> set (or_finished d) \<longleftrightarrow>
      0 < j \<and> j \<le> length (or_routines d) \<and> rt_finished (routine d j)" for j
    using inv by (simp add: coro_inv_def)
  have e: "live d j \<Longrightarrow> rt_exception (routine d j) = None" for j
    using inv by (simp add: coro_inv_def)
  have rid: "0 < rid" using l by (simp add: live_def)
  show "live d' rid" using lv l by simp
  show "cont d' rid = Some k" using r [OF rid] by (simp add: cont_def continuation_def)
  show ex: "rt_exception (routine d' rid) = None" using r [OF rid] e [OF l] by simp
  show "\<not> rt_finished (routine d' rid)" using r [OF rid] l by (simp add: live_def)
  show "only_changes d rid d'"
    unfolding only_changes_def using len lv r by (auto simp: cont_def live_def)
  show "coro_inv d'"
    unfolding coro_inv_def
  proof (intro conjI allI impI)
    fix j
    show "j \<in> set (or_finished d') \<longleftrightarrow>
        0 < j \<and> j \<le> length (or_routines d') \<and> rt_finished (routine d' j)"
      using q [of j] r [of j] len l by (auto simp: live_def split: if_splits)
    show "rt_exception (routine d' j) = None" if "live d' j"
      using that lv [of j] e [of j] r [of j] ex by (auto simp: live_def split: if_splits)
  qed (use len inv in \<open>simp_all add: coro_inv_def\<close>)
qed

lemma entry_end_running:
  assumes inv: "coro_inv d" and l: "live d rid"
    and d'_def: "d' = entry_end exc (d\<lparr>or_current := rid\<rparr>)"
  shows "coro_inv d'" and "only_changes d rid d'" and "\<not> live d' rid"
    and "rt_exception (routine d' rid) = exc" and "rt_finished (routine d' rid)"
    and "or_finished d' = or_finished d @ [rid]"
proof -
  have rid: "0 < rid" "rid \<le> length (or_routines d)" using l by (simp_all add: live_def)
  have e: "live d j \<Longrightarrow> rt_exception (routine d j) = None" for j
    using inv by (simp add: coro_inv_def)
  have r: "routine d' j =
      (if j = rid then (routine d rid)\<lparr>rt_finished := True, rt_exception := exc\<rparr> else routine d j)"
    if "0 < j" for j
    unfolding d'_def entry_end_def Let_def update_routine_def using that rid e [OF l]
    by (cases exc) (auto simp: nth_list_update)
  have len: "length (or_routines d') = length (or_routines d)"
    "or_finished d' = or_finished d @ [rid]" "or_current d' = 0"
    by (simp_all add: d'_def entry_end_def Let_def split: option.split)
  have lv: "live d' j \<longleftrightarrow> j \<noteq> rid \<and> live d j" for j
    using r [of j] len rid by (auto simp: live_def split: if_splits)
  have q: "j \<in> set (or_finished d) \<longleftrightarrow>
      0 < j \<and> j \<le> length (or_routines d) \<and> rt_finished (routine d j)" for j
    using inv by (simp add: coro_inv_def)
  show "\<not> live d' rid" using lv by simp
  show "rt_exception (routine d' rid) = exc" "rt_finished (routine d' rid)"
    using r [OF rid(1)] by simp_all
  show "or_finished d' = or_finished d @ [rid]" by (fact len(2))
  show "only_changes d rid d'"
    unfolding only_changes_def using len lv r by (auto simp: cont_def live_def)
  show "coro_inv d'"
    unfolding coro_inv_def
  proof (intro conjI allI impI)
    fix j
    show "j \<in> set (or_finished d') \<longleftrightarrow>
        0 < j \<and> j \<le> length (or_routines d') \<and> rt_finished (routine d' j)"
      using q [of j] r [of j] len rid by (auto split: if_splits)
    show "rt_exception (routine d' j) = None" if "live d' j"
      using that lv [of j] e [of j] r [of j] by (auto simp: live_def split: if_splits)
  qed (use len inv q [of rid] l in \<open>auto simp: coro_inv_def live_def\<close>)
qed

text \<open>
  The three cases of \<open>resume\<close>: an id that is not live, a failed \<^verbatim>\<open>swapcontext\<close>, and a switch
  into a live routine.
\<close>

lemma resume_dead: "\<not> live d rid \<Longrightarrow> resume run switched rid d s = (Inr False, d, s)"
  by (auto simp: resume_def live_def)

lemma resume_unswitched:
  "coro_inv d \<Longrightarrow> resume run False rid d s = (Inr False, d, s)"
  by (cases d) (auto simp: resume_def coro_inv_def Let_def)

definition resume_result ::
    "('k, 'e) body_result \<Rightarrow> routine_t \<Rightarrow> 'e + bool \<Rightarrow> ('k, 'e) Ordinator \<Rightarrow> bool" where
  "resume_result res rid r d' =
     (case res of
        Yields k' \<Rightarrow> r = Inr True \<and> live d' rid \<and> cont d' rid = Some k'
      | Returns \<Rightarrow> r = Inr False \<and> \<not> live d' rid
      | Throws e \<Rightarrow> r = Inl e \<and> \<not> live d' rid)"

lemma resume_live:
  assumes "coro_inv d" and "live d rid" and "cont d rid = Some k" and "run k s = (res, t)"
    and "resume run True rid d s = (r, d', s')"
  shows "coro_inv d'" and "only_changes d rid d'" and "s' = t" and "resume_result res rid r d'"
proof -
  let ?d = "d\<lparr>or_current := rid\<rparr>"
  have "0 < rid" "rid \<le> length (or_routines d)" "\<not> rt_finished (routine d rid)"
    using assms(2) by (simp_all add: live_def)
  then have step: "resume run True rid d s = (let (d, s) = switch_to run ?d s
             in case rt_exception (routine d rid) of
                  Some e \<Rightarrow> (Inl e, d, s)
                | None \<Rightarrow> (Inr (\<not> rt_finished (routine d rid)), d, s))"
    by (simp add: resume_def Let_def)
  have k: "continuation (routine ?d (or_current ?d)) = Some k"
    using assms(3) by (simp add: cont_def)
  note yr = yield_running [OF assms(1,2) refl]
  note er = entry_end_running [OF assms(1,2) refl]
  have "coro_inv d' \<and> only_changes d rid d' \<and> s' = t \<and> resume_result res rid r d'"
  proof (cases res)
    case (Yields k')
    then have "switch_to run ?d s = (yield k' ?d, t)" using k assms(4) by (simp add: switch_to_def)
    with step assms(5) yr [of k'] show ?thesis
      by (auto simp: Yields resume_result_def split: option.splits)
  next
    case Returns
    then have "switch_to run ?d s = (entry_end None ?d, t)" using k assms(4) by (simp add: switch_to_def)
    with step assms(5) er [of None] show ?thesis
      by (auto simp: Returns resume_result_def split: option.splits)
  next
    case (Throws e)
    then have "switch_to run ?d s = (entry_end (Some e) ?d, t)"
      using k assms(4) by (simp add: switch_to_def)
    with step assms(5) er [of "Some e"] show ?thesis
      by (auto simp: Throws resume_result_def split: option.splits)
  qed
  then show "coro_inv d'" "only_changes d rid d'" "s' = t" "resume_result res rid r d'" by auto
qed

lemma resume_empty_function:
  assumes "coro_inv d" and "live d rid" and "cont d rid = None"
    and "resume run True rid d s = (r, d', s')"
  shows "coro_inv d'" and "only_changes d rid d'" and "s' = s" and "r = Inr False"
    and "\<not> live d' rid"
proof -
  let ?d = "d\<lparr>or_current := rid\<rparr>"
  have "0 < rid" "rid \<le> length (or_routines d)" "\<not> rt_finished (routine d rid)"
    using assms(2) by (simp_all add: live_def)
  moreover have "switch_to run ?d s = (entry_end None ?d, s)"
    using assms(3) by (simp add: switch_to_def cont_def)
  ultimately show "coro_inv d'" "only_changes d rid d'" "s' = s" "r = Inr False" "\<not> live d' rid"
    using assms(4) entry_end_running [OF assms(1,2) refl, of None]
    by (auto simp: resume_def Let_def)
qed

lemma resume_keeps_inv:
  assumes "coro_inv d" and "resume run switched rid d s = (r, d', s')"
  shows "coro_inv d'" and "only_changes d rid d'"
proof -
  have "coro_inv d' \<and> only_changes d rid d'"
  proof (cases "live d rid \<and> switched")
    case False
    then show ?thesis
      using assms by (cases switched) (auto simp: resume_dead resume_unswitched)
  next
    case True
    show ?thesis
    proof (cases "cont d rid")
      case None
      then show ?thesis
        using True assms resume_empty_function [of d rid run s r d' s'] by auto
    next
      case (Some k)
      then show ?thesis
        using True assms resume_live [of d rid k run s "fst (run k s)" "snd (run k s)" r d' s'] by auto
    qed
  qed
  then show "coro_inv d'" "only_changes d rid d'" by auto
qed

end
