(* ===== verification/Connection_Handler.thy ===== *)
theory Connection_Handler
  imports Http_Parser Events Posix_IO Coroutine
begin

text \<open>
  \<^verbatim>\<open>include/http/connection_handler.hpp\<close> and \<^verbatim>\<open>lib/http/connection_handler.cpp\<close>: the body of
  one connection's coroutine. A call of \<^verbatim>\<open>Coroutine::yield()\<close> cuts a member function in two;
  what is live across the cut (the local variables) is the payload of a continuation \<open>pc\<close>,
  everything else is in the handler object. \<open>run_handler\<close> runs from one switch to the next.

  The user's callback is a parameter \<open>cb\<close>: it may throw. The buffer's allocation is an
  identity \<open>ch_alloc\<close> that changes when \<^verbatim>\<open>resize\<close> moves the buffer, so that views into the
  old one dangle. Catching an exception and yielding inside the handler is taken to work as
  the code intends.
\<close>

section \<open>State\<close>

definition initial_buffer_size :: nat where
  "initial_buffer_size = 1024"

text \<open>The id \<^verbatim>\<open>-1\<close> that no routine has is \<open>None\<close>.\<close>

definition NO_COROUTINE :: "routine_t option" where
  "NO_COROUTINE = None"

record ConnectionHandler =
  ch_last_activity :: nat
  ch_timeout :: bool
  ch_set :: EventsSet
  ch_read_buff :: string
  ch_alloc :: nat
  ch_write_buff :: string
  ch_fd :: int
  ch_routine :: "routine_t option"

definition ConnectionHandler_new :: "int \<Rightarrow> EventsSet \<Rightarrow> ConnectionHandler" where
  "ConnectionHandler_new f events =
     \<lparr>ch_last_activity = 0, ch_timeout = False, ch_set = events,
      ch_read_buff = replicate initial_buffer_size NUL, ch_alloc = 0, ch_write_buff = [],
      ch_fd = f, ch_routine = NO_COROUTINE\<rparr>"

text \<open>The handler with what it acts on: its descriptor, the clock and the log.\<close>

record conn =
  cn_h :: ConnectionHandler
  cn_io :: io
  cn_now :: nat
  cn_log :: "string list"

definition on_h :: "(ConnectionHandler \<Rightarrow> ConnectionHandler) \<Rightarrow> conn \<Rightarrow> conn" where
  "on_h f c = c\<lparr>cn_h := f (cn_h c)\<rparr>"

definition set_io :: "io \<Rightarrow> conn \<Rightarrow> conn" where
  "set_io s c = c\<lparr>cn_io := s\<rparr>"

lemma conn_simps [simp]:
  "cn_h (on_h f c) = f (cn_h c)" "cn_io (on_h f c) = cn_io c" "cn_now (on_h f c) = cn_now c"
  "cn_log (on_h f c) = cn_log c"
  "cn_h (set_io s c) = cn_h c" "cn_io (set_io s c) = s" "cn_now (set_io s c) = cn_now c"
  "cn_log (set_io s c) = cn_log c"
  by (simp_all add: on_h_def set_io_def)

definition getEventsSet :: "ConnectionHandler \<Rightarrow> EventsSet" where
  "getEventsSet h = ch_set h"

definition setTimeout :: "ConnectionHandler \<Rightarrow> ConnectionHandler" where
  "setTimeout h = h\<lparr>ch_timeout := True\<rparr>"

definition isTimeout :: "ConnectionHandler \<Rightarrow> bool" where
  "isTimeout h = ch_timeout h"

definition setLastActivity :: "nat \<Rightarrow> ConnectionHandler \<Rightarrow> ConnectionHandler" where
  "setLastActivity t h = h\<lparr>ch_last_activity := t\<rparr>"

definition getLastActivity :: "ConnectionHandler \<Rightarrow> nat" where
  "getLastActivity h = ch_last_activity h"

definition updateLastActivity :: "conn \<Rightarrow> conn" where
  "updateLastActivity c = on_h (setLastActivity (cn_now c)) c"

definition log_error :: "string \<Rightarrow> conn \<Rightarrow> conn" where
  "log_error m c = c\<lparr>cn_log := cn_log c @ [m]\<rparr>"

text \<open>Move construction and assignment, with the moved-from object as second component.\<close>

definition move_ctor :: "ConnectionHandler \<Rightarrow> ConnectionHandler \<times> ConnectionHandler" where
  "move_ctor other =
     (\<lparr>ch_last_activity = ch_last_activity other, ch_timeout = False, ch_set = ch_set other,
       ch_read_buff = ch_read_buff other, ch_alloc = ch_alloc other,
       ch_write_buff = ch_write_buff other, ch_fd = ch_fd other, ch_routine = ch_routine other\<rparr>,
      other\<lparr>ch_routine := NO_COROUTINE, ch_fd := -1, ch_read_buff := [], ch_write_buff := []\<rparr>)"

definition move_assign ::
    "ConnectionHandler \<Rightarrow> ConnectionHandler \<Rightarrow> ConnectionHandler \<times> ConnectionHandler" where
  "move_assign this other =
     (this\<lparr>ch_fd := ch_fd other, ch_last_activity := ch_last_activity other,
       ch_write_buff := ch_write_buff other, ch_read_buff := ch_read_buff other,
       ch_alloc := ch_alloc other, ch_routine := ch_routine other, ch_set := ch_set other\<rparr>,
      other\<lparr>ch_routine := NO_COROUTINE, ch_fd := -1, ch_read_buff := [], ch_write_buff := []\<rparr>)"

text \<open>The destructor: the descriptor it closes, if any.\<close>

definition ConnectionHandler_delete :: "ConnectionHandler \<Rightarrow> int list" where
  "ConnectionHandler_delete h = (if ch_fd h \<noteq> -1 then [ch_fd h] else [])"

section \<open>Suspended functions\<close>

text \<open>How a member function ends: suspended with its locals, returned, or by an exception.\<close>

datatype ('p, 'a) outcome = Suspend 'p | Finish 'a | Raise http_exn

datatype pc =
    PcEntry
  | PcReading HttpRequestParser nat
  | PcWriting nat bool
  | PcErrorWriting nat

section \<open>readRequest\<close>

definition fill :: "nat \<Rightarrow> string \<Rightarrow> ConnectionHandler \<Rightarrow> ConnectionHandler" where
  "fill read_idx bs h = h\<lparr>ch_read_buff := splice read_idx bs (ch_read_buff h)\<rparr>"

text \<open>\<^verbatim>\<open>read_buff_.resize(size * 2)\<close> exceeds the capacity, so it moves the buffer.\<close>

definition grow :: "nat \<Rightarrow> ConnectionHandler \<Rightarrow> ConnectionHandler" where
  "grow read_idx h =
     (if length (ch_read_buff h) \<le> read_idx then
        h\<lparr>ch_read_buff := ch_read_buff h @ replicate (length (ch_read_buff h)) NUL,
          ch_alloc := ch_alloc h + 1\<rparr>
      else h)"

text \<open>
  The \<^verbatim>\<open>string_view\<close> given to the parser: \<^verbatim>\<open>read_idx + 1\<close> bytes of the buffer, one more than has
  been read; at the end of the buffer that is the string's terminator.
\<close>

definition request_text :: "nat \<Rightarrow> ConnectionHandler \<Rightarrow> string" where
  "request_text read_idx h = take (read_idx + 1) (ch_read_buff h @ [NUL])"

definition handler_memory :: "ConnectionHandler \<Rightarrow> memory" where
  "handler_memory h = [ch_alloc h \<mapsto> ch_read_buff h @ [NUL]]"

text \<open>The second half of a round of the loop: \<open>Inl\<close> leaves the loop, \<open>Inr\<close> goes on.\<close>

definition readRequest_check ::
    "HttpRequestParser \<Rightarrow> nat \<Rightarrow> conn \<Rightarrow> (http_exn + HttpRequest) + HttpRequestParser \<times> conn" where
  "readRequest_check parser read_idx c =
     (case parse (mk_message (ch_alloc (cn_h c)) (request_text read_idx (cn_h c))) parser of
        (Inl e, _) \<Rightarrow> Inl (Inl e)
      | (Inr st, parser) \<Rightarrow>
          if st = DONE then Inl (buildRequest (handler_memory (cn_h c)) parser)
          else Inr (parser, on_h (grow read_idx) c))"

definition finish_read :: "http_exn + HttpRequest \<Rightarrow> ('p, HttpRequest option) outcome" where
  "finish_read r = (case r of Inl e \<Rightarrow> Raise e | Inr req \<Rightarrow> Finish (Some req))"

lemma readRequest_check_io: "readRequest_check p i c = Inr (p', c') \<Longrightarrow> cn_io c' = cn_io c"
  by (auto simp: readRequest_check_def split: prod.splits sum.splits if_splits)

lemma readRequest_check_room:
  "readRequest_check p i c = Inr (p', c') \<Longrightarrow> i \<le> length (ch_read_buff (cn_h c)) \<Longrightarrow>
     ch_read_buff (cn_h c) \<noteq> [] \<Longrightarrow> i < length (ch_read_buff (cn_h c'))"
  by (auto simp: readRequest_check_def grow_def split: prod.splits sum.splits if_splits)

text \<open>
  The loop, entered in front of \<^verbatim>\<open>read\<close>. A round without room in the buffer would ask for
  zero bytes and get the answer 0, that is the end of the stream.
\<close>

function (sequential) readRequest_loop ::
    "HttpRequestParser \<Rightarrow> nat \<Rightarrow> conn \<Rightarrow> (HttpRequestParser \<times> nat, HttpRequest option) outcome \<times> conn" where
  "readRequest_loop parser read_idx c =
     (case sys_read (length (ch_read_buff (cn_h c)) - read_idx) (cn_io c) of
        (Inl e, s) \<Rightarrow>
          if e = EAGAIN then (Suspend (parser, read_idx), updateLastActivity (set_io s c))
          else (Raise (ReadingException ''reading failed ''), set_io s c)
      | (Inr bs, s) \<Rightarrow>
          if bs = [] then (Finish None, set_io s c)
          else
            let c = on_h (fill read_idx bs) (set_io s c);
                read_idx = read_idx + length bs
            in case readRequest_check parser read_idx c of
                 Inl r \<Rightarrow> (finish_read r, c)
               | Inr (parser, c) \<Rightarrow> readRequest_loop parser read_idx c)"
  by pat_completeness auto
termination
proof (relation "measure (\<lambda>(p, i, c). in_weight (cn_io c))", goal_cases)
  case (2 p i c x s bs c' i' y p' c'')
  then have "length bs \<le> length (ch_read_buff (cn_h c)) - i" and "bs \<noteq> []"
    using sys_read_length [of "length (ch_read_buff (cn_h c)) - i" "cn_io c" bs s] by auto
  then have "0 < length (ch_read_buff (cn_h c)) - i" by (cases bs) auto
  then have "in_weight s < in_weight (cn_io c)"
    using sys_read_weight [of _ "cn_io c" bs s] 2 by auto
  moreover have "cn_io c'' = s" using readRequest_check_io 2 by fastforce
  ultimately show ?case by simp
qed simp

declare readRequest_loop.simps [simp del]

lemma readRequest_loop_step:
  assumes "sys_read (length (ch_read_buff (cn_h c)) - i) (cn_io c) = (Inr bs, s)" and "bs \<noteq> []"
    and "c1 = on_h (fill i bs) (set_io s c)"
  shows "readRequest_loop p i c =
    (case readRequest_check p (i + length bs) c1 of
       Inl r \<Rightarrow> (finish_read r, c1)
     | Inr (p, c) \<Rightarrow> readRequest_loop p (i + length bs) c)"
  using assms by (subst readRequest_loop.simps) (simp add: Let_def cong: sum.case_cong)

definition readRequest :: "conn \<Rightarrow> (HttpRequestParser \<times> nat, HttpRequest option) outcome \<times> conn" where
  "readRequest c = readRequest_loop HttpRequestParser_init 0 c"

text \<open>Behind \<^verbatim>\<open>Coroutine::yield()\<close>: the time-out check, then the parser sees the buffer again.\<close>

definition readRequest_resume ::
    "HttpRequestParser \<Rightarrow> nat \<Rightarrow> conn \<Rightarrow> (HttpRequestParser \<times> nat, HttpRequest option) outcome \<times> conn" where
  "readRequest_resume parser read_idx c =
     (if isTimeout (cn_h c) then (Raise (TimeoutException ''timeout readRequest''), c)
      else case readRequest_check parser read_idx c of
             Inl r \<Rightarrow> (finish_read r, c)
           | Inr (parser, c) \<Rightarrow> readRequest_loop parser read_idx c)"

section \<open>writeResponse\<close>

function (sequential) writeResponse_loop :: "nat \<Rightarrow> conn \<Rightarrow> (nat, bool) outcome \<times> conn" where
  "writeResponse_loop written c =
     (if written = length (ch_write_buff (cn_h c)) then (Finish True, c)
      else case sys_write (drop written (ch_write_buff (cn_h c))) (cn_io c) of
             (Inl e, s) \<Rightarrow>
               if e = EAGAIN then (Suspend written, updateLastActivity (set_io s c))
               else if e = ECONNRESET then (Finish False, set_io s c)
               else (Raise (WritingException (''writing failed '' @ strerror e)), set_io s c)
           | (Inr ret, s) \<Rightarrow>
               if ret = 0 then
                 (Raise (WritingException (''writing failed '' @ strerror (io_errno s))), set_io s c)
               else writeResponse_loop (written + ret) (set_io s c))"
  by pat_completeness auto
termination
  by (relation "measure (\<lambda>(w, c). length (io_out (cn_io c)))")
     (auto dest: sys_write_shrinks [OF sym])

declare writeResponse_loop.simps [simp del]

definition writeResponse :: "HttpResponse \<Rightarrow> conn \<Rightarrow> (nat, bool) outcome \<times> conn" where
  "writeResponse response c =
     writeResponse_loop 0 (on_h (\<lambda>h. h\<lparr>ch_write_buff := dump response\<rparr>) c)"

definition writeResponse_resume :: "nat \<Rightarrow> conn \<Rightarrow> (nat, bool) outcome \<times> conn" where
  "writeResponse_resume written c =
     (if isTimeout (cn_h c) then (Raise (TimeoutException ''timeout writeResponse''), c)
      else writeResponse_loop written c)"

section \<open>The coroutine's body\<close>

definition shouldCloseAfterResponse :: "HttpRequest \<Rightarrow> bool" where
  "shouldCloseAfterResponse req =
     (let connection = getHeader req ''Connection''
      in case rq_version req of
           HTTP1_0 \<Rightarrow> connection \<noteq> Some ''Keep-Alive''
         | HTTP1_1 \<Rightarrow> connection = Some ''close'')"

definition to_writing :: "ConnectionHandler \<Rightarrow> ConnectionHandler" where
  "to_writing h = h\<lparr>ch_set := ev_add OUT (ev_sub IN (ch_set h))\<rparr>"

definition to_reading :: "ConnectionHandler \<Rightarrow> ConnectionHandler" where
  "to_reading h = h\<lparr>ch_set := ev_add IN (ev_sub OUT (ch_set h))\<rparr>"

type_synonym switch = "(pc, http_exn) body_result \<times> conn"

text \<open>
  The \<^verbatim>\<open>catch\<close> clauses of \<^verbatim>\<open>operator()\<close>. What is thrown inside the second one (also after a
  suspension there) leaves the coroutine.
\<close>

definition after_error_write :: "(nat, bool) outcome \<times> conn \<Rightarrow> switch" where
  "after_error_write r =
     (case r of
        (Suspend w, c) \<Rightarrow> (Yields (PcErrorWriting w), c)
      | (Finish _, c) \<Rightarrow> (Returns, c)
      | (Raise e, c) \<Rightarrow> (Throws e, c))"

definition catch_exn :: "http_exn \<Rightarrow> conn \<Rightarrow> switch" where
  "catch_exn e c =
     (case e of
        TimeoutException m \<Rightarrow> (Returns, log_error (what e) c)
      | ParsingException m code \<Rightarrow>
          after_error_write
            (writeResponse (setStatusCode code HttpResponse_init)
              (on_h to_writing (log_error (what e) c)))
      | _ \<Rightarrow> (Throws e, c))"

text \<open>What \<^verbatim>\<open>operator()\<close> adds to the callback's response.\<close>

definition finish_response :: "HttpRequest \<Rightarrow> HttpResponse \<Rightarrow> HttpResponse" where
  "finish_response request response =
     (let response = setVersion (rq_version request) response
      in if \<not> shouldCloseAfterResponse request \<and> rq_version request = HTTP1_0 then
           addHeader ''Connection'' ''keep-alive'' response
         else response)"

text \<open>From a request in hand to the end of \<^verbatim>\<open>writeResponse\<close> or its first suspension.\<close>

definition respond ::
    "(HttpRequest \<Rightarrow> http_exn + HttpResponse) \<Rightarrow> HttpRequest \<Rightarrow> conn \<Rightarrow> (nat, bool) outcome \<times> conn" where
  "respond cb request c =
     (case cb request of
        Inl e \<Rightarrow> (Raise e, c)
      | Inr response \<Rightarrow>
          writeResponse (finish_response request response) (on_h to_writing c))"

text \<open>Behind \<^verbatim>\<open>writeResponse\<close>: \<open>Inl\<close> leaves \<^verbatim>\<open>operator()\<close> or suspends, \<open>Inr\<close> is the next round.\<close>

definition after_write :: "bool \<Rightarrow> (nat, bool) outcome \<times> conn \<Rightarrow> switch + conn" where
  "after_write shouldClose r =
     (case r of
        (Suspend w, c) \<Rightarrow> Inl (Yields (PcWriting w shouldClose), c)
      | (Raise e, c) \<Rightarrow> Inl (catch_exn e c)
      | (Finish ok, c) \<Rightarrow>
          if \<not> ok \<or> shouldClose then Inl (Returns, c) else Inr (on_h to_reading c))"

definition after_read ::
    "(HttpRequest \<Rightarrow> http_exn + HttpResponse) \<Rightarrow> (HttpRequestParser \<times> nat, HttpRequest option) outcome \<times> conn \<Rightarrow>
     switch + conn" where
  "after_read cb r =
     (case r of
        (Suspend (p, i), c) \<Rightarrow> Inl (Yields (PcReading p i), c)
      | (Raise e, c) \<Rightarrow> Inl (catch_exn e c)
      | (Finish None, c) \<Rightarrow> Inl (Returns, c)
      | (Finish (Some request), c) \<Rightarrow>
          after_write (shouldCloseAfterResponse request) (respond cb request c))"

lemma writeResponse_loop_in: "writeResponse_loop w c = (r, c') \<Longrightarrow> io_in (cn_io c') = io_in (cn_io c)"
proof (induction w c rule: writeResponse_loop.induct)
  case (1 w c)
  show ?case
    using 1(2) 1(1) sys_write_frame
    by (subst (asm) writeResponse_loop.simps)
       (fastforce simp: updateLastActivity_def split: if_splits prod.splits sum.splits)
qed

lemma after_write_Inr:
  "after_write close (r, c) = Inr c' \<Longrightarrow> r = Finish True \<and> \<not> close \<and> c' = on_h to_reading c"
  by (cases r) (auto simp: after_write_def split: if_splits)

lemma after_read_Inr:
  assumes "after_read cb (r, c) = Inr c'"
  obtains req where "r = Finish (Some req)" and "cn_io c' = cn_io (snd (respond cb req c))"
    and "io_in (cn_io c') = io_in (cn_io c)"
proof -
  obtain req where r: "r = Finish (Some req)"
    and w: "after_write (shouldCloseAfterResponse req) (respond cb req c) = Inr c'"
    using assms by (auto simp: after_read_def split: outcome.splits option.splits prod.splits)
  obtain o1 c1 where rc: "respond cb req c = (o1, c1)" by fastforce
  from after_write_Inr [of _ o1 c1 c'] w rc have "o1 = Finish True" "c' = on_h to_reading c1" by auto
  moreover have "io_in (cn_io c1) = io_in (cn_io c)"
    using rc writeResponse_loop_in
    by (fastforce simp: respond_def writeResponse_def Let_def split: sum.splits if_splits)
  ultimately show thesis using that [OF r] rc by simp
qed

text \<open>One round of the loop, and the induction along its rounds.\<close>

definition read_round :: "nat \<Rightarrow> conn \<Rightarrow> string \<Rightarrow> conn \<Rightarrow> bool" where
  "read_round i c bs c1 \<longleftrightarrow>
     (\<exists>s. sys_read (length (ch_read_buff (cn_h c)) - i) (cn_io c) = (Inr bs, s) \<and> bs \<noteq> [] \<and>
        c1 = on_h (fill i bs) (set_io s c))"

lemma readRequest_loop_cases:
  assumes "readRequest_loop p i c = r"
  obtains (fail) e s where "sys_read (length (ch_read_buff (cn_h c)) - i) (cn_io c) = (Inl e, s)"
      and "e \<noteq> EAGAIN" and "r = (Raise (ReadingException ''reading failed ''), set_io s c)"
    | (again) s where "sys_read (length (ch_read_buff (cn_h c)) - i) (cn_io c) = (Inl EAGAIN, s)"
      and "r = (Suspend (p, i), updateLastActivity (set_io s c))"
    | (eof) s where "sys_read (length (ch_read_buff (cn_h c)) - i) (cn_io c) = (Inr [], s)"
      and "r = (Finish None, set_io s c)"
    | (decided) bs c1 res where "read_round i c bs c1"
      and "readRequest_check p (i + length bs) c1 = Inl res" and "r = (finish_read res, c1)"
    | (more) bs c1 p' c2 where "read_round i c bs c1"
      and "readRequest_check p (i + length bs) c1 = Inr (p', c2)"
      and "r = readRequest_loop p' (i + length bs) c2"
  using assms
  by (subst (asm) readRequest_loop.simps)
     (auto simp: Let_def read_round_def split: prod.splits sum.splits if_splits)

lemma readRequest_induct [case_names round]:
  assumes "\<And>p i c. (\<And>bs c1 p' c2. read_round i c bs c1 \<Longrightarrow>
      readRequest_check p (i + length bs) c1 = Inr (p', c2) \<Longrightarrow> P p' (i + length bs) c2) \<Longrightarrow> P p i c"
  shows "P p i c"
proof (induction p i c rule: readRequest_loop.induct)
  case (1 p i c)
  show ?case
  proof (rule assms)
    fix bs c1 p' c2
    assume a: "read_round i c bs c1" "readRequest_check p (i + length bs) c1 = Inr (p', c2)"
    then obtain s where rd: "sys_read (length (ch_read_buff (cn_h c)) - i) (cn_io c) = (Inr bs, s)"
      and bs: "bs \<noteq> []" and c1: "c1 = on_h (fill i bs) (set_io s c)"
      by (auto simp: read_round_def)
    show "P p' (i + length bs) c2"
      by (rule 1 [OF rd [symmetric] refl bs c1 refl a(2) refl])
  qed
qed

lemma read_roundD:
  assumes "read_round i c bs c1"
  shows "bs \<noteq> []" and "i + length bs \<le> length (ch_read_buff (cn_h c))"
    and "in_weight (cn_io c1) < in_weight (cn_io c)"
    and "cn_h c1 = fill i bs (cn_h c)" and "cn_now c1 = cn_now c" and "cn_log c1 = cn_log c"
    and "io_out (cn_io c1) = io_out (cn_io c)" and "io_sent (cn_io c1) = io_sent (cn_io c)"
    and "pending (io_in (cn_io c)) = bs @ pending (io_in (cn_io c1))"
proof -
  let ?n = "length (ch_read_buff (cn_h c)) - i"
  obtain s where rd: "sys_read ?n (cn_io c) = (Inr bs, s)" and bs: "bs \<noteq> []"
    and c1: "c1 = on_h (fill i bs) (set_io s c)"
    using assms by (auto simp: read_round_def)
  have le: "length bs \<le> ?n" by (rule sys_read_length [OF rd])
  with bs have n: "0 < ?n" by (cases bs) auto
  show "bs \<noteq> []" by (fact bs)
  show "i + length bs \<le> length (ch_read_buff (cn_h c))" using le n by simp
  show "in_weight (cn_io c1) < in_weight (cn_io c)" using sys_read_weight [OF rd n bs] c1 by simp
  show "pending (io_in (cn_io c)) = bs @ pending (io_in (cn_io c1))"
    using sys_read_pending [OF rd n] c1 by simp
  show "cn_h c1 = fill i bs (cn_h c)" "cn_now c1 = cn_now c" "cn_log c1 = cn_log c"
    "io_out (cn_io c1) = io_out (cn_io c)" "io_sent (cn_io c1) = io_sent (cn_io c)"
    using c1 sys_read_frame [OF rd] by simp_all
qed

lemma readRequest_loop_consumes:
  "readRequest_loop p i c = (Finish (Some req), c') \<Longrightarrow> in_weight (cn_io c') < in_weight (cn_io c)"
proof (induction p i c rule: readRequest_induct)
  case (round p i c)
  from round(2) show ?case
  proof (cases rule: readRequest_loop_cases)
    case (more bs c1 p' c2)
    from round(1) [OF more(1,2) more(3) [symmetric]] show ?thesis
      using readRequest_check_io [OF more(2)] read_roundD(3) [OF more(1)] by simp
  qed (auto dest: read_roundD)
qed

text \<open>The \<^verbatim>\<open>while (true)\<close> of \<^verbatim>\<open>operator()\<close>: every round uses up input.\<close>

function (sequential) serve :: "(HttpRequest \<Rightarrow> http_exn + HttpResponse) \<Rightarrow> conn \<Rightarrow> switch" where
  "serve cb c =
     (case after_read cb (readRequest c) of
        Inl sw \<Rightarrow> sw
      | Inr c \<Rightarrow> serve cb c)"
  by pat_completeness auto
termination
proof (relation "measure (\<lambda>(cb, c). in_weight (cn_io c))", goal_cases)
  case (2 cb c c')
  obtain r c1 where r: "readRequest c = (r, c1)" by fastforce
  from 2 r have "after_read cb (r, c1) = Inr c'" by simp
  then obtain req where "r = Finish (Some req)" "io_in (cn_io c') = io_in (cn_io c1)"
    by (rule after_read_Inr)
  then show ?case
    using r readRequest_loop_consumes [of HttpRequestParser_init 0 c req c1]
    by (simp add: readRequest_def in_weight_def)
qed simp

declare serve.simps [simp del]

definition go_on :: "(HttpRequest \<Rightarrow> http_exn + HttpResponse) \<Rightarrow> switch + conn \<Rightarrow> switch" where
  "go_on cb r = (case r of Inl sw \<Rightarrow> sw | Inr c \<Rightarrow> serve cb c)"

text \<open>\<^verbatim>\<open>operator()\<close> from a switch into the coroutine to the switch out of it.\<close>

fun run_handler :: "(HttpRequest \<Rightarrow> http_exn + HttpResponse) \<Rightarrow> pc \<Rightarrow> conn \<Rightarrow> switch" where
  "run_handler cb PcEntry c = (if isTimeout (cn_h c) then (Returns, c) else serve cb c)"
| "run_handler cb (PcReading parser read_idx) c =
     go_on cb (after_read cb (readRequest_resume parser read_idx c))"
| "run_handler cb (PcWriting written shouldClose) c =
     go_on cb (after_write shouldClose (writeResponse_resume written c))"
| "run_handler cb (PcErrorWriting written) c = after_error_write (writeResponse_resume written c)"

lemma serve_eq_go_on: "serve cb c = go_on cb (after_read cb (readRequest c))"
  by (simp add: serve.simps [of cb c] go_on_def)

text \<open>\<^verbatim>\<open>resumeHandler\<close> and \<^verbatim>\<open>registerCoroutine\<close> on the thread's ordinator.\<close>

definition conn_resumeHandler ::
    "(pc \<Rightarrow> 's \<Rightarrow> (pc, http_exn) body_result \<times> 's) \<Rightarrow> bool \<Rightarrow> ConnectionHandler \<Rightarrow>
     (pc, http_exn) Ordinator \<Rightarrow> 's \<Rightarrow> (http_exn + bool) \<times> (pc, http_exn) Ordinator \<times> 's" where
  "conn_resumeHandler run switched h d s =
     (case ch_routine h of
        Some rid \<Rightarrow> resume run switched rid d s
      | None \<Rightarrow> (Inr True, d, s))"

definition registerCoroutine ::
    "ConnectionHandler \<Rightarrow> (pc, http_exn) Ordinator \<Rightarrow> ConnectionHandler \<times> (pc, http_exn) Ordinator" where
  "registerCoroutine h d =
     (let (rid, d) = create (Some PcEntry) d in (h\<lparr>ch_routine := Some rid\<rparr>, d))"

end
