(* ===== verification/Handler_Invariant.thy ===== *)
theory Handler_Invariant
  imports Connection_Handler
begin

text \<open>
  The state machine of one connection: between two switches the kernel may deliver input,
  grant room, let time pass or the worker may set the time-out flag; a switch runs
  \<open>run_handler\<close>. What holds in every reachable state: the interest set is what the
  suspended function waits for, the activity stamp is that of the last suspension, and what
  has been sent is a sequence of whole responses and a prefix of the one being written.
\<close>

section \<open>What a run of the body cannot touch\<close>

definition conn_frame :: "conn \<Rightarrow> conn \<Rightarrow> bool" where
  "conn_frame c c' \<longleftrightarrow>
     cn_now c' = cn_now c \<and> ch_fd (cn_h c') = ch_fd (cn_h c) \<and>
     ch_routine (cn_h c') = ch_routine (cn_h c) \<and> ch_timeout (cn_h c') = ch_timeout (cn_h c)"

lemma conn_frame_refl [simp, intro]: "conn_frame c c"
  by (simp add: conn_frame_def)

lemma conn_frame_trans [trans]: "conn_frame a b \<Longrightarrow> conn_frame b c \<Longrightarrow> conn_frame a c"
  by (simp add: conn_frame_def)

lemma conn_frame_steps [simp]:
  "conn_frame c (set_io s c)"
  "conn_frame c (updateLastActivity c)"
  "conn_frame c (log_error m c)"
  "conn_frame c (on_h (fill i bs) c)"
  "conn_frame c (on_h (grow i) c)"
  "conn_frame c (on_h to_writing c)"
  "conn_frame c (on_h to_reading c)"
  "conn_frame c (on_h (\<lambda>h. h\<lparr>ch_write_buff := b\<rparr>) c)"
  by (simp_all add: conn_frame_def updateLastActivity_def setLastActivity_def log_error_def
      fill_def grow_def to_writing_def to_reading_def)

lemma read_round_frame: "read_round i c bs c1 \<Longrightarrow> conn_frame c c1"
  using read_roundD [of i c bs c1] by (simp add: conn_frame_def fill_def)

section \<open>Reading and writing\<close>

definition stamped :: "conn \<Rightarrow> bool" where
  "stamped c \<longleftrightarrow> getLastActivity (cn_h c) = cn_now c"

lemma stamped_update [simp]: "stamped (updateLastActivity c)"
  by (simp add: stamped_def updateLastActivity_def setLastActivity_def getLastActivity_def)

text \<open>What \<open>readRequest\<close> leaves alone: the interest set and everything on the output side.\<close>

definition same_output :: "conn \<Rightarrow> conn \<Rightarrow> bool" where
  "same_output c c' \<longleftrightarrow>
     ch_set (cn_h c') = ch_set (cn_h c) \<and> ch_write_buff (cn_h c') = ch_write_buff (cn_h c) \<and>
     io_sent (cn_io c') = io_sent (cn_io c) \<and> io_out (cn_io c') = io_out (cn_io c) \<and>
     cn_log c' = cn_log c"

lemma same_output_refl [simp]: "same_output c c"
  by (simp add: same_output_def)

lemma same_output_trans [trans]: "same_output a b \<Longrightarrow> same_output b c \<Longrightarrow> same_output a c"
  by (simp add: same_output_def)

lemma same_output_read [simp]:
  "sys_read n (cn_io c) = (r, s) \<Longrightarrow> same_output c (set_io s c)"
  "same_output c (updateLastActivity c)"
  "same_output c (on_h (grow i) c)"
  by (simp_all add: same_output_def sys_read_frame updateLastActivity_def setLastActivity_def grow_def)

lemma read_round_same: "read_round i c bs c1 \<Longrightarrow> same_output c c1"
  using read_roundD [of i c bs c1] by (simp add: same_output_def fill_def)

lemma readRequest_check_Inr:
  "readRequest_check p i c = Inr (p', c') \<Longrightarrow> c' = on_h (grow i) c"
  by (auto simp: readRequest_check_def split: prod.splits sum.splits if_splits)

definition room :: "nat \<Rightarrow> conn \<Rightarrow> bool" where
  "room i c \<longleftrightarrow> i < length (ch_read_buff (cn_h c))"

definition buff_ok :: "conn \<Rightarrow> bool" where
  "buff_ok c \<longleftrightarrow> ch_read_buff (cn_h c) \<noteq> []"

lemma room_buff_ok: "room i c \<Longrightarrow> buff_ok c"
  by (auto simp: room_def buff_ok_def)

lemma room_grow: "buff_ok c \<Longrightarrow> i \<le> length (ch_read_buff (cn_h c)) \<Longrightarrow> room i (on_h (grow i) c)"
  by (auto simp: room_def buff_ok_def grow_def)

lemma read_round_buff:
  assumes "read_round i c bs c1"
  shows "length (ch_read_buff (cn_h c1)) = length (ch_read_buff (cn_h c))"
    and "i + length bs \<le> length (ch_read_buff (cn_h c1))" and "buff_ok c1"
    and "take (i + length bs) (ch_read_buff (cn_h c1)) = take i (ch_read_buff (cn_h c)) @ bs"
    and "drop (i + length bs) (ch_read_buff (cn_h c1)) = drop (i + length bs) (ch_read_buff (cn_h c))"
    and "ch_alloc (cn_h c1) = ch_alloc (cn_h c)"
proof -
  note r = read_roundD [OF assms]
  show len: "length (ch_read_buff (cn_h c1)) = length (ch_read_buff (cn_h c))"
    using r(2,4) by (simp add: fill_def)
  then show "i + length bs \<le> length (ch_read_buff (cn_h c1))" "buff_ok c1"
    using r(1,2) by (auto simp: buff_ok_def)
  show "take (i + length bs) (ch_read_buff (cn_h c1)) = take i (ch_read_buff (cn_h c)) @ bs"
    "drop (i + length bs) (ch_read_buff (cn_h c1)) = drop (i + length bs) (ch_read_buff (cn_h c))"
    "ch_alloc (cn_h c1) = ch_alloc (cn_h c)"
    using r(2,4) by (simp_all add: fill_def take_splice_after drop_splice_after)
qed

definition read_post :: "conn \<Rightarrow> (HttpRequestParser \<times> nat, HttpRequest option) outcome \<times> conn \<Rightarrow> bool" where
  "read_post c r =
     (conn_frame c (snd r) \<and> same_output c (snd r) \<and> buff_ok (snd r) \<and>
      (\<forall>q j. fst r = Suspend (q, j) \<longrightarrow> room j (snd r) \<and> stamped (snd r)))"

lemma read_post_from:
  assumes "conn_frame c d" and "same_output c d" and "read_post d r"
  shows "read_post c r"
  using assms by (auto simp: read_post_def intro: conn_frame_trans same_output_trans)

lemma finish_read_neq_Suspend [simp]: "finish_read r \<noteq> Suspend x"
  by (simp add: finish_read_def split: sum.split)

lemma readRequest_loop_post: "room i c \<Longrightarrow> read_post c (readRequest_loop p i c)"
proof (induction p i c rule: readRequest_induct)
  case (round p i c)
  have buff: "buff_ok c" using round(2) by (rule room_buff_ok)
  obtain r where "readRequest_loop p i c = r" by simp
  then show ?case
  proof (cases rule: readRequest_loop_cases)
    case (again s)
    with round(2) show ?thesis
      using \<open>readRequest_loop p i c = r\<close> buff
      by (auto simp: read_post_def room_def buff_ok_def updateLastActivity_def setLastActivity_def
          conn_frame_def same_output_def sys_read_frame stamped_def getLastActivity_def)
  next
    case (decided bs c1 res)
    then show ?thesis
      using \<open>readRequest_loop p i c = r\<close> read_round_frame [OF decided(1)]
        read_round_same [OF decided(1)] read_round_buff(3) [OF decided(1)]
      by (simp add: read_post_def)
  next
    case (more bs c1 p' c2)
    have c2: "c2 = on_h (grow (i + length bs)) c1" by (rule readRequest_check_Inr [OF more(2)])
    have "room (i + length bs) c2"
      unfolding c2 by (rule room_grow) (use read_round_buff [OF more(1)] in auto)
    from round(1) [OF more(1,2) this]
    have "read_post c2 r" using more(3) by simp
    moreover have "conn_frame c c2" "same_output c c2"
      unfolding c2 using read_round_frame [OF more(1)] read_round_same [OF more(1)]
      by (auto intro: conn_frame_trans same_output_trans)
    ultimately show ?thesis using \<open>readRequest_loop p i c = r\<close> read_post_from by metis
  qed (use \<open>readRequest_loop p i c = r\<close> buff in
        \<open>auto simp: read_post_def buff_ok_def conn_frame_def same_output_def sys_read_frame\<close>)
qed

lemma readRequest_resume_post: "room i c \<Longrightarrow> read_post c (readRequest_resume p i c)"
proof (cases "isTimeout (cn_h c)")
  case True
  assume "room i c"
  with True show ?thesis by (auto simp: readRequest_resume_def read_post_def intro: room_buff_ok)
next
  case False
  assume r: "room i c"
  show ?thesis
  proof (cases "readRequest_check p i c")
    case (Inl x)
    with False r show ?thesis
      by (auto simp: readRequest_resume_def read_post_def intro: room_buff_ok)
  next
    case (Inr x)
    obtain p' c1 where x: "x = (p', c1)" by fastforce
    have c1: "c1 = on_h (grow i) c" by (rule readRequest_check_Inr [OF Inr [unfolded x]])
    have "room i c1"
      unfolding c1 by (rule room_grow) (use r room_buff_ok in \<open>auto simp: room_def\<close>)
    then have "read_post c (readRequest_loop p' i c1)"
      unfolding c1 by (intro read_post_from [OF _ _ readRequest_loop_post]) auto
    then show ?thesis using False Inr x by (simp add: readRequest_resume_def)
  qed
qed

text \<open>
  What \<open>writeResponse\<close> does: it sends the next bytes of the buffer in order, and what is left
  to send when it suspends is what it will go on with.
\<close>

definition same_input :: "conn \<Rightarrow> conn \<Rightarrow> bool" where
  "same_input c c' \<longleftrightarrow>
     ch_set (cn_h c') = ch_set (cn_h c) \<and> ch_write_buff (cn_h c') = ch_write_buff (cn_h c) \<and>
     ch_read_buff (cn_h c') = ch_read_buff (cn_h c) \<and> ch_alloc (cn_h c') = ch_alloc (cn_h c) \<and>
     io_in (cn_io c') = io_in (cn_io c) \<and> cn_log c' = cn_log c"

definition sent_upto :: "nat \<Rightarrow> nat \<Rightarrow> conn \<Rightarrow> conn \<Rightarrow> bool" where
  "sent_upto w w' c c' \<longleftrightarrow>
     w \<le> w' \<and> w' \<le> length (ch_write_buff (cn_h c)) \<and>
     io_sent (cn_io c') = io_sent (cn_io c) @ substr w (w' - w) (ch_write_buff (cn_h c))"

definition write_post :: "nat \<Rightarrow> conn \<Rightarrow> (nat, bool) outcome \<times> conn \<Rightarrow> bool" where
  "write_post w c r =
     (conn_frame c (snd r) \<and> same_input c (snd r) \<and>
      (case fst r of
         Suspend w' \<Rightarrow> sent_upto w w' c (snd r) \<and> stamped (snd r) \<and> w' < length (ch_write_buff (cn_h c))
       | Finish True \<Rightarrow> sent_upto w (length (ch_write_buff (cn_h c))) c (snd r)
       | Finish False \<Rightarrow> (\<exists>w'. sent_upto w w' c (snd r))
       | Raise e \<Rightarrow> (\<exists>w'. sent_upto w w' c (snd r)) \<and> (\<exists>m. e = WritingException m)))"

lemma same_input_refl [simp]: "same_input c c"
  by (simp add: same_input_def)

lemma substr_extend:
  "w + n \<le> w' \<Longrightarrow> take n (drop w s) @ substr (w + n) (w' - (w + n)) s = substr w (w' - w) s"
  using take_add [of n "w' - (w + n)" "drop w s"] by (simp add: substr_def add.commute)

lemma write_post_step:
  assumes w: "sys_write (drop w (ch_write_buff (cn_h c))) (cn_io c) = (Inr n, s)"
    and "w \<le> length (ch_write_buff (cn_h c))" and "write_post (w + n) (set_io s c) r"
  shows "write_post w c r"
proof -
  have n: "w + n \<le> length (ch_write_buff (cn_h c))"
    and sent: "io_sent s = io_sent (cn_io c) @ take n (drop w (ch_write_buff (cn_h c)))"
    using sys_write_sent(1) [OF w] assms(2) by auto
  have up: "sent_upto w w' c d" if "sent_upto (w + n) w' (set_io s c) d" for w' d
    using that n sent substr_extend [of w n w'] by (auto simp: sent_upto_def)
  have fr: "conn_frame c d \<and> same_input c d" if "conn_frame (set_io s c) d" "same_input (set_io s c) d" for d
    using that sys_write_frame [OF w] by (auto simp: conn_frame_def same_input_def)
  obtain o1 d where r: "r = (o1, d)" by fastforce
  from assms(3) have d: "conn_frame (set_io s c) d" "same_input (set_io s c) d"
    by (simp_all add: r write_post_def)
  show ?thesis
  proof (cases o1)
    case (Finish b)
    then show ?thesis using assms(3) up fr [OF d] r by (cases b) (auto simp: write_post_def)
  qed (use assms(3) up fr [OF d] r in \<open>auto simp: write_post_def\<close>)
qed

lemma sent_nothing [simp]: "w \<le> length (ch_write_buff (cn_h c)) \<Longrightarrow> io_sent (cn_io d) = io_sent (cn_io c) \<Longrightarrow> sent_upto w w c d"
  by (simp add: sent_upto_def substr_def)

lemma writeResponse_loop_post:
  "w \<le> length (ch_write_buff (cn_h c)) \<Longrightarrow> write_post w c (writeResponse_loop w c)"
proof (induction w c rule: writeResponse_loop.induct)
  case (1 w c)
  let ?b = "ch_write_buff (cn_h c)"
  show ?case
  proof (cases "w = length ?b")
    case True
    then have "writeResponse_loop w c = (Finish True, c)" by (subst writeResponse_loop.simps) simp
    then show ?thesis using True by (simp only: write_post_def) simp
  next
    case False
    obtain r s where wr: "sys_write (drop w ?b) (cn_io c) = (r, s)" by fastforce
    note frame = sys_write_frame [OF wr]
    show ?thesis
    proof (cases r)
      case (Inl e)
      then have "io_sent s = io_sent (cn_io c)" using sys_write_sent(2) wr by simp
      then show ?thesis
        using wr Inl False 1(2) frame
        by (auto simp: writeResponse_loop.simps [of w c] write_post_def same_input_def
            updateLastActivity_def setLastActivity_def conn_frame_def stamped_def getLastActivity_def
            intro!: exI [of _ w])
    next
      case (Inr n)
      note sent = sys_write_sent(1) [OF wr [unfolded Inr]]
      show ?thesis
      proof (cases "n = 0")
        case True
        then show ?thesis
          using wr Inr False 1(2) frame sent
          by (auto simp: writeResponse_loop.simps [of w c] write_post_def same_input_def
              conn_frame_def intro!: exI [of _ w])
      next
        case n: False
        from sent have "n \<le> length ?b - w" by simp
        then have le: "w + n \<le> length ?b" using 1(2) by linarith
        have "write_post (w + n) (set_io s c) (writeResponse_loop (w + n) (set_io s c))"
          using 1(1) [OF False wr [symmetric] Inr n] le by simp
        then have "write_post w c (writeResponse_loop (w + n) (set_io s c))"
          by (rule write_post_step [OF wr [unfolded Inr] 1(2)])
        then show ?thesis using wr Inr n False by (simp add: writeResponse_loop.simps [of w c])
      qed
    qed
  qed
qed

lemma writeResponse_resume_post:
  assumes "w \<le> length (ch_write_buff (cn_h c))" and "\<not> isTimeout (cn_h c)"
  shows "write_post w c (writeResponse_resume w c)"
  using writeResponse_loop_post [OF assms(1)] assms(2) by (simp add: writeResponse_resume_def)

section \<open>The invariant of the connection\<close>

text \<open>
  The responses the handler may send: a completed response of the callback, or a bare error
  status. \<open>sent_whole\<close> is a sequence of them; \<open>sent_cut\<close> may end inside one.
\<close>

definition legit :: "(HttpRequest \<Rightarrow> http_exn + HttpResponse) \<Rightarrow> HttpResponse \<Rightarrow> bool" where
  "legit cb r \<longleftrightarrow>
     (\<exists>req resp. cb req = Inr resp \<and> r = finish_response req resp) \<or>
     (\<exists>code. r = setStatusCode code HttpResponse_init)"

definition sent_whole :: "(HttpRequest \<Rightarrow> http_exn + HttpResponse) \<Rightarrow> string \<Rightarrow> bool" where
  "sent_whole cb s \<longleftrightarrow> (\<exists>rs. (\<forall>r\<in>set rs. legit cb r) \<and> s = concat (map dump rs))"

definition sent_cut :: "(HttpRequest \<Rightarrow> http_exn + HttpResponse) \<Rightarrow> string \<Rightarrow> bool" where
  "sent_cut cb s \<longleftrightarrow> (\<exists>s0 r n. sent_whole cb s0 \<and> legit cb r \<and> s = s0 @ take n (dump r))"

lemma sent_whole_Nil [simp]: "sent_whole cb []"
  by (auto simp: sent_whole_def intro: exI [of _ "[]"])

lemma sent_whole_append:
  assumes "sent_whole cb s" and "legit cb r"
  shows "sent_whole cb (s @ dump r)"
proof -
  obtain rs where "\<forall>r\<in>set rs. legit cb r" "s = concat (map dump rs)"
    using assms(1) by (auto simp: sent_whole_def)
  with assms(2) show ?thesis
    unfolding sent_whole_def by (intro exI [of _ "rs @ [r]"]) auto
qed

lemma sent_whole_cut: "sent_whole cb s \<Longrightarrow> sent_cut cb s"
  unfolding sent_cut_def legit_def by (metis append_Nil2 take0)

text \<open>The middle of writing: \<open>w\<close> bytes of a response are out.\<close>

definition writing :: "(HttpRequest \<Rightarrow> http_exn + HttpResponse) \<Rightarrow> nat \<Rightarrow> conn \<Rightarrow> bool" where
  "writing cb w c \<longleftrightarrow>
     ch_set (cn_h c) = only_OUT \<and> buff_ok c \<and> w \<le> length (ch_write_buff (cn_h c)) \<and>
     (\<exists>r s0. legit cb r \<and> ch_write_buff (cn_h c) = dump r \<and> sent_whole cb s0 \<and>
        io_sent (cn_io c) = s0 @ take w (dump r))"

definition reading :: "(HttpRequest \<Rightarrow> http_exn + HttpResponse) \<Rightarrow> conn \<Rightarrow> bool" where
  "reading cb c \<longleftrightarrow>
     ch_set (cn_h c) = only_IN \<and> buff_ok c \<and> sent_whole cb (io_sent (cn_io c))"

fun handler_inv :: "(HttpRequest \<Rightarrow> http_exn + HttpResponse) \<Rightarrow> pc \<Rightarrow> conn \<Rightarrow> bool" where
  "handler_inv cb PcEntry c = reading cb c"
| "handler_inv cb (PcReading p i) c = (reading cb c \<and> room i c)"
| "handler_inv cb (PcWriting w close) c = (writing cb w c \<and> w < length (ch_write_buff (cn_h c)))"
| "handler_inv cb (PcErrorWriting w) c = (writing cb w c \<and> w < length (ch_write_buff (cn_h c)))"

definition switch_post :: "(HttpRequest \<Rightarrow> http_exn + HttpResponse) \<Rightarrow> conn \<Rightarrow> switch \<Rightarrow> bool" where
  "switch_post cb c sw \<longleftrightarrow>
     conn_frame c (snd sw) \<and>
     (case fst sw of
        Yields pc \<Rightarrow> handler_inv cb pc (snd sw) \<and> stamped (snd sw)
      | _ \<Rightarrow> sent_cut cb (io_sent (cn_io (snd sw))))"

lemma switch_post_from: "conn_frame c d \<Longrightarrow> switch_post cb d sw \<Longrightarrow> switch_post cb c sw"
  by (auto simp: switch_post_def intro: conn_frame_trans)

lemma writing_post:
  assumes "writing cb w c" and "write_post w c r"
  shows "conn_frame c (snd r)"
    and "fst r = Suspend w' \<Longrightarrow> writing cb w' (snd r) \<and> w' < length (ch_write_buff (cn_h (snd r))) \<and> stamped (snd r)"
    and "fst r = Finish True \<Longrightarrow> ch_set (cn_h (snd r)) = only_OUT \<and> buff_ok (snd r) \<and>
      sent_whole cb (io_sent (cn_io (snd r)))"
    and "sent_cut cb (io_sent (cn_io (snd r)))"
    and "fst r = Raise e \<Longrightarrow> \<exists>m. e = WritingException m"
proof -
  obtain q s0 where q: "legit cb q" "ch_write_buff (cn_h c) = dump q" "sent_whole cb s0"
    "io_sent (cn_io c) = s0 @ take w (dump q)"
    using assms(1) by (auto simp: writing_def)
  have c: "conn_frame c (snd r)" "same_input c (snd r)" using assms(2) by (auto simp: write_post_def)
  have up: "io_sent (cn_io d) = s0 @ take w' (dump q) \<and> w' \<le> length (dump q)"
    if "sent_upto w w' c d" for w' d
    using that q substr_extend [of 0 w w' "dump q"] by (auto simp: sent_upto_def substr_def)
  show "conn_frame c (snd r)" by (fact c)
  show "writing cb w' (snd r) \<and> w' < length (ch_write_buff (cn_h (snd r))) \<and> stamped (snd r)"
    if "fst r = Suspend w'"
    using that assms c q up [of w' "snd r"]
    by (auto simp: write_post_def writing_def same_input_def buff_ok_def)
  show "ch_set (cn_h (snd r)) = only_OUT \<and> buff_ok (snd r) \<and> sent_whole cb (io_sent (cn_io (snd r)))"
    if "fst r = Finish True"
    using that assms c q up [of "length (dump q)" "snd r"] sent_whole_append [OF q(3,1)]
    by (auto simp: write_post_def writing_def same_input_def buff_ok_def)
  have "\<exists>w'. sent_upto w w' c (snd r)"
    using assms(2) by (auto simp: write_post_def split: outcome.splits bool.splits)
  then show "sent_cut cb (io_sent (cn_io (snd r)))"
    using up q unfolding sent_cut_def by blast
  show "\<exists>m. e = WritingException m" if "fst r = Raise e"
    using that assms(2) by (auto simp: write_post_def)
qed

lemma after_error_write_post:
  assumes "writing cb w c" and "write_post w c r"
  shows "switch_post cb c (after_error_write r)"
  using writing_post [OF assms] by (cases r; cases "fst r") (auto simp: after_error_write_def switch_post_def)

lemma start_writing:
  assumes "reading cb c" and "legit cb r"
  shows "writing cb 0 (on_h (\<lambda>h. h\<lparr>ch_write_buff := dump r\<rparr>) (on_h to_writing c))"
  using assms unfolding writing_def reading_def
  by (auto simp: to_writing_def to_write_mask buff_ok_def)

lemma writeResponse_post:
  assumes "reading cb c" and "legit cb r"
  defines "d \<equiv> on_h (\<lambda>h. h\<lparr>ch_write_buff := dump r\<rparr>) (on_h to_writing c)"
  shows "writing cb 0 d" and "write_post 0 d (writeResponse r (on_h to_writing c))"
    and "conn_frame c d"
  using start_writing [OF assms(1,2)] writeResponse_loop_post [of 0 d]
    conn_frame_trans [OF conn_frame_steps(6) conn_frame_steps(8), of c "dump r"]
  by (auto simp: d_def writeResponse_def)

lemma catch_exn_post:
  assumes "reading cb c"
  shows "switch_post cb c (catch_exn e c)"
proof (cases "\<exists>m code. e = ParsingException m code")
  case True
  then obtain m code where e: "e = ParsingException m code" by auto
  let ?r = "setStatusCode code HttpResponse_init"
  have l: "legit cb ?r" by (auto simp: legit_def)
  have rd: "reading cb (log_error m c)"
    using assms by (simp add: reading_def log_error_def buff_ok_def)
  note w = writeResponse_post [OF rd l]
  have "switch_post cb (log_error m c)
      (after_error_write (writeResponse ?r (on_h to_writing (log_error m c))))"
    by (rule switch_post_from [OF w(3) after_error_write_post [OF w(1,2)]])
  then show ?thesis
    unfolding e by (auto simp: catch_exn_def intro: switch_post_from [of c "log_error m c"])
next
  case False
  then show ?thesis
    using assms sent_whole_cut
    by (cases e) (auto simp: catch_exn_def switch_post_def reading_def log_error_def conn_frame_def)
qed

lemma after_write_post:
  assumes "writing cb w c" and "write_post w c r"
  shows "after_write close r = Inl sw \<Longrightarrow> switch_post cb c sw"
    and "after_write close r = Inr d \<Longrightarrow> conn_frame c d \<and> reading cb d"
proof -
  note p = writing_post [OF assms]
  obtain o1 c1 where r: "r = (o1, c1)" by fastforce
  show "switch_post cb c sw" if "after_write close r = Inl sw"
    using that p
    by (cases o1) (auto simp: r after_write_def switch_post_def catch_exn_def split: if_splits)
  show "conn_frame c d \<and> reading cb d" if "after_write close r = Inr d"
  proof -
    from that after_write_Inr [of close o1 c1 d] r have "o1 = Finish True" "d = on_h to_reading c1" by auto
    with p r show ?thesis
      by (auto simp: reading_def to_reading_def to_read_mask buff_ok_def conn_frame_def)
  qed
qed

lemma after_read_post:
  assumes "reading cb c" and "read_post c r"
  shows "after_read cb r = Inl sw \<Longrightarrow> switch_post cb c sw"
    and "after_read cb r = Inr d \<Longrightarrow> conn_frame c d \<and> reading cb d"
proof -
  obtain o1 c1 where r: "r = (o1, c1)" by fastforce
  have fr: "conn_frame c c1" and rd: "reading cb c1"
    using assms by (auto simp: r read_post_def reading_def same_output_def)
  have resp: "(after_write (shouldCloseAfterResponse req) (respond cb req c1) = Inl sw \<longrightarrow> switch_post cb c1 sw) \<and>
      (after_write (shouldCloseAfterResponse req) (respond cb req c1) = Inr d \<longrightarrow> conn_frame c1 d \<and> reading cb d)"
    for req sw d
  proof (cases "cb req")
    case (Inl e)
    then show ?thesis using catch_exn_post [OF rd] by (auto simp: respond_def after_write_def)
  next
    case (Inr resp)
    let ?r = "finish_response req resp"
    have "legit cb ?r" using Inr by (auto simp: legit_def)
    note w = writeResponse_post [OF rd this]
    have eq: "respond cb req c1 = writeResponse ?r (on_h to_writing c1)"
      using Inr by (simp add: respond_def)
    show ?thesis
      unfolding eq using after_write_post [OF w(1,2)] switch_post_from [OF w(3)]
        conn_frame_trans [OF w(3)] by blast
  qed
  show "switch_post cb c sw" if "after_read cb r = Inl sw"
  proof (rule switch_post_from [OF fr])
    show "switch_post cb c1 sw"
    proof (cases o1)
      case (Suspend x)
      then show ?thesis
        using that r assms rd by (cases x) (auto simp: after_read_def switch_post_def read_post_def)
    next
      case (Finish x)
      then show ?thesis
        using that r rd sent_whole_cut resp
        by (cases x) (auto simp: after_read_def switch_post_def reading_def)
    next
      case (Raise e)
      then show ?thesis using that r catch_exn_post [OF rd] by (auto simp: after_read_def)
    qed
  qed
  show "conn_frame c d \<and> reading cb d" if "after_read cb r = Inr d"
    using that r resp fr
    by (auto simp: after_read_def split: outcome.splits option.splits prod.splits
        intro: conn_frame_trans)
qed

lemma serve_post: "reading cb c \<Longrightarrow> switch_post cb c (serve cb c)"
proof (induction cb c rule: serve.induct)
  case (1 cb c)
  have "room 0 c" using 1(2) by (auto simp: reading_def buff_ok_def room_def)
  then have rp: "read_post c (readRequest c)" by (simp add: readRequest_def readRequest_loop_post)
  note post = after_read_post [OF 1(2) rp]
  show ?case
  proof (cases "after_read cb (readRequest c)")
    case (Inl sw)
    with post(1) show ?thesis by (simp add: serve.simps [of cb c])
  next
    case (Inr d)
    from post(2) [OF Inr] 1(1) [OF Inr] have "switch_post cb c (serve cb d)"
      by (auto intro: switch_post_from)
    with Inr show ?thesis by (simp add: serve.simps [of cb c])
  qed
qed

lemma go_on_post:
  assumes "\<And>sw. r = Inl sw \<Longrightarrow> switch_post cb c sw"
    and "\<And>d. r = Inr d \<Longrightarrow> conn_frame c d \<and> reading cb d"
  shows "switch_post cb c (go_on cb r)"
  using assms serve_post by (cases r) (auto simp: go_on_def intro: switch_post_from)

lemma timeout_write:
  "isTimeout (cn_h c) \<Longrightarrow>
     writeResponse_resume w c = (Raise (TimeoutException ''timeout writeResponse''), c)"
  by (simp add: writeResponse_resume_def)

lemma writing_cut: "writing cb w c \<Longrightarrow> sent_cut cb (io_sent (cn_io c))"
  by (auto simp: writing_def sent_cut_def)

lemma run_handler_post:
  assumes "handler_inv cb pc c"
  shows "switch_post cb c (run_handler cb pc c)"
proof (cases pc)
  case PcEntry
  with assms serve_post [of cb c] show ?thesis
    by (auto simp: switch_post_def reading_def intro: sent_whole_cut)
next
  case (PcReading p i)
  with assms have rd: "reading cb c" and rp: "read_post c (readRequest_resume p i c)"
    by (auto intro: readRequest_resume_post)
  have "switch_post cb c (go_on cb (after_read cb (readRequest_resume p i c)))"
    by (rule go_on_post) (rule after_read_post [OF rd rp], assumption)+
  with PcReading show ?thesis by simp
next
  case (PcWriting w close)
  with assms have w: "writing cb w c" "w \<le> length (ch_write_buff (cn_h c))" by auto
  show ?thesis
  proof (cases "isTimeout (cn_h c)")
    case True
    with PcWriting w writing_cut show ?thesis
      by (auto simp: timeout_write after_write_def go_on_def catch_exn_def switch_post_def
          log_error_def conn_frame_def)
  next
    case False
    note wp = writeResponse_resume_post [OF w(2) False]
    have "switch_post cb c (go_on cb (after_write close (writeResponse_resume w c)))"
      by (rule go_on_post) (rule after_write_post [OF w(1) wp], assumption)+
    with PcWriting show ?thesis by simp
  qed
next
  case (PcErrorWriting w)
  with assms have w: "writing cb w c" "w \<le> length (ch_write_buff (cn_h c))" by auto
  show ?thesis
  proof (cases "isTimeout (cn_h c)")
    case True
    with PcErrorWriting w writing_cut show ?thesis
      by (auto simp: timeout_write after_error_write_def switch_post_def)
  next
    case False
    with PcErrorWriting w show ?thesis
      by (auto intro: after_error_write_post writeResponse_resume_post)
  qed
qed

text \<open>With the time-out flag set a run of the body ends and changes nothing but the log.\<close>

lemma timeout_not_yields:
  assumes "isTimeout (cn_h c)"
  shows "fst (run_handler cb pc c) \<noteq> Yields pc'"
  using assms
  by (cases pc) (auto simp: readRequest_resume_def after_read_def catch_exn_def go_on_def
      timeout_write after_write_def after_error_write_def)

lemma timeout_run_keeps:
  assumes "isTimeout (cn_h c)" and "run_handler cb pc c = (res, c')"
  shows "cn_h c' = cn_h c" and "cn_io c' = cn_io c"
  using assms
  by (cases pc; auto simp: readRequest_resume_def after_read_def catch_exn_def go_on_def
      timeout_write after_write_def after_error_write_def log_error_def)+

section \<open>Reachable states\<close>

text \<open>
  A connection from its registration on. Between two switches the peer may send
  (\<open>deliver\<close>), the socket buffer may drain (\<open>drain\<close>), the clock runs (\<open>tick\<close>), and the worker
  may mark the handler as timed out (\<open>expire\<close>); \<open>switch\<close> is one resumption that suspends again.
\<close>

definition new_conn :: "int \<Rightarrow> routine_t \<Rightarrow> nat \<Rightarrow> rd_item list \<Rightarrow> wr_item list \<Rightarrow> conn" where
  "new_conn f rid now i out =
     \<lparr>cn_h = (ConnectionHandler_new f only_IN)\<lparr>ch_routine := Some rid\<rparr>, cn_io = io_init i out,
      cn_now = now, cn_log = []\<rparr>"

inductive conn_reach :: "(HttpRequest \<Rightarrow> http_exn + HttpResponse) \<Rightarrow> pc \<Rightarrow> conn \<Rightarrow> bool"
  for cb where
  start: "conn_reach cb PcEntry (new_conn f rid now i out)"
| deliver: "conn_reach cb pc c \<Longrightarrow>
    conn_reach cb pc (set_io ((cn_io c)\<lparr>io_in := io_in (cn_io c) @ items\<rparr>) c)"
| drain: "conn_reach cb pc c \<Longrightarrow>
    conn_reach cb pc (set_io ((cn_io c)\<lparr>io_out := io_out (cn_io c) @ rooms\<rparr>) c)"
| tick: "conn_reach cb pc c \<Longrightarrow> cn_now c \<le> t \<Longrightarrow> conn_reach cb pc (c\<lparr>cn_now := t\<rparr>)"
| expire: "conn_reach cb pc c \<Longrightarrow> conn_reach cb pc (on_h setTimeout c)"
| switch: "conn_reach cb pc c \<Longrightarrow> run_handler cb pc c = (Yields pc', c') \<Longrightarrow> conn_reach cb pc' c'"

lemma handler_inv_env:
  assumes "handler_inv cb pc c" and "cn_h c' = cn_h c \<or> cn_h c' = setTimeout (cn_h c)"
    and "io_sent (cn_io c') = io_sent (cn_io c)"
  shows "handler_inv cb pc c'"
  using assms
  by (cases pc) (auto simp: reading_def writing_def room_def buff_ok_def setTimeout_def)

lemma fresh_buffer_neq_Nil: "0 < initial_buffer_size"
  by (simp add: initial_buffer_size_def)

lemma conn_reach_inv: "conn_reach cb pc c \<Longrightarrow> handler_inv cb pc c \<and> getLastActivity (cn_h c) \<le> cn_now c"
proof (induction rule: conn_reach.induct)
  case (start f rid now i out)
  show ?case
    by (simp add: new_conn_def reading_def ConnectionHandler_new_def buff_ok_def
        fresh_buffer_neq_Nil io_init_def getLastActivity_def)
next
  case (switch pc c pc' c')
  with run_handler_post [of cb pc c] show ?case by (simp add: switch_post_def stamped_def)
next
  case (tick pc c t)
  then show ?case using handler_inv_env [of cb pc c "c\<lparr>cn_now := t\<rparr>"] by auto
qed (auto intro: handler_inv_env simp: getLastActivity_def setTimeout_def)

end
