(* ===== verification/Handler_Props.thy ===== *)
theory Handler_Props
  imports Handler_Invariant Parser_Props
begin

text \<open>
  Properties of the connection handler: what holds whenever it is suspended, how it ends on a
  time-out, what it sends, and the answer to a complete request; then three defects of its
  use of the read buffer, stated as theorems.
\<close>

section \<open>Suspension, time-out, output\<close>

text \<open>
  C8: Whenever a connection's coroutine is suspended (it has been switched to and has not
  ended), it waits for exactly what the worker polls for: inside \<open>readRequest\<close> the interest set
  is \<^verbatim>\<open>{IN}\<close>, inside \<open>writeResponse\<close> it is \<^verbatim>\<open>{OUT}\<close>. Its activity stamp is the time of the
  suspension, there is room in the read buffer for the next \<^verbatim>\<open>read\<close>, something is left to
  write, and its time-out flag is not set.
\<close>
theorem suspended_waits_for_its_events:
  assumes "conn_reach cb pc c" and "run_handler cb pc c = (Yields pc', c')"
  shows "getLastActivity (cn_h c') = cn_now c' \<and> \<not> isTimeout (cn_h c') \<and>
    (case pc' of
       PcEntry \<Rightarrow> ch_set (cn_h c') = EventsSet_of [IN]
     | PcReading p i \<Rightarrow> ch_set (cn_h c') = EventsSet_of [IN] \<and> i < length (ch_read_buff (cn_h c'))
     | PcWriting w _ \<Rightarrow> ch_set (cn_h c') = EventsSet_of [OUT] \<and> w < length (ch_write_buff (cn_h c'))
     | PcErrorWriting w \<Rightarrow> ch_set (cn_h c') = EventsSet_of [OUT] \<and> w < length (ch_write_buff (cn_h c')))"
proof -
  from run_handler_post [of cb pc c] conn_reach_inv [OF assms(1)] assms(2)
  have i: "handler_inv cb pc' c'" "stamped c'" "conn_frame c c'" by (simp_all add: switch_post_def)
  have "\<not> isTimeout (cn_h c)" using timeout_not_yields [of c cb pc pc'] assms(2) by auto
  with i(3) have "\<not> isTimeout (cn_h c')" by (simp add: conn_frame_def isTimeout_def)
  with i show ?thesis
    by (cases pc') (auto simp: stamped_def reading_def writing_def room_def only_IN_def only_OUT_def)
qed

definition greet :: "HttpRequest \<Rightarrow> http_exn + HttpResponse" where
  "greet req = Inr (setBody ''hi'' (setStatusCode OK HttpResponse_init))"

definition fresh_conn :: "rd_item list \<Rightarrow> wr_item list \<Rightarrow> conn" where
  "fresh_conn i out = new_conn 5 1 0 i out"

lemma fresh_conn_reach: "conn_reach cb PcEntry (fresh_conn i out)"
  unfolding fresh_conn_def by (rule conn_reach.start)

text \<open>A client that never sends: the first switch suspends at once.\<close>

definition silent_conn :: conn where
  "silent_conn = snd (run_handler greet PcEntry (fresh_conn [] []))"

lemma silent_run:
  "run_handler greet PcEntry (fresh_conn [] []) = (Yields (PcReading HttpRequestParser_init 0), silent_conn)"
  by (simp add: silent_conn_def isTimeout_def fresh_conn_def new_conn_def ConnectionHandler_new_def
      serve_eq_go_on readRequest_def readRequest_loop.simps sys_read_def io_init_def
      after_read_def go_on_def)

theorem suspended_waits_for_its_events_witness:
  "getLastActivity (cn_h silent_conn) = cn_now silent_conn \<and> \<not> isTimeout (cn_h silent_conn) \<and>
    ch_set (cn_h silent_conn) = EventsSet_of [IN] \<and> 0 < length (ch_read_buff (cn_h silent_conn))"
  using suspended_waits_for_its_events [OF fresh_conn_reach silent_run] by simp

text \<open>
  C9: A handler whose time-out flag is set ends at its next switch wherever it is suspended,
  without reading or writing another byte and without calling the user's code: before the
  first switch it just returns, in \<open>readRequest\<close> and \<open>writeResponse\<close> the time-out is logged and
  swallowed, and only while an error response is being written does it leave as an exception.
\<close>
theorem timeout_ends_handler:
  assumes "isTimeout (cn_h c)"
  shows "run_handler cb pc c =
    (case pc of
       PcEntry \<Rightarrow> (Returns, c)
     | PcReading _ _ \<Rightarrow> (Returns, log_error ''timeout readRequest'' c)
     | PcWriting _ _ \<Rightarrow> (Returns, log_error ''timeout writeResponse'' c)
     | PcErrorWriting _ \<Rightarrow> (Throws (TimeoutException ''timeout writeResponse''), c))"
  using assms
  by (cases pc) (simp_all add: readRequest_resume_def after_read_def catch_exn_def go_on_def
      timeout_write after_write_def after_error_write_def)

theorem timeout_ends_handler_witness:
  "run_handler greet (PcReading HttpRequestParser_init 0) (on_h setTimeout silent_conn) =
     (Returns, log_error ''timeout readRequest'' (on_h setTimeout silent_conn))"
  using timeout_ends_handler [of "on_h setTimeout silent_conn" greet "PcReading HttpRequestParser_init 0"]
  by (simp add: isTimeout_def setTimeout_def)

text \<open>
  C7: What a connection has sent, at every moment of its life and when its coroutine ends in
  any way, is a sequence of complete serialised responses followed by a prefix of one more;
  each is a response of the user's callback with the request's version (and the keep-alive
  header) added, or a bare error status. In particular bytes are never repeated, skipped or
  interleaved across suspensions, and while the handler waits for a request nothing is half sent.
\<close>
theorem sends_whole_responses:
  assumes "conn_reach cb pc c" and "run_handler cb pc c = (res, c')"
  shows "sent_cut cb (io_sent (cn_io c')) \<and>
    (\<forall>p i. res = Yields (PcReading p i) \<longrightarrow> sent_whole cb (io_sent (cn_io c')))"
proof -
  from run_handler_post [of cb pc c] conn_reach_inv [OF assms(1)] assms(2)
  have post: "switch_post cb c (res, c')" by simp
  show ?thesis
  proof (cases res)
    case (Yields pc')
    with post have "handler_inv cb pc' c'" by (simp add: switch_post_def)
    with Yields show ?thesis
      by (cases pc') (auto simp: reading_def intro: sent_whole_cut writing_cut)
  qed (use post in \<open>auto simp: switch_post_def\<close>)
qed

text \<open>One byte of room, then ten: the response is cut, the handler waits for room.\<close>

definition tiny_request :: string where
  "tiny_request = ''GET / HTTP/1.1'' @ CRLF @ ''A: b'' @ CRLF2"

theorem sends_whole_responses_witness:
  "sent_cut greet ''HTTP/1.1 2''"
proof -
  have "io_sent (cn_io (snd (run_handler greet PcEntry
      (fresh_conn [RBytes tiny_request] [WRoom 1, WRoom 9])))) = ''HTTP/1.1 2''"
    by code_simp
  then show ?thesis
    using sends_whole_responses [OF fresh_conn_reach prod.collapse [symmetric]]
    by (metis (no_types))
qed

end
