(* ===== verification/Handler_Request.thy ===== *)
theory Handler_Request
  imports Handler_Props
begin

text \<open>
  A complete request without a body, delivered in any pieces to a fresh connection, up to the
  bytes of the answer. The parser is shown one byte too many in every round; for such a
  request that byte does no harm as long as it is not a line feed.
\<close>

section \<open>The parser along the prefixes of a request\<close>

lemma find_sub_snoc:
  assumes "pat \<noteq> []" and "z \<noteq> last pat"
  shows "find_sub pat (s @ [z]) = find_sub pat s"
proof (cases "find_sub pat s")
  case (Some i)
  then show ?thesis by (simp add: find_sub_extend)
next
  case None
  have "\<not> prefix pat (drop j (s @ [z]))" if "j \<le> length (s @ [z])" for j
  proof
    assume p: "prefix pat (drop j (s @ [z]))"
    show False
    proof (cases "j \<le> length s")
      case False
      with that have "drop j (s @ [z]) = []" by simp
      with p assms(1) show False by simp
    next
      case True
      then have "drop j (s @ [z]) = drop j s @ [z]" by simp
      with p have "pat = drop j s @ [z] \<or> prefix pat (drop j s)" by simp
      with assms None True show False by (auto simp: find_sub_None)
    qed
  qed
  then have "find_sub pat (s @ [z]) = None" unfolding find_sub_None by blast
  with None show ?thesis by simp
qed

lemma find_sub_take:
  assumes "find_sub pat (take n s) = Some i"
  shows "find_sub pat s = Some i"
  using find_sub_extend [OF assms, of "drop n s"] by simp

definition ok_request :: "string \<Rightarrow> (string \<times> string) list \<Rightarrow> (string \<times> string) list \<Rightarrow> bool" where
  "ok_request path qs hs \<longleftrightarrow>
     ok_path path \<and> (\<forall>q\<in>set qs. ok_param q) \<and> hs \<noteq> [] \<and> (\<forall>h\<in>set hs. ok_header h)"

definition bodiless :: "HttpMethod \<Rightarrow> (string \<times> string) list \<Rightarrow> bool" where
  "bodiless meth hs \<longleftrightarrow> meth = GET \<or> meth = DELETE \<or> ci_find ''Content-Length'' hs = None"

text \<open>The parser after \<open>i\<close> bytes of the request.\<close>

definition parser_at ::
    "nat \<Rightarrow> HttpMethod \<Rightarrow> string \<Rightarrow> (string \<times> string) list \<Rightarrow> HttpVersion \<Rightarrow> nat \<Rightarrow> HttpRequestParser" where
  "parser_at b meth path qs v i =
     (if i < length (render_line meth path qs v) + 2 then HttpRequestParser_init
      else parsed_head b meth path qs v [])"

lemma parse_from_head:
  assumes "ok_path path" and "\<forall>q\<in>set qs. ok_param q"
  shows "parse (mk_message b (render_line meth path qs v @ CRLF @ rest)) (parsed_head b meth path qs v []) =
    parse (mk_message b (render_line meth path qs v @ CRLF @ rest)) HttpRequestParser_init"
  using request_line_block_render [OF assms, of b meth v rest]
  by (simp add: parse_def parsed_head_def HttpRequestParser_init_def)

lemma take_head:
  assumes "length (render_line meth path qs v) + 2 \<le> j"
  shows "take j (render_head meth path qs v hs) @ rest =
    render_line meth path qs v @ CRLF @
      (take (j - (length (render_line meth path qs v) + 2)) (lines_text (map render_header hs) @ CRLF) @ rest)"
  using assms by (simp add: render_head_def take_Cons' CRLF_def)

lemma parse_at_again:
  assumes "ok_request path qs hs" and "i \<le> j"
  shows "parse (mk_message b (take j (render_head meth path qs v hs) @ rest)) (parser_at b meth path qs v i) =
    parse (mk_message b (take j (render_head meth path qs v hs) @ rest)) HttpRequestParser_init"
proof (cases "i < length (render_line meth path qs v) + 2")
  case True
  then show ?thesis by (simp add: parser_at_def)
next
  case False
  with assms take_head [of meth path qs v j hs rest] show ?thesis
    using parse_from_head [of path qs b meth v] by (auto simp: parser_at_def ok_request_def)
qed

lemma parse_prefix:
  assumes ok: "ok_request path qs hs" and j: "j < length (render_head meth path qs v hs)" and z: "z \<noteq> LF"
  shows "\<exists>st. st \<noteq> DONE \<and>
    parse (mk_message b (take j (render_head meth path qs v hs) @ [z])) HttpRequestParser_init =
      (Inr st, parser_at b meth path qs v j)"
proof -
  let ?T = "render_head meth path qs v hs" and ?l = "render_line meth path qs v"
  let ?R = "lines_text (map render_header hs) @ CRLF"
  have line: "find_sub CRLF ?T = Some (length ?l)"
    using ok render_line_text [of path qs meth v]
    by (simp add: render_head_def ok_request_def find_sub_CRLF_first)
  have snoc: "find_sub CRLF (s @ [z]) = find_sub CRLF s" "find_sub CRLF2 (s @ [z]) = find_sub CRLF2 s" for s
    using z by (simp_all add: find_sub_snoc CRLF_def CRLF2_def)
  show ?thesis
  proof (cases "j < length ?l + 2")
    case True
    have "find_sub CRLF (take j ?T) = None"
    proof (rule ccontr)
      assume "find_sub CRLF (take j ?T) \<noteq> None"
      then obtain i where i: "find_sub CRLF (take j ?T) = Some i" by auto
      from find_sub_take [OF this] line have "i = length ?l" by simp
      with find_sub_length [OF i] True show False by simp
    qed
    with True show ?thesis
      by (intro exI [of _ READING_REQUEST_LINE])
         (simp add: parse_def request_line_block_def HttpRequestParser_init_def snoc
           parser_at_def headers_block_def body_block_def)
  next
    case False
    let ?k = "j - (length ?l + 2)"
    have t: "take j ?T @ [z] = ?l @ CRLF @ (take ?k ?R @ [z])"
      using take_head [of meth path qs v j hs "[z]"] False by simp
    have k: "?k < length ?R" using j False by (simp add: render_head_def)
    have hdr: "\<forall>l\<in>set (map render_header hs). CR \<notin> set l \<and> l \<noteq> []"
      using ok by (auto simp: ok_request_def render_header_text)
    have two: "2 \<le> length (lines_text (map render_header hs))"
      using ok by (cases hs) (auto simp: ok_request_def)
    have "find_sub CRLF2 (take ?k ?R) = None"
    proof (rule ccontr)
      assume "find_sub CRLF2 (take ?k ?R) \<noteq> None"
      then obtain e where e: "find_sub CRLF2 (take ?k ?R) = Some e" by auto
      have "find_sub CRLF2 (?R @ []) = Some (length (lines_text (map render_header hs)) - 2)"
        using find_sub_CRLF2_lines [OF _ hdr, of "[]"] ok by (simp add: ok_request_def)
      with find_sub_take [OF e] find_sub_length [OF e] k two show False by simp
    qed
    then have none: "find_sub CRLF2 (take ?k ?R @ [z]) = None" by (simp only: snoc)
    have at: "parser_at b meth path qs v j = parsed_head b meth path qs v []"
      using False by (simp add: parser_at_def)
    have "parse (mk_message b (?l @ CRLF @ X)) HttpRequestParser_init =
        (Inr READING_HEADERS, parsed_head b meth path qs v [])" if "find_sub CRLF2 X = None" for X
      using request_line_block_render [of path qs b meth v X] ok that
      by (simp add: parse_def ok_request_def HttpRequestParser_init_def parsed_head_def
          headers_block_def)
    from this [OF none] show ?thesis unfolding t at by blast
  qed
qed

section \<open>Reading the pieces\<close>

definition chunked :: "string list \<Rightarrow> rd_item list" where
  "chunked cs = map RBytes cs"

lemma sys_read_chunk:
  "io_in s = chunked (c # cs) \<Longrightarrow> c \<noteq> [] \<Longrightarrow> length c \<le> n \<Longrightarrow>
     sys_read n s = (Inr c, s\<lparr>io_in := chunked cs\<rparr>)"
  by (simp add: sys_read_def chunked_def)

definition plain_request ::
    "HttpMethod \<Rightarrow> string \<Rightarrow> (string \<times> string) list \<Rightarrow> HttpVersion \<Rightarrow> (string \<times> string) list \<Rightarrow> HttpRequest" where
  "plain_request meth path qs v hs = mk_HttpRequest (collect hs []) (collect qs []) [] path v meth"

text \<open>The buffer while the first \<open>i\<close> bytes of the request \<open>t\<close> are in it.\<close>

definition holds_prefix :: "string \<Rightarrow> nat \<Rightarrow> conn \<Rightarrow> bool" where
  "holds_prefix t i c \<longleftrightarrow>
     i \<le> length t \<and> i \<le> length (ch_read_buff (cn_h c)) \<and>
     take i (ch_read_buff (cn_h c)) = take i t \<and> LF \<notin> set (drop i (ch_read_buff (cn_h c)))"

lemma holds_prefix_text:
  assumes "holds_prefix t i c"
  obtains z where "request_text i (cn_h c) = take i t @ [z]" and "z \<noteq> LF"
proof -
  let ?b = "ch_read_buff (cn_h c)"
  have len: "i \<le> length ?b" using assms by (simp add: holds_prefix_def)
  have "request_text i (cn_h c) = take i ?b @ [(?b @ [NUL]) ! i]"
    using len by (simp add: request_text_def take_Suc_conv_app_nth nth_append del: append.simps)
  moreover have "(?b @ [NUL]) ! i \<noteq> LF"
  proof (cases "i < length ?b")
    case True
    then have "?b ! i \<in> set (drop i ?b)" by (metis Cons_nth_drop_Suc list.set_intros(1))
    with assms True show ?thesis by (auto simp: holds_prefix_def nth_append)
  next
    case False
    with len show ?thesis by (simp add: nth_append)
  qed
  ultimately show thesis using that assms by (simp add: holds_prefix_def)
qed

lemma read_round_prefix:
  assumes "holds_prefix t i c" and "read_round i c bs c1" and "bs = take n (drop i t)" and "i + n \<le> length t"
  shows "holds_prefix t (i + length bs) c1"
proof -
  note b = read_round_buff [OF assms(2)]
  have "set (drop (i + length bs) (ch_read_buff (cn_h c))) \<subseteq> set (drop i (ch_read_buff (cn_h c)))"
    by (simp add: set_drop_subset_set_drop)
  then show ?thesis
    using assms b by (auto simp: holds_prefix_def take_add)
qed

lemma grow_room: "i < length (ch_read_buff (cn_h c)) \<Longrightarrow> on_h (grow i) c = c"
  by (simp add: on_h_def grow_def)

lemma check_prefix:
  assumes "ok_request path qs hs" and "i \<le> j" and "j < length (render_head meth path qs v hs)"
    and "holds_prefix (render_head meth path qs v hs) j c" and "b = ch_alloc (cn_h c)"
  shows "readRequest_check (parser_at b meth path qs v i) j c =
    Inr (parser_at b meth path qs v j, on_h (grow j) c)"
proof -
  obtain z where z: "request_text j (cn_h c) = take j (render_head meth path qs v hs) @ [z]" "z \<noteq> LF"
    using assms(4) by (rule holds_prefix_text)
  obtain st where "st \<noteq> DONE"
    "parse (mk_message b (take j (render_head meth path qs v hs) @ [z])) (parser_at b meth path qs v i) =
      (Inr st, parser_at b meth path qs v j)"
    using parse_prefix [OF assms(1,3) z(2), of b] parse_at_again [OF assms(1,2), of b meth v "[z]"] by metis
  with z(1) assms(5) show ?thesis by (simp add: readRequest_check_def)
qed

lemma check_full:
  assumes ok: "ok_request path qs hs" and "bodiless meth hs"
    and i: "i \<le> length (render_head meth path qs v hs)"
    and h: "holds_prefix (render_head meth path qs v hs) (length (render_head meth path qs v hs)) c"
    and b: "b = ch_alloc (cn_h c)"
  shows "readRequest_check (parser_at b meth path qs v i) (length (render_head meth path qs v hs)) c =
    Inl (Inr (plain_request meth path qs v hs))"
proof -
  let ?T = "render_head meth path qs v hs"
  obtain z where z: "request_text (length ?T) (cn_h c) = ?T @ [z]"
    using h by (rule holds_prefix_text) auto
  have p: "parse (mk_message b (?T @ [z])) (parser_at b meth path qs v i) =
      (Inr DONE, (parsed_head b meth path qs v hs)\<lparr>hp_state := DONE\<rparr>)"
    using parse_at_again [OF ok i, of b meth v "[z]"] assms(1,2)
      parse_render_no_body [of path qs hs meth b v "[z]"]
    by (auto simp: ok_request_def bodiless_def)
  have buf: "ch_read_buff (cn_h c) = ?T @ drop (length ?T) (ch_read_buff (cn_h c))"
    using h append_take_drop_id [of "length ?T" "ch_read_buff (cn_h c)"]
    by (simp add: holds_prefix_def)
  have "read_view (handler_memory (cn_h c)) (View b (length (show_method meth) + 1) (length path)) = Some path"
    unfolding handler_memory_def b
    by (subst buf) (simp add: render_head_def render_line_def render_target_def substr_def)
  then have "buildRequest (handler_memory (cn_h c)) ((parsed_head b meth path qs v hs)\<lparr>hp_state := DONE\<rparr>)
      = Inr (plain_request meth path qs v hs)"
    by (simp add: buildRequest_def parsed_head_def HttpRequestParser_init_def plain_request_def)
  with p z b show ?thesis by (simp add: readRequest_check_def)
qed

text \<open>The loop over the pieces that are still to come.\<close>

lemma readRequest_loop_chunks:
  assumes ok: "ok_request path qs hs" and nb: "bodiless meth hs"
  shows "holds_prefix (render_head meth path qs v hs) i c \<Longrightarrow> b = ch_alloc (cn_h c) \<Longrightarrow>
    length (render_head meth path qs v hs) \<le> length (ch_read_buff (cn_h c)) \<Longrightarrow>
    io_in (cn_io c) = chunked cs \<Longrightarrow> [] \<notin> set cs \<Longrightarrow>
    concat cs = drop i (render_head meth path qs v hs) \<Longrightarrow> cs \<noteq> [] \<Longrightarrow>
    \<exists>c'. readRequest_loop (parser_at b meth path qs v i) i c =
        (Finish (Some (plain_request meth path qs v hs)), c') \<and> io_in (cn_io c') = []"
proof (induction cs arbitrary: i c)
  case Nil
  then show ?case by simp
next
  case (Cons bs cs)
  let ?T = "render_head meth path qs v hs"
  let ?n = "length (ch_read_buff (cn_h c)) - i"
  have bs: "bs \<noteq> []" using Cons.prems by auto
  have len: "i + length bs + length (concat cs) = length ?T"
    using arg_cong [OF Cons.prems(6), of length] Cons.prems(1)
    unfolding holds_prefix_def concat.simps length_append length_drop by linarith
  have fits: "length bs \<le> ?n" using len Cons.prems(3) by linarith
  have rd: "sys_read ?n (cn_io c) = (Inr bs, (cn_io c)\<lparr>io_in := chunked cs\<rparr>)"
    by (rule sys_read_chunk [OF Cons.prems(4) bs fits])
  define c1 where "c1 = on_h (fill i bs) (set_io ((cn_io c)\<lparr>io_in := chunked cs\<rparr>) c)"
  have r: "read_round i c bs c1" using rd bs by (auto simp: read_round_def c1_def)
  have piece: "bs = take (length bs) (drop i ?T)"
    using Cons.prems(6) by (metis append_eq_conv_conj concat.simps(2))
  have h1: "holds_prefix ?T (i + length bs) c1"
    using read_round_prefix [OF Cons.prems(1) r piece] len by simp
  have b1: "b = ch_alloc (cn_h c1)" using Cons.prems(2) read_round_buff(6) [OF r] by simp
  have step: "readRequest_loop (parser_at b meth path qs v i) i c =
      (case readRequest_check (parser_at b meth path qs v i) (i + length bs) c1 of
         Inl r \<Rightarrow> (finish_read r, c1) | Inr (p, c) \<Rightarrow> readRequest_loop p (i + length bs) c)"
    by (rule readRequest_loop_step [OF rd bs c1_def])
  have in1: "io_in (cn_io c1) = chunked cs" by (simp add: c1_def)
  have big1: "length ?T \<le> length (ch_read_buff (cn_h c1))"
    using Cons.prems(3) read_round_buff(1) [OF r] by simp
  show ?case
  proof (cases "cs = []")
    case True
    then have "i + length bs = length ?T" using len by simp
    with check_full [OF ok nb _ _ b1, of i v] h1 step in1 True show ?thesis
      by (simp add: finish_read_def chunked_def)
  next
    case False
    then have "concat cs \<noteq> []" using Cons.prems(5) by (cases cs) auto
    then have less: "i + length bs < length ?T" using len by (cases "concat cs") auto
    have rest: "concat cs = drop (i + length bs) ?T"
      using Cons.prems(6) by (metis append_eq_conv_conj concat.simps(2) drop_drop add.commute)
    from check_prefix [OF ok _ less h1 b1, of i] step
    have "readRequest_loop (parser_at b meth path qs v i) i c =
        readRequest_loop (parser_at b meth path qs v (i + length bs)) (i + length bs) c1"
      using less big1 by (simp add: grow_room)
    with Cons.IH [OF h1 b1 big1 in1 _ rest False] Cons.prems(5) show ?thesis by simp
  qed
qed

section \<open>Writing with enough room\<close>

lemma writeResponse_loop_room:
  "w \<le> length (ch_write_buff (cn_h c)) \<Longrightarrow> io_out (cn_io c) = map WRoom ks @ outs \<Longrightarrow> 0 \<notin> set ks \<Longrightarrow>
     length (ch_write_buff (cn_h c)) - w \<le> sum_list ks \<Longrightarrow>
     fst (writeResponse_loop w c) = Finish True"
proof (induction ks arbitrary: w c)
  case Nil
  then show ?case by (simp add: writeResponse_loop.simps)
next
  case (Cons k ks)
  let ?b = "ch_write_buff (cn_h c)"
  show ?case
  proof (cases "w = length ?b")
    case True
    then show ?thesis by (simp add: writeResponse_loop.simps)
  next
    case False
    define n where "n = min k (length ?b - w)"
    let ?s = "(cn_io c)\<lparr>io_out := map WRoom ks @ outs,
      io_sent := io_sent (cn_io c) @ take k (drop w ?b)\<rparr>"
    have wr: "sys_write (drop w ?b) (cn_io c) = (Inr n, ?s)"
      using Cons.prems(2) by (simp add: sys_write_def n_def)
    have n: "0 < n" using Cons.prems(1,3) False by (auto simp: n_def)
    have "writeResponse_loop w c = writeResponse_loop (w + n) (set_io ?s c)"
      using wr n False by (subst writeResponse_loop.simps) simp
    moreover have "fst (writeResponse_loop (w + n) (set_io ?s c)) = Finish True"
      by (rule Cons.IH) (use Cons.prems in \<open>auto simp: n_def min_def\<close>)
    ultimately show ?thesis by simp
  qed
qed

section \<open>The answer\<close>

lemma serve_nothing:
  assumes "io_in (cn_io c) = []"
  shows "\<exists>c'. serve cb c = (Yields (PcReading HttpRequestParser_init 0), c') \<and>
    io_sent (cn_io c') = io_sent (cn_io c)"
  using assms
  by (simp add: serve_eq_go_on readRequest_def readRequest_loop.simps sys_read_def after_read_def
      go_on_def updateLastActivity_def)

text \<open>A connection at the start of its coroutine, with such a request and such room in its script.\<close>

definition waits_at_entry :: "string list \<Rightarrow> nat list \<Rightarrow> conn \<Rightarrow> bool" where
  "waits_at_entry cs ks c \<longleftrightarrow>
     \<not> isTimeout (cn_h c) \<and> io_in (cn_io c) = chunked cs \<and> io_out (cn_io c) = map WRoom ks \<and>
     io_sent (cn_io c) = [] \<and> ch_read_buff (cn_h c) = replicate initial_buffer_size NUL"

lemma answers_entry:
  assumes "ok_request path qs hs" and "bodiless meth hs"
    and "length (render_head meth path qs v hs) \<le> 1024"
    and "concat cs = render_head meth path qs v hs" and "[] \<notin> set cs"
    and "cb (plain_request meth path qs v hs) = Inr resp"
    and "0 \<notin> set ks"
    and "length (dump (finish_response (plain_request meth path qs v hs) resp)) \<le> sum_list ks"
    and "waits_at_entry cs ks c"
  shows "\<exists>c'. run_handler cb PcEntry c =
      (if shouldCloseAfterResponse (plain_request meth path qs v hs) then Returns
       else Yields (PcReading HttpRequestParser_init 0), c') \<and>
    io_sent (cn_io c') = dump (finish_response (plain_request meth path qs v hs) resp)"
proof -
  let ?T = "render_head meth path qs v hs" and ?req = "plain_request meth path qs v hs"
  let ?r = "finish_response ?req resp"
  have c: "\<not> isTimeout (cn_h c)" "io_in (cn_io c) = chunked cs" "io_out (cn_io c) = map WRoom ks"
    "io_sent (cn_io c) = []" "ch_read_buff (cn_h c) = replicate 1024 NUL"
    using assms(9) by (simp_all add: waits_at_entry_def initial_buffer_size_def)
  have hold: "holds_prefix ?T 0 c" using assms(3) c(5) by (auto simp: holds_prefix_def)
  have ne: "cs \<noteq> []" using assms(4) by (auto simp: render_head_def CRLF_def)
  obtain c1 where rd: "readRequest_loop (parser_at (ch_alloc (cn_h c)) meth path qs v 0) 0 c =
      (Finish (Some ?req), c1)" and in1: "io_in (cn_io c1) = []"
    using readRequest_loop_chunks [OF assms(1,2) hold refl _ c(2) assms(5) _ ne] assms(3,4) c(5) by auto
  then have read: "readRequest c = (Finish (Some ?req), c1)" by (simp add: readRequest_def parser_at_def)
  have "room 0 c" using c(5) by (simp add: room_def)
  from readRequest_loop_post [OF this, of HttpRequestParser_init] read
  have same: "same_output c c1" by (simp add: read_post_def readRequest_def)
  define d where "d = on_h (\<lambda>h. h\<lparr>ch_write_buff := dump ?r\<rparr>) (on_h to_writing c1)"
  obtain out c2 where wr: "writeResponse_loop 0 d = (out, c2)" by fastforce
  have "io_out (cn_io d) = map WRoom ks @ []" "ch_write_buff (cn_h d) = dump ?r"
    using same c(3) by (simp_all add: d_def same_output_def)
  with writeResponse_loop_room [of 0 d ks "[]"] assms(7,8) wr have out: "out = Finish True" by simp
  have sent: "io_sent (cn_io c2) = dump ?r"
    using writeResponse_loop_post [of 0 d] wr out same c(4)
    by (simp add: write_post_def sent_upto_def d_def same_output_def substr_def)
  have in2: "io_in (cn_io c2) = []"
    using writeResponse_loop_in [OF wr] in1 by (simp add: d_def)
  have "respond cb ?req c1 = (Finish True, c2)"
    using assms(6) wr out by (simp add: respond_def writeResponse_def d_def)
  then have ar: "after_read cb (readRequest c) =
      (if shouldCloseAfterResponse ?req then Inl (Returns, c2) else Inr (on_h to_reading c2))"
    using read by (simp add: after_read_def after_write_def)
  show ?thesis
  proof (cases "shouldCloseAfterResponse ?req")
    case True
    with ar c(1) sent show ?thesis by (simp add: serve_eq_go_on go_on_def)
  next
    case False
    from serve_nothing [of "on_h to_reading c2" cb] in2 obtain c3 where
      "serve cb (on_h to_reading c2) = (Yields (PcReading HttpRequestParser_init 0), c3)"
      "io_sent (cn_io c3) = dump ?r" using sent by auto
    with ar c(1) False show ?thesis by (simp add: serve_eq_go_on go_on_def)
  qed
qed



end
