(* ===== verification/Handler_Defects.thy ===== *)
theory Handler_Defects
  imports Handler_Request
begin

text \<open>
  Three defects of the way \<open>readRequest\<close> shows its buffer to the parser, as theorems about the
  model: the byte behind the received ones counts as received, and the parser's view of the
  path does not survive a growth of the buffer.
\<close>

section \<open>A view into the freed buffer\<close>

text \<open>The parser has cut the path from a buffer that is gone.\<close>

definition path_dangles :: "HttpRequestParser \<Rightarrow> conn \<Rightarrow> bool" where
  "path_dangles p c \<longleftrightarrow>
     hp_state p \<noteq> READING_REQUEST_LINE \<and> hp_path p \<noteq> NullView \<and>
     view_base (hp_path p) < ch_alloc (cn_h c)"

lemma request_line_block_leaves:
  "request_line_block m p = (Inr m1, p1) \<Longrightarrow> hp_state p \<noteq> READING_REQUEST_LINE \<Longrightarrow>
     hp_state p1 \<noteq> READING_REQUEST_LINE"
  by (simp add: request_line_block_def)

lemma parse_keeps_past_line:
  assumes "parse m p = (Inr s, p')" and "hp_state p \<noteq> READING_REQUEST_LINE"
  shows "hp_state p' \<noteq> READING_REQUEST_LINE"
proof -
  let ?m = "remove_prefix (hp_parsed_total p) m"
  from assms obtain r p2 where b2: "headers_block ?m p = (Inr r, p2)"
    and b3: "(case r of None \<Rightarrow> (Inr (hp_state p2), p2) | Some m \<Rightarrow> body_block m p2) = (Inr s, p')"
    by (auto simp: parse_def and_then_Inr_iff)
  have "hp_state p2 \<noteq> READING_REQUEST_LINE"
  proof (cases r)
    case None
    with headers_block_Inr_None [OF b2 [unfolded None]] assms(2) show ?thesis by auto
  next
    case (Some m2)
    from headers_block_Inr_Some [OF b2 [unfolded Some]] assms(2) show ?thesis by auto
  qed
  with b3 show ?thesis by (cases r) (auto simp: body_block_def split: if_splits)
qed

lemma request_text_length:
  "i \<le> length (ch_read_buff h) \<Longrightarrow> length (request_text i h) = i + 1"
  by (simp add: request_text_def)

lemma check_dangling:
  assumes "path_dangles p c" and "parser_inv (i + 1) p" and "i \<le> length (ch_read_buff (cn_h c))"
  shows "readRequest_check p i c \<noteq> Inl (Inr req)"
    and "readRequest_check p i c = Inr (p', c') \<Longrightarrow> path_dangles p' c' \<and> parser_inv (i + 1) p'"
proof -
  let ?m = "mk_message (ch_alloc (cn_h c)) (request_text i (cn_h c))"
  have len: "length (m_text ?m) = i + 1" using request_text_length assms(3) by simp
  have keep: "hp_path q = hp_path p \<and> hp_state q \<noteq> READING_REQUEST_LINE" if "parse ?m p = (Inr s, q)" for s q
    using parse_views [OF that] parse_keeps_past_line [OF that] assms(1,2) len
    by (auto simp: path_dangles_def parser_inv_def)
  have dead: "read_view (handler_memory (cn_h c)) (hp_path p) = None"
    using assms(1) by (cases "hp_path p") (auto simp: path_dangles_def handler_memory_def)
  show "readRequest_check p i c \<noteq> Inl (Inr req)"
    using keep dead
    by (auto simp: readRequest_check_def buildRequest_def split: prod.splits sum.splits if_splits option.splits)
  show "path_dangles p' c' \<and> parser_inv (i + 1) p'" if "readRequest_check p i c = Inr (p', c')"
  proof -
    from that obtain st where st: "parse ?m p = (Inr st, p')" "st \<noteq> DONE" and c': "c' = on_h (grow i) c"
      by (auto simp: readRequest_check_def split: prod.splits sum.splits if_splits)
    have "parser_inv (i + 1) p'" using parse_inv_kept [OF st] assms(2) len by simp
    with keep [OF st(1)] assms(1) c' show ?thesis by (auto simp: path_dangles_def grow_def)
  qed
qed

lemma readRequest_loop_dangling:
  "path_dangles p c \<Longrightarrow> parser_inv (i + 1) p \<Longrightarrow>
     fst (readRequest_loop p i c) \<noteq> Finish (Some req)"
proof (induction p i c rule: readRequest_induct)
  case (round p i c)
  have keeps: "path_dangles p c1 \<and> parser_inv (i + length bs + 1) p \<and>
      i + length bs \<le> length (ch_read_buff (cn_h c1))" if "read_round i c bs c1" for bs c1
    using round(2,3) read_round_buff [OF that] parser_inv_mono [of "i + 1" p "i + length bs + 1"]
    by (auto simp: path_dangles_def)
  obtain r where r: "readRequest_loop p i c = r" by simp
  then show ?case
  proof (cases rule: readRequest_loop_cases)
    case (decided bs c1 res)
    with check_dangling(1) keeps show ?thesis
      unfolding r by (cases res) (auto simp: finish_read_def)
  next
    case (more bs c1 p' c2)
    from keeps [OF more(1)] check_dangling(2) [of p c1 "i + length bs" p' c2] more(2)
    have "path_dangles p' c2" "parser_inv (i + length bs + 1) p'" by auto
    from round(1) [OF more(1,2) this] more(3) r show ?thesis by simp
  qed (simp_all add: r)
qed

text \<open>Before the buffer has grown: the parser stands where the prefix leaves it.\<close>

lemma readRequest_loop_overlong:
  assumes ok: "ok_request path qs hs"
    and line: "length (render_line meth path qs v) + 2 \<le> cap"
    and long: "cap < length (render_head meth path qs v hs)"
  shows "holds_prefix (render_head meth path qs v hs) i c \<Longrightarrow>
    length (ch_read_buff (cn_h c)) = cap \<Longrightarrow> i < cap \<Longrightarrow>
    prefix (drop i (render_head meth path qs v hs)) (pending (io_in (cn_io c))) \<Longrightarrow>
    p = parser_at (ch_alloc (cn_h c)) meth path qs v i \<Longrightarrow>
    fst (readRequest_loop p i c) \<noteq> Finish (Some req)"
proof (induction p i c rule: readRequest_induct)
  case (round p i c)
  let ?T = "render_head meth path qs v hs" and ?b = "ch_alloc (cn_h c)"
  have piece: "holds_prefix ?T (i + length bs) c1 \<and> i + length bs \<le> cap \<and>
      length (ch_read_buff (cn_h c1)) = cap \<and> ch_alloc (cn_h c1) = ?b \<and>
      prefix (drop (i + length bs) ?T) (pending (io_in (cn_io c1)))"
    if "read_round i c bs c1" for bs c1
  proof -
    note d = read_roundD [OF that] and b = read_round_buff [OF that]
    have le: "i + length bs \<le> cap" using d(2) round(3) by simp
    obtain rest where "pending (io_in (cn_io c)) = drop i ?T @ rest"
      using round(5) by (auto simp: prefix_def)
    with d(9) have e: "bs @ pending (io_in (cn_io c1)) = drop i ?T @ rest" by simp
    have "length bs \<le> length (drop i ?T)" using le long by simp
    with e have bs: "bs = take (length bs) (drop i ?T)"
      by (metis append_eq_append_conv_if append_eq_conv_conj)
    then have "bs @ drop (length bs) (drop i ?T) = drop i ?T" by (metis append_take_drop_id)
    then have "drop i ?T = bs @ drop (i + length bs) ?T" by (simp add: add.commute)
    with e have "pending (io_in (cn_io c1)) = drop (i + length bs) ?T @ rest" by simp
    with read_round_prefix [OF round(2) that bs] le long b round(3) show ?thesis by simp
  qed
  have check: "readRequest_check p (i + length bs) c1 =
      Inr (parser_at ?b meth path qs v (i + length bs), on_h (grow (i + length bs)) c1)"
    if "read_round i c bs c1" for bs c1
    using check_prefix [OF ok, of i "i + length bs" meth v c1 ?b] piece [OF that] long round(6) by simp
  obtain r where r: "readRequest_loop p i c = r" by simp
  then show ?case
  proof (cases rule: readRequest_loop_cases)
    case (decided bs c1 res)
    with check [OF decided(1)] show ?thesis by simp
  next
    case (more bs c1 p' c2)
    let ?j = "i + length bs"
    from check [OF more(1)] more(2) have p': "p' = parser_at ?b meth path qs v ?j"
      and c2: "c2 = on_h (grow ?j) c1" by auto
    note pc = piece [OF more(1)]
    have "fst (readRequest_loop p' ?j c2) \<noteq> Finish (Some req)"
    proof (cases "?j < cap")
      case True
      then have "c2 = c1" using c2 pc by (simp add: grow_room)
      with round(1) [OF more(1,2)] pc True p' show ?thesis by simp
    next
      case False
      with pc have "?j = cap" by simp
      then have "path_dangles p' c2" "parser_inv (?j + 1) p'"
        using p' c2 pc line
        by (auto simp: path_dangles_def parser_at_def parsed_head_def grow_def parser_inv_def)
      then show ?thesis by (rule readRequest_loop_dangling)
    qed
    with more(3) r show ?thesis by simp
  qed (simp_all add: r)
qed

text \<open>
  C38: A well-formed request whose request line fits into the initial 1024 bytes of the read buffer and whose head does
  not never reaches the user's callback as defined behaviour in the first switch to its coroutine, if
  all of the head can be read then, in whatever pieces and whatever follows it: when the buffer is
  full it is doubled, the parser keeps the path as a view into the freed allocation, and building the
  request reads through that view (\<open>Undefined\<close> in the model, a use after free in the program).
\<close>

theorem long_request_never_built:
  assumes "ok_request path qs hs"
    and "length (render_line meth path qs v) + 2 \<le> 1024"
    and "1024 < length (render_head meth path qs v hs)"
    and "prefix (render_head meth path qs v hs) (pending items)"
  shows "fst (readRequest (new_conn f rid now items outs)) \<noteq> Finish (Some req)"
proof -
  let ?c = "new_conn f rid now items outs"
  have c: "ch_read_buff (cn_h ?c) = replicate 1024 NUL" "io_in (cn_io ?c) = items"
    by (simp_all add: new_conn_def ConnectionHandler_new_def io_init_def initial_buffer_size_def)
  have "fst (readRequest_loop HttpRequestParser_init 0 ?c) \<noteq> Finish (Some req)"
    by (rule readRequest_loop_overlong [OF assms(1,2,3)])
       (use assms(4) c in \<open>auto simp: holds_prefix_def parser_at_def\<close>)
  then show ?thesis by (simp add: readRequest_def)
qed

theorem long_request_never_built_witness:
  "\<forall>req. fst (readRequest (new_conn 5 1 0
      [RBytes (render_head GET ''/'' [] HTTP1_1 [(''A'', replicate 1024 CHR ''x'')])] []))
     \<noteq> Finish (Some req)"
proof
  fix req
  show "fst (readRequest (new_conn 5 1 0
      [RBytes (render_head GET ''/'' [] HTTP1_1 [(''A'', replicate 1024 CHR ''x'')])] []))
     \<noteq> Finish (Some req)"
    by (rule long_request_never_built [of "''/''" "[]" "[(''A'', replicate 1024 CHR ''x'')]" GET HTTP1_1])
       (simp_all add: ok_request_def ok_path_def ok_header_def render_head_def render_header_def
         render_line_def render_target_def CRLF_def)
qed

section \<open>The byte that has not been received\<close>

lemma read_view_prefix:
  assumes "mem b = Some (s @ rest)" and "read_view [b \<mapsto> s] (View b off len) = Some t"
  shows "read_view mem (View b off len) = Some t"
  using assms by (auto simp: substr_def split: if_splits)

text \<open>
  A body is accepted one byte early. When a request announces one byte more than has been
  received, \<open>readRequest\<close> does not wait for it: it returns a request whose body is the received
  bytes followed by the byte that happens to lie behind them in the buffer, on a fresh
  connection a NUL.
\<close>
theorem body_accepted_one_byte_early:
  assumes "ok_request path qs hs" and "meth = POST \<or> meth = PUT"
    and "ci_find ''Content-Length'' hs = Some (to_dec (length body + 1))"
    and "length (render_head meth path qs v hs @ body) \<le> 1024"
  shows "\<exists>c'. readRequest (new_conn f rid now [RBytes (render_head meth path qs v hs @ body)] outs) =
    (Finish (Some (mk_HttpRequest (collect hs []) (collect qs []) (body @ [NUL]) path v meth)), c')"
proof -
  let ?h = "render_head meth path qs v hs"
  let ?t = "?h @ body" and ?n = "1024 - length (?h @ body)"
  let ?c = "new_conn f rid now [RBytes ?t] outs"
  let ?s = "(cn_io ?c)\<lparr>io_in := []\<rparr>"
  define c1 where "c1 = on_h (fill 0 ?t) (set_io ?s ?c)"
  have ne: "?h \<noteq> []" by (simp add: render_head_def CRLF_def)
  have c: "ch_read_buff (cn_h ?c) = replicate 1024 NUL" "ch_alloc (cn_h ?c) = 0"
    "io_in (cn_io ?c) = [RBytes ?t]"
    by (simp_all add: new_conn_def ConnectionHandler_new_def io_init_def initial_buffer_size_def)
  have rd: "sys_read (length (ch_read_buff (cn_h ?c)) - 0) (cn_io ?c) = (Inr ?t, ?s)"
    using assms(4) ne c by (simp add: sys_read_def)
  have buf: "ch_read_buff (cn_h c1) = ?t @ replicate ?n NUL" "ch_alloc (cn_h c1) = 0"
    using c by (simp_all add: c1_def fill_def splice_def)
  have "replicate ?n NUL @ [NUL] = NUL # replicate ?n NUL" by (simp add: replicate_append_same)
  then have mem: "ch_read_buff (cn_h c1) @ [NUL] = (?t @ [NUL]) @ replicate ?n NUL"
    using buf(1) by simp
  then have shown: "request_text (length ?t) (cn_h c1) = ?t @ [NUL]"
    by (simp only: request_text_def) simp
  have "length body + 1 < 2 ^ 64"
    using assms(4) by simp
  then have "stoull (to_dec (length body + 1)) = Inr (length body + 1)" by (rule stoull_to_dec)
  from parse_render_body [OF _ _ _ _ assms(2,3) this, of path qs 0 v "body @ [NUL]"] assms(1)
  obtain p where p: "parse (mk_message 0 (?t @ [NUL])) HttpRequestParser_init = (Inr DONE, p)"
    "hp_body p = View 0 (length ?h) (length body + 1)"
    "hp_path p = View 0 (length (show_method meth) + 1) (length path)"
    "hp_headers p = collect hs []" "hp_query p = collect qs []" "hp_version p = v" "hp_method p = meth"
    by (auto simp: ok_request_def Let_def parsed_head_def)
  have "handler_memory (cn_h c1) 0 = Some ((?t @ [NUL]) @ replicate ?n NUL)"
    using buf(2) mem by (simp add: handler_memory_def)
  note view = read_view_prefix [of "handler_memory (cn_h c1)" 0 "?t @ [NUL]", OF this]
  have "read_view (handler_memory (cn_h c1)) (hp_body p) = Some (body @ [NUL])"
    unfolding p(2) by (rule view) (simp add: substr_def)
  moreover have "read_view (handler_memory (cn_h c1)) (hp_path p) = Some path"
    unfolding p(3)
    by (rule view) (simp add: substr_def render_head_def render_line_def render_target_def)
  ultimately have "readRequest_check HttpRequestParser_init (length ?t) c1 =
      Inl (Inr (mk_HttpRequest (collect hs []) (collect qs []) (body @ [NUL]) path v meth))"
    using p shown buf(2) by (simp add: readRequest_check_def buildRequest_def)
  moreover have "readRequest ?c =
      (case readRequest_check HttpRequestParser_init (length ?t) c1 of
         Inl r \<Rightarrow> (finish_read r, c1) | Inr (p, c) \<Rightarrow> readRequest_loop p (length ?t) c)"
    using readRequest_loop_step [OF rd _ c1_def, unfolded add_0] ne by (simp add: readRequest_def)
  ultimately show ?thesis by (simp add: finish_read_def)
qed

theorem body_accepted_one_byte_early_witness:
  "\<exists>c'. readRequest (new_conn 5 1 0
      [RBytes (render_head POST ''/'' [] HTTP1_1 [(''Content-Length'', ''4'')] @ ''abc'')] []) =
    (Finish (Some (mk_HttpRequest (collect [(''Content-Length'', ''4'')] []) (collect [] [])
       (''abc'' @ [NUL]) ''/'' HTTP1_1 POST)), c')"
proof (rule body_accepted_one_byte_early)
  have "to_dec (length ''abc'' + 1) = ''4''" by code_simp
  then show "ci_find ''Content-Length'' [(''Content-Length'', ''4'')] = Some (to_dec (length ''abc'' + 1))"
    by (simp add: dict_find_def ci.eq_refl)
  show "length (render_head POST ''/'' [] HTTP1_1 [(''Content-Length'', ''4'')] @ ''abc'') \<le> 1024"
    by code_simp
qed (simp_all add: ok_request_def ok_path_def ok_header_def)

section \<open>A byte of an earlier request\<close>

definition session_of :: "switch \<Rightarrow> (pc, http_exn) body_result \<times> string" where
  "session_of sw = (case sw of (res, c) \<Rightarrow> (res, io_sent (cn_io c)))"

definition tiny_response :: string where
  "tiny_response = ''HTTP/1.1 200 OK'' @ CRLF @ ''Content-Length:2'' @ CRLF2 @ ''hi''"

lemma three_requests_in_time:
  "session_of (run_handler greet PcEntry
     (fresh_conn [RBytes tiny_request, RBytes tiny_request, RBytes tiny_request]
       [WRoom 99, WRoom 99, WRoom 99])) =
   (Yields (PcReading HttpRequestParser_init 0), tiny_response @ tiny_response @ tiny_response)"
  by code_simp

text \<open>
  On a kept-alive connection the byte behind the received ones is one of an earlier request,
  and it can complete the next one. Three equal requests are answered with the callback's
  response each when they arrive whole; when the last byte of the second one arrives late,
  that request is answered before the byte, the byte is taken for the start of the third
  request, and the client's third, correct request gets a bare 400 and the connection is
  closed.
\<close>
theorem stale_byte_breaks_pipeline:
  "session_of (run_handler greet PcEntry
     (fresh_conn [RBytes tiny_request, RBytes tiny_request, RBytes tiny_request]
       [WRoom 99, WRoom 99, WRoom 99])) =
   (Yields (PcReading HttpRequestParser_init 0), tiny_response @ tiny_response @ tiny_response) \<and>
   session_of (run_handler greet PcEntry
     (fresh_conn [RBytes tiny_request, RBytes (butlast tiny_request), RBytes [LF], RBytes tiny_request]
       [WRoom 99, WRoom 99, WRoom 99])) =
   (Returns, tiny_response @ tiny_response @ ''HTTP/1.0 400 Bad Request'' @ CRLF2)"
proof (rule conjI [OF three_requests_in_time])
  show "session_of (run_handler greet PcEntry
     (fresh_conn [RBytes tiny_request, RBytes (butlast tiny_request), RBytes [LF], RBytes tiny_request]
       [WRoom 99, WRoom 99, WRoom 99])) =
   (Returns, tiny_response @ tiny_response @ ''HTTP/1.0 400 Bad Request'' @ CRLF2)"
    by code_simp
qed

end
