(* ===== verification/Coroutine_Pool.thy ===== *)
theory Coroutine_Pool
  imports Coroutine
begin

text \<open>
  What the clients of \<^verbatim>\<open>include/coroutine/coroutine.h\<close> rely on (the interface
  \<open>coroutine_pool\<close>), its implementation by the ordinator's table, and the history of a
  table: sequences of \<open>create\<close> and \<open>resume\<close> and how many slots they allocate.
\<close>

section \<open>The interface\<close>

locale coroutine_pool =
  fixes inv :: "'d \<Rightarrow> bool"
    and alive :: "'d \<Rightarrow> nat \<Rightarrow> bool"
    and at :: "'d \<Rightarrow> nat \<Rightarrow> 'k option"
    and spawn :: "'k option \<Rightarrow> 'd \<Rightarrow> nat \<times> 'd"
    and run :: "'k \<Rightarrow> 's \<Rightarrow> ('k, 'e) body_result \<times> 's"
    and go :: "nat \<Rightarrow> 'd \<Rightarrow> 's \<Rightarrow> ('e + bool) \<times> 'd \<times> 's"
  assumes spawn_inv: "inv d \<Longrightarrow> spawn f d = (i, d') \<Longrightarrow> inv d'"
    and spawn_fresh: "inv d \<Longrightarrow> spawn f d = (i, d') \<Longrightarrow> \<not> alive d i"
    and spawn_alive: "inv d \<Longrightarrow> spawn f d = (i, d') \<Longrightarrow> alive d' j \<longleftrightarrow> j = i \<or> alive d j"
    and spawn_at: "inv d \<Longrightarrow> spawn f d = (i, d') \<Longrightarrow> at d' i = f"
    and spawn_at_other: "inv d \<Longrightarrow> spawn f d = (i, d') \<Longrightarrow> alive d j \<Longrightarrow> at d' j = at d j"
    and go_inv: "inv d \<Longrightarrow> go i d s = (r, d', s') \<Longrightarrow> inv d'"
    and go_dead: "inv d \<Longrightarrow> \<not> alive d i \<Longrightarrow> go i d s = (Inr False, d, s)"
    and go_other: "inv d \<Longrightarrow> go i d s = (r, d', s') \<Longrightarrow> j \<noteq> i \<Longrightarrow>
      alive d' j = alive d j \<and> (alive d j \<longrightarrow> at d' j = at d j)"
    and go_alive: "inv d \<Longrightarrow> alive d i \<Longrightarrow> at d i = Some k \<Longrightarrow> go i d s = (r, d', s') \<Longrightarrow>
      s' = snd (run k s) \<and>
      (case fst (run k s) of
         Yields k' \<Rightarrow> r = Inr True \<and> alive d' i \<and> at d' i = Some k'
       | Returns \<Rightarrow> r = Inr False \<and> \<not> alive d' i
       | Throws e \<Rightarrow> r = Inl e \<and> \<not> alive d' i)"
begin

lemma go_result_true:
  assumes "inv d" and "alive d i" and "at d i = Some k" and "go i d s = (Inr True, d', s')"
  obtains k' where "run k s = (Yields k', s')" and "alive d' i" and "at d' i = Some k'"
  using go_alive [OF assms] by (cases "run k s") (auto split: body_result.splits)

lemma go_not_true_dies:
  assumes "inv d" and "alive d i \<Longrightarrow> at d i \<noteq> None" and "go i d s = (r, d', s')" and "r \<noteq> Inr True"
  shows "\<not> alive d' i"
proof (cases "alive d i")
  case True
  then obtain k where "at d i = Some k" using assms(2) by auto
  from go_alive [OF assms(1) True this assms(3)] assms(4) show ?thesis
    by (auto split: body_result.splits)
next
  case False
  then show ?thesis using go_dead [OF assms(1) False, of s] assms(3) by simp
qed

lemma go_shrinks:
  assumes "inv d" and "go i d s = (r, d', s')" and "alive d' j"
  shows "alive d j"
proof (cases "j = i")
  case False
  then show ?thesis using go_other [OF assms(1,2)] assms(3) by auto
next
  case True
  show ?thesis
  proof (rule ccontr)
    assume "\<not> alive d j"
    with True go_dead [OF assms(1), of i s] assms(2,3) show False by simp
  qed
qed

text \<open>A routine that has returned or thrown is inert: resuming it again changes nothing.\<close>

lemma finished_is_inert:
  assumes "inv d" and "alive d i \<Longrightarrow> at d i \<noteq> None" and "go i d s = (r, d', s')" and "r \<noteq> Inr True"
  shows "go i d' t = (Inr False, d', t)"
  using go_dead [OF go_inv [OF assms(1,3)] go_not_true_dies [OF assms]] .

text \<open>Starting a routine: what was alive stays as it was, the new id obeys its body.\<close>

lemma spawn_and_go:
  assumes "inv d" and "spawn (Some k) d = (i, d1)" and "go i d1 s = (r, d', s')"
  shows "inv d'" and "\<not> alive d i"
    and "alive d j \<Longrightarrow> alive d' j \<and> at d' j = at d j"
    and "s' = snd (run k s)"
    and "r = Inr True \<longleftrightarrow> (\<exists>k'. fst (run k s) = Yields k')"
    and "r = Inr True \<longleftrightarrow> alive d' i"
    and "fst (run k s) = Yields k' \<Longrightarrow> at d' i = Some k'"
    and "fst (run k s) = Throws e \<Longrightarrow> r = Inl e"
    and "alive d' j \<Longrightarrow> j = i \<or> alive d j"
proof -
  have inv1: "inv d1" by (rule spawn_inv [OF assms(1,2)])
  have al: "alive d1 i" using spawn_alive [OF assms(1,2)] by simp
  note laws = go_alive [OF inv1 al spawn_at [OF assms(1,2)] assms(3)]
  show "inv d'" by (rule go_inv [OF inv1 assms(3)])
  show fresh: "\<not> alive d i" by (rule spawn_fresh [OF assms(1,2)])
  show "alive d' j \<and> at d' j = at d j" if "alive d j"
    using that fresh go_other [OF inv1 assms(3), of j] spawn_alive [OF assms(1,2), of j]
      spawn_at_other [OF assms(1,2) that] by (cases "j = i") auto
  show "j = i \<or> alive d j" if "alive d' j"
    using go_shrinks [OF inv1 assms(3) that] spawn_alive [OF assms(1,2), of j] by simp
  show "s' = snd (run k s)" "r = Inr True \<longleftrightarrow> (\<exists>k'. fst (run k s) = Yields k')"
    "r = Inr True \<longleftrightarrow> alive d' i"
    "fst (run k s) = Yields k' \<Longrightarrow> at d' i = Some k'" "fst (run k s) = Throws e \<Longrightarrow> r = Inl e"
    using laws by (auto split: body_result.splits)
qed

end

section \<open>The table implements it\<close>

interpretation pool: coroutine_pool coro_inv live cont create run "resume run True"
  for run :: "'k \<Rightarrow> 's \<Rightarrow> ('k, 'e) body_result \<times> 's"
proof
  fix d :: "('k, 'e) Ordinator" and f i d' j
  assume "coro_inv d" "create f d = (i, d')"
  note laws = create_laws [OF this]
  show "coro_inv d'" "\<not> live d i" "live d' j \<longleftrightarrow> j = i \<or> live d j" "cont d' i = f"
    "live d j \<Longrightarrow> cont d' j = cont d j"
    using laws by auto
next
  fix d :: "('k, 'e) Ordinator" and i s r d' s' j
  assume a: "coro_inv d" "resume run True i d s = (r, d', s')"
  show "coro_inv d'" by (rule resume_keeps_inv [OF a])
  show "live d' j = live d j \<and> (live d j \<longrightarrow> cont d' j = cont d j)" if "j \<noteq> i"
    using only_changesD [OF resume_keeps_inv(2) [OF a] that] by auto
next
  fix d :: "('k, 'e) Ordinator" and i s
  show "\<not> live d i \<Longrightarrow> resume run True i d s = (Inr False, d, s)" by (rule resume_dead)
next
  fix d :: "('k, 'e) Ordinator" and i k s r d' s'
  assume a: "coro_inv d" "live d i" "cont d i = Some k" "resume run True i d s = (r, d', s')"
  from resume_live [OF a(1,2,3) _ a(4), of "fst (run k s)" "snd (run k s)"]
  show "s' = snd (run k s) \<and>
      (case fst (run k s) of
         Yields k' \<Rightarrow> r = Inr True \<and> live d' i \<and> cont d' i = Some k'
       | Returns \<Rightarrow> r = Inr False \<and> \<not> live d' i
       | Throws e \<Rightarrow> r = Inl e \<and> \<not> live d' i)"
    by (auto simp: resume_result_def split: body_result.splits)
qed

definition create_and_run ::
    "('k \<Rightarrow> 's \<Rightarrow> ('k, 'e) body_result \<times> 's) \<Rightarrow> bool \<Rightarrow> 'k option \<Rightarrow>
     ('k, 'e) Ordinator \<Rightarrow> 's \<Rightarrow> ('e + bool) \<times> ('k, 'e) Ordinator \<times> 's" where
  "create_and_run run switched f d s = (let (rid, d) = create f d in resume run switched rid d s)"

section \<open>How many slots a history needs\<close>

datatype 'k pool_call = Create "'k option" | Resume routine_t

fun pool_history ::
    "('k \<Rightarrow> 's \<Rightarrow> ('k, 'e) body_result \<times> 's) \<Rightarrow> 'k pool_call list \<Rightarrow>
     ('k, 'e) Ordinator \<Rightarrow> 's \<Rightarrow> ('k, 'e) Ordinator list" where
  "pool_history run [] d s = [d]"
| "pool_history run (Create f # cs) d s = d # pool_history run cs (snd (create f d)) s"
| "pool_history run (Resume rid # cs) d s =
     d # (case resume run True rid d s of (r, d', s') \<Rightarrow> pool_history run cs d' s')"

definition live_count :: "('k, 'e) Ordinator \<Rightarrow> nat" where
  "live_count d = length (filter (\<lambda>r. \<not> rt_finished r) (or_routines d))"

lemma live_count_card: "live_count d = card {i. live d i}"
proof -
  have "{i. live d i} = Suc ` {i. i < length (or_routines d) \<and> \<not> rt_finished (or_routines d ! i)}"
    by (auto simp: live_def image_iff Suc_le_eq gr0_conv_Suc)
  then show ?thesis by (simp add: live_count_def length_filter_conv_card card_image)
qed

lemma finite_live [simp]: "finite {i. live d i}"
  by (rule finite_subset [of _ "{..length (or_routines d)}"]) (auto simp: live_def)

lemma live_count_le: "live_count d \<le> length (or_routines d)"
  by (simp add: live_count_def)

lemma all_live_when_none_finished:
  "coro_inv d \<Longrightarrow> or_finished d = [] \<Longrightarrow> live_count d = length (or_routines d)"
proof -
  assume "coro_inv d" "or_finished d = []"
  then have "{i. live d i} = {1..length (or_routines d)}"
    by (auto simp: coro_inv_def live_def)
  then show ?thesis by (simp add: live_count_card)
qed

lemma create_slots:
  assumes "coro_inv d" and "create f d = (rid, d')"
  shows "length (or_routines d') = max (length (or_routines d)) (live_count d')"
    and "live_count d' = live_count d + 1"
proof -
  note laws = create_laws [OF assms]
  have "{i. live d' i} = insert rid {i. live d i}" using laws(4) by auto
  then show n: "live_count d' = live_count d + 1" using laws(2) by (simp add: live_count_card)
  show "length (or_routines d') = max (length (or_routines d)) (live_count d')"
  proof (cases "or_finished d = []")
    case True
    then show ?thesis using laws(7) n all_live_when_none_finished [OF assms(1) True] by simp
  next
    case False
    then show ?thesis using laws(7) live_count_le [of d'] by simp
  qed
qed

lemma resume_slots:
  assumes "coro_inv d" and "resume run switched rid d s = (r, d', s')"
  shows "length (or_routines d') = length (or_routines d)" and "live_count d' \<le> live_count d"
proof -
  have oc: "only_changes d rid d'" by (rule resume_keeps_inv [OF assms])
  then show "length (or_routines d') = length (or_routines d)" by (simp add: only_changes_def)
  have "live d i" if "live d' i" for i
  proof (cases "i = rid")
    case False
    then show ?thesis using only_changesD(1) [OF oc] that by simp
  next
    case True
    show ?thesis
    proof (rule ccontr)
      assume n: "\<not> live d i"
      then have "d' = d" using resume_dead [of d rid run switched s] assms(2) True by simp
      with n that show False by simp
    qed
  qed
  then show "live_count d' \<le> live_count d"
    unfolding live_count_card by (intro card_mono) auto
qed

lemma pool_history_nonempty [simp]: "pool_history run cs d s \<noteq> []"
  by (induction run cs d s rule: pool_history.induct) (auto split: prod.splits)

lemma pool_history_slots_aux:
  "coro_inv d \<Longrightarrow>
     length (or_routines (last (pool_history run cs d s))) =
       Max (insert (length (or_routines d)) (live_count ` set (pool_history run cs d s)))"
proof (induction run cs d s rule: pool_history.induct)
  case (1 run d s)
  then show ?case using live_count_le [of d] by (simp add: max_def)
next
  case (2 run f cs d s)
  obtain i d' where c: "create f d = (i, d')" by fastforce
  have inv': "coro_inv d'" by (rule create_laws [OF 2(2) c])
  let ?H = "pool_history run cs d' s"
  have first: "d' \<in> set ?H" by (cases cs rule: list.exhaust; cases "hd cs") auto
  have "length (or_routines (last ?H)) =
      Max (insert (length (or_routines d')) (live_count ` set ?H))"
    using 2(1) inv' c by simp
  also have "\<dots> = max (length (or_routines d')) (Max (live_count ` set ?H))" by (simp add: max_def)
  also have "\<dots> = max (length (or_routines d)) (Max (live_count ` set ?H))"
  proof -
    have "live_count d' \<le> Max (live_count ` set ?H)" using first by simp
    then show ?thesis unfolding create_slots(1) [OF 2(2) c] by simp
  qed
  finally show ?case using c live_count_le [of d] by simp
next
  case (3 run rid cs d s)
  obtain r d' s' where c: "resume run True rid d s = (r, d', s')" by (metis prod_cases3)
  have inv': "coro_inv d'" by (rule resume_keeps_inv [OF 3(2) c])
  let ?H = "pool_history run cs d' s'"
  have "length (or_routines (last ?H)) =
      Max (insert (length (or_routines d')) (live_count ` set ?H))"
    using 3(1) [OF c [symmetric]] inv' by simp
  then show ?case
    using c live_count_le [of d] resume_slots(1) [OF 3(2) c] by simp
qed

section \<open>Properties\<close>

text \<open>A small body for the witnesses: count down, one switch per step, and throw at 7.\<close>

definition countdown :: "nat \<Rightarrow> nat \<Rightarrow> (nat, string) body_result \<times> nat" where
  "countdown k s = (if k = 7 then (Throws ''seven'', s) else if k = 0 then (Returns, s) else (Yields (k - 1), s + 1))"

abbreviation no_routines :: "(nat, string) Ordinator" where
  "no_routines \<equiv> Ordinator_init"

abbreviation after :: "nat \<Rightarrow> (nat, string) Ordinator" where
  "after k \<equiv> fst (snd (create_and_run countdown True (Some k) no_routines 5))"

text \<open>
  C32: Starting a routine with \<open>create_and_run\<close> takes an id that no unfinished routine has, leaves
  every unfinished routine alive and suspended where it was, runs exactly the new routine's
  function once, up to its first switch, and reports what it did: \<^verbatim>\<open>true\<close> when it yielded,
  \<^verbatim>\<open>false\<close> when it returned, its exception when it threw; in the last two cases the slot is
  free again. The table stays well formed.
\<close>
theorem create_and_run_starts:
  assumes "coro_inv d" and "create_and_run run True (Some k) d s = (r, d', s')"
  shows "\<exists>rid. \<not> live d rid \<and> coro_inv d' \<and> s' = snd (run k s) \<and>
      (\<forall>j. live d j \<longrightarrow> live d' j \<and> cont d' j = cont d j) \<and>
      (\<forall>j. live d' j \<longrightarrow> j = rid \<or> live d j) \<and>
      resume_result (fst (run k s)) rid r d'"
proof -
  obtain rid d1 where c: "create (Some k) d = (rid, d1)" by fastforce
  with assms(2) have g: "resume run True rid d1 s = (r, d', s')" by (simp add: create_and_run_def)
  note laws = pool.spawn_and_go [OF assms(1) c g]
  have "resume_result (fst (run k s)) rid r d'"
    using resume_live [OF create_laws(1) [OF assms(1) c] _ create_laws(5) [OF assms(1) c] _ g]
      create_laws(4) [OF assms(1) c] by (metis prod.collapse)
  then show ?thesis using laws by blast
qed

theorem create_and_run_starts_witness:
  "\<exists>rid. \<not> live no_routines rid \<and> coro_inv (after 2) \<and> 6 = snd (countdown 2 5) \<and>
      (\<forall>j. live no_routines j \<longrightarrow> live (after 2) j \<and> cont (after 2) j = cont no_routines j) \<and>
      (\<forall>j. live (after 2) j \<longrightarrow> j = rid \<or> live no_routines j) \<and>
      resume_result (fst (countdown 2 5)) rid (Inr True) (after 2)"
proof (rule create_and_run_starts [OF coro_inv_init])
  show "create_and_run countdown True (Some 2) no_routines 5 = (Inr True, after 2, 6)"
    by code_simp
qed

text \<open>
  A routine that is over stays over: once \<open>resume\<close> of an id has reported anything but
  \<^verbatim>\<open>true\<close> after a switch (it returned \<^verbatim>\<open>false\<close> or rethrew the routine's exception), every later
  \<open>resume\<close> of that id returns \<^verbatim>\<open>false\<close>, runs nothing and changes neither the table nor the
  caller's state, so the exception is rethrown once only.
\<close>
theorem finished_routine_inert:
  assumes "coro_inv d" and "resume run True rid d s = (r, d', s')" and "r \<noteq> Inr True"
  shows "resume run switched rid d' t = (Inr False, d', t)"
proof (rule resume_dead)
  show "\<not> live d' rid"
  proof (cases "live d rid \<and> cont d rid = None")
    case True
    then show ?thesis using resume_empty_function [OF assms(1) _ _ assms(2)] by simp
  next
    case False
    then show ?thesis using pool.go_not_true_dies [OF assms(1) _ assms(2,3)] by auto
  qed
qed

theorem finished_routine_inert_witness:
  "resume countdown True 1 (after 7) 9 = (Inr False, after 7, 9)"
proof (rule finished_routine_inert)
  show "coro_inv (snd (create (Some 7) no_routines))"
    using create_laws(1) [OF coro_inv_init] by (metis prod.collapse)
  show "resume countdown True 1 (snd (create (Some 7) no_routines)) 5 = (Inl ''seven'', after 7, 5)"
    by code_simp
qed simp

text \<open>
  C33: Slots, and with them the 16 KiB stacks, are reused: over any history of \<open>create\<close> and \<open>resume\<close>
  calls from an empty ordinator, with any routine bodies, the table holds exactly as many slots
  as the largest number of routines that were unfinished at the same time.
\<close>
theorem pool_slots_are_peak:
  "length (or_routines (last (pool_history run cs Ordinator_init s))) =
     Max (live_count ` set (pool_history run cs Ordinator_init s))"
proof -
  have "length (or_routines (last (pool_history run cs Ordinator_init s))) =
      Max (insert (length (or_routines (Ordinator_init :: ('a, 'b) Ordinator)))
        (live_count ` set (pool_history run cs Ordinator_init s)))"
    by (rule pool_history_slots_aux [OF coro_inv_init])
  also have "\<dots> = Max (live_count ` set (pool_history run cs Ordinator_init s))"
    by (simp add: Ordinator_init_def)
  finally show ?thesis .
qed

end
