(* ===== verification/Epoller.thy ===== *)
theory Epoller
  imports Events Posix_IO "HOL-Library.AList"
begin

text \<open>
  \<^verbatim>\<open>include/tcp/excpetions.hpp\<close>, \<^verbatim>\<open>lib/tcp/exceptions.cpp\<close> and \<^verbatim>\<open>lib/tcp/epoller.cpp\<close>: the
  exceptions of the \<^verbatim>\<open>tcp\<close> library and the wrapper of one epoll descriptor. The kernel's
  interest list is part of the state; which \<^verbatim>\<open>epoll_ctl\<close> calls fail for want of resources is a
  script, and what \<^verbatim>\<open>epoll_wait\<close> returns is an argument.
\<close>

section \<open>Exceptions\<close>

record Sockinfo =
  si_address :: u32
  si_port :: u16

datatype ctl_op = EPOLL_CTL_ADD | EPOLL_CTL_MOD | EPOLL_CTL_DEL

datatype tcp_exn =
    Exception string
  | SocketOpeningException string string u16
  | SocketException string Sockinfo Sockinfo
  | ServerSocketException string Sockinfo
  | EpollCtlException string ctl_op
  | InterruptedException string

fun tcp_what :: "tcp_exn \<Rightarrow> string" where
  "tcp_what (Exception m) = m"
| "tcp_what (SocketOpeningException m _ _) = m"
| "tcp_what (SocketException m _ _) = m"
| "tcp_what (ServerSocketException m _) = m"
| "tcp_what (EpollCtlException m _) = m"
| "tcp_what (InterruptedException m) = m"

fun getHostname :: "tcp_exn \<Rightarrow> string option" where
  "getHostname (SocketOpeningException _ h _) = Some h"
| "getHostname _ = None"

fun getPort :: "tcp_exn \<Rightarrow> u16 option" where
  "getPort (SocketOpeningException _ _ p) = Some p"
| "getPort _ = None"

fun getLocal :: "tcp_exn \<Rightarrow> Sockinfo option" where
  "getLocal (SocketException _ l _) = Some l"
| "getLocal _ = None"

fun getRemote :: "tcp_exn \<Rightarrow> Sockinfo option" where
  "getRemote (SocketException _ _ r) = Some r"
| "getRemote _ = None"

fun getServerSocket :: "tcp_exn \<Rightarrow> Sockinfo option" where
  "getServerSocket (ServerSocketException _ s) = Some s"
| "getServerSocket _ = None"

fun getEpollCtlOp :: "tcp_exn \<Rightarrow> ctl_op option" where
  "getEpollCtlOp (EpollCtlException _ op) = Some op"
| "getEpollCtlOp _ = None"

section \<open>The kernel's side\<close>

text \<open>
  \<^verbatim>\<open>epoll_ctl\<close>: adding a descriptor twice and changing an absent one fail, and so does any call
  whose turn in the script is \<open>False\<close>. Closing a descriptor takes it out of the list.
\<close>

record epoll =
  ep_interest :: "(int \<times> u32) list"
  ep_script :: "bool list"

definition epoll_allowed :: "epoll \<Rightarrow> bool" where
  "epoll_allowed k = (case ep_script k of [] \<Rightarrow> True | b # _ \<Rightarrow> b)"

fun epoll_ctl :: "ctl_op \<Rightarrow> int \<Rightarrow> u32 \<Rightarrow> epoll \<Rightarrow> bool \<times> epoll" where
  "epoll_ctl op fd ev k =
     (let k' = k\<lparr>ep_script := tl (ep_script k)\<rparr>;
          present = map_of (ep_interest k) fd \<noteq> None
      in if \<not> epoll_allowed k \<or> (present = (op = EPOLL_CTL_ADD)) then (False, k')
         else (True, case op of
                 EPOLL_CTL_DEL \<Rightarrow> k'\<lparr>ep_interest := AList.delete fd (ep_interest k)\<rparr>
               | _ \<Rightarrow> k'\<lparr>ep_interest := AList.update fd ev (ep_interest k)\<rparr>))"

definition epoll_forget :: "int \<Rightarrow> epoll \<Rightarrow> epoll" where
  "epoll_forget fd k = k\<lparr>ep_interest := AList.delete fd (ep_interest k)\<rparr>"

text \<open>\<^verbatim>\<open>epoll_wait\<close>: a time-out is the empty list of events.\<close>

datatype wait_outcome = Triggered "int list" | WaitError errno

section \<open>The wrapper\<close>

definition Epoller_new :: "bool \<Rightarrow> tcp_exn + epoll" where
  "Epoller_new created =
     (if created then Inr \<lparr>ep_interest = [], ep_script = []\<rparr>
      else Inl (Exception ''unable to create epoll''))"

definition add :: "int \<Rightarrow> EventsSet \<Rightarrow> epoll \<Rightarrow> (tcp_exn + unit) \<times> epoll" where
  "add fd events k =
     (case epoll_ctl EPOLL_CTL_ADD fd (ev_data events) k of
        (False, k) \<Rightarrow> (Inl (EpollCtlException ''unable to add event to epoll'' EPOLL_CTL_MOD), k)
      | (True, k) \<Rightarrow> (Inr (), k))"

definition modify :: "int \<Rightarrow> EventsSet \<Rightarrow> epoll \<Rightarrow> (tcp_exn + unit) \<times> epoll" where
  "modify fd events k =
     (case epoll_ctl EPOLL_CTL_MOD fd (ev_data events) k of
        (False, k) \<Rightarrow> (Inl (EpollCtlException ''unable to modify event in epoll'' EPOLL_CTL_MOD), k)
      | (True, k) \<Rightarrow> (Inr (), k))"

definition remove :: "int \<Rightarrow> epoll \<Rightarrow> (tcp_exn + unit) \<times> epoll" where
  "remove fd k =
     (case epoll_ctl EPOLL_CTL_DEL fd 0 k of
        (False, k) \<Rightarrow> (Inl (EpollCtlException ''unable to remove event from epoll'' EPOLL_CTL_DEL), k)
      | (True, k) \<Rightarrow> (Inr (), k))"

definition wait_with_timeout :: "wait_outcome \<Rightarrow> tcp_exn + int list option" where
  "wait_with_timeout w =
     (case w of
        Triggered [] \<Rightarrow> Inr None
      | Triggered fds \<Rightarrow> Inr (Some fds)
      | WaitError e \<Rightarrow>
          if e = EINTR then Inl (InterruptedException ''epoll_wait was interrupted'')
          else Inl (Exception (''fail on epoll_wait '' @ strerror e)))"

text \<open>\<^verbatim>\<open>wait()\<close> on the outcomes of its successive \<^verbatim>\<open>epoll_wait\<close> calls; \<open>None\<close> is "still waiting".\<close>

fun wait :: "wait_outcome list \<Rightarrow> (tcp_exn + int list) option" where
  "wait [] = None"
| "wait (w # ws) =
     (case wait_with_timeout w of
        Inl e \<Rightarrow> Some (Inl e)
      | Inr None \<Rightarrow> wait ws
      | Inr (Some fds) \<Rightarrow> Some (Inr fds))"

section \<open>The interest list as a map\<close>

definition watched :: "epoll \<Rightarrow> int \<rightharpoonup> u32" where
  "watched k = map_of (ep_interest k)"

lemma add_cases:
  obtains (ok) k' where "add fd ev k = (Inr (), k')" and "watched k' = (watched k)(fd \<mapsto> ev_data ev)"
      and "watched k fd = None"
  | (failed) k' where "add fd ev k = (Inl (EpollCtlException ''unable to add event to epoll'' EPOLL_CTL_MOD), k')"
      and "watched k' = watched k"
proof (cases "epoll_allowed k \<and> map_of (ep_interest k) fd = None")
  case True
  then show thesis
    by (intro ok) (auto simp: add_def Let_def watched_def update_conv')
next
  case False
  then show thesis
    by (intro failed [of "k\<lparr>ep_script := tl (ep_script k)\<rparr>"]) (auto simp: add_def Let_def watched_def)
qed

lemma modify_cases:
  obtains (ok) k' where "modify fd ev k = (Inr (), k')" and "watched k' = (watched k)(fd \<mapsto> ev_data ev)"
      and "watched k fd \<noteq> None"
  | (failed) k' where "modify fd ev k = (Inl (EpollCtlException ''unable to modify event in epoll'' EPOLL_CTL_MOD), k')"
      and "watched k' = watched k"
proof (cases "epoll_allowed k \<and> map_of (ep_interest k) fd \<noteq> None")
  case True
  then show thesis
    by (intro ok) (auto simp: modify_def Let_def watched_def update_conv')
next
  case False
  then show thesis
    by (intro failed [of "k\<lparr>ep_script := tl (ep_script k)\<rparr>"]) (auto simp: modify_def Let_def watched_def)
qed

lemma watched_forget [simp]: "watched (epoll_forget fd k) = (watched k)(fd := None)"
  by (simp add: watched_def epoll_forget_def delete_conv')

end
