(* ===== verification/Http_Worker.thy ===== *)
theory Http_Worker
  imports Handler_Invariant Coroutine_Pool Epoller
begin

text \<open>
  \<^verbatim>\<open>include/http/http_worker.hpp\<close> and \<^verbatim>\<open>lib/http/http_worker.cpp\<close>: one worker thread. It owns an
  epoll descriptor, a table of connection handlers by descriptor, and (thread local) an
  ordinator with one coroutine per handler. The rest of the process is explicit: the sockets
  as scripts, the open descriptors, the calls of \<^verbatim>\<open>close\<close> in order, the clock and the log.

  A coroutine is the pair of the descriptor whose handler it runs and that handler's \<open>pc\<close>.
\<close>

section \<open>State\<close>

definition TIMER_TICK :: int where
  "TIMER_TICK = 250"

record net =
  nt_coroutines :: "(int \<times> ConnectionHandler) list"
  nt_epoll :: epoll
  nt_ios :: "int \<Rightarrow> io"
  nt_open :: "int list"
  nt_closes :: "int list"
  nt_now :: nat
  nt_log :: "string list"

type_synonym ordinator = "(int \<times> pc, http_exn) Ordinator"

record worker =
  hw_ord :: ordinator
  hw_net :: net

record config =
  cf_callback :: "HttpRequest \<Rightarrow> http_exn + HttpResponse"
  cf_timeout_threshold :: int
  cf_server_fd :: int

definition HttpWorker_new :: "(int \<Rightarrow> io) \<Rightarrow> bool list \<Rightarrow> int \<Rightarrow> nat \<Rightarrow> worker" where
  "HttpWorker_new ios ctl server now =
     \<lparr>hw_ord = Ordinator_init,
      hw_net = \<lparr>nt_coroutines = [], nt_epoll = \<lparr>ep_interest = [], ep_script = ctl\<rparr>, nt_ios = ios,
        nt_open = [server], nt_closes = [], nt_now = now, nt_log = []\<rparr>\<rparr>"

definition handler_of :: "net \<Rightarrow> int \<rightharpoonup> ConnectionHandler" where
  "handler_of n = map_of (nt_coroutines n)"

definition sys_close :: "int \<Rightarrow> net \<Rightarrow> net" where
  "sys_close fd n =
     n\<lparr>nt_closes := nt_closes n @ [fd], nt_open := removeAll fd (nt_open n),
       nt_epoll := epoll_forget fd (nt_epoll n)\<rparr>"

definition log_net :: "string \<Rightarrow> net \<Rightarrow> net" where
  "log_net m n = n\<lparr>nt_log := nt_log n @ [m]\<rparr>"

text \<open>\<^verbatim>\<open>coroutines.erase(fd)\<close>: the element is destroyed, and its destructor closes its descriptor.\<close>

definition erase :: "int \<Rightarrow> net \<Rightarrow> net" where
  "erase fd n =
     (case handler_of n fd of
        None \<Rightarrow> n
      | Some h \<Rightarrow>
          fold sys_close (ConnectionHandler_delete h)
            (n\<lparr>nt_coroutines := AList.delete fd (nt_coroutines n)\<rparr>))"

section \<open>Running a handler's coroutine\<close>

definition conn_of :: "net \<Rightarrow> int \<Rightarrow> ConnectionHandler \<Rightarrow> conn" where
  "conn_of n fd h = \<lparr>cn_h = h, cn_io = nt_ios n fd, cn_now = nt_now n, cn_log = nt_log n\<rparr>"

definition put_conn :: "int \<Rightarrow> conn \<Rightarrow> net \<Rightarrow> net" where
  "put_conn fd c n =
     n\<lparr>nt_coroutines := AList.update fd (cn_h c) (nt_coroutines n),
       nt_ios := (nt_ios n)(fd := cn_io c), nt_log := cn_log c\<rparr>"

fun tag_result :: "int \<Rightarrow> (pc, http_exn) body_result \<Rightarrow> (int \<times> pc, http_exn) body_result" where
  "tag_result fd (Yields pc) = Yields (fd, pc)"
| "tag_result fd Returns = Returns"
| "tag_result fd (Throws e) = Throws e"

text \<open>The function object of a coroutine is a reference to the handler in the table.\<close>

definition run_conn ::
    "(HttpRequest \<Rightarrow> http_exn + HttpResponse) \<Rightarrow> int \<times> pc \<Rightarrow> net \<Rightarrow> (int \<times> pc, http_exn) body_result \<times> net" where
  "run_conn cb k n =
     (case k of (fd, pc) \<Rightarrow>
        case handler_of n fd of
          None \<Rightarrow> (Throws Undefined, n)
        | Some h \<Rightarrow>
            (case run_handler cb pc (conn_of n fd h) of (r, c) \<Rightarrow> (tag_result fd r, put_conn fd c n)))"

definition handler_resume :: "config \<Rightarrow> ConnectionHandler \<Rightarrow> worker \<Rightarrow> (http_exn + bool) \<times> worker" where
  "handler_resume cf h w =
     (case ch_routine h of
        None \<Rightarrow> (Inr True, w)
      | Some rid \<Rightarrow>
          (case resume (run_conn (cf_callback cf)) True rid (hw_ord w) (hw_net w) of
             (r, d, n) \<Rightarrow> (r, w\<lparr>hw_ord := d, hw_net := n\<rparr>)))"

definition on_net :: "(net \<Rightarrow> net) \<Rightarrow> worker \<Rightarrow> worker" where
  "on_net f w = w\<lparr>hw_net := f (hw_net w)\<rparr>"

lemma worker_simps [simp]:
  "hw_ord (on_net f w) = hw_ord w" "hw_net (on_net f w) = f (hw_net w)"
  by (simp_all add: on_net_def)

section \<open>The worker's operations\<close>

definition resumeHandler :: "config \<Rightarrow> int \<Rightarrow> worker \<Rightarrow> worker" where
  "resumeHandler cf client_fd w =
     (case handler_of (hw_net w) client_fd of
        None \<Rightarrow> w
      | Some handler \<Rightarrow>
          let events_before = getEventsSet handler
          in case handler_resume cf handler w of
               (Inl e, w) \<Rightarrow> on_net (log_net (what e)) (on_net (erase client_fd) w)
             | (Inr False, w) \<Rightarrow> on_net (erase client_fd) w
             | (Inr True, w) \<Rightarrow>
                 (case handler_of (hw_net w) client_fd of
                    None \<Rightarrow> w
                  | Some handler \<Rightarrow>
                      if ev_neq events_before (getEventsSet handler) then
                        case modify client_fd (getEventsSet handler) (nt_epoll (hw_net w)) of
                          (Inr _, k) \<Rightarrow> on_net (\<lambda>n. n\<lparr>nt_epoll := k\<rparr>) w
                        | (Inl e, k) \<Rightarrow>
                            on_net (log_net (tcp_what e))
                              (on_net (erase client_fd) (on_net (\<lambda>n. n\<lparr>nt_epoll := k\<rparr>) w))
                      else w))"

text \<open>The handler is built, moved into the table, given a coroutine and resumed.\<close>

definition registerHandler :: "config \<Rightarrow> int \<Rightarrow> worker \<Rightarrow> worker" where
  "registerHandler cf client_fd w =
     (let handler = fst (move_ctor (ConnectionHandler_new client_fd (EventsSet_of [IN])));
          (rid, d) = create (Some (client_fd, PcEntry)) (hw_ord w);
          handler = handler\<lparr>ch_routine := Some rid\<rparr>
      in resumeHandler cf client_fd
           (w\<lparr>hw_ord := d,
              hw_net := (hw_net w)\<lparr>nt_coroutines :=
                AList.update client_fd handler (nt_coroutines (hw_net w))\<rparr>\<rparr>))"

text \<open>
  \<^verbatim>\<open>accept4\<close> in a loop. The argument is the sequence of its results, a new socket coming with its
  script; when it is used up there is no pending connection (\<^verbatim>\<open>EAGAIN\<close>).
\<close>

fun registerClients :: "(errno + int \<times> io) list \<Rightarrow> worker \<Rightarrow> worker" where
  "registerClients [] w = w"
| "registerClients (Inl e # rest) w =
     (if e = EAGAIN then w
      else if e = ECONNABORTED \<or> e = EINTR \<or> e = EPERM then registerClients rest w
      else registerClients rest (on_net (log_net ''unable to accept connection'') w))"
| "registerClients (Inr (clientfd, s) # rest) w =
     (let w = on_net (\<lambda>n. n\<lparr>nt_open := clientfd # nt_open n, nt_ios := (nt_ios n)(clientfd := s)\<rparr>) w
      in case add clientfd (EventsSet_of [IN]) (nt_epoll (hw_net w)) of
           (_, k) \<Rightarrow> registerClients rest (on_net (\<lambda>n. n\<lparr>nt_epoll := k\<rparr>) w))"

definition handleEvent :: "config \<Rightarrow> (errno + int \<times> io) list \<Rightarrow> int \<Rightarrow> worker \<Rightarrow> worker" where
  "handleEvent cf accepts client_fd w =
     (if client_fd = cf_server_fd cf then registerClients accepts w
      else case handler_of (hw_net w) client_fd of
             None \<Rightarrow> registerHandler cf client_fd w
           | Some _ \<Rightarrow> resumeHandler cf client_fd w)"

definition handleEvents :: "config \<Rightarrow> (errno + int \<times> io) list \<Rightarrow> int list \<Rightarrow> worker \<Rightarrow> worker" where
  "handleEvents cf accepts events w = fold (handleEvent cf accepts) events w"

text \<open>One element of the table in \<^verbatim>\<open>scheduleTimeoutHandler\<close>.\<close>

definition mark_timeout :: "int \<Rightarrow> net \<Rightarrow> net" where
  "mark_timeout fd n = n\<lparr>nt_coroutines := AList.map_entry fd setTimeout (nt_coroutines n)\<rparr>"

definition expire_handler :: "config \<Rightarrow> int \<Rightarrow> ConnectionHandler \<Rightarrow> worker \<Rightarrow> worker" where
  "expire_handler cf fd handler w =
     (let w = on_net (mark_timeout fd) w;
          w = (case handler_resume cf (setTimeout handler) w of
                 (Inl e, w) \<Rightarrow>
                   on_net (log_net (''coroutine throwed exception on closing :'' @ what e)) w
               | (Inr _, w) \<Rightarrow> w)
      in on_net (erase fd) (on_net (sys_close fd) w))"

definition idle :: "config \<Rightarrow> nat \<Rightarrow> ConnectionHandler \<Rightarrow> bool" where
  "idle cf now handler \<longleftrightarrow> cf_timeout_threshold cf \<le> int now - int (getLastActivity handler)"

definition timeout_step :: "config \<Rightarrow> nat \<Rightarrow> int \<Rightarrow> worker \<Rightarrow> worker" where
  "timeout_step cf now fd w =
     (case handler_of (hw_net w) fd of
        None \<Rightarrow> w
      | Some handler \<Rightarrow> if idle cf now handler then expire_handler cf fd handler w else w)"

definition scheduleTimeoutHandler :: "config \<Rightarrow> nat \<Rightarrow> worker \<Rightarrow> worker" where
  "scheduleTimeoutHandler cf now w =
     fold (timeout_step cf now) (map fst (nt_coroutines (hw_net w))) w"

section \<open>The event loop\<close>

text \<open>
  One round of the loop, given what the outside does in it: the time when \<^verbatim>\<open>epoll_wait\<close> returns
  and with what, the accepted connections, the time after the events have been handled.
\<close>

record round =
  rd_before :: nat
  rd_wait :: wait_outcome
  rd_returned :: nat
  rd_accepts :: "(errno + int \<times> io) list"
  rd_after :: nat

definition loop_round :: "config \<Rightarrow> round \<Rightarrow> int \<Rightarrow> worker \<Rightarrow> tcp_exn + int \<times> worker" where
  "loop_round cf r time_passed w =
     (let w = on_net (\<lambda>n. n\<lparr>nt_now := rd_returned r\<rparr>) w
      in case wait_with_timeout (rd_wait r) of
           Inl (InterruptedException _) \<Rightarrow> Inr (time_passed, w)
         | Inl e \<Rightarrow> Inl e
         | Inr None \<Rightarrow> Inr (time_passed, scheduleTimeoutHandler cf (rd_returned r) w)
         | Inr (Some events) \<Rightarrow>
             let w = handleEvents cf (rd_accepts r) events w;
                 w = on_net (\<lambda>n. n\<lparr>nt_now := rd_after r\<rparr>) w;
                 time_passed = time_passed + (int (rd_after r) - int (rd_before r))
             in if TIMER_TICK \<le> time_passed then Inr (0, scheduleTimeoutHandler cf (rd_after r) w)
                else Inr (time_passed, w))"

text \<open>After \<^verbatim>\<open>stop_\<close>: every handler is told to time out; the first exception ends the walk.\<close>

fun shutdown_handlers :: "config \<Rightarrow> int list \<Rightarrow> worker \<Rightarrow> worker" where
  "shutdown_handlers cf [] w = w"
| "shutdown_handlers cf (fd # fds) w =
     (case handler_of (hw_net w) fd of
        None \<Rightarrow> shutdown_handlers cf fds w
      | Some handler \<Rightarrow>
          (case handler_resume cf (setTimeout handler) (on_net (mark_timeout fd) w) of
             (Inl e, w) \<Rightarrow> on_net (log_net (''error on handler termination: '' @ what e)) w
           | (Inr _, w) \<Rightarrow> shutdown_handlers cf fds w))"

text \<open>
  \<^verbatim>\<open>run_events_loop\<close> over the rounds until \<^verbatim>\<open>stop_\<close> is seen. \<open>Inl\<close> is an exception that leaves the
  thread's function, which terminates the process. \<^verbatim>\<open>time_passed\<close> is not initialised by the
  code, so its first value is an argument.
\<close>

fun events_rounds :: "config \<Rightarrow> round list \<Rightarrow> int \<Rightarrow> worker \<Rightarrow> tcp_exn + worker" where
  "events_rounds cf [] time_passed w = Inr w"
| "events_rounds cf (r # rs) time_passed w =
     (case loop_round cf r time_passed w of
        Inl e \<Rightarrow> Inl e
      | Inr (time_passed, w) \<Rightarrow> events_rounds cf rs time_passed w)"

definition run_events_loop :: "config \<Rightarrow> round list \<Rightarrow> int \<Rightarrow> worker \<Rightarrow> tcp_exn + worker" where
  "run_events_loop cf rs time_passed w =
     (case add (cf_server_fd cf) (EventsSet_of [IN, EXCLUSIVE]) (nt_epoll (hw_net w)) of
        (Inl e, _) \<Rightarrow> Inl e
      | (Inr _, k) \<Rightarrow>
          (case events_rounds cf rs time_passed (on_net (\<lambda>n. n\<lparr>nt_epoll := k\<rparr>) w) of
             Inl e \<Rightarrow> Inl e
           | Inr w \<Rightarrow> Inr (shutdown_handlers cf (map fst (nt_coroutines (hw_net w))) w)))"

end
