(* ===== verification/Worker_Invariant.thy ===== *)
theory Worker_Invariant
  imports Http_Worker
begin

text \<open>
  The invariant of a worker between two calls: every handler in the table is at rest at a
  \<open>yield\<close> of its own coroutine, its interest set is what the kernel watches its descriptor
  for, and its own invariant holds; every watched descriptor without a handler is a fresh
  connection watched for input.
\<close>

section \<open>The invariant\<close>

definition handler_ok ::
    "(HttpRequest \<Rightarrow> http_exn + HttpResponse) \<Rightarrow> ordinator \<Rightarrow> net \<Rightarrow> int \<Rightarrow> ConnectionHandler \<Rightarrow> bool" where
  "handler_ok cb d n fd h \<longleftrightarrow>
     ch_fd h = fd \<and> \<not> isTimeout h \<and> getLastActivity h \<le> nt_now n \<and>
     watched (nt_epoll n) fd = Some (ev_data (ch_set h)) \<and>
     (\<exists>rid pc. ch_routine h = Some rid \<and> live d rid \<and> cont d rid = Some (fd, pc) \<and>
        handler_inv cb pc (conn_of n fd h))"

definition fresh_ok :: "net \<Rightarrow> int \<Rightarrow> bool" where
  "fresh_ok n fd \<longleftrightarrow>
     watched (nt_epoll n) fd = Some (ev_data only_IN) \<and> io_sent (nt_ios n fd) = []"

text \<open>The invariant with an exception: nothing is said of the descriptors in \<open>X\<close>.\<close>

definition worker_ok :: "int set \<Rightarrow> config \<Rightarrow> worker \<Rightarrow> bool" where
  "worker_ok X cf w \<longleftrightarrow>
     coro_inv (hw_ord w) \<and> distinct (map fst (nt_coroutines (hw_net w))) \<and>
     handler_of (hw_net w) (cf_server_fd cf) = None \<and>
     (\<forall>fd h. fd \<notin> X \<longrightarrow> handler_of (hw_net w) fd = Some h \<longrightarrow>
        handler_ok (cf_callback cf) (hw_ord w) (hw_net w) fd h) \<and>
     (\<forall>fd. fd \<notin> X \<longrightarrow> fd \<noteq> cf_server_fd cf \<longrightarrow> handler_of (hw_net w) fd = None \<longrightarrow>
        watched (nt_epoll (hw_net w)) fd \<noteq> None \<longrightarrow> fresh_ok (hw_net w) fd) \<and>
     (\<forall>fd. watched (nt_epoll (hw_net w)) fd \<noteq> None \<longrightarrow> fd \<in> set (nt_open (hw_net w)) \<and> 0 \<le> fd)"

abbreviation worker_inv :: "config \<Rightarrow> worker \<Rightarrow> bool" where
  "worker_inv \<equiv> worker_ok {}"

lemma handler_of_simps [simp]:
  "handler_of (n\<lparr>nt_epoll := k\<rparr>) = handler_of n"
  "handler_of (n\<lparr>nt_now := t\<rparr>) = handler_of n"
  "handler_of (n\<lparr>nt_log := l\<rparr>) = handler_of n"
  "handler_of (n\<lparr>nt_open := f\<rparr>) = handler_of n"
  "handler_of (n\<lparr>nt_ios := g\<rparr>) = handler_of n"
  "handler_of (n\<lparr>nt_coroutines := AList.update fd h (nt_coroutines n)\<rparr>) = (handler_of n)(fd \<mapsto> h)"
  "handler_of (n\<lparr>nt_coroutines := AList.delete fd (nt_coroutines n)\<rparr>) = (handler_of n)(fd := None)"
  "handler_of (log_net m n) = handler_of n"
  "handler_of (sys_close fd n) = handler_of n"
  "handler_of (put_conn fd c n) = (handler_of n)(fd \<mapsto> cn_h c)"
  by (simp_all add: handler_of_def update_conv' delete_conv' log_net_def sys_close_def put_conn_def)

lemma put_conn_simps [simp]:
  "nt_epoll (put_conn fd c n) = nt_epoll n" "nt_open (put_conn fd c n) = nt_open n"
  "nt_ios (put_conn fd c n) = (nt_ios n)(fd := cn_io c)" "nt_now (put_conn fd c n) = nt_now n"
  "nt_closes (put_conn fd c n) = nt_closes n"
  by (simp_all add: put_conn_def)

section \<open>Changes at one descriptor\<close>

text \<open>
  The operations of the worker on a client change things at that client's descriptor only;
  this relation is kept by composition.
\<close>

definition agree :: "int \<Rightarrow> net \<Rightarrow> net \<Rightarrow> bool" where
  "agree g n n' \<longleftrightarrow>
     handler_of n' g = handler_of n g \<and> nt_ios n' g = nt_ios n g \<and>
     watched (nt_epoll n') g = watched (nt_epoll n) g \<and>
     (g \<in> set (nt_open n) \<longrightarrow> g \<in> set (nt_open n'))"

definition keeps_routines :: "int \<Rightarrow> ordinator \<Rightarrow> ordinator \<Rightarrow> bool" where
  "keeps_routines fd d d' \<longleftrightarrow>
     (coro_inv d \<longrightarrow> coro_inv d' \<and>
        (\<forall>g rid pc. g \<noteq> fd \<longrightarrow> live d rid \<longrightarrow> cont d rid = Some (g, pc) \<longrightarrow>
           live d' rid \<and> cont d' rid = Some (g, pc)))"

definition changes_at :: "int \<Rightarrow> worker \<Rightarrow> worker \<Rightarrow> bool" where
  "changes_at fd w w' \<longleftrightarrow>
     keeps_routines fd (hw_ord w) (hw_ord w') \<and>
     (distinct (map fst (nt_coroutines (hw_net w))) \<longrightarrow> distinct (map fst (nt_coroutines (hw_net w')))) \<and>
     (\<forall>g. g \<noteq> fd \<longrightarrow> agree g (hw_net w) (hw_net w')) \<and>
     nt_now (hw_net w') = nt_now (hw_net w) \<and>
     (watched (nt_epoll (hw_net w')) fd \<noteq> None \<longrightarrow>
        watched (nt_epoll (hw_net w)) fd \<noteq> None \<and>
        (fd \<in> set (nt_open (hw_net w)) \<longrightarrow> fd \<in> set (nt_open (hw_net w'))))"

lemma agree_refl [simp]: "agree g n n"
  by (simp add: agree_def)

lemma keeps_routines_refl [simp]: "keeps_routines fd d d"
  by (simp add: keeps_routines_def)

lemma changes_at_refl [simp]: "changes_at fd w w"
  by (simp add: changes_at_def)

lemma changes_at_trans [trans]:
  "changes_at fd a b \<Longrightarrow> changes_at fd b c \<Longrightarrow> changes_at fd a c"
  by (auto simp: changes_at_def agree_def keeps_routines_def)

lemma changes_at_log [simp]: "changes_at fd w (on_net (log_net m) w)"
  by (simp add: changes_at_def agree_def) (simp add: log_net_def)

lemma changes_at_close [simp]: "changes_at fd w (on_net (sys_close fd) w)"
  by (auto simp: changes_at_def agree_def) (simp_all add: sys_close_def)

lemma changes_at_epoll:
  "(\<forall>g. g \<noteq> fd \<longrightarrow> watched k g = watched (nt_epoll (hw_net w)) g) \<Longrightarrow>
     (watched k fd \<noteq> None \<longrightarrow> watched (nt_epoll (hw_net w)) fd \<noteq> None) \<Longrightarrow>
     changes_at fd w (on_net (\<lambda>n. n\<lparr>nt_epoll := k\<rparr>) w)"
  by (auto simp: changes_at_def agree_def)

lemma handler_of_mark [simp]:
  "handler_of (mark_timeout fd n) = (handler_of n)(fd := map_option setTimeout (handler_of n fd))"
  by (simp add: handler_of_def mark_timeout_def map_of_map_entry fun_eq_iff split: option.split)

lemma changes_at_mark [simp]: "changes_at fd w (on_net (mark_timeout fd) w)"
  by (simp add: changes_at_def agree_def) (simp add: mark_timeout_def distinct_map_entry)

definition owns :: "int \<Rightarrow> net \<Rightarrow> bool" where
  "owns fd n \<longleftrightarrow> (\<forall>h. handler_of n fd = Some h \<longrightarrow> ch_fd h = fd)"

lemma erase_cases:
  assumes "owns fd n" and "fd \<noteq> -1"
  shows "erase fd n = (case handler_of n fd of None \<Rightarrow> n
    | Some h \<Rightarrow> sys_close fd (n\<lparr>nt_coroutines := AList.delete fd (nt_coroutines n)\<rparr>))"
  using assms by (auto simp: erase_def ConnectionHandler_delete_def owns_def split: option.split)

lemma changes_at_erase:
  assumes "owns fd (hw_net w)" and "fd \<noteq> -1"
  shows "changes_at fd w (on_net (erase fd) w)"
  using assms
  by (auto simp: changes_at_def agree_def erase_cases distinct_delete split: option.split)
     (simp_all add: sys_close_def distinct_delete)

lemma erase_gone:
  assumes "owns fd n" and "fd \<noteq> -1" and "handler_of n fd \<noteq> None"
  shows "handler_of (erase fd n) fd = None" and "watched (nt_epoll (erase fd n)) fd = None"
    and "nt_closes (erase fd n) = nt_closes n @ [fd]"
  using assms by (auto simp: erase_cases) (simp_all add: sys_close_def)

text \<open>Where the invariant holds again: nothing else changed, and the changed descriptor is fine.\<close>

definition fd_ok :: "config \<Rightarrow> worker \<Rightarrow> int \<Rightarrow> bool" where
  "fd_ok cf w fd \<longleftrightarrow>
     (case handler_of (hw_net w) fd of
        Some h \<Rightarrow> handler_ok (cf_callback cf) (hw_ord w) (hw_net w) fd h
      | None \<Rightarrow> watched (nt_epoll (hw_net w)) fd = None \<or> fresh_ok (hw_net w) fd)"

lemma conn_of_inv:
  assumes "handler_inv cb pc (conn_of n fd h)" and "nt_ios n' fd = nt_ios n fd"
  shows "handler_inv cb pc (conn_of n' fd h)"
  using handler_inv_env [OF assms(1), of "conn_of n' fd h"] assms(2) by (simp add: conn_of_def)

lemma worker_inv_at:
  assumes inv: "worker_ok {fd} cf w" and ch: "changes_at fd w w'"
    and fd: "fd_ok cf w' fd" "fd \<noteq> cf_server_fd cf"
  shows "worker_inv cf w'"
proof -
  have other: "agree g (hw_net w) (hw_net w')" if "g \<noteq> fd" for g
    using ch that by (simp add: changes_at_def)
  have now: "nt_now (hw_net w') = nt_now (hw_net w)" using ch by (simp add: changes_at_def)
  have ok: "handler_ok (cf_callback cf) (hw_ord w') (hw_net w') g h"
    if "handler_of (hw_net w') g = Some h" for g h
  proof (cases "g = fd")
    case True
    with fd that show ?thesis by (simp add: fd_ok_def)
  next
    case False
    then have "handler_ok (cf_callback cf) (hw_ord w) (hw_net w) g h"
      using inv that other [OF False] by (simp add: worker_ok_def agree_def)
    then show ?thesis
      using other [OF False] False now ch inv conn_of_inv
      unfolding handler_ok_def changes_at_def agree_def keeps_routines_def worker_ok_def
      by metis
  qed
  have fresh: "fresh_ok (hw_net w') g" if "g \<noteq> cf_server_fd cf" "handler_of (hw_net w') g = None"
      "watched (nt_epoll (hw_net w')) g \<noteq> None" for g
  proof (cases "g = fd")
    case True
    with fd that show ?thesis by (auto simp: fd_ok_def)
  next
    case False
    with that inv other [OF False] show ?thesis
      by (simp add: worker_ok_def agree_def fresh_ok_def)
  qed
  have opened: "g \<in> set (nt_open (hw_net w')) \<and> 0 \<le> g" if "watched (nt_epoll (hw_net w')) g \<noteq> None" for g
    using that inv other [of g] ch by (cases "g = fd") (auto simp: worker_ok_def agree_def changes_at_def)
  have "handler_of (hw_net w') (cf_server_fd cf) = None"
    using inv other [of "cf_server_fd cf"] fd(2) by (simp add: worker_ok_def agree_def)
  moreover have "coro_inv (hw_ord w')" "distinct (map fst (nt_coroutines (hw_net w')))"
    using inv ch by (auto simp: worker_ok_def changes_at_def keeps_routines_def)
  ultimately show ?thesis using ok fresh opened by (auto simp: worker_ok_def)
qed

lemma worker_inv_except: "worker_inv cf w \<Longrightarrow> worker_ok X cf w"
  by (simp add: worker_ok_def)

section \<open>Resuming a handler\<close>

lemma changes_at_put_conn:
  assumes "keeps_routines fd (hw_ord w) d"
  shows "changes_at fd w (w\<lparr>hw_ord := d, hw_net := put_conn fd c (hw_net w)\<rparr>)"
  using assms distinct_update [of "nt_coroutines (hw_net w)" fd "cn_h c"]
  by (simp add: changes_at_def agree_def) (simp add: put_conn_def)

lemma handler_resume_step:
  assumes inv: "coro_inv (hw_ord w)" and h0: "handler_of (hw_net w) fd = Some h0"
    and rid: "ch_routine h = Some rid" "live (hw_ord w) rid" "cont (hw_ord w) rid = Some (fd, pc)"
    and run: "run_handler (cf_callback cf) pc (conn_of (hw_net w) fd h0) = (res, c)"
    and go: "handler_resume cf h w = (r, w')"
  shows "hw_net w' = put_conn fd c (hw_net w)" and "changes_at fd w w'" and "coro_inv (hw_ord w')"
    and "resume_result (tag_result fd res) rid r (hw_ord w')"
proof -
  let ?run = "run_conn (cf_callback cf)"
  obtain r' d n where res: "resume ?run True rid (hw_ord w) (hw_net w) = (r', d, n)"
    by (metis prod_cases3)
  with go rid(1) have w': "r = r'" "w' = w\<lparr>hw_ord := d, hw_net := n\<rparr>"
    by (auto simp: handler_resume_def)
  have body: "?run (fd, pc) (hw_net w) = (tag_result fd res, put_conn fd c (hw_net w))"
    using h0 run by (simp add: run_conn_def)
  note live = resume_live [OF inv rid(2,3) body res]
  have "keeps_routines fd (hw_ord w) d"
    unfolding keeps_routines_def
  proof (intro impI conjI allI)
    fix g rid' pc' assume a: "g \<noteq> fd" "live (hw_ord w) rid'" "cont (hw_ord w) rid' = Some (g, pc')"
    with rid(3) have ne: "rid' \<noteq> rid" by auto
    from only_changesD [OF live(2) ne] a show "live d rid'" "cont d rid' = Some (g, pc')" by auto
  qed (use live(1) in simp)
  with w' live(3) changes_at_put_conn [of fd w d c] show "changes_at fd w w'" by simp
  show "hw_net w' = put_conn fd c (hw_net w)" "coro_inv (hw_ord w')"
    "resume_result (tag_result fd res) rid r (hw_ord w')"
    using w' live by simp_all
qed

lemma put_conn_owns:
  assumes "conn_frame (conn_of n fd h) c" and "ch_fd h = fd"
  shows "owns fd (put_conn fd c n)"
  using assms by (simp add: owns_def conn_frame_def conn_of_def)

text \<open>
  Resuming the handler of a descriptor whose coroutine is at \<open>pc\<close> and whose own invariant holds.
\<close>

lemma resumeHandler_at:
  assumes inv: "coro_inv (hw_ord w)" and fd: "fd \<noteq> -1"
    and h: "handler_of (hw_net w) fd = Some h" "ch_fd h = fd" "\<not> isTimeout h"
    and rid: "ch_routine h = Some rid" "live (hw_ord w) rid" "cont (hw_ord w) rid = Some (fd, pc)"
    and hi: "handler_inv (cf_callback cf) pc (conn_of (hw_net w) fd h)"
    and ep: "watched (nt_epoll (hw_net w)) fd = Some (ev_data (ch_set h))"
  shows "changes_at fd w (resumeHandler cf fd w)" and "fd_ok cf (resumeHandler cf fd w) fd"
proof -
  let ?cb = "cf_callback cf"
  obtain res c where run: "run_handler ?cb pc (conn_of (hw_net w) fd h) = (res, c)" by fastforce
  obtain r w1 where go: "handler_resume cf h w = (r, w1)" by fastforce
  note step = handler_resume_step [OF inv h(1) rid run go]
  from run_handler_post [OF hi] run have post: "switch_post ?cb (conn_of (hw_net w) fd h) (res, c)" by simp
  then have frame: "conn_frame (conn_of (hw_net w) fd h) c" by (simp add: switch_post_def)
  have own: "owns fd (hw_net w1)" unfolding step(1) by (rule put_conn_owns [OF frame h(2)])
  have h1: "handler_of (hw_net w1) fd = Some (cn_h c)" by (simp add: step(1))
  have gone: "changes_at fd w (on_net (erase fd) w2) \<and> fd_ok cf (on_net (erase fd) w2) fd"
    if "changes_at fd w w2" "owns fd (hw_net w2)" "handler_of (hw_net w2) fd \<noteq> None" for w2
    using changes_at_trans [OF that(1) changes_at_erase [OF that(2) fd]] erase_gone [OF that(2) fd that(3)]
    by (simp add: fd_ok_def)
  have logged: "changes_at fd w (on_net (log_net m) w2) \<and> fd_ok cf (on_net (log_net m) w2) fd"
    if "changes_at fd w w2 \<and> fd_ok cf w2 fd \<and> handler_of (hw_net w2) fd = None" for w2 m
    using that changes_at_trans [OF _ changes_at_log [of fd w2 m]]
    by (auto simp: fd_ok_def fresh_ok_def) (auto simp: log_net_def)
  have "changes_at fd w (resumeHandler cf fd w) \<and> fd_ok cf (resumeHandler cf fd w) fd"
  proof (cases r)
    case (Inl e)
    then have "resumeHandler cf fd w = on_net (log_net (what e)) (on_net (erase fd) w1)"
      using h(1) go by (simp add: resumeHandler_def)
    with gone [OF step(2) own] h1 erase_gone [OF own fd] logged show ?thesis by simp
  next
    case (Inr b)
    show ?thesis
    proof (cases b)
      case False
      then have "resumeHandler cf fd w = on_net (erase fd) w1"
        using h(1) go Inr by (simp add: resumeHandler_def)
      with gone [OF step(2) own] h1 show ?thesis by simp
    next
      case True
      with step(4) Inr obtain pc' where y: "res = Yields pc'" "live (hw_ord w1) rid"
        "cont (hw_ord w1) rid = Some (fd, pc')"
        by (cases res) (auto simp: resume_result_def)
      have hc: "handler_inv ?cb pc' c" "stamped c" using post y(1) by (simp_all add: switch_post_def)
      have fields: "ch_fd (cn_h c) = fd" "\<not> isTimeout (cn_h c)" "ch_routine (cn_h c) = Some rid"
        "getLastActivity (cn_h c) = nt_now (hw_net w)"
        using frame h rid(1) hc(2) by (simp_all add: conn_frame_def conn_of_def isTimeout_def stamped_def)
      have fine: "fd_ok cf w2 fd" if "handler_of (hw_net w2) fd = Some (cn_h c)" "hw_ord w2 = hw_ord w1"
          "nt_ios (hw_net w2) fd = cn_io c" "nt_now (hw_net w2) = nt_now (hw_net w)"
          "watched (nt_epoll (hw_net w2)) fd = Some (ev_data (ch_set (cn_h c)))" for w2
        using that fields y handler_inv_env [OF hc(1), of "conn_of (hw_net w2) fd (cn_h c)"]
        by (auto simp: fd_ok_def handler_ok_def conn_of_def)
      show ?thesis
      proof (cases "ch_set (cn_h c) = ch_set h")
        case same: True
        then have "resumeHandler cf fd w = w1"
          using h(1) go Inr True h1 by (simp add: resumeHandler_def getEventsSet_def)
        with fine [of w1] step ep same show ?thesis by simp
      next
        case diff: False
        show ?thesis
        proof (cases rule: modify_cases [of fd "ch_set (cn_h c)" "nt_epoll (hw_net w1)"])
          case (ok k')
          then have eq: "resumeHandler cf fd w = on_net (\<lambda>n. n\<lparr>nt_epoll := k'\<rparr>) w1"
            using h(1) go Inr True h1 diff by (simp add: resumeHandler_def getEventsSet_def)
          have "changes_at fd w1 (on_net (\<lambda>n. n\<lparr>nt_epoll := k'\<rparr>) w1)"
            by (rule changes_at_epoll) (use ok in auto)
          with step(2) have "changes_at fd w (on_net (\<lambda>n. n\<lparr>nt_epoll := k'\<rparr>) w1)"
            by (rule changes_at_trans)
          with fine [of "on_net (\<lambda>n. n\<lparr>nt_epoll := k'\<rparr>) w1"] ok step(1) show ?thesis
            unfolding eq by simp
        next
          case (failed k')
          let ?w2 = "on_net (\<lambda>n. n\<lparr>nt_epoll := k'\<rparr>) w1"
          have eq: "resumeHandler cf fd w = on_net (log_net ''unable to modify event in epoll'')
              (on_net (erase fd) ?w2)"
            using h(1) go Inr True h1 diff failed by (simp add: resumeHandler_def getEventsSet_def)
          have "changes_at fd w1 ?w2" by (rule changes_at_epoll) (use failed in auto)
          with step(2) have ch: "changes_at fd w ?w2" by (rule changes_at_trans)
          have "owns fd (hw_net ?w2)" "handler_of (hw_net ?w2) fd \<noteq> None"
            using own h1 by (simp_all add: owns_def)
          with gone [OF ch this] erase_gone [OF this(1) fd this(2)] show ?thesis
            unfolding eq by (intro logged) auto
        qed
      qed
    qed
  qed
  then show "changes_at fd w (resumeHandler cf fd w)" "fd_ok cf (resumeHandler cf fd w) fd" by auto
qed

lemma resumeHandler_inv:
  assumes inv: "worker_inv cf w" and h: "handler_of (hw_net w) fd = Some h"
  shows "changes_at fd w (resumeHandler cf fd w)" and "worker_inv cf (resumeHandler cf fd w)"
proof -
  have ok: "handler_ok (cf_callback cf) (hw_ord w) (hw_net w) fd h" and ci: "coro_inv (hw_ord w)"
    and srv: "fd \<noteq> cf_server_fd cf"
    using inv h by (auto simp: worker_ok_def)
  then obtain rid pc where r: "ch_fd h = fd" "\<not> isTimeout h" "ch_routine h = Some rid"
      "live (hw_ord w) rid" "cont (hw_ord w) rid = Some (fd, pc)"
      "handler_inv (cf_callback cf) pc (conn_of (hw_net w) fd h)"
      "watched (nt_epoll (hw_net w)) fd = Some (ev_data (ch_set h))"
    by (auto simp: handler_ok_def)
  have "fd \<noteq> -1" using inv r(7) by (auto simp: worker_ok_def)
  note at = resumeHandler_at [OF ci this h r]
  show "changes_at fd w (resumeHandler cf fd w)" by (fact at(1))
  show "worker_inv cf (resumeHandler cf fd w)"
    by (rule worker_inv_at [OF worker_inv_except [OF inv] at srv])
qed

text \<open>A registration is a resumption of a fresh handler that has just got its coroutine.\<close>

lemma registerHandler_resumes:
  assumes inv: "worker_inv cf w" and none: "handler_of (hw_net w) fd = None"
    and watch: "watched (nt_epoll (hw_net w)) fd \<noteq> None" and srv: "fd \<noteq> cf_server_fd cf"
  obtains h rid w1 where "registerHandler cf fd w = resumeHandler cf fd w1"
    and "h = (fst (move_ctor (ConnectionHandler_new fd only_IN)))\<lparr>ch_routine := Some rid\<rparr>"
    and "hw_net w1 = (hw_net w)\<lparr>nt_coroutines := AList.update fd h (nt_coroutines (hw_net w))\<rparr>"
    and "changes_at fd w w1" and "coro_inv (hw_ord w1)" and "fd \<noteq> -1"
    and "live (hw_ord w1) rid" and "cont (hw_ord w1) rid = Some (fd, PcEntry)"
    and "handler_inv (cf_callback cf) PcEntry (conn_of (hw_net w1) fd h)"
    and "watched (nt_epoll (hw_net w1)) fd = Some (ev_data (ch_set h))"
proof -
  obtain rid d where c: "create (Some (fd, PcEntry)) (hw_ord w) = (rid, d)" by fastforce
  have ci: "coro_inv (hw_ord w)" and fresh: "fresh_ok (hw_net w) fd" and pos: "fd \<noteq> -1"
    using inv none watch srv by (auto simp: worker_ok_def)
  note laws = create_laws [OF ci c]
  define h where "h = (fst (move_ctor (ConnectionHandler_new fd only_IN)))\<lparr>ch_routine := Some rid\<rparr>"
  define w1 where "w1 = w\<lparr>hw_ord := d, hw_net := (hw_net w)\<lparr>nt_coroutines :=
      AList.update fd h (nt_coroutines (hw_net w))\<rparr>\<rparr>"
  have eq: "registerHandler cf fd w = resumeHandler cf fd w1"
    by (simp add: registerHandler_def c w1_def h_def only_IN_def)
  have net: "hw_net w1 = (hw_net w)\<lparr>nt_coroutines := AList.update fd h (nt_coroutines (hw_net w))\<rparr>"
    by (simp add: w1_def)
  have "keeps_routines fd (hw_ord w) d" using laws by (auto simp: keeps_routines_def)
  then have ch: "changes_at fd w w1"
    using distinct_update [of "nt_coroutines (hw_net w)" fd h]
    by (simp add: changes_at_def agree_def w1_def)
  have hi: "handler_inv (cf_callback cf) PcEntry (conn_of (hw_net w1) fd h)"
    using fresh fresh_buffer_neq_Nil
    by (simp add: reading_def conn_of_def buff_ok_def fresh_ok_def w1_def h_def move_ctor_def
        ConnectionHandler_new_def)
  have ep: "watched (nt_epoll (hw_net w1)) fd = Some (ev_data (ch_set h))"
    using fresh by (simp add: fresh_ok_def w1_def h_def move_ctor_def ConnectionHandler_new_def)
  have "coro_inv (hw_ord w1)" "live (hw_ord w1) rid" "cont (hw_ord w1) rid = Some (fd, PcEntry)"
    using laws by (simp_all add: w1_def)
  with that [OF eq h_def net ch _ pos _ _ hi ep] show thesis by blast
qed

lemma registered_handler [simp]:
  "ch_fd ((fst (move_ctor (ConnectionHandler_new fd s)))\<lparr>ch_routine := r\<rparr>) = fd"
  "ch_routine ((fst (move_ctor (ConnectionHandler_new fd s)))\<lparr>ch_routine := r\<rparr>) = r"
  "ch_set ((fst (move_ctor (ConnectionHandler_new fd s)))\<lparr>ch_routine := r\<rparr>) = s"
  "ch_read_buff ((fst (move_ctor (ConnectionHandler_new fd s)))\<lparr>ch_routine := r\<rparr>) =
     replicate initial_buffer_size NUL"
  "\<not> isTimeout ((fst (move_ctor (ConnectionHandler_new fd s)))\<lparr>ch_routine := r\<rparr>)"
  by (simp_all add: move_ctor_def ConnectionHandler_new_def isTimeout_def)

lemma registerHandler_inv:
  assumes inv: "worker_inv cf w" and none: "handler_of (hw_net w) fd = None"
    and w: "watched (nt_epoll (hw_net w)) fd \<noteq> None" and srv: "fd \<noteq> cf_server_fd cf"
  shows "changes_at fd w (registerHandler cf fd w)" and "worker_inv cf (registerHandler cf fd w)"
proof -
  obtain h rid w1 where eq: "registerHandler cf fd w = resumeHandler cf fd w1"
    and h: "h = (fst (move_ctor (ConnectionHandler_new fd only_IN)))\<lparr>ch_routine := Some rid\<rparr>"
    and net: "hw_net w1 = (hw_net w)\<lparr>nt_coroutines := AList.update fd h (nt_coroutines (hw_net w))\<rparr>"
    and ch: "changes_at fd w w1" and ci: "coro_inv (hw_ord w1)" and pos: "fd \<noteq> -1"
    and r: "live (hw_ord w1) rid" "cont (hw_ord w1) rid = Some (fd, PcEntry)"
      "handler_inv (cf_callback cf) PcEntry (conn_of (hw_net w1) fd h)"
      "watched (nt_epoll (hw_net w1)) fd = Some (ev_data (ch_set h))"
    by (rule registerHandler_resumes [OF assms])
  have h1: "handler_of (hw_net w1) fd = Some h" by (simp add: net)
  have at: "changes_at fd w1 (resumeHandler cf fd w1)" "fd_ok cf (resumeHandler cf fd w1) fd"
    using resumeHandler_at [OF ci pos h1 _ _ _ r] by (simp_all add: h)
  show "changes_at fd w (registerHandler cf fd w)"
    unfolding eq by (rule changes_at_trans [OF ch at(1)])
  then show "worker_inv cf (registerHandler cf fd w)"
    using worker_inv_at [OF worker_inv_except [OF inv]] at(2) srv eq by auto
qed

section \<open>Accepting connections\<close>

text \<open>What the kernel guarantees of the descriptors it hands out: they are not open.\<close>

fun accepts_ok :: "(errno + int \<times> io) list \<Rightarrow> int set \<Rightarrow> bool" where
  "accepts_ok [] opened = True"
| "accepts_ok (Inl e # rest) opened = accepts_ok rest opened"
| "accepts_ok (Inr (fd, s) # rest) opened =
     (fd \<notin> opened \<and> 0 \<le> fd \<and> io_sent s = [] \<and> accepts_ok rest (insert fd opened))"

text \<open>Steps of the outside, and of the worker outside its table, keep the invariant.\<close>

lemma worker_inv_outside:
  assumes inv: "worker_inv cf w" and "hw_ord w' = hw_ord w"
    and tab: "nt_coroutines (hw_net w') = nt_coroutines (hw_net w)"
    and now: "nt_now (hw_net w) \<le> nt_now (hw_net w')"
    and old: "\<And>g. handler_of (hw_net w) g \<noteq> None \<Longrightarrow>
      io_sent (nt_ios (hw_net w') g) = io_sent (nt_ios (hw_net w) g) \<and>
      watched (nt_epoll (hw_net w')) g = watched (nt_epoll (hw_net w)) g"
    and new: "\<And>g. g \<noteq> cf_server_fd cf \<Longrightarrow> handler_of (hw_net w) g = None \<Longrightarrow>
      watched (nt_epoll (hw_net w')) g \<noteq> None \<Longrightarrow> fresh_ok (hw_net w') g"
    and opened: "\<And>g. watched (nt_epoll (hw_net w')) g \<noteq> None \<Longrightarrow>
      g \<in> set (nt_open (hw_net w')) \<and> 0 \<le> g"
  shows "worker_inv cf w'"
proof -
  have h: "handler_of (hw_net w') = handler_of (hw_net w)" using tab by (simp add: handler_of_def)
  have "handler_ok (cf_callback cf) (hw_ord w') (hw_net w') g hd"
    if g: "handler_of (hw_net w) g = Some hd" for g hd
  proof -
    have ok: "handler_ok (cf_callback cf) (hw_ord w) (hw_net w) g hd"
      using inv g by (simp add: worker_ok_def)
    have o: "io_sent (nt_ios (hw_net w') g) = io_sent (nt_ios (hw_net w) g)"
      "watched (nt_epoll (hw_net w')) g = watched (nt_epoll (hw_net w)) g"
      using old [of g] g by auto
    have "handler_inv cb pc (conn_of (hw_net w') g hd)" if "handler_inv cb pc (conn_of (hw_net w) g hd)" for cb pc
      by (rule handler_inv_env [OF that]) (simp_all add: conn_of_def o)
    then show ?thesis using ok o now assms(2) unfolding handler_ok_def by fastforce
  qed
  with inv h assms(2) tab new opened show ?thesis by (simp add: worker_ok_def)
qed

lemma worker_inv_log [simp]:
  assumes "worker_inv cf w"
  shows "worker_inv cf (on_net (log_net m) w)"
  by (rule worker_inv_outside [OF assms])
     (use assms in \<open>auto simp: worker_ok_def fresh_ok_def log_net_def\<close>)

lemma registerClients_inv:
  "worker_inv cf w \<Longrightarrow> accepts_ok acc (set (nt_open (hw_net w))) \<Longrightarrow>
     worker_inv cf (registerClients acc w) \<and>
     (\<forall>g\<in>set (nt_open (hw_net w)). agree g (hw_net w) (hw_net (registerClients acc w))) \<and>
     nt_now (hw_net (registerClients acc w)) = nt_now (hw_net w)"
proof (induction acc w rule: registerClients.induct)
  case (1 w)
  then show ?case by simp
next
  case (2 e rest w)
  let ?l = "on_net (log_net ''unable to accept connection'') w"
  have l: "nt_open (hw_net ?l) = nt_open (hw_net w)" "nt_now (hw_net ?l) = nt_now (hw_net w)"
    "agree g (hw_net ?l) n = agree g (hw_net w) n" for g n
    by (auto simp: log_net_def agree_def handler_of_def)
  show ?case
    using 2 l worker_inv_log [of cf w "''unable to accept connection''"] by auto
next
  case (3 fd s rest w)
  define w1 where "w1 = on_net (\<lambda>n. n\<lparr>nt_open := fd # nt_open n, nt_ios := (nt_ios n)(fd := s)\<rparr>) w"
  obtain q k where a: "add fd (EventsSet_of [IN]) (nt_epoll (hw_net w1)) = (q, k)" by fastforce
  define w2 where "w2 = on_net (\<lambda>n. n\<lparr>nt_epoll := k\<rparr>) w1"
  have eq: "registerClients (Inr (fd, s) # rest) w = registerClients rest w2"
    using a by (simp add: w1_def w2_def Let_def)
  have fd: "fd \<notin> set (nt_open (hw_net w))" "0 \<le> fd" "io_sent s = []" using 3(3) by auto
  have unw: "watched (nt_epoll (hw_net w)) fd = None" using 3(2) fd(1) by (auto simp: worker_ok_def)
  have noh: "handler_of (hw_net w) fd = None"
    using 3(2) unw by (cases "handler_of (hw_net w) fd") (auto simp: worker_ok_def handler_ok_def)
  have k: "watched k g = (if g = fd \<and> q = Inr () then Some (ev_data only_IN)
      else watched (nt_epoll (hw_net w)) g)" for g
    using a by (cases rule: add_cases [of fd "EventsSet_of [IN]" "nt_epoll (hw_net w1)"])
      (auto simp: w1_def only_IN_def)
  have inv2: "worker_inv cf w2"
  proof (rule worker_inv_outside [OF 3(2)])
    fix g
    show "handler_of (hw_net w) g \<noteq> None \<Longrightarrow> io_sent (nt_ios (hw_net w2) g) = io_sent (nt_ios (hw_net w) g) \<and>
        watched (nt_epoll (hw_net w2)) g = watched (nt_epoll (hw_net w)) g"
      using noh k by (auto simp: w1_def w2_def)
    show "fresh_ok (hw_net w2) g"
      if "g \<noteq> cf_server_fd cf" "handler_of (hw_net w) g = None" "watched (nt_epoll (hw_net w2)) g \<noteq> None"
    proof (cases "g = fd")
      case True
      with that k fd unw show ?thesis by (auto simp: fresh_ok_def w1_def w2_def split: if_splits)
    next
      case False
      with that 3(2) k show ?thesis by (simp add: worker_ok_def fresh_ok_def w1_def w2_def)
    qed
    show "watched (nt_epoll (hw_net w2)) g \<noteq> None \<Longrightarrow> g \<in> set (nt_open (hw_net w2)) \<and> 0 \<le> g"
      using 3(2) k fd by (auto simp: worker_ok_def w1_def w2_def split: if_splits)
  qed (simp_all add: w1_def w2_def)
  have o2: "set (nt_open (hw_net w2)) = insert fd (set (nt_open (hw_net w)))"
    by (simp add: w1_def w2_def)
  have agr: "agree g (hw_net w) (hw_net w2)" if "g \<in> set (nt_open (hw_net w))" for g
    using that fd(1) k by (auto simp: agree_def w1_def w2_def)
  have "worker_inv cf (registerClients rest w2) \<and>
     (\<forall>g\<in>set (nt_open (hw_net w2)). agree g (hw_net w2) (hw_net (registerClients rest w2))) \<and>
     nt_now (hw_net (registerClients rest w2)) = nt_now (hw_net w2)"
    using 3(1) [of w1 q k] a inv2 3(3) o2 unfolding w1_def w2_def by simp
  with agr o2 show ?case
    unfolding eq by (auto simp: agree_def w1_def w2_def)
qed

section \<open>A batch of events\<close>

text \<open>
  \<open>epoll_wait\<close> reports watched descriptors, each once; the descriptors accepted on the way are
  new at the moment they are accepted.
\<close>

fun accepts_in_events ::
    "config \<Rightarrow> (errno + int \<times> io) list \<Rightarrow> int list \<Rightarrow> worker \<Rightarrow> bool" where
  "accepts_in_events cf acc [] w = True"
| "accepts_in_events cf acc (fd # fds) w =
     ((fd = cf_server_fd cf \<longrightarrow> accepts_ok acc (set (nt_open (hw_net w)))) \<and>
      accepts_in_events cf acc fds (handleEvent cf acc fd w))"

definition events_ok :: "config \<Rightarrow> (errno + int \<times> io) list \<Rightarrow> int list \<Rightarrow> worker \<Rightarrow> bool" where
  "events_ok cf acc es w \<longleftrightarrow>
     distinct es \<and> (\<forall>fd\<in>set es. watched (nt_epoll (hw_net w)) fd \<noteq> None) \<and> accepts_in_events cf acc es w"

lemma handleEvent_inv:
  assumes inv: "worker_inv cf w" and w: "watched (nt_epoll (hw_net w)) fd \<noteq> None"
    and acc: "fd = cf_server_fd cf \<Longrightarrow> accepts_ok acc (set (nt_open (hw_net w)))"
  shows "worker_inv cf (handleEvent cf acc fd w)"
    and "g \<noteq> fd \<Longrightarrow> watched (nt_epoll (hw_net w)) g \<noteq> None \<Longrightarrow>
      agree g (hw_net w) (hw_net (handleEvent cf acc fd w))"
    and "nt_now (hw_net (handleEvent cf acc fd w)) = nt_now (hw_net w)"
proof -
  have "worker_inv cf (handleEvent cf acc fd w) \<and>
      (\<forall>g. g \<noteq> fd \<longrightarrow> watched (nt_epoll (hw_net w)) g \<noteq> None \<longrightarrow>
         agree g (hw_net w) (hw_net (handleEvent cf acc fd w))) \<and>
      nt_now (hw_net (handleEvent cf acc fd w)) = nt_now (hw_net w)"
  proof (cases "fd = cf_server_fd cf")
    case True
    with registerClients_inv [OF inv acc] inv show ?thesis
      by (auto simp: handleEvent_def worker_ok_def)
  next
    case False
    show ?thesis
    proof (cases "handler_of (hw_net w) fd")
      case None
      with registerHandler_inv [OF inv None w False] False show ?thesis
        by (simp add: handleEvent_def changes_at_def)
    next
      case (Some h)
      with resumeHandler_inv [OF inv Some] False show ?thesis
        by (simp add: handleEvent_def changes_at_def)
    qed
  qed
  then show "worker_inv cf (handleEvent cf acc fd w)"
    "g \<noteq> fd \<Longrightarrow> watched (nt_epoll (hw_net w)) g \<noteq> None \<Longrightarrow>
      agree g (hw_net w) (hw_net (handleEvent cf acc fd w))"
    "nt_now (hw_net (handleEvent cf acc fd w)) = nt_now (hw_net w)" by auto
qed

lemma events_ok_Cons:
  assumes inv: "worker_inv cf w" and e: "events_ok cf acc (fd # es) w"
  shows "worker_inv cf (handleEvent cf acc fd w)" and "events_ok cf acc es (handleEvent cf acc fd w)"
    and "nt_now (hw_net (handleEvent cf acc fd w)) = nt_now (hw_net w)"
    and "watched (nt_epoll (hw_net w)) fd \<noteq> None"
proof -
  let ?w = "handleEvent cf acc fd w"
  show w: "watched (nt_epoll (hw_net w)) fd \<noteq> None" using e by (simp add: events_ok_def)
  have acc: "fd = cf_server_fd cf \<Longrightarrow> accepts_ok acc (set (nt_open (hw_net w)))"
    using e by (simp add: events_ok_def)
  note step = handleEvent_inv [OF inv w acc]
  have "watched (nt_epoll (hw_net ?w)) g = watched (nt_epoll (hw_net w)) g" if "g \<in> set es" for g
    using that e step(2) [of g] by (auto simp: events_ok_def agree_def)
  then show "events_ok cf acc es ?w" using e by (auto simp: events_ok_def)
  show "worker_inv cf ?w" by (rule step(1))
  show "nt_now (hw_net ?w) = nt_now (hw_net w)" by (rule step(3))
qed

lemma handleEvents_inv:
  "worker_inv cf w \<Longrightarrow> events_ok cf acc es w \<Longrightarrow>
     worker_inv cf (handleEvents cf acc es w) \<and>
     nt_now (hw_net (handleEvents cf acc es w)) = nt_now (hw_net w)"
proof (induction es arbitrary: w)
  case (Cons fd es)
  note step = events_ok_Cons [OF Cons.prems]
  from Cons.IH [OF step(1,2)] step(3) show ?case by (simp add: handleEvents_def)
qed (simp add: handleEvents_def)

section \<open>Time-outs\<close>

definition routine_dead :: "worker \<Rightarrow> ConnectionHandler \<Rightarrow> bool" where
  "routine_dead w h \<longleftrightarrow> (\<forall>rid. ch_routine h = Some rid \<longrightarrow> \<not> live (hw_ord w) rid)"

lemma expire_handler_effect:
  assumes inv: "worker_inv cf w" and h: "handler_of (hw_net w) fd = Some h"
  defines "w' \<equiv> expire_handler cf fd h w"
  shows "worker_inv cf w'" and "changes_at fd w w'" and "handler_of (hw_net w') fd = None"
    and "nt_closes (hw_net w') = nt_closes (hw_net w) @ [fd, fd]" and "routine_dead w' h"
    and "nt_ios (hw_net w') = nt_ios (hw_net w)"
proof -
  let ?cb = "cf_callback cf" and ?h = "setTimeout h"
  have ok: "handler_ok ?cb (hw_ord w) (hw_net w) fd h" and ci: "coro_inv (hw_ord w)"
    and srv: "fd \<noteq> cf_server_fd cf"
    using inv h by (auto simp: worker_ok_def)
  then obtain rid pc where r: "ch_fd h = fd" "ch_routine h = Some rid"
      "live (hw_ord w) rid" "cont (hw_ord w) rid = Some (fd, pc)"
    by (auto simp: handler_ok_def)
  have pos: "fd \<noteq> -1" using inv ok by (auto simp: handler_ok_def worker_ok_def)
  define w1 where "w1 = on_net (mark_timeout fd) w"
  have h1: "handler_of (hw_net w1) fd = Some ?h" using h by (simp add: w1_def)
  obtain res c where run: "run_handler ?cb pc (conn_of (hw_net w1) fd ?h) = (res, c)" by fastforce
  obtain q w2 where go: "handler_resume cf ?h w1 = (q, w2)" by fastforce
  have r1: "coro_inv (hw_ord w1)" "ch_routine ?h = Some rid" "live (hw_ord w1) rid"
    "cont (hw_ord w1) rid = Some (fd, pc)"
    using ci r by (simp_all add: w1_def setTimeout_def)
  note step = handler_resume_step [OF r1(1) h1 r1(2,3,4) run go]
  have t: "isTimeout (cn_h (conn_of (hw_net w1) fd ?h))"
    by (simp add: conn_of_def isTimeout_def setTimeout_def)
  from timeout_not_yields [OF t] run have ny: "res \<noteq> Yields pc'" for pc' by (metis fst_conv)
  have dead: "\<not> live (hw_ord w2) rid"
    using step(4) ny by (cases res) (auto simp: resume_result_def)
  have io: "cn_io c = nt_ios (hw_net w1) fd" "cn_h c = ?h"
    using timeout_run_keeps [OF t run] by (simp_all add: conn_of_def)
  have n2: "hw_net w2 = put_conn fd c (hw_net w1)" by (rule step(1))
  have closes2: "nt_closes (hw_net w2) = nt_closes (hw_net w)"
    and ios2: "nt_ios (hw_net w2) = nt_ios (hw_net w)"
    using n2 io by (simp_all add: w1_def mark_timeout_def)
  define w3 where "w3 = (case q of
      Inl e \<Rightarrow> on_net (log_net (''coroutine throwed exception on closing :'' @ what e)) w2 | Inr _ \<Rightarrow> w2)"
  have w': "w' = on_net (erase fd) (on_net (sys_close fd) w3)"
    unfolding w'_def expire_handler_def w3_def using go
    by (cases q) (simp_all add: Let_def w1_def)
  have ch3: "changes_at fd w w3"
    using changes_at_trans [OF changes_at_mark [of fd w, folded w1_def] step(2)]
    by (auto simp: w3_def split: sum.split intro: changes_at_trans)
  have f3: "hw_ord w3 = hw_ord w2" "nt_closes (hw_net w3) = nt_closes (hw_net w)"
    "nt_ios (hw_net w3) = nt_ios (hw_net w)" "handler_of (hw_net w3) fd = Some ?h"
    using closes2 ios2 n2 io by (auto simp: w3_def log_net_def handler_of_def put_conn_def update_conv' split: sum.split)
  have own: "owns fd (hw_net (on_net (sys_close fd) w3))"
    using f3(4) r(1) by (simp add: owns_def setTimeout_def)
  have ch: "changes_at fd w w'"
    unfolding w' using ch3 changes_at_close changes_at_erase [OF own pos] by (blast intro: changes_at_trans)
  have e: "handler_of (hw_net (on_net (sys_close fd) w3)) fd \<noteq> None" using f3(4) by simp
  note gone = erase_gone [OF own pos e]
  show "changes_at fd w w'" by (fact ch)
  show "handler_of (hw_net w') fd = None" using gone(1) by (simp add: w')
  have "fd_ok cf w' fd" using gone by (simp add: w' fd_ok_def)
  then show "worker_inv cf w'" by (rule worker_inv_at [OF worker_inv_except [OF inv] ch _ srv])
  show "nt_closes (hw_net w') = nt_closes (hw_net w) @ [fd, fd]"
    using gone(3) f3(2) by (simp add: w') (simp add: sys_close_def)
  show "routine_dead w' h" using dead f3(1) r(2) by (simp add: routine_dead_def w')
  show "nt_ios (hw_net w') = nt_ios (hw_net w)"
    using f3(3,4) erase_cases [OF own pos] by (simp add: w') (simp add: sys_close_def)
qed

end
