(* ===== verification/Worker_Props.thy ===== *)
theory Worker_Props
  imports Worker_Invariant Handler_Props
begin

text \<open>
  Reachable states of a worker and its properties: interest in step with the handlers, what the
  time-out scan and the shutdown do, and what is left behind when an epoll call fails.
\<close>

section \<open>The time-out scan\<close>

lemma handler_resume_shrinks:
  assumes "coro_inv (hw_ord w)" and "handler_resume cf h w = (r, w')" and "live (hw_ord w') i"
  shows "live (hw_ord w) i"
proof (cases "ch_routine h")
  case None
  with assms show ?thesis by (simp add: handler_resume_def)
next
  case (Some rid)
  obtain r' d n where res: "resume (run_conn (cf_callback cf)) True rid (hw_ord w) (hw_net w) = (r', d, n)"
    by (metis prod_cases3)
  with assms Some have "live d i" by (auto simp: handler_resume_def)
  with pool.go_shrinks [OF assms(1) res] show ?thesis by simp
qed

lemma expire_handler_shrinks:
  assumes "coro_inv (hw_ord w)" and "live (hw_ord (expire_handler cf fd h w)) i"
  shows "live (hw_ord w) i"
proof -
  obtain q w2 where go: "handler_resume cf (setTimeout h) (on_net (mark_timeout fd) w) = (q, w2)" by fastforce
  with assms(2) have "live (hw_ord w2) i" by (cases q) (auto simp: expire_handler_def Let_def)
  with handler_resume_shrinks [OF _ go] assms(1) show ?thesis by simp
qed

definition expired :: "config \<Rightarrow> nat \<Rightarrow> net \<Rightarrow> int \<Rightarrow> bool" where
  "expired cf now n fd = (case handler_of n fd of None \<Rightarrow> False | Some h \<Rightarrow> idle cf now h)"

text \<open>What the scan of the keys \<open>ks\<close> has done.\<close>

definition scanned :: "config \<Rightarrow> nat \<Rightarrow> int list \<Rightarrow> worker \<Rightarrow> worker \<Rightarrow> bool" where
  "scanned cf now ks w w' \<longleftrightarrow>
     worker_inv cf w' \<and> nt_now (hw_net w') = nt_now (hw_net w) \<and>
     nt_ios (hw_net w') = nt_ios (hw_net w) \<and>
     (\<forall>i. live (hw_ord w') i \<longrightarrow> live (hw_ord w) i) \<and>
     nt_closes (hw_net w') =
       nt_closes (hw_net w) @ concat (map (\<lambda>fd. [fd, fd]) (filter (expired cf now (hw_net w)) ks)) \<and>
     (\<forall>fd. handler_of (hw_net w') fd =
        (if fd \<in> set ks \<and> expired cf now (hw_net w) fd then None else handler_of (hw_net w) fd)) \<and>
     (\<forall>fd h. fd \<in> set ks \<longrightarrow> handler_of (hw_net w) fd = Some h \<longrightarrow> idle cf now h \<longrightarrow> routine_dead w' h)"

lemma routine_dead_shrinks:
  "routine_dead w h \<Longrightarrow> \<forall>i. live (hw_ord w') i \<longrightarrow> live (hw_ord w) i \<Longrightarrow> routine_dead w' h"
  by (auto simp: routine_dead_def)

lemma scanned_Cons:
  assumes h: "handler_of (hw_net w) k = Some h" "idle cf now h" and k: "k \<notin> set ks"
    and same: "\<And>g. g \<noteq> k \<Longrightarrow> handler_of (hw_net w1) g = handler_of (hw_net w) g"
    and none: "handler_of (hw_net w1) k = None" and now: "nt_now (hw_net w1) = nt_now (hw_net w)"
    and ios: "nt_ios (hw_net w1) = nt_ios (hw_net w)" and dead: "routine_dead w1 h"
    and shr: "\<forall>i. live (hw_ord w1) i \<longrightarrow> live (hw_ord w) i"
    and cl: "nt_closes (hw_net w1) = nt_closes (hw_net w) @ [k, k]"
    and rest: "scanned cf now ks w1 w'"
  shows "scanned cf now (k # ks) w w'"
proof -
  have ne: "g \<noteq> k" if "g \<in> set ks" for g using that k by auto
  have ex: "expired cf now (hw_net w1) g = expired cf now (hw_net w) g" if "g \<in> set ks" for g
    using same [OF ne [OF that]] by (simp add: expired_def)
  have exk: "expired cf now (hw_net w) k" using h by (simp add: expired_def)
  have filt: "filter (expired cf now (hw_net w1)) ks = filter (expired cf now (hw_net w)) ks"
    using ex by (rule filter_cong [OF refl])
  have shr': "\<forall>i. live (hw_ord w') i \<longrightarrow> live (hw_ord w1) i" using rest by (simp add: scanned_def)
  have "handler_of (hw_net w') fd =
      (if fd \<in> set (k # ks) \<and> expired cf now (hw_net w) fd then None else handler_of (hw_net w) fd)" for fd
    using rest none exk same [of fd] ex [of fd] ne [of fd] by (cases "fd = k") (auto simp: scanned_def)
  moreover have "routine_dead w' g" if "fd \<in> set (k # ks)" "handler_of (hw_net w) fd = Some g" "idle cf now g" for fd g
  proof (cases "fd = k")
    case True
    with that h dead routine_dead_shrinks [OF _ shr'] show ?thesis by simp
  next
    case False
    with that same [OF False] rest show ?thesis by (auto simp: scanned_def)
  qed
  moreover have "live (hw_ord w) i" if "live (hw_ord w') i" for i using that shr shr' by blast
  ultimately show ?thesis
    using rest now ios cl filt exk by (simp add: scanned_def)
qed

lemma timeout_fold:
  "worker_inv cf w \<Longrightarrow> distinct ks \<Longrightarrow> scanned cf now ks w (fold (timeout_step cf now) ks w)"
proof (induction ks arbitrary: w)
  case Nil
  then show ?case by (simp add: scanned_def)
next
  case (Cons k ks)
  show ?case
  proof (cases "expired cf now (hw_net w) k")
    case False
    then have "timeout_step cf now k w = w"
      by (auto simp: timeout_step_def expired_def split: option.splits)
    with Cons.IH [of w] Cons.prems False show ?thesis
      by (auto simp: scanned_def expired_def split: option.splits)
  next
    case True
    then obtain h where h: "handler_of (hw_net w) k = Some h" "idle cf now h"
      by (auto simp: expired_def split: option.splits)
    define w1 where "w1 = expire_handler cf k h w"
    note eff = expire_handler_effect [OF Cons.prems(1) h(1), folded w1_def]
    have ci: "coro_inv (hw_ord w)" using Cons.prems(1) by (simp add: worker_ok_def)
    have "scanned cf now (k # ks) w (fold (timeout_step cf now) ks w1)"
    proof (rule scanned_Cons [OF h])
      show "\<forall>i. live (hw_ord w1) i \<longrightarrow> live (hw_ord w) i"
        using expire_handler_shrinks [OF ci] by (simp add: w1_def)
      show "scanned cf now ks w1 (fold (timeout_step cf now) ks w1)"
        using Cons.IH [OF eff(1)] Cons.prems(2) by simp
    qed (use eff Cons.prems(2) in \<open>simp_all add: changes_at_def agree_def\<close>)
    moreover have "timeout_step cf now k w = w1" using h by (simp add: timeout_step_def w1_def)
    ultimately show ?thesis by simp
  qed
qed

lemma handler_of_keys: "handler_of n fd \<noteq> None \<Longrightarrow> fd \<in> set (map fst (nt_coroutines n))"
  by (simp add: handler_of_def map_of_eq_None_iff)

lemma scheduleTimeoutHandler_inv:
  assumes "worker_inv cf w"
  shows "worker_inv cf (scheduleTimeoutHandler cf now w)"
    and "nt_now (hw_net (scheduleTimeoutHandler cf now w)) = nt_now (hw_net w)"
  using timeout_fold [OF assms, of "map fst (nt_coroutines (hw_net w))" now] assms
  by (simp_all add: scheduleTimeoutHandler_def scanned_def worker_ok_def)

section \<open>Reachable states\<close>

definition deliver :: "int \<Rightarrow> rd_item list \<Rightarrow> wr_item list \<Rightarrow> net \<Rightarrow> net" where
  "deliver fd items rooms n =
     n\<lparr>nt_ios := (nt_ios n)(fd := (nt_ios n fd)\<lparr>io_in := io_in (nt_ios n fd) @ items,
       io_out := io_out (nt_ios n fd) @ rooms\<rparr>)\<rparr>"

definition round_ok :: "config \<Rightarrow> round \<Rightarrow> worker \<Rightarrow> bool" where
  "round_ok cf r w \<longleftrightarrow>
     nt_now (hw_net w) \<le> rd_returned r \<and> rd_returned r \<le> rd_after r \<and>
     (\<forall>es. rd_wait r = Triggered es \<longrightarrow>
        events_ok cf (rd_accepts r) es (on_net (\<lambda>n. n\<lparr>nt_now := rd_returned r\<rparr>) w))"

text \<open>
  From a worker whose server socket is in its epoll descriptor: the peers send and receive
  (\<open>arrive\<close>), and the loop makes a round.
\<close>

inductive worker_reach :: "config \<Rightarrow> worker \<Rightarrow> bool" for cf where
  start: "0 \<le> cf_server_fd cf \<Longrightarrow> w = HttpWorker_new ios ctl (cf_server_fd cf) now \<Longrightarrow>
    add (cf_server_fd cf) (EventsSet_of [IN, EXCLUSIVE]) (nt_epoll (hw_net w)) = (Inr x, k) \<Longrightarrow>
    worker_reach cf (on_net (\<lambda>n. n\<lparr>nt_epoll := k\<rparr>) w)"
| arrive: "worker_reach cf w \<Longrightarrow> worker_reach cf (on_net (deliver fd items rooms) w)"
| round: "worker_reach cf w \<Longrightarrow> round_ok cf r w \<Longrightarrow> loop_round cf r tp w = Inr (tp', w') \<Longrightarrow>
    worker_reach cf w'"

lemma worker_inv_now:
  assumes "worker_inv cf w" and "nt_now (hw_net w) \<le> t"
  shows "worker_inv cf (on_net (\<lambda>n. n\<lparr>nt_now := t\<rparr>) w)"
  by (rule worker_inv_outside [OF assms(1)])
     (use assms in \<open>auto simp: worker_ok_def fresh_ok_def\<close>)

lemma worker_inv_deliver:
  assumes "worker_inv cf w"
  shows "worker_inv cf (on_net (deliver fd items rooms) w)"
  by (rule worker_inv_outside [OF assms])
     (use assms in \<open>auto simp: worker_ok_def fresh_ok_def deliver_def\<close>)

lemma worker_inv_start:
  assumes "0 \<le> cf_server_fd cf" and w: "w = HttpWorker_new ios ctl (cf_server_fd cf) now"
    and a: "add (cf_server_fd cf) ev (nt_epoll (hw_net w)) = (Inr x, k)"
  shows "worker_inv cf (on_net (\<lambda>n. n\<lparr>nt_epoll := k\<rparr>) w)"
proof -
  have "watched k = [cf_server_fd cf \<mapsto> ev_data ev]"
    using a by (cases rule: add_cases [of "cf_server_fd cf" ev "nt_epoll (hw_net w)"])
      (auto simp: w HttpWorker_new_def watched_def)
  then show ?thesis
    using assms(1) coro_inv_init
    by (auto simp: w HttpWorker_new_def worker_ok_def handler_of_def split: if_splits)
qed

lemma loop_round_inv:
  assumes inv: "worker_inv cf w" and ok: "round_ok cf r w" and r: "loop_round cf r tp w = Inr (tp', w')"
  shows "worker_inv cf w'"
proof -
  let ?w = "on_net (\<lambda>n. n\<lparr>nt_now := rd_returned r\<rparr>) w"
  have inv1: "worker_inv cf ?w" using inv ok by (auto simp: round_ok_def intro: worker_inv_now)
  show ?thesis
  proof (cases "wait_with_timeout (rd_wait r)")
    case (Inl e)
    with r inv1 show ?thesis by (cases e) (auto simp: loop_round_def)
  next
    case (Inr o1)
    show ?thesis
    proof (cases o1)
      case None
      with r Inr inv1 show ?thesis
        by (auto simp: loop_round_def intro: scheduleTimeoutHandler_inv)
    next
      case (Some es)
      then have "rd_wait r = Triggered es"
        using Inr by (auto simp: wait_with_timeout_def split: wait_outcome.splits list.splits if_splits)
      with ok have e: "events_ok cf (rd_accepts r) es ?w" by (simp add: round_ok_def)
      define w1 where "w1 = handleEvents cf (rd_accepts r) es ?w"
      define w2 where "w2 = on_net (\<lambda>n. n\<lparr>nt_now := rd_after r\<rparr>) w1"
      from handleEvents_inv [OF inv1 e] ok have inv2: "worker_inv cf w2"
        unfolding w2_def w1_def by (intro worker_inv_now) (auto simp: round_ok_def)
      have "w' = w2 \<or> w' = scheduleTimeoutHandler cf (rd_after r) w2"
        using r Inr Some by (auto simp: loop_round_def Let_def w1_def w2_def split: if_splits)
      with inv2 scheduleTimeoutHandler_inv(1) show ?thesis by auto
    qed
  qed
qed

lemma worker_reach_inv: "worker_reach cf w \<Longrightarrow> worker_inv cf w"
  by (induction rule: worker_reach.induct)
     (auto intro: worker_inv_start worker_inv_deliver loop_round_inv)

section \<open>Shutdown\<close>

lemma handler_resume_timeout:
  assumes ci: "coro_inv (hw_ord w)" and h: "handler_of (hw_net w) fd = Some h"
    and r: "ch_routine h = Some rid" "live (hw_ord w) rid" "cont (hw_ord w) rid = Some (fd, pc)"
    and go: "handler_resume cf (setTimeout h) (on_net (mark_timeout fd) w) = (q, w')"
  shows "coro_inv (hw_ord w')" and "\<not> live (hw_ord w') rid" and "changes_at fd w w'"
    and "nt_ios (hw_net w') = nt_ios (hw_net w)"
    and "\<forall>w. pc \<noteq> PcErrorWriting w \<Longrightarrow> q = Inr False"
proof -
  let ?w = "on_net (mark_timeout fd) w" and ?h = "setTimeout h"
  obtain res c where run: "run_handler (cf_callback cf) pc (conn_of (hw_net ?w) fd ?h) = (res, c)" by fastforce
  have r1: "coro_inv (hw_ord ?w)" "handler_of (hw_net ?w) fd = Some ?h" "ch_routine ?h = Some rid"
    "live (hw_ord ?w) rid" "cont (hw_ord ?w) rid = Some (fd, pc)"
    using assms by (simp_all add: setTimeout_def)
  note step = handler_resume_step [OF r1 run go]
  have t: "isTimeout (cn_h (conn_of (hw_net ?w) fd ?h))"
    by (simp add: conn_of_def isTimeout_def setTimeout_def)
  from timeout_not_yields [OF t] run have ny: "res \<noteq> Yields pc'" for pc' by (metis fst_conv)
  show "coro_inv (hw_ord w')" by (fact step(3))
  show "\<not> live (hw_ord w') rid" using step(4) ny by (cases res) (auto simp: resume_result_def)
  show "changes_at fd w w'" by (rule changes_at_trans [OF changes_at_mark step(2)])
  have "cn_io c = nt_ios (hw_net w) fd" using timeout_run_keeps [OF t run] by (simp add: conn_of_def mark_timeout_def)
  then show "nt_ios (hw_net w') = nt_ios (hw_net w)" unfolding step(1) by (simp add: put_conn_def mark_timeout_def)
  show "q = Inr False" if "\<forall>w. pc \<noteq> PcErrorWriting w"
  proof -
    have "res = Returns"
      using run t that by (cases pc) (auto simp: readRequest_resume_def after_read_def catch_exn_def
          go_on_def timeout_write after_write_def)
    with step(4) show ?thesis by (simp add: resume_result_def)
  qed
qed

definition at_rest :: "worker \<Rightarrow> int \<Rightarrow> bool" where
  "at_rest w fd \<longleftrightarrow>
     (\<forall>h. handler_of (hw_net w) fd = Some h \<longrightarrow>
        (\<exists>rid pc. ch_routine h = Some rid \<and> live (hw_ord w) rid \<and> cont (hw_ord w) rid = Some (fd, pc) \<and>
           (\<forall>w. pc \<noteq> PcErrorWriting w)))"

lemma shutdown_fold:
  "coro_inv (hw_ord w) \<Longrightarrow> distinct ks \<Longrightarrow> \<forall>fd\<in>set ks. at_rest w fd \<Longrightarrow>
     (\<forall>i. live (hw_ord (shutdown_handlers cf ks w)) i \<longrightarrow> live (hw_ord w) i) \<and>
     (\<forall>fd h. fd \<in> set ks \<longrightarrow> handler_of (hw_net w) fd = Some h \<longrightarrow>
        routine_dead (shutdown_handlers cf ks w) h)"
proof (induction ks arbitrary: w)
  case Nil
  then show ?case by simp
next
  case (Cons k ks)
  show ?case
  proof (cases "handler_of (hw_net w) k")
    case None
    with Cons show ?thesis by auto
  next
    case (Some h)
    then obtain rid pc where r: "ch_routine h = Some rid" "live (hw_ord w) rid"
        "cont (hw_ord w) rid = Some (k, pc)" "\<forall>w. pc \<noteq> PcErrorWriting w"
      using Cons.prems(3) by (auto simp: at_rest_def)
    obtain q w1 where go: "handler_resume cf (setTimeout h) (on_net (mark_timeout k) w) = (q, w1)"
      by fastforce
    note t = handler_resume_timeout [OF Cons.prems(1) Some r(1-3) go]
    have q: "q = Inr False" using t(5) r(4) by simp
    have shr: "live (hw_ord w) i" if "live (hw_ord w1) i" for i
      using handler_resume_shrinks [OF _ go that] Cons.prems(1) by simp
    have rest: "\<forall>fd\<in>set ks. at_rest w1 fd"
    proof
      fix fd assume fd: "fd \<in> set ks"
      with Cons.prems(2) have ne: "fd \<noteq> k" by auto
      with t(3) Cons.prems(1,3) fd show "at_rest w1 fd"
        unfolding at_rest_def changes_at_def agree_def keeps_routines_def by fastforce
    qed
    have same: "handler_of (hw_net w1) g = handler_of (hw_net w) g" if "g \<in> set ks" for g
    proof -
      have "g \<noteq> k" using that Cons.prems(2) by auto
      with t(3) show ?thesis by (simp add: changes_at_def agree_def)
    qed
    have eq: "shutdown_handlers cf (k # ks) w = shutdown_handlers cf ks w1"
      using Some go q by simp
    note ih = Cons.IH [OF t(1) _ rest]
    show ?thesis
      unfolding eq
      using ih shr same Cons.prems(2) Some t(2) r(1)
      by (auto simp: routine_dead_def)
  qed
qed

text \<open>In a reachable state each handler waits in its own coroutine.\<close>

definition waits_own :: "worker \<Rightarrow> int \<Rightarrow> bool" where
  "waits_own w fd \<longleftrightarrow>
     (\<forall>h. handler_of (hw_net w) fd = Some h \<longrightarrow>
        (\<exists>rid pc. ch_routine h = Some rid \<and> live (hw_ord w) rid \<and> cont (hw_ord w) rid = Some (fd, pc)))"

lemma reach_waits_own:
  assumes "worker_reach cf w"
  shows "waits_own w fd"
  unfolding waits_own_def
proof (intro allI impI)
  fix h assume "handler_of (hw_net w) fd = Some h"
  then have "handler_ok (cf_callback cf) (hw_ord w) (hw_net w) fd h"
    using worker_reach_inv [OF assms] by (simp add: worker_ok_def)
  then show "\<exists>rid pc. ch_routine h = Some rid \<and> live (hw_ord w) rid \<and> cont (hw_ord w) rid = Some (fd, pc)"
    by (fastforce simp: handler_ok_def)
qed

lemma waits_own_kept:
  assumes "changes_at k w w1" and "coro_inv (hw_ord w)" and "waits_own w fd" and "fd \<noteq> k"
  shows "waits_own w1 fd"
  using assms unfolding waits_own_def changes_at_def agree_def keeps_routines_def by fastforce

text \<open>No byte is read or written at the shutdown, even if a handler throws.\<close>

lemma shutdown_silent:
  "coro_inv (hw_ord w) \<Longrightarrow> distinct ks \<Longrightarrow> \<forall>fd\<in>set ks. waits_own w fd \<Longrightarrow>
     nt_ios (hw_net (shutdown_handlers cf ks w)) = nt_ios (hw_net w)"
proof (induction ks arbitrary: w)
  case (Cons k ks)
  show ?case
  proof (cases "handler_of (hw_net w) k")
    case None
    with Cons show ?thesis by simp
  next
    case (Some h)
    then obtain rid pc where r: "ch_routine h = Some rid" "live (hw_ord w) rid" "cont (hw_ord w) rid = Some (k, pc)"
      using Cons.prems(3) by (auto simp: waits_own_def)
    obtain q w1 where go: "handler_resume cf (setTimeout h) (on_net (mark_timeout k) w) = (q, w1)" by fastforce
    note t = handler_resume_timeout [OF Cons.prems(1) Some r go]
    have "\<forall>fd\<in>set ks. waits_own w1 fd"
      using Cons.prems waits_own_kept [OF t(3) Cons.prems(1)] by (metis distinct.simps(2) list.set_intros(2))
    with Cons.IH [OF t(1)] Cons.prems(2) Some go t(4) show ?thesis by (cases q) (simp_all add: log_net_def)
  qed
qed simp

text \<open>The state \<open>w\<close> in which a worker's thread ends, whose loop ended in \<open>w0\<close>.\<close>

definition mid_error :: "worker \<Rightarrow> bool" where
  "mid_error w \<longleftrightarrow> (\<exists>rid fd n. live (hw_ord w) rid \<and> cont (hw_ord w) rid = Some (fd, PcErrorWriting n))"

definition drained :: "worker \<Rightarrow> worker \<Rightarrow> bool" where
  "drained w0 w \<longleftrightarrow>
     nt_ios (hw_net w) = nt_ios (hw_net w0) \<and>
     (\<forall>fd h rid. handler_of (hw_net w0) fd = Some h \<longrightarrow> ch_routine h = Some rid \<longrightarrow>
        live (hw_ord w0) rid \<and> (mid_error w0 \<or> \<not> live (hw_ord w) rid))"

lemma shutdown_drains:
  assumes "worker_reach cf w"
  shows "drained w (shutdown_handlers cf (map fst (nt_coroutines (hw_net w))) w)"
proof -
  let ?ks = "map fst (nt_coroutines (hw_net w))"
  have ci: "coro_inv (hw_ord w)" "distinct ?ks" using worker_reach_inv [OF assms] by (auto simp: worker_ok_def)
  note own = reach_waits_own [OF assms]
  have dead: "live (hw_ord w) rid \<and> (mid_error w \<or> \<not> live (hw_ord (shutdown_handlers cf ?ks w)) rid)"
    if h: "handler_of (hw_net w) fd = Some h" "ch_routine h = Some rid" for fd h rid
  proof -
    have l: "live (hw_ord w) rid" using own [of fd] h by (auto simp: waits_own_def)
    have "at_rest w g" if "\<not> mid_error w" for g
      using own [of g] that by (fastforce simp: waits_own_def at_rest_def mid_error_def)
    then have "routine_dead (shutdown_handlers cf ?ks w) h" if "\<not> mid_error w"
      using shutdown_fold [OF ci, of cf] h(1) handler_of_keys [of "hw_net w" fd] that by simp
    with h(2) l show ?thesis by (auto simp: routine_dead_def)
  qed
  with shutdown_silent [OF ci, of cf] own show ?thesis unfolding drained_def by blast
qed

section \<open>Properties\<close>

text \<open>
  A worker for the witnesses: a connection is accepted (descriptor 5), then its readiness is
  reported; the client has sent nothing yet, or a whole request for which there is no room to
  answer.
\<close>

definition demo_config :: config where
  "demo_config = \<lparr>cf_callback = greet, cf_timeout_threshold = 1000, cf_server_fd = 3\<rparr>"

definition demo_start :: "bool list \<Rightarrow> worker" where
  "demo_start ctl =
     (let w = HttpWorker_new (\<lambda>_. io_init [] []) (True # ctl) 3 0
      in on_net (\<lambda>n. n\<lparr>nt_epoll := snd (add 3 (EventsSet_of [IN, EXCLUSIVE]) (nt_epoll n))\<rparr>) w)"

definition accept_round :: round where
  "accept_round = \<lparr>rd_before = 0, rd_wait = Triggered [3], rd_returned = 10,
     rd_accepts = [Inr (5, io_init [] [])], rd_after = 10\<rparr>"

definition ready_round :: "nat \<Rightarrow> round" where
  "ready_round t = \<lparr>rd_before = t, rd_wait = Triggered [5], rd_returned = t,
     rd_accepts = [], rd_after = t\<rparr>"

definition after_round :: "round \<Rightarrow> worker \<Rightarrow> worker" where
  "after_round r w = (case loop_round demo_config r 0 w of Inr (_, w) \<Rightarrow> w | Inl _ \<Rightarrow> w)"

definition demo_accepted :: worker where
  "demo_accepted = after_round accept_round (demo_start [True, False])"

definition demo_waiting :: worker where
  "demo_waiting = after_round (ready_round 20) demo_accepted"

definition demo_handler :: ConnectionHandler where
  "demo_handler = the (handler_of (hw_net demo_waiting) 5)"

lemma after_round_reach:
  assumes "worker_reach demo_config w" and "round_ok demo_config r w"
    and "wait_with_timeout (rd_wait r) = Inr x"
  shows "worker_reach demo_config (after_round r w)"
proof -
  have "\<exists>y. loop_round demo_config r 0 w = Inr y"
    using assms(3) by (cases x) (auto simp: loop_round_def Let_def)
  then obtain tp' w' where l: "loop_round demo_config r 0 w = Inr (tp', w')" by auto
  from worker_reach.round [OF assms(1,2) l] l show ?thesis by (simp add: after_round_def)
qed

lemma demo_start_reach: "worker_reach demo_config (demo_start ctl)"
proof -
  let ?w = "HttpWorker_new (\<lambda>_. io_init [] []) (True # ctl) (cf_server_fd demo_config) 0"
  let ?a = "add (cf_server_fd demo_config) (EventsSet_of [IN, EXCLUSIVE]) (nt_epoll (hw_net ?w))"
  have ok: "?a = (Inr (), snd ?a)"
    by (simp add: add_def Let_def epoll_allowed_def HttpWorker_new_def)
  have "worker_reach demo_config (on_net (\<lambda>n. n\<lparr>nt_epoll := snd ?a\<rparr>) ?w)"
    by (rule worker_reach.start [OF _ refl ok]) (simp add: demo_config_def)
  moreover have "demo_start ctl = on_net (\<lambda>n. n\<lparr>nt_epoll := snd ?a\<rparr>) ?w"
    by (simp add: demo_start_def on_net_def demo_config_def Let_def)
  ultimately show ?thesis by simp
qed

lemma demo_accepted_reach: "worker_reach demo_config demo_accepted"
  unfolding demo_accepted_def
proof (rule after_round_reach [OF demo_start_reach])
  show "round_ok demo_config accept_round (demo_start [True, False])"
    unfolding round_ok_def by (simp add: accept_round_def) code_simp
  show "wait_with_timeout (rd_wait accept_round) = Inr (Some [3])" by code_simp
qed

lemma demo_waiting_reach: "worker_reach demo_config demo_waiting"
  unfolding demo_waiting_def
proof (rule after_round_reach [OF demo_accepted_reach])
  show "round_ok demo_config (ready_round 20) demo_accepted"
    unfolding round_ok_def by (simp add: ready_round_def) code_simp
  show "wait_with_timeout (rd_wait (ready_round 20)) = Inr (Some [5])" by code_simp
qed

lemma demo_has_handler: "handler_of (hw_net demo_waiting) 5 = Some demo_handler"
proof -
  have "\<not> Option.is_none (handler_of (hw_net demo_waiting) 5)" by code_simp
  then show ?thesis by (auto simp: demo_handler_def Option.is_none_def)
qed

lemma demo_routine: "ch_routine demo_handler = Some 1"
  by code_simp

text \<open>
  C10: No wake-up is lost. In every reachable state of a worker, every handler in its table owns
  its descriptor, which the kernel watches for exactly the events in the handler's interest
  set; its coroutine is alive and suspended in its own body, in \<open>readRequest\<close> when it is watched
  for input and in \<open>writeResponse\<close> when for output; and no two handlers share a coroutine.
\<close>
theorem no_lost_wakeup:
  assumes "worker_reach cf w" and "handler_of (hw_net w) fd = Some h"
  shows "ch_fd h = fd \<and> watched (nt_epoll (hw_net w)) fd = Some (ev_data (getEventsSet h)) \<and>
    (\<exists>rid pc. ch_routine h = Some rid \<and> live (hw_ord w) rid \<and> cont (hw_ord w) rid = Some (fd, pc) \<and>
       getEventsSet h = EventsSet_of (case pc of PcEntry \<Rightarrow> [IN] | PcReading _ _ \<Rightarrow> [IN] | _ \<Rightarrow> [OUT])) \<and>
    (\<forall>g h'. handler_of (hw_net w) g = Some h' \<and> g \<noteq> fd \<longrightarrow> ch_routine h' \<noteq> ch_routine h)"
proof -
  have inv: "worker_inv cf w" by (rule worker_reach_inv [OF assms(1)])
  then have ok: "handler_ok (cf_callback cf) (hw_ord w) (hw_net w) fd h"
    using assms(2) by (simp add: worker_ok_def)
  then obtain rid pc where r: "ch_routine h = Some rid" "live (hw_ord w) rid"
      "cont (hw_ord w) rid = Some (fd, pc)" "handler_inv (cf_callback cf) pc (conn_of (hw_net w) fd h)"
    by (auto simp: handler_ok_def)
  have "ch_routine h' \<noteq> ch_routine h" if "handler_of (hw_net w) g = Some h'" "g \<noteq> fd" for g h'
  proof -
    have "handler_ok (cf_callback cf) (hw_ord w) (hw_net w) g h'"
      using inv that(1) by (simp add: worker_ok_def)
    with r that(2) show ?thesis by (auto simp: handler_ok_def)
  qed
  moreover have "getEventsSet h =
      EventsSet_of (case pc of PcEntry \<Rightarrow> [IN] | PcReading _ _ \<Rightarrow> [IN] | _ \<Rightarrow> [OUT])"
    using r(4) by (cases pc) (auto simp: reading_def writing_def conn_of_def getEventsSet_def
        only_IN_def only_OUT_def)
  ultimately show ?thesis using ok r by (auto simp: handler_ok_def getEventsSet_def)
qed

theorem no_lost_wakeup_witness:
  "ch_fd demo_handler = 5 \<and>
    watched (nt_epoll (hw_net demo_waiting)) 5 = Some (ev_data (getEventsSet demo_handler))"
  using no_lost_wakeup [OF demo_waiting_reach demo_has_handler] by blast

text \<open>
  C11: The time-out scan of a reachable worker removes exactly the handlers that have been idle for
  the threshold or longer and leaves every other handler as it was. The coroutine of a removed
  handler has finished, so its slot is free; none of the scan's switches sends or reads a
  byte. But every removed descriptor is closed twice in a row, by the scan and by the
  handler's destructor: in a process with other threads the second call may hit a descriptor
  that another thread has just been given.
\<close>
theorem timeout_scan:
  assumes "worker_reach cf w" and w': "w' = scheduleTimeoutHandler cf now w"
  shows "(\<forall>fd. handler_of (hw_net w') fd =
            (case handler_of (hw_net w) fd of
               None \<Rightarrow> None
             | Some h \<Rightarrow>
                 if cf_timeout_threshold cf \<le> int now - int (getLastActivity h) then None else Some h)) \<and>
    (\<forall>fd h rid. handler_of (hw_net w) fd = Some h \<and> handler_of (hw_net w') fd = None \<and>
       ch_routine h = Some rid \<longrightarrow> \<not> live (hw_ord w') rid) \<and>
    nt_ios (hw_net w') = nt_ios (hw_net w) \<and>
    nt_closes (hw_net w') = nt_closes (hw_net w) @ concat (map (\<lambda>fd. [fd, fd])
      (filter (\<lambda>fd. handler_of (hw_net w') fd = None) (map fst (nt_coroutines (hw_net w)))))"
proof -
  let ?ks = "map fst (nt_coroutines (hw_net w))"
  have inv: "worker_inv cf w" by (rule worker_reach_inv [OF assms(1)])
  then have sc: "scanned cf now ?ks w w'"
    unfolding w' scheduleTimeoutHandler_def by (intro timeout_fold) (auto simp: worker_ok_def)
  have keys: "fd \<in> set ?ks" if "handler_of (hw_net w) fd \<noteq> None" for fd
    using that by (rule handler_of_keys)
  have table: "handler_of (hw_net w') fd =
            (case handler_of (hw_net w) fd of
               None \<Rightarrow> None
             | Some h \<Rightarrow>
                 if cf_timeout_threshold cf \<le> int now - int (getLastActivity h) then None else Some h)" for fd
    using sc keys [of fd] unfolding scanned_def expired_def idle_def by (auto split: option.splits)
  have dead: "\<not> live (hw_ord w') rid" if "handler_of (hw_net w) fd = Some h"
      "handler_of (hw_net w') fd = None" "ch_routine h = Some rid" for fd h rid
    using that table [of fd] keys [of fd] sc
    by (auto simp: scanned_def routine_dead_def idle_def split: if_splits)
  have "expired cf now (hw_net w) fd = (handler_of (hw_net w') fd = None)" if "fd \<in> set ?ks" for fd
  proof -
    have "handler_of (hw_net w) fd \<noteq> None" using that by (simp add: handler_of_def map_of_eq_None_iff)
    with table [of fd] show ?thesis by (auto simp: expired_def idle_def split: if_splits)
  qed
  then have "filter (expired cf now (hw_net w)) ?ks =
      filter (\<lambda>fd. handler_of (hw_net w') fd = None) ?ks"
    by (rule filter_cong [OF refl])
  with sc table dead show ?thesis unfolding scanned_def by metis
qed

theorem timeout_scan_witness:
  "nt_ios (hw_net (scheduleTimeoutHandler demo_config 2000 demo_waiting)) = nt_ios (hw_net demo_waiting) \<and>
    nt_closes (hw_net (scheduleTimeoutHandler demo_config 2000 demo_waiting)) =
      nt_closes (hw_net demo_waiting) @ concat (map (\<lambda>fd. [fd, fd])
        (filter (\<lambda>fd. handler_of (hw_net (scheduleTimeoutHandler demo_config 2000 demo_waiting)) fd = None)
          (map fst (nt_coroutines (hw_net demo_waiting)))))"
  using timeout_scan [OF demo_waiting_reach refl, of 2000] by blast

text \<open>
  C12: Shutdown. Once \<^verbatim>\<open>stop_\<close> is seen, the worker marks every handler as timed out and resumes it;
  in a reachable state in which no handler is in the middle of an error response, all their
  coroutines have finished afterwards. (A handler that is throws, and the walk over the table
  stops there.)
\<close>
theorem shutdown_finishes_all:
  assumes "worker_reach cf w"
    and "\<forall>rid fd n. live (hw_ord w) rid \<longrightarrow> cont (hw_ord w) rid \<noteq> Some (fd, PcErrorWriting n)"
    and "handler_of (hw_net w) fd = Some h" and "ch_routine h = Some rid"
  shows "live (hw_ord w) rid \<and>
    \<not> live (hw_ord (shutdown_handlers cf (map fst (nt_coroutines (hw_net w))) w)) rid"
  using shutdown_drains [OF assms(1)] assms(2-4) unfolding drained_def mid_error_def by blast

definition no_error_write :: "(int \<times> pc, http_exn) Routine \<Rightarrow> bool" where
  "no_error_write r =
     (case continuation r of Some (_, PcErrorWriting _) \<Rightarrow> False | _ \<Rightarrow> True)"

lemma no_error_write_all:
  assumes "list_all no_error_write (or_routines d)" and "live d rid"
  shows "cont d rid \<noteq> Some (fd, PcErrorWriting n)"
proof -
  have "routine d rid \<in> set (or_routines d)" using assms(2) by (auto simp: live_def)
  with assms(1) have "no_error_write (routine d rid)" by (simp add: list_all_iff)
  then show ?thesis by (auto simp: no_error_write_def cont_def)
qed

theorem shutdown_finishes_all_witness:
  "live (hw_ord demo_waiting) 1 \<and>
    \<not> live (hw_ord (shutdown_handlers demo_config (map fst (nt_coroutines (hw_net demo_waiting)))
      demo_waiting)) 1"
proof (rule shutdown_finishes_all [OF demo_waiting_reach _ demo_has_handler demo_routine])
  have "list_all no_error_write (or_routines (hw_ord demo_waiting))" by code_simp
  then show "\<forall>rid fd n. live (hw_ord demo_waiting) rid \<longrightarrow>
      cont (hw_ord demo_waiting) rid \<noteq> Some (fd, PcErrorWriting n)"
    using no_error_write_all by blast
qed

text \<open>
  C39: When the kernel refuses a change of interest, the worker forgets a running coroutine. If a
  reachable handler's coroutine suspends again with another interest set and \<^verbatim>\<open>epoll_ctl\<close>
  fails, the handler is erased and its descriptor closed while the coroutine is still alive:
  its slot and stack are never used again, and the response it was writing is cut off.
\<close>
theorem failed_modify_leaks_routine:
  assumes "worker_reach cf w" and "handler_of (hw_net w) fd = Some h" and "ch_routine h = Some rid"
    and "cont (hw_ord w) rid = Some (fd, pc)"
    and "run_handler (cf_callback cf) pc (conn_of (hw_net w) fd h) = (Yields pc', c)"
    and "getEventsSet (cn_h c) \<noteq> getEventsSet h" and "\<not> epoll_allowed (nt_epoll (hw_net w))"
  shows "handler_of (hw_net (resumeHandler cf fd w)) fd = None \<and>
    live (hw_ord (resumeHandler cf fd w)) rid \<and>
    nt_closes (hw_net (resumeHandler cf fd w)) = nt_closes (hw_net w) @ [fd]"
proof -
  have inv: "worker_inv cf w" by (rule worker_reach_inv [OF assms(1)])
  then have ok: "handler_ok (cf_callback cf) (hw_ord w) (hw_net w) fd h" and ci: "coro_inv (hw_ord w)"
    using assms(2) by (auto simp: worker_ok_def)
  have pos: "fd \<noteq> -1" using inv ok by (auto simp: handler_ok_def worker_ok_def)
  have live: "live (hw_ord w) rid" and hfd: "ch_fd h = fd" using ok assms(3) by (auto simp: handler_ok_def)
  have hi: "handler_inv (cf_callback cf) pc (conn_of (hw_net w) fd h)"
    using ok assms(3,4) by (auto simp: handler_ok_def)
  obtain q w1 where go: "handler_resume cf h w = (q, w1)" by fastforce
  note step = handler_resume_step [OF ci assms(2,3) live assms(4,5) go]
  from step(4) have q: "q = Inr True" "live (hw_ord w1) rid" by (auto simp: resume_result_def)
  let ?k = "(nt_epoll (hw_net w1))\<lparr>ep_script := tl (ep_script (nt_epoll (hw_net w1)))\<rparr>"
  let ?w2 = "on_net (\<lambda>n. n\<lparr>nt_epoll := ?k\<rparr>) w1"
  have h1: "handler_of (hw_net w1) fd = Some (cn_h c)" by (simp add: step(1))
  have "modify fd (getEventsSet (cn_h c)) (nt_epoll (hw_net w1)) =
      (Inl (EpollCtlException ''unable to modify event in epoll'' EPOLL_CTL_MOD), ?k)"
    using assms(7) step(1) by (simp add: modify_def Let_def)
  then have eq: "resumeHandler cf fd w = on_net (log_net ''unable to modify event in epoll'')
      (on_net (erase fd) ?w2)"
    using assms(2,6) go q(1) h1 by (simp add: resumeHandler_def)
  have "conn_frame (conn_of (hw_net w) fd h) c"
    using run_handler_post [OF hi] assms(5) by (simp add: switch_post_def)
  then have own: "owns fd (hw_net ?w2)" "handler_of (hw_net ?w2) fd \<noteq> None"
    using put_conn_owns [of "hw_net w" fd h c] hfd step(1) h1 by (auto simp: owns_def)
  from erase_gone [OF own(1) pos own(2)] q(2) step(1) show ?thesis
    unfolding eq by (simp add: log_net_def handler_of_def)
qed

text \<open>The client's request is in, there is no room to answer, and the next \<^verbatim>\<open>epoll_ctl\<close> fails.\<close>

definition demo_asked :: worker where
  "demo_asked = on_net (deliver 5 [RBytes tiny_request] []) demo_waiting"

definition demo_switch :: switch where
  "demo_switch = run_handler greet (PcReading HttpRequestParser_init 0)
     (conn_of (hw_net demo_asked) 5 demo_handler)"

theorem failed_modify_leaks_routine_witness:
  "handler_of (hw_net (resumeHandler demo_config 5 demo_asked)) 5 = None \<and>
    live (hw_ord (resumeHandler demo_config 5 demo_asked)) 1 \<and>
    nt_closes (hw_net (resumeHandler demo_config 5 demo_asked)) = nt_closes (hw_net demo_asked) @ [5]"
proof (rule failed_modify_leaks_routine)
  show "worker_reach demo_config demo_asked"
    unfolding demo_asked_def by (rule worker_reach.arrive [OF demo_waiting_reach])
  show "handler_of (hw_net demo_asked) 5 = Some demo_handler"
    using demo_has_handler by (simp add: demo_asked_def deliver_def)
  show "ch_routine demo_handler = Some 1" by (rule demo_routine)
  show "cont (hw_ord demo_asked) 1 = Some (5, PcReading HttpRequestParser_init 0)" by code_simp
  have "fst demo_switch = Yields (PcWriting 0 False)" by code_simp
  then show "run_handler (cf_callback demo_config) (PcReading HttpRequestParser_init 0)
      (conn_of (hw_net demo_asked) 5 demo_handler) = (Yields (PcWriting 0 False), snd demo_switch)"
    by (simp add: demo_switch_def demo_config_def prod_eq_iff)
  show "getEventsSet (cn_h (snd demo_switch)) \<noteq> getEventsSet demo_handler" by code_simp
  show "\<not> epoll_allowed (nt_epoll (hw_net demo_asked))" by code_simp
qed

text \<open>
  A connection whose registration fails is lost. When \<^verbatim>\<open>epoll_ctl\<close> refuses a freshly accepted
  descriptor, the exception is swallowed without a message: the descriptor stays open, is
  watched by nobody and belongs to no handler, so nothing will ever close it.
\<close>
theorem failed_add_leaks_descriptor:
  assumes "worker_reach cf w" and "fd \<notin> set (nt_open (hw_net w))"
    and "\<not> epoll_allowed (nt_epoll (hw_net w))" and w': "w' = registerClients [Inr (fd, s)] w"
  shows "fd \<in> set (nt_open (hw_net w')) \<and> watched (nt_epoll (hw_net w')) fd = None \<and>
    handler_of (hw_net w') fd = None \<and> nt_log (hw_net w') = nt_log (hw_net w)"
proof -
  have inv: "worker_inv cf w" by (rule worker_reach_inv [OF assms(1)])
  then have unw: "watched (nt_epoll (hw_net w)) fd = None"
    using assms(2) by (auto simp: worker_ok_def)
  moreover have "handler_of (hw_net w) fd = None"
    using inv unw by (cases "handler_of (hw_net w) fd") (auto simp: worker_ok_def handler_ok_def)
  ultimately show ?thesis
    using assms(3) by (simp add: w' add_def Let_def watched_def)
qed

theorem failed_add_leaks_descriptor_witness:
  "5 \<in> set (nt_open (hw_net (registerClients [Inr (5, io_init [] [])] (demo_start [False])))) \<and>
    watched (nt_epoll (hw_net (registerClients [Inr (5, io_init [] [])] (demo_start [False])))) 5 = None \<and>
    handler_of (hw_net (registerClients [Inr (5, io_init [] [])] (demo_start [False]))) 5 = None \<and>
    nt_log (hw_net (registerClients [Inr (5, io_init [] [])] (demo_start [False]))) =
      nt_log (hw_net (demo_start [False]))"
proof (rule failed_add_leaks_descriptor [OF demo_start_reach _ _ refl])
  show "5 \<notin> set (nt_open (hw_net (demo_start [False])))" by code_simp
  show "\<not> epoll_allowed (nt_epoll (hw_net (demo_start [False])))" by code_simp
qed

end
