(* ===== verification/Worker_Serves.thy ===== *)
theory Worker_Serves
  imports Worker_Props Handler_Request
begin

text \<open>
  From a report of \<^verbatim>\<open>epoll_wait\<close> to the bytes on the wire: the worker, its coroutines and the
  connection handler together. What one event does to the descriptors it does not name, what
  the first event of a new connection does to that connection, and the round around them.
\<close>

section \<open>What an event leaves alone\<close>

definition accepted :: "(errno + int \<times> io) list \<Rightarrow> int \<Rightarrow> bool" where
  "accepted acc fd \<longleftrightarrow> (\<exists>s. Inr (fd, s) \<in> set acc)"

lemma accepted_simps [simp]:
  "\<not> accepted [] g"
  "accepted (Inl e # acc) g \<longleftrightarrow> accepted acc g"
  "accepted (Inr (fd, s) # acc) g \<longleftrightarrow> g = fd \<or> accepted acc g"
  by (auto simp: accepted_def)

text \<open>\<open>agree\<close> and, beyond it, that the descriptor has not been opened or closed.\<close>

definition untouched :: "int \<Rightarrow> net \<Rightarrow> net \<Rightarrow> bool" where
  "untouched g n n' \<longleftrightarrow>
     handler_of n' g = handler_of n g \<and> nt_ios n' g = nt_ios n g \<and>
     watched (nt_epoll n') g = watched (nt_epoll n) g"

lemma untouched_refl [simp]: "untouched g n n"
  by (simp add: untouched_def)

lemma untouched_trans [trans]: "untouched g a b \<Longrightarrow> untouched g b c \<Longrightarrow> untouched g a c"
  by (simp add: untouched_def)

lemma changes_at_untouched: "changes_at fd w w' \<Longrightarrow> g \<noteq> fd \<Longrightarrow> untouched g (hw_net w) (hw_net w')"
  by (simp add: changes_at_def agree_def untouched_def)

lemma untouched_log [simp]: "untouched g n (log_net m n')  = untouched g n n'"
  by (simp add: untouched_def) (simp add: log_net_def)

lemma untouched_log' [simp]: "untouched g (log_net m n) n'  = untouched g n n'"
  by (simp add: untouched_def) (simp add: log_net_def)

lemma registerClients_untouched:
  "\<not> accepted acc g \<Longrightarrow> untouched g (hw_net w) (hw_net (registerClients acc w))"
proof (induction acc w rule: registerClients.induct)
  case (3 fd s rest w)
  define w1 where "w1 = on_net (\<lambda>n. n\<lparr>nt_open := fd # nt_open n, nt_ios := (nt_ios n)(fd := s)\<rparr>) w"
  obtain q k where a: "add fd (EventsSet_of [IN]) (nt_epoll (hw_net w1)) = (q, k)" by fastforce
  define w2 where "w2 = on_net (\<lambda>n. n\<lparr>nt_epoll := k\<rparr>) w1"
  have "watched k g = watched (nt_epoll (hw_net w1)) g"
    using a 3(2) by (cases rule: add_cases [of fd "EventsSet_of [IN]" "nt_epoll (hw_net w1)"]) auto
  then have "untouched g (hw_net w) (hw_net w2)"
    using 3(2) by (simp add: untouched_def w2_def) (simp add: w1_def)
  moreover have "untouched g (hw_net w2) (hw_net (registerClients rest w2))"
    using 3(1) [of w1 q k] a 3(2) by (simp add: w1_def w2_def)
  ultimately have "untouched g (hw_net w) (hw_net (registerClients rest w2))" by (rule untouched_trans)
  moreover have "registerClients (Inr (fd, s) # rest) w = registerClients rest w2"
    using a by (simp add: w1_def w2_def Let_def)
  ultimately show ?case by simp
qed auto

lemma handleEvent_untouched:
  assumes inv: "worker_inv cf w" and w: "watched (nt_epoll (hw_net w)) fd \<noteq> None"
    and "g \<noteq> fd" and "\<not> accepted acc g"
  shows "untouched g (hw_net w) (hw_net (handleEvent cf acc fd w))"
proof (cases "fd = cf_server_fd cf")
  case True
  with registerClients_untouched [OF assms(4)] show ?thesis by (simp add: handleEvent_def)
next
  case False
  show ?thesis
  proof (cases "handler_of (hw_net w) fd")
    case None
    with registerHandler_inv(1) [OF inv None w False] False assms(3) show ?thesis
      by (simp add: handleEvent_def changes_at_untouched)
  next
    case (Some h)
    with resumeHandler_inv(1) [OF inv Some] False assms(3) show ?thesis
      by (simp add: handleEvent_def changes_at_untouched)
  qed
qed

lemma handleEvents_untouched:
  "worker_inv cf w \<Longrightarrow> events_ok cf acc es w \<Longrightarrow> g \<notin> set es \<Longrightarrow> \<not> accepted acc g \<Longrightarrow>
     untouched g (hw_net w) (hw_net (handleEvents cf acc es w))"
proof (induction es arbitrary: w)
  case Nil
  then show ?case by (simp add: handleEvents_def)
next
  case (Cons fd es)
  note step = events_ok_Cons [OF Cons.prems(1,2)]
  from Cons.IH [OF step(1,2)] Cons.prems(3,4)
    handleEvent_untouched [OF Cons.prems(1) step(4), of g acc]
  show ?case by (auto simp: handleEvents_def intro: untouched_trans)
qed

section \<open>The first event of a connection\<close>

text \<open>What is left of a connection that has been answered: nothing, or a handler that has just been active.\<close>

definition settled :: "bool \<Rightarrow> nat \<Rightarrow> int \<Rightarrow> net \<Rightarrow> bool" where
  "settled closes now fd n \<longleftrightarrow>
     (if closes then handler_of n fd = None \<and> watched (nt_epoll n) fd = None
      else \<exists>h. handler_of n fd = Some h \<and> getLastActivity h = now \<and> ch_set h = only_IN)"

lemma settled_untouched: "settled closes now fd n \<Longrightarrow> untouched fd n n' \<Longrightarrow> settled closes now fd n'"
  by (auto simp: settled_def untouched_def)

lemma resumeHandler_finished:
  assumes h: "handler_of (hw_net w) fd = Some h" "ch_fd h = fd" and fd: "fd \<noteq> -1"
    and go: "handler_resume cf h w = (Inr False, w1)" and n: "hw_net w1 = put_conn fd c (hw_net w)"
    and frame: "conn_frame (conn_of (hw_net w) fd h) c"
  shows "nt_ios (hw_net (resumeHandler cf fd w)) fd = cn_io c"
    and "settled True now fd (hw_net (resumeHandler cf fd w))"
proof -
  have own: "owns fd (hw_net w1)" unfolding n by (rule put_conn_owns [OF frame h(2)])
  have h1: "handler_of (hw_net w1) fd = Some (cn_h c)" by (simp add: n)
  have eq: "resumeHandler cf fd w = on_net (erase fd) w1" using h(1) go by (simp add: resumeHandler_def)
  show "nt_ios (hw_net (resumeHandler cf fd w)) fd = cn_io c"
    using erase_cases [OF own fd] h1 by (simp add: eq) (simp add: sys_close_def n)
  show "settled True now fd (hw_net (resumeHandler cf fd w))"
    using erase_gone [OF own fd] h1 by (simp add: eq settled_def)
qed

lemma resumeHandler_same_interest:
  assumes h: "handler_of (hw_net w) fd = Some h" and n: "hw_net w1 = put_conn fd c (hw_net w)"
    and go: "handler_resume cf h w = (Inr True, w1)" and same: "ch_set (cn_h c) = ch_set h"
  shows "resumeHandler cf fd w = w1"
  using assms by (simp add: resumeHandler_def getEventsSet_def)

lemma registerHandler_serves:
  assumes req: "ok_request path qs hs" "bodiless meth hs"
      "length (render_head meth path qs v hs) \<le> 1024"
      "concat cs = render_head meth path qs v hs" "[] \<notin> set cs"
      "cf_callback cf (plain_request meth path qs v hs) = Inr resp" "0 \<notin> set ks"
      "length (dump (finish_response (plain_request meth path qs v hs) resp)) \<le> sum_list ks"
    and inv: "worker_inv cf w" and none: "handler_of (hw_net w) fd = None"
    and w: "watched (nt_epoll (hw_net w)) fd \<noteq> None" and srv: "fd \<noteq> cf_server_fd cf"
    and io: "nt_ios (hw_net w) fd = io_init (chunked cs) (map WRoom ks)"
  shows "io_sent (nt_ios (hw_net (registerHandler cf fd w)) fd) =
      dump (finish_response (plain_request meth path qs v hs) resp)"
    and "settled (shouldCloseAfterResponse (plain_request meth path qs v hs)) (nt_now (hw_net w)) fd
      (hw_net (registerHandler cf fd w))"
proof -
  let ?req = "plain_request meth path qs v hs" and ?cb = "cf_callback cf"
  obtain h rid w1 where eq: "registerHandler cf fd w = resumeHandler cf fd w1"
    and h: "h = (fst (move_ctor (ConnectionHandler_new fd only_IN)))\<lparr>ch_routine := Some rid\<rparr>"
    and net: "hw_net w1 = (hw_net w)\<lparr>nt_coroutines := AList.update fd h (nt_coroutines (hw_net w))\<rparr>"
    and ch: "changes_at fd w w1" and r1: "coro_inv (hw_ord w1)" and pos: "fd \<noteq> -1"
    and r2: "live (hw_ord w1) rid" "cont (hw_ord w1) rid = Some (fd, PcEntry)"
      "handler_inv ?cb PcEntry (conn_of (hw_net w1) fd h)"
    by (rule registerHandler_resumes [OF inv none w srv])
  let ?c = "conn_of (hw_net w1) fd h"
  have hf: "ch_fd h = fd" "ch_routine h = Some rid" "ch_set h = only_IN" by (simp_all add: h)
  have fresh: "waits_at_entry cs ks ?c"
    using io by (simp add: waits_at_entry_def conn_of_def net io_init_def h)
  obtain c' where run: "run_handler ?cb PcEntry ?c =
      (if shouldCloseAfterResponse ?req then Returns else Yields (PcReading HttpRequestParser_init 0), c')"
    and sent: "io_sent (cn_io c') = dump (finish_response ?req resp)"
    using answers_entry [where cb = ?cb, OF req fresh] by blast
  note post = run_handler_post [OF r2(3), unfolded run]
  have h1: "handler_of (hw_net w1) fd = Some h" by (simp add: net)
  obtain r w2 where go: "handler_resume cf h w1 = (r, w2)" by fastforce
  note step = handler_resume_step [OF r1 h1 hf(2) r2(1,2) run go]
  have frame: "conn_frame ?c c'" using post by (simp add: switch_post_def)
  have "io_sent (nt_ios (hw_net (resumeHandler cf fd w1)) fd) = dump (finish_response ?req resp) \<and>
      settled (shouldCloseAfterResponse ?req) (nt_now (hw_net w)) fd (hw_net (resumeHandler cf fd w1))"
  proof (cases "shouldCloseAfterResponse ?req")
    case True
    with step(4) have "r = Inr False" by (simp add: resume_result_def)
    with resumeHandler_finished [OF h1 hf(1) pos go [unfolded this] step(1) frame] sent True
    show ?thesis by simp
  next
    case False
    with step(4) have r: "r = Inr True" by (simp add: resume_result_def)
    have "handler_inv ?cb (PcReading HttpRequestParser_init 0) c'" "stamped c'"
      using post False by (simp_all add: switch_post_def)
    then have "ch_set (cn_h c') = ch_set h"
      and act: "getLastActivity (cn_h c') = nt_now (hw_net w)" "ch_set (cn_h c') = only_IN"
      using hf frame by (simp_all add: reading_def stamped_def conn_frame_def conn_of_def net)
    from resumeHandler_same_interest [OF h1 step(1) go [unfolded r] this(1)]
    have "hw_net (resumeHandler cf fd w1) = put_conn fd c' (hw_net w1)" using step(1) by simp
    with sent act False show ?thesis by (simp add: settled_def)
  qed
  then show "io_sent (nt_ios (hw_net (registerHandler cf fd w)) fd) = dump (finish_response ?req resp)"
    "settled (shouldCloseAfterResponse ?req) (nt_now (hw_net w)) fd (hw_net (registerHandler cf fd w))"
    by (simp_all add: eq)
qed

section \<open>A batch of events, and the round\<close>

lemma handleEvents_serves:
  assumes req: "ok_request path qs hs" "bodiless meth hs"
      "length (render_head meth path qs v hs) \<le> 1024"
      "concat cs = render_head meth path qs v hs" "[] \<notin> set cs"
      "cf_callback cf (plain_request meth path qs v hs) = Inr resp" "0 \<notin> set ks"
      "length (dump (finish_response (plain_request meth path qs v hs) resp)) \<le> sum_list ks"
    and fd: "fd \<noteq> cf_server_fd cf" "\<not> accepted acc fd"
  shows "worker_inv cf w \<Longrightarrow> events_ok cf acc es w \<Longrightarrow> fd \<in> set es \<Longrightarrow>
    handler_of (hw_net w) fd = None \<Longrightarrow> nt_ios (hw_net w) fd = io_init (chunked cs) (map WRoom ks) \<Longrightarrow>
    io_sent (nt_ios (hw_net (handleEvents cf acc es w)) fd) =
      dump (finish_response (plain_request meth path qs v hs) resp) \<and>
    settled (shouldCloseAfterResponse (plain_request meth path qs v hs)) (nt_now (hw_net w)) fd
      (hw_net (handleEvents cf acc es w))"
proof (induction es arbitrary: w)
  case (Cons g es)
  note step = events_ok_Cons [OF Cons.prems(1,2)]
  let ?w = "handleEvent cf acc g w"
  have batch: "handleEvents cf acc (g # es) w = handleEvents cf acc es ?w" by (simp add: handleEvents_def)
  show ?case
  proof (cases "g = fd")
    case True
    then have reg: "?w = registerHandler cf fd w" using fd Cons.prems(4) by (simp add: handleEvent_def)
    have "fd \<notin> set es" using Cons.prems(2) True by (simp add: events_ok_def)
    from handleEvents_untouched [OF step(1,2) this fd(2)]
    have u: "untouched fd (hw_net ?w) (hw_net (handleEvents cf acc es ?w))" .
    have watched: "watched (nt_epoll (hw_net w)) fd \<noteq> None" using step(4) True by simp
    from registerHandler_serves [OF req Cons.prems(1,4) watched fd(1) Cons.prems(5)]
    show ?thesis using u settled_untouched [OF _ u] by (simp add: batch reg untouched_def)
  next
    case False
    with handleEvent_untouched [OF Cons.prems(1) step(4) _ fd(2)]
    have u: "untouched fd (hw_net w) (hw_net ?w)" by simp
    have "handler_of (hw_net ?w) fd = None" "nt_ios (hw_net ?w) fd = io_init (chunked cs) (map WRoom ks)"
      using u Cons.prems(4,5) by (simp_all add: untouched_def)
    from Cons.IH [OF step(1,2) _ this] Cons.prems(3) False step(3) show ?thesis by (simp add: batch)
  qed
qed simp

text \<open>The time-out scan behind the batch takes an active handler only if it was active long ago.\<close>

lemma scan_settled:
  fixes now
  assumes inv: "worker_inv cf w" and s: "settled closes t fd (hw_net w)"
  defines "w' \<equiv> scheduleTimeoutHandler cf now w"
  shows "nt_ios (hw_net w') = nt_ios (hw_net w)" and "worker_inv cf w'"
    and "closes \<Longrightarrow> handler_of (hw_net w') fd = None"
    and "int now - int t < cf_timeout_threshold cf \<Longrightarrow> \<not> closes \<Longrightarrow> settled False t fd (hw_net w')"
proof -
  have "distinct (map fst (nt_coroutines (hw_net w)))" using inv by (simp add: worker_ok_def)
  note sc = timeout_fold [OF inv this, of now, folded scheduleTimeoutHandler_def]
  then show "nt_ios (hw_net w') = nt_ios (hw_net w)" "worker_inv cf w'"
    by (simp_all add: scanned_def w'_def)
  show "closes \<Longrightarrow> handler_of (hw_net w') fd = None"
    using sc s by (simp add: scanned_def settled_def w'_def)
  assume recent: "int now - int t < cf_timeout_threshold cf" "\<not> closes"
  then obtain h where h: "handler_of (hw_net w) fd = Some h" "getLastActivity h = t" "ch_set h = only_IN"
    using s by (auto simp: settled_def)
  then have "\<not> expired cf now (hw_net w) fd" using recent by (simp add: expired_def idle_def)
  with sc h show "settled False t fd (hw_net w')" by (simp add: scanned_def settled_def w'_def)
qed

text \<open>What holds of a connection that has been answered, in any state with the worker's invariant.\<close>

lemma closed_unwatched:
  assumes "worker_inv cf w" and "handler_of (hw_net w) fd = None" and "fd \<noteq> cf_server_fd cf"
    and "io_sent (nt_ios (hw_net w) fd) \<noteq> []"
  shows "watched (nt_epoll (hw_net w)) fd = None"
  using assms by (auto simp: worker_ok_def fresh_ok_def)

lemma settled_open:
  assumes "worker_inv cf w" and "settled False t fd (hw_net w)"
  shows "handler_of (hw_net w) fd \<noteq> None" and "watched (nt_epoll (hw_net w)) fd = Some (ev_data only_IN)"
  using assms by (auto simp: worker_ok_def handler_ok_def settled_def)

text \<open>The end of a round, with the time-out scan or without it, leaves a served client as it is.\<close>

lemma round_end:
  assumes inv: "worker_inv cf w" and st: "settled close t fd (hw_net w)"
    and out: "io_sent (nt_ios (hw_net w) fd) = out" "out \<noteq> []"
    and w': "w' = w \<or> w' = scheduleTimeoutHandler cf now w" and fd: "fd \<noteq> cf_server_fd cf"
  shows "io_sent (nt_ios (hw_net w') fd) = out \<and>
    (if close then handler_of (hw_net w') fd = None \<and> watched (nt_epoll (hw_net w')) fd = None
     else int now - int t < cf_timeout_threshold cf \<longrightarrow>
       handler_of (hw_net w') fd \<noteq> None \<and> watched (nt_epoll (hw_net w')) fd = Some (ev_data only_IN))"
proof -
  note scan = scan_settled [OF inv st, of now]
  have inv': "worker_inv cf w'" using w' inv scan(2) by auto
  have sent: "io_sent (nt_ios (hw_net w') fd) = out" using w' out(1) scan(1) by auto
  have "watched (nt_epoll (hw_net w')) fd = None" "handler_of (hw_net w') fd = None" if close
  proof -
    show h: "handler_of (hw_net w') fd = None" using w' st scan(3) that by (auto simp: settled_def)
    show "watched (nt_epoll (hw_net w')) fd = None"
      using closed_unwatched [OF inv' h fd] sent out(2) by simp
  qed
  moreover have "handler_of (hw_net w') fd \<noteq> None" "watched (nt_epoll (hw_net w')) fd = Some (ev_data only_IN)"
    if "\<not> close" "int now - int t < cf_timeout_threshold cf"
    using settled_open [OF inv', of t fd] w' st scan(4) that by auto
  ultimately show ?thesis using sent by auto
qed

text \<open>
  C6: A worker answers the first request of a client in the round that reports it. Take any reachable state
  of a worker and a round of its event loop in which \<^verbatim>\<open>epoll_wait\<close> reports an accepted connection that
  has no handler yet, together with any other events, and let a well-formed request without a body,
  of at most 1024 bytes and in any pieces, wait on that connection, for which the callback does not
  throw and for whose response there is room. Then the round ends without an exception, and what has
  been sent on the connection is exactly the serialised response of the callback to the request the
  client sent, whatever the other connections did in the meantime and whether or not the round ended
  with a time-out scan. A connection that is to be closed is out of the worker's table and no longer
  watched; one that is kept has its handler and is watched for input again, if the round took less
  time than the time-out.
\<close>

theorem worker_answers_clients:
  assumes "ok_request path qs hs" and "bodiless meth hs"
    and "length (render_head meth path qs v hs) \<le> 1024"
    and "concat cs = render_head meth path qs v hs" and "[] \<notin> set cs"
    and "cf_callback cf (plain_request meth path qs v hs) = Inr resp" and "0 \<notin> set ks"
    and "length (dump (finish_response (plain_request meth path qs v hs) resp)) \<le> sum_list ks"
    and "worker_reach cf w" and "round_ok cf r w" and "rd_wait r = Triggered es"
    and "fd \<in> set es" and "fd \<noteq> cf_server_fd cf" and "\<not> accepted (rd_accepts r) fd"
    and "handler_of (hw_net w) fd = None"
    and "nt_ios (hw_net w) fd = io_init (chunked cs) (map WRoom ks)"
  shows "\<exists>tp' w'. loop_round cf r tp w = Inr (tp', w') \<and>
    io_sent (nt_ios (hw_net w') fd) = dump (finish_response (plain_request meth path qs v hs) resp) \<and>
    (if shouldCloseAfterResponse (plain_request meth path qs v hs)
     then handler_of (hw_net w') fd = None \<and> watched (nt_epoll (hw_net w')) fd = None
     else int (rd_after r) - int (rd_returned r) < cf_timeout_threshold cf \<longrightarrow>
       handler_of (hw_net w') fd \<noteq> None \<and>
       watched (nt_epoll (hw_net w')) fd = Some (ev_data (EventsSet_of [IN])))"
proof -
  let ?req = "plain_request meth path qs v hs" and ?t = "rd_returned r"
  let ?close = "shouldCloseAfterResponse ?req"
  define w0 where "w0 = on_net (\<lambda>n. n\<lparr>nt_now := ?t\<rparr>) w"
  define w1 where "w1 = handleEvents cf (rd_accepts r) es w0"
  define w2 where "w2 = on_net (\<lambda>n. n\<lparr>nt_now := rd_after r\<rparr>) w1"
  have inv0: "worker_inv cf w0"
    using worker_reach_inv [OF assms(9)] assms(10) unfolding w0_def
    by (intro worker_inv_now) (simp_all add: round_ok_def)
  have e: "events_ok cf (rd_accepts r) es w0" using assms(10,11) by (simp add: round_ok_def w0_def)
  have served: "io_sent (nt_ios (hw_net w1) fd) = dump (finish_response ?req resp) \<and>
      settled ?close ?t fd (hw_net w1)"
    using handleEvents_serves [OF assms(1-8,13,14) inv0 e assms(12)] assms(15,16)
    by (simp add: w0_def w1_def)
  have inv2: "worker_inv cf w2" unfolding w2_def
    by (rule worker_inv_now)
       (use handleEvents_inv [OF inv0 e] assms(10) in \<open>simp_all add: w1_def w0_def round_ok_def\<close>)
  have s2: "settled ?close ?t fd (hw_net w2)" "io_sent (nt_ios (hw_net w2) fd) = dump (finish_response ?req resp)"
    using served by (simp_all add: settled_def w2_def)
  have wait: "wait_with_timeout (rd_wait r) = Inr (Some es)"
    using assms(11,12) by (cases es) (simp_all add: wait_with_timeout_def)
  have "loop_round cf r tp w =
      (let t = tp + (int (rd_after r) - int (rd_before r))
       in if TIMER_TICK \<le> t then Inr (0, scheduleTimeoutHandler cf (rd_after r) w2) else Inr (t, w2))"
    by (simp add: loop_round_def wait Let_def w0_def w1_def w2_def)
  then obtain tp' w' where l: "loop_round cf r tp w = Inr (tp', w')"
    and w': "w' = w2 \<or> w' = scheduleTimeoutHandler cf (rd_after r) w2"
    by (cases "TIMER_TICK \<le> tp + (int (rd_after r) - int (rd_before r))") (auto simp: Let_def)
  from round_end [OF inv2 s2 dump_neq_Nil w' assms(13)]
  show ?thesis using l by (auto simp: only_IN_def)
qed

text \<open>The connection of the other instances, with a request on it.\<close>

definition demo_asking :: worker where
  "demo_asking = on_net (deliver 5 (chunked [render_head GET ''/'' [] HTTP1_1 [(''A'', ''b'')]]) (map WRoom [100]))
     demo_accepted"

lemma demo_asking_reach: "worker_reach demo_config demo_asking"
  unfolding demo_asking_def by (rule worker_reach.arrive [OF demo_accepted_reach])

theorem worker_answers_clients_witness:
  "\<exists>tp' w'. loop_round demo_config (ready_round 20) 0 demo_asking = Inr (tp', w') \<and>
    io_sent (nt_ios (hw_net w') 5) =
      dump (finish_response (plain_request GET ''/'' [] HTTP1_1 [(''A'', ''b'')])
        (setBody ''hi'' (setStatusCode OK HttpResponse_init))) \<and>
    watched (nt_epoll (hw_net w')) 5 = Some (ev_data (EventsSet_of [IN]))"
proof -
  let ?hs = "[(''A'', ''b'')]" and ?resp = "setBody ''hi'' (setStatusCode OK HttpResponse_init)"
  let ?cs = "[render_head GET ''/'' [] HTTP1_1 [(''A'', ''b'')]]"
  have ok: "ok_request ''/'' [] ?hs" "bodiless GET ?hs"
    by (simp_all add: ok_request_def ok_path_def ok_header_def bodiless_def)
  have len: "length (render_head GET ''/'' [] HTTP1_1 ?hs) \<le> 1024" by code_simp
  have room: "length (dump (finish_response (plain_request GET ''/'' [] HTTP1_1 ?hs) ?resp)) \<le> sum_list [100]"
    by code_simp
  have cb: "cf_callback demo_config (plain_request GET ''/'' [] HTTP1_1 ?hs) = Inr ?resp"
    by (simp add: demo_config_def greet_def)
  have round: "round_ok demo_config (ready_round 20) demo_asking"
    unfolding round_ok_def by (simp add: ready_round_def) code_simp
  have none: "handler_of (hw_net demo_asking) 5 = None" by code_simp
  have "nt_ios (hw_net demo_accepted) 5 = io_init [] []" by code_simp
  then have io: "nt_ios (hw_net demo_asking) 5 = io_init (chunked ?cs) (map WRoom [100])"
    by (simp add: demo_asking_def deliver_def io_init_def)
  have close: "\<not> shouldCloseAfterResponse (plain_request GET ''/'' [] HTTP1_1 ?hs)" by code_simp
  have "concat ?cs = render_head GET ''/'' [] HTTP1_1 ?hs" "[] \<notin> set ?cs" "0 \<notin> set [100::nat]"
    by (simp_all add: render_head_def CRLF_def)
  from worker_answers_clients [OF ok len this(1,2) cb this(3) room demo_asking_reach round, of "[5]" 5 0]
    none io close
  have "\<exists>tp' w'. loop_round demo_config (ready_round 20) 0 demo_asking = Inr (tp', w') \<and>
      io_sent (nt_ios (hw_net w') 5) = dump (finish_response (plain_request GET ''/'' [] HTTP1_1 ?hs) ?resp) \<and>
      handler_of (hw_net w') 5 \<noteq> None \<and>
      watched (nt_epoll (hw_net w')) 5 = Some (ev_data (EventsSet_of [IN]))"
    by (simp add: ready_round_def demo_config_def)
  then show ?thesis by blast
qed

end
