(* ===== verification/Handler_Conversation.thy ===== *)
theory Handler_Conversation
  imports Handler_Request
begin

text \<open>
  A connection over several requests, with bodies, suspended wherever the peer or the kernel
  makes it wait: what a client has asked, what it is owed, and that every run of the coroutine
  pays some of it and changes nothing else. The buffer of a connection that is kept holds the
  bytes of earlier requests; \<open>good_cut\<close> says where a client may stop sending for a moment without
  one of them completing its request.
\<close>

section \<open>A client's request\<close>

record ask =
  ak_method :: HttpMethod
  ak_path :: string
  ak_query :: "(string \<times> string) list"
  ak_version :: HttpVersion
  ak_headers :: "(string \<times> string) list"
  ak_body :: string

definition ask_head :: "ask \<Rightarrow> string" where
  "ask_head a = render_head (ak_method a) (ak_path a) (ak_query a) (ak_version a) (ak_headers a)"

definition ask_text :: "ask \<Rightarrow> string" where
  "ask_text a = ask_head a @ ak_body a"

definition ask_request :: "ask \<Rightarrow> HttpRequest" where
  "ask_request a =
     mk_HttpRequest (collect (ak_headers a) []) (collect (ak_query a) []) (ak_body a) (ak_path a)
       (ak_version a) (ak_method a)"

text \<open>
  A well-formed request: at least one header, and a body exactly if there is a \<^verbatim>\<open>Content-Length\<close> and the
  method has one.
\<close>

definition wf_ask :: "ask \<Rightarrow> bool" where
  "wf_ask a \<longleftrightarrow>
     ok_request (ak_path a) (ak_query a) (ak_headers a) \<and>
     (bodiless (ak_method a) (ak_headers a) \<and> ak_body a = [] \<or>
      (ak_method a = POST \<or> ak_method a = PUT) \<and>
        ci_find ''Content-Length'' (ak_headers a) = Some (to_dec (length (ak_body a))))"

text \<open>
  And one that fits into the read buffer before it grows, which is a limit of this server: of a longer
  one it builds the request from freed memory (\<open>Handler_Defects\<close>).
\<close>

definition fits_buffer :: "ask \<Rightarrow> bool" where
  "fits_buffer a \<longleftrightarrow> length (ask_text a) \<le> 1024"

definition ok_ask :: "ask \<Rightarrow> bool" where
  "ok_ask a \<longleftrightarrow> wf_ask a \<and> fits_buffer a"

lemmas ok_ask_defs = ok_ask_def wf_ask_def fits_buffer_def

text \<open>
  Where the bytes of a request may be cut: not behind a CR, where a stale LF would pass for the
  next byte, and not in front of the last byte of a body, which is not waited for.
\<close>

definition good_cut :: "ask \<Rightarrow> nat \<Rightarrow> bool" where
  "good_cut a j \<longleftrightarrow>
     j = 0 \<or> ask_text a ! (j - 1) \<noteq> CR \<and> (ak_body a \<noteq> [] \<longrightarrow> j + 1 \<noteq> length (ask_text a))"

section \<open>The parser along the cuts\<close>

lemma find_sub_behind:
  assumes "s = [] \<or> last s \<noteq> x"
  shows "find_sub (pat @ [x, y]) (s @ [z]) = find_sub (pat @ [x, y]) s"
proof (cases "find_sub (pat @ [x, y]) s")
  case (Some i)
  then show ?thesis by (simp add: find_sub_extend)
next
  case None
  have "\<not> prefix (pat @ [x, y]) (drop j (s @ [z]))" if j: "j \<le> length (s @ [z])" for j
  proof
    assume p: "prefix (pat @ [x, y]) (drop j (s @ [z]))"
    show False
    proof (cases "j \<le> length s")
      case False
      with j have "drop j (s @ [z]) = []" by simp
      with p show False by simp
    next
      case True
      then have d: "drop j (s @ [z]) = drop j s @ [z]" by simp
      with p have "pat @ [x, y] = drop j s @ [z] \<or> prefix (pat @ [x, y]) (drop j s)" by simp
      with None True have "(pat @ [x]) @ [y] = drop j s @ [z]" by (auto simp: find_sub_None)
      then have e: "drop j s = pat @ [x]" by (simp only: append1_eq_conv)
      then have "j < length s" by (cases "j < length s") auto
      with e last_drop [of j s] have "last s = x" "s \<noteq> []" by auto
      with assms show False by simp
    qed
  qed
  then have "find_sub (pat @ [x, y]) (s @ [z]) = None" unfolding find_sub_None by blast
  with None show ?thesis by simp
qed

lemma find_CR_behind:
  assumes "s = [] \<or> last s \<noteq> CR"
  shows "find_sub CRLF (s @ [z]) = find_sub CRLF s" and "find_sub CRLF2 (s @ [z]) = find_sub CRLF2 s"
  using find_sub_behind [OF assms, of "[]" LF z] find_sub_behind [OF assms, of "[CR, LF]" LF z]
  by (simp_all add: CRLF_def CRLF2_def)

text \<open>The parser after \<open>j\<close> bytes of the request.\<close>

definition parser_upto :: "nat \<Rightarrow> ask \<Rightarrow> nat \<Rightarrow> HttpRequestParser" where
  "parser_upto b a j = snd (parse (mk_message b (take j (ask_text a))) HttpRequestParser_init)"

lemma parse_cut_line:
  "find_sub CRLF s = None \<Longrightarrow>
     parse (mk_message b s) HttpRequestParser_init = (Inr READING_REQUEST_LINE, HttpRequestParser_init)"
  by (simp add: parse_def request_line_block_def HttpRequestParser_init_def headers_block_def body_block_def)

lemma parse_cut_headers:
  assumes "ok_path path" and "\<forall>q\<in>set qs. ok_param q" and "find_sub CRLF2 s = None"
  shows "parse (mk_message b (render_line meth path qs v @ CRLF @ s)) HttpRequestParser_init =
    (Inr READING_HEADERS, parsed_head b meth path qs v [])"
  using request_line_block_render [OF assms(1,2), of b meth v s] assms(3)
  by (simp add: parse_def HttpRequestParser_init_def parsed_head_def headers_block_def)

text \<open>The cuts of the head: in the request line, and behind it.\<close>

lemma line_cut_absent:
  assumes "ok_request path qs hs" and "j < length (render_line meth path qs v) + 2"
  shows "find_sub CRLF (take j (render_head meth path qs v hs)) = None"
proof (rule ccontr)
  assume "find_sub CRLF (take j (render_head meth path qs v hs)) \<noteq> None"
  then obtain i where i: "find_sub CRLF (take j (render_head meth path qs v hs)) = Some i" by auto
  have "find_sub CRLF (render_head meth path qs v hs) = Some (length (render_line meth path qs v))"
    using assms(1) render_line_text [of path qs meth v]
    by (simp add: render_head_def ok_request_def find_sub_CRLF_first)
  with find_sub_take [OF i] have "i = length (render_line meth path qs v)" by simp
  with find_sub_length [OF i] assms(2) show False by simp
qed

lemma headers_cut_absent:
  assumes "ok_request path qs hs" and "k < length (lines_text (map render_header hs) @ CRLF)"
  shows "find_sub CRLF2 (take k (lines_text (map render_header hs) @ CRLF)) = None"
proof (rule ccontr)
  let ?R = "lines_text (map render_header hs) @ CRLF"
  assume "find_sub CRLF2 (take k ?R) \<noteq> None"
  then obtain e where e: "find_sub CRLF2 (take k ?R) = Some e" by auto
  have hdr: "\<forall>l\<in>set (map render_header hs). CR \<notin> set l \<and> l \<noteq> []"
    using assms(1) by (auto simp: ok_request_def render_header_text)
  have "find_sub CRLF2 (?R @ []) = Some (length (lines_text (map render_header hs)) - 2)"
    using find_sub_CRLF2_lines [OF _ hdr, of "[]"] assms(1) by (simp add: ok_request_def)
  moreover have "2 \<le> length (lines_text (map render_header hs))"
    using assms(1) by (cases hs) (auto simp: ok_request_def)
  ultimately show False using find_sub_take [OF e] find_sub_length [OF e] assms(2) by simp
qed

lemma last_take: "0 < j \<Longrightarrow> j \<le> length s \<Longrightarrow> last (take j s) = s ! (j - 1)"
  by (cases "take j s = []") (auto simp: last_conv_nth min_def)

lemma ask_head_neq_Nil [simp]: "ask_head a \<noteq> []"
  by (simp add: ask_head_def render_head_def CRLF_def)

text \<open>At a good cut the parser wants more, whatever byte lies behind.\<close>

lemma parse_at_cut:
  assumes ok: "ok_ask a" and j: "j < length (ask_text a)" and cut: "good_cut a j"
  shows "\<exists>st q. st \<noteq> DONE \<and>
    parse (mk_message b (take j (ask_text a))) HttpRequestParser_init = (Inr st, q) \<and>
    (\<forall>z. parse (mk_message b (take j (ask_text a) @ [z])) HttpRequestParser_init = (Inr st, q))"
proof -
  let ?m = "ak_method a" and ?p = "ak_path a" and ?qs = "ak_query a" and ?v = "ak_version a"
  let ?hs = "ak_headers a" and ?l = "render_line ?m ?p ?qs ?v"
  let ?R = "lines_text (map render_header ?hs) @ CRLF"
  have req: "ok_request ?p ?qs ?hs" using ok by (simp add: ok_ask_defs)
  have T: "ask_text a = (?l @ CRLF @ ?R) @ ak_body a" by (simp add: ask_text_def ask_head_def render_head_def)
  have behind: "take j (ask_text a) = [] \<or> last (take j (ask_text a)) \<noteq> CR"
    using cut j by (cases "j = 0") (auto simp: good_cut_def last_take)
  consider (line) "j < length ?l + 2"
    | (headers) "length ?l + 2 \<le> j" "j < length (ask_head a)"
    | (body) "length (ask_head a) \<le> j"
    by linarith
  then show ?thesis
  proof cases
    case line
    then have "take j (ask_text a) = take j (ask_head a)" by (simp add: ask_text_def ask_head_def render_head_def)
    then have "find_sub CRLF (take j (ask_text a)) = None"
      using line_cut_absent [OF req line] by (simp add: ask_head_def)
    then have "parse (mk_message b (take j (ask_text a))) HttpRequestParser_init =
          (Inr READING_REQUEST_LINE, HttpRequestParser_init)"
        "parse (mk_message b (take j (ask_text a) @ [z])) HttpRequestParser_init =
          (Inr READING_REQUEST_LINE, HttpRequestParser_init)" for z
      by (simp_all add: parse_cut_line find_CR_behind(1) [OF behind])
    then show ?thesis by blast
  next
    case headers
    let ?k = "j - (length ?l + 2)"
    have t: "take j (ask_text a) = ?l @ CRLF @ take ?k ?R" and k: "?k < length ?R"
      using headers by (simp_all add: ask_text_def ask_head_def render_head_def CRLF_def take_Cons')
    have tail: "s = [] \<or> last s \<noteq> CR" if "?l @ CRLF @ s = [] \<or> last (?l @ CRLF @ s) \<noteq> CR" for s
      using that by (cases "s = []") auto
    have "take ?k ?R = [] \<or> last (take ?k ?R) \<noteq> CR" by (rule tail) (use behind in \<open>simp only: t\<close>)
    from find_CR_behind(2) [OF this] headers_cut_absent [OF req k]
    have "find_sub CRLF2 (take ?k ?R) = None" "find_sub CRLF2 (take ?k ?R @ [z]) = None" for z by simp_all
    then have "parse (mk_message b (?l @ CRLF @ take ?k ?R)) HttpRequestParser_init =
          (Inr READING_HEADERS, parsed_head b ?m ?p ?qs ?v [])"
        "parse (mk_message b (?l @ CRLF @ take ?k ?R @ [z])) HttpRequestParser_init =
          (Inr READING_HEADERS, parsed_head b ?m ?p ?qs ?v [])" for z
      using req by (simp_all add: parse_cut_headers ok_request_def)
    then show ?thesis unfolding t by auto
  next
    case body
    let ?k = "j - length (ask_head a)"
    have t: "take j (ask_text a) = ask_head a @ take ?k (ak_body a)" using body by (simp add: ask_text_def)
    have b: "ak_body a \<noteq> []" using body j by (auto simp: ask_text_def)
    then have cl: "?m = POST \<or> ?m = PUT"
      "ci_find ''Content-Length'' ?hs = Some (to_dec (length (ak_body a)))"
      using ok by (auto simp: ok_ask_defs)
    have "stoull (to_dec (length (ak_body a))) = Inr (length (ak_body a))"
      using ok by (intro stoull_to_dec) (simp add: ok_ask_defs ask_text_def)
    note p = parse_render_body [OF _ _ _ _ cl this, of ?p ?qs b ?v, folded ask_head_def]
    have "0 < j" using body by (cases j) auto
    then have short: "j + 1 \<noteq> length (ask_text a)" using cut b by (simp add: good_cut_def)
    have "\<not> length (ak_body a) \<le> length (take ?k (ak_body a))"
      "\<not> length (ak_body a) \<le> length (take ?k (ak_body a) @ [z])" for z
      using body j short by (auto simp: ask_text_def)
    with p [of "take ?k (ak_body a)"] p [of "take ?k (ak_body a) @ [z]" for z] req
    show ?thesis unfolding t by (auto simp: ok_request_def Let_def)
  qed
qed

lemma parser_upto_0: "parser_upto b a 0 = HttpRequestParser_init"
  by (simp add: parser_upto_def parse_cut_line)

lemma parser_upto_again:
  assumes "ok_ask a" and "i < length (ask_text a)" and "good_cut a i" and "i \<le> j"
  shows "parse (mk_message b (take j (ask_text a) @ s)) (parser_upto b a i) =
    parse (mk_message b (take j (ask_text a) @ s)) HttpRequestParser_init"
proof -
  obtain st q where p: "parse (mk_message b (take i (ask_text a))) HttpRequestParser_init = (Inr st, q)"
    and "st \<noteq> DONE"
    using parse_at_cut [OF assms(1-3), of b] by blast
  from parse_resume_aux [OF this parser_inv_init]
  have "parse (mk_message b (take i (ask_text a) @ t)) q =
      parse (mk_message b (take i (ask_text a) @ t)) HttpRequestParser_init" for t by simp
  moreover have "take j (ask_text a) = take i (ask_text a) @ take (j - i) (drop i (ask_text a))"
    using assms(4) by (metis le_add_diff_inverse take_add)
  ultimately show ?thesis using p by (simp add: parser_upto_def)
qed

lemma parse_whole_ask:
  assumes ok: "ok_ask a"
  shows "\<exists>p. parse (mk_message b (ask_text a @ [z])) HttpRequestParser_init = (Inr DONE, p) \<and>
    (\<forall>mem rest. mem b = Some (ask_text a @ rest) \<longrightarrow> buildRequest mem p = Inr (ask_request a))"
proof -
  let ?m = "ak_method a" and ?p = "ak_path a" and ?qs = "ak_query a" and ?v = "ak_version a"
  let ?hs = "ak_headers a" and ?body = "ak_body a"
  have req: "ok_path ?p" "\<forall>q\<in>set ?qs. ok_param q" "?hs \<noteq> []" "\<forall>h\<in>set ?hs. ok_header h"
    using ok by (simp_all add: ok_ask_defs ok_request_def)
  have path: "read_view mem (View b (length (show_method ?m) + 1) (length ?p)) = Some ?p"
    if "mem b = Some (ask_text a @ rest)" for mem rest
    using that by (simp add: ask_text_def ask_head_def render_head_def render_line_def render_target_def substr_def)
  show ?thesis
  proof (cases "bodiless ?m ?hs \<and> ?body = []")
    case True
    then have "?m = GET \<or> ?m = DELETE \<or> ci_find ''Content-Length'' ?hs = None" by (simp add: bodiless_def)
    from parse_render_no_body [OF req this, of b ?v "[z]"] True
    have "parse (mk_message b (ask_text a @ [z])) HttpRequestParser_init =
        (Inr DONE, (parsed_head b ?m ?p ?qs ?v ?hs)\<lparr>hp_state := DONE\<rparr>)"
      by (simp add: ask_text_def ask_head_def)
    moreover have "buildRequest mem ((parsed_head b ?m ?p ?qs ?v ?hs)\<lparr>hp_state := DONE\<rparr>) = Inr (ask_request a)"
      if "mem b = Some (ask_text a @ rest)" for mem rest
      using path [of mem rest] that True
      by (simp add: buildRequest_def parsed_head_def HttpRequestParser_init_def ask_request_def)
    ultimately show ?thesis by blast
  next
    case False
    then have cl: "?m = POST \<or> ?m = PUT" "ci_find ''Content-Length'' ?hs = Some (to_dec (length ?body))"
      using ok by (auto simp: ok_ask_defs)
    have "stoull (to_dec (length ?body)) = Inr (length ?body)"
      using ok by (intro stoull_to_dec) (simp add: ok_ask_defs ask_text_def)
    from parse_render_body [OF req cl this, of b ?v "?body @ [z]", folded ask_head_def]
    have "\<exists>p. parse (mk_message b (ask_text a @ [z])) HttpRequestParser_init = (Inr DONE, p) \<and>
        hp_body p = View b (length (ask_head a)) (length ?body) \<and>
        hp_path p = View b (length (show_method ?m) + 1) (length ?p) \<and> hp_headers p = collect ?hs [] \<and>
        hp_query p = collect ?qs [] \<and> hp_version p = ?v \<and> hp_method p = ?m"
      by (simp add: ask_text_def Let_def parsed_head_def)
    then obtain p where p: "parse (mk_message b (ask_text a @ [z])) HttpRequestParser_init = (Inr DONE, p)"
      "hp_body p = View b (length (ask_head a)) (length ?body)"
      "hp_path p = View b (length (show_method ?m) + 1) (length ?p)"
      "hp_headers p = collect ?hs []" "hp_query p = collect ?qs []" "hp_version p = ?v" "hp_method p = ?m"
      by blast
    have "buildRequest mem p = Inr (ask_request a)" if "mem b = Some (ask_text a @ rest)" for mem rest
    proof -
      have "read_view mem (hp_body p) = Some ?body" unfolding p(2) using that by (simp add: ask_text_def substr_def)
      with path [of mem rest] that p show ?thesis by (simp add: buildRequest_def ask_request_def)
    qed
    with p(1) show ?thesis by blast
  qed
qed

section \<open>Reading\<close>

text \<open>The buffer while the first \<open>i\<close> bytes of the request are in it.\<close>

definition holds_ask :: "ask \<Rightarrow> nat \<Rightarrow> conn \<Rightarrow> bool" where
  "holds_ask a i c \<longleftrightarrow>
     i \<le> length (ask_text a) \<and> 1024 \<le> length (ch_read_buff (cn_h c)) \<and>
     take i (ch_read_buff (cn_h c)) = take i (ask_text a)"

lemma holds_ask_text:
  assumes "holds_ask a i c" and "ok_ask a"
  shows "\<exists>z. request_text i (cn_h c) = take i (ask_text a) @ [z]"
proof -
  let ?b = "ch_read_buff (cn_h c)"
  have "i \<le> length ?b" using assms by (simp add: holds_ask_def ok_ask_defs)
  then have "request_text i (cn_h c) = take i ?b @ [(?b @ [NUL]) ! i]"
    by (simp add: request_text_def take_Suc_conv_app_nth nth_append del: append.simps)
  then show ?thesis using assms(1) by (simp add: holds_ask_def)
qed

lemma check_cut:
  assumes ok: "ok_ask a" and i: "i \<le> j" "good_cut a i" and j: "j < length (ask_text a)" "good_cut a j"
    and h: "holds_ask a j c" and b: "b = ch_alloc (cn_h c)"
  shows "readRequest_check (parser_upto b a i) j c = Inr (parser_upto b a j, c)"
proof -
  obtain z where z: "request_text j (cn_h c) = take j (ask_text a) @ [z]"
    using holds_ask_text [OF h ok] by blast
  obtain st q where p: "st \<noteq> DONE" "parse (mk_message b (take j (ask_text a))) HttpRequestParser_init = (Inr st, q)"
    "parse (mk_message b (take j (ask_text a) @ [z])) HttpRequestParser_init = (Inr st, q)"
    using parse_at_cut [OF ok j, of b] by blast
  have "parse (mk_message b (take j (ask_text a) @ [z])) (parser_upto b a i) = (Inr st, q)"
    using parser_upto_again [OF ok _ i(2,1), of b "[z]"] i(1) j(1) p(3) by simp
  moreover have "on_h (grow j) c = c"
    using h j(1) ok by (intro grow_room) (simp add: holds_ask_def ok_ask_defs)
  ultimately show ?thesis using p(1,2) z b by (simp add: readRequest_check_def parser_upto_def)
qed

lemma check_whole:
  assumes ok: "ok_ask a" and i: "i < length (ask_text a)" "good_cut a i"
    and h: "holds_ask a (length (ask_text a)) c" and b: "b = ch_alloc (cn_h c)"
  shows "readRequest_check (parser_upto b a i) (length (ask_text a)) c = Inl (Inr (ask_request a))"
proof -
  let ?b = "ch_read_buff (cn_h c)"
  obtain z where z: "request_text (length (ask_text a)) (cn_h c) = ask_text a @ [z]"
    using holds_ask_text [OF h ok] by auto
  have "?b = ask_text a @ drop (length (ask_text a)) ?b"
    using h append_take_drop_id [of "length (ask_text a)" ?b] by (simp add: holds_ask_def)
  then have mem: "handler_memory (cn_h c) b = Some (ask_text a @ drop (length (ask_text a)) ?b @ [NUL])"
    by (simp add: handler_memory_def b)
  obtain p where p: "parse (mk_message b (ask_text a @ [z])) HttpRequestParser_init = (Inr DONE, p)"
    and build: "buildRequest (handler_memory (cn_h c)) p = Inr (ask_request a)"
    using parse_whole_ask [OF ok, of b z] mem by blast
  have "parse (mk_message b (ask_text a @ [z])) (parser_upto b a i) = (Inr DONE, p)"
    using parser_upto_again [OF ok i, of "length (ask_text a)" b "[z]"] i(1) p by simp
  with z build b show ?thesis by (simp add: readRequest_check_def)
qed

section \<open>What arrives\<close>

definition closes :: "ask \<Rightarrow> bool" where
  "closes a = shouldCloseAfterResponse (ask_request a)"

text \<open>
  The pieces and waits by which the requests arrive, the first one from its byte \<open>i\<close> on; a piece holds
  bytes of one request only, as what follows a whole request in the buffer is lost. With
  \<open>full\<close> all of them are on their way; behind a request that closes anything may follow.
\<close>

fun feed :: "bool \<Rightarrow> ask list \<Rightarrow> nat \<Rightarrow> rd_item list \<Rightarrow> bool" where
  "feed full asks i [] \<longleftrightarrow> (full \<longrightarrow> asks = [])"
| "feed full asks i (RError e # items) \<longleftrightarrow> e = EAGAIN \<and> feed full asks i items"
| "feed full [] i (RBytes bs # items) \<longleftrightarrow> False"
| "feed full (a # asks) i (RBytes bs # items) \<longleftrightarrow>
     bs \<noteq> [] \<and> i + length bs \<le> length (ask_text a) \<and> bs = take (length bs) (drop i (ask_text a)) \<and>
     (if i + length bs = length (ask_text a) then closes a \<or> feed full asks 0 items
      else good_cut a (i + length bs) \<and> feed full (a # asks) (i + length bs) items)"

text \<open>The handler in \<open>readRequest\<close> with the first \<open>i\<close> bytes of the next request.\<close>

fun at_ask :: "ask list \<Rightarrow> HttpRequestParser \<Rightarrow> nat \<Rightarrow> conn \<Rightarrow> bool" where
  "at_ask [] p i c \<longleftrightarrow> p = HttpRequestParser_init \<and> i = 0 \<and> 1024 \<le> length (ch_read_buff (cn_h c))"
| "at_ask (a # asks) p i c \<longleftrightarrow>
     i < length (ask_text a) \<and> good_cut a i \<and> holds_ask a i c \<and> p = parser_upto (ch_alloc (cn_h c)) a i"

definition in_marks :: "conn \<Rightarrow> nat" where
  "in_marks c = length (filter (\<lambda>x. x = RError EAGAIN) (io_in (cn_io c)))"

lemma at_ask_env:
  "ch_read_buff (cn_h c') = ch_read_buff (cn_h c) \<Longrightarrow> ch_alloc (cn_h c') = ch_alloc (cn_h c) \<Longrightarrow>
     at_ask asks p i c' = at_ask asks p i c"
  by (cases asks) (simp_all add: holds_ask_def)

lemma at_ask_simps [simp]:
  "at_ask asks p i (updateLastActivity c) = at_ask asks p i c"
  "at_ask asks p i (set_io s c) = at_ask asks p i c"
  "in_marks (updateLastActivity c) = in_marks c"
  using at_ask_env [of "updateLastActivity c" c asks p i] at_ask_env [of "set_io s c" c asks p i]
  by (simp_all add: updateLastActivity_def setLastActivity_def in_marks_def)

lemma at_ask_start:
  assumes "1024 \<le> length (ch_read_buff (cn_h c))"
  shows "at_ask asks HttpRequestParser_init 0 c"
  using assms by (cases asks) (simp_all add: holds_ask_def good_cut_def parser_upto_0 ask_text_def)

text \<open>At the resumption the parser sees the buffer once more, and learns nothing.\<close>

lemma check_again:
  assumes "at_ask asks p i c" and "\<forall>a\<in>set asks. ok_ask a"
  shows "readRequest_check p i c = Inr (p, c)"
proof (cases asks)
  case Nil
  obtain x s where b: "ch_read_buff (cn_h c) = x # s" using assms(1) Nil by (cases "ch_read_buff (cn_h c)") auto
  then have "find_sub CRLF (request_text 0 (cn_h c)) = None" by (simp add: request_text_def CRLF_def)
  then have "readRequest_check p i c = Inr (p, on_h (grow 0) c)"
    using assms(1) Nil by (simp add: readRequest_check_def parse_cut_line)
  then show ?thesis using b by (simp add: grow_room)
next
  case (Cons a as)
  with assms check_cut [of a i i c "ch_alloc (cn_h c)"] show ?thesis by simp
qed

lemma resume_is_loop:
  "at_ask asks p i c \<Longrightarrow> \<forall>a\<in>set asks. ok_ask a \<Longrightarrow> \<not> isTimeout (cn_h c) \<Longrightarrow>
     readRequest_resume p i c = readRequest_loop p i c"
  by (simp add: readRequest_resume_def check_again)

text \<open>
  From there the loop suspends at a cut of the same request, having used up a wait or all the
  input, or it comes back with exactly the request the client sent.
\<close>

definition read_talks :: "bool \<Rightarrow> ask list \<Rightarrow> conn \<Rightarrow> (HttpRequestParser \<times> nat, HttpRequest option) outcome \<times> conn \<Rightarrow> bool" where
  "read_talks full asks c r \<longleftrightarrow>
     (case r of
        (Suspend (p, i), c') \<Rightarrow>
          at_ask asks p i c' \<and> feed full asks i (io_in (cn_io c')) \<and>
          (in_marks c' < in_marks c \<or> in_marks c' = in_marks c \<and> io_in (cn_io c') = [])
      | (Finish (Some req), c') \<Rightarrow>
          asks \<noteq> [] \<and> req = ask_request (hd asks) \<and> in_marks c' \<le> in_marks c \<and>
          1024 \<le> length (ch_read_buff (cn_h c')) \<and>
          (closes (hd asks) \<or> feed full (tl asks) 0 (io_in (cn_io c')))
      | _ \<Rightarrow> False)"

lemma read_talks_from:
  "read_talks full asks c1 r \<Longrightarrow> in_marks c1 \<le> in_marks c \<Longrightarrow> read_talks full asks c r"
  by (cases r) (auto simp: read_talks_def split: outcome.splits option.splits)

lemma readRequest_loop_talks:
  "at_ask asks p i c \<Longrightarrow> feed full asks i (io_in (cn_io c)) \<Longrightarrow> \<forall>a\<in>set asks. ok_ask a \<Longrightarrow>
     read_talks full asks c (readRequest_loop p i c)"
proof (induction "io_in (cn_io c)" arbitrary: p i c)
  case Nil
  note empty = Nil.hyps [symmetric]
  then have "readRequest_loop p i c =
      (Suspend (p, i), updateLastActivity (set_io ((cn_io c)\<lparr>io_errno := EAGAIN\<rparr>) c))"
    by (simp add: readRequest_loop.simps sys_read_def)
  with empty Nil.prems show ?case
    by (simp add: read_talks_def) (simp add: in_marks_def updateLastActivity_def setLastActivity_def)
next
  case (Cons x items)
  note items = Cons.hyps(2) [symmetric]
  show ?case
  proof (cases x)
    case (RError e)
    with Cons.prems items have e: "e = EAGAIN" "feed full asks i items" by simp_all
    then have "readRequest_loop p i c =
        (Suspend (p, i), updateLastActivity (set_io ((cn_io c)\<lparr>io_in := items, io_errno := EAGAIN\<rparr>) c))"
      using items RError by (simp add: readRequest_loop.simps sys_read_def)
    with e items RError Cons.prems show ?thesis
      by (simp add: read_talks_def) (simp add: in_marks_def updateLastActivity_def setLastActivity_def)
  next
    case (RBytes bs)
    with Cons.prems(2) items obtain a as where asks: "asks = a # as" by (cases asks) auto
    let ?T = "ask_text a" and ?j = "i + length bs" and ?b = "ch_alloc (cn_h c)"
    let ?n = "length (ch_read_buff (cn_h c)) - i" and ?s = "(cn_io c)\<lparr>io_in := items\<rparr>"
    have f: "bs \<noteq> []" "?j \<le> length ?T" "bs = take (length bs) (drop i ?T)"
      "if ?j = length ?T then closes a \<or> feed full as 0 items
       else good_cut a ?j \<and> feed full asks ?j items"
      using Cons.prems(2) unfolding items RBytes asks feed.simps by blast+
    have ok: "ok_ask a" and at: "i < length ?T" "good_cut a i" "holds_ask a i c" "p = parser_upto ?b a i"
      using Cons.prems(1,3) asks by simp_all
    have "length ?T \<le> length (ch_read_buff (cn_h c))" using ok at(3) by (simp add: holds_ask_def ok_ask_defs)
    with f(2) have "length bs \<le> ?n" by linarith
    then have rd: "sys_read ?n (cn_io c) = (Inr bs, ?s)" using items RBytes f(1) by (simp add: sys_read_def)
    define c1 where "c1 = on_h (fill i bs) (set_io ?s c)"
    have r: "read_round i c bs c1" using rd f(1) by (auto simp: read_round_def c1_def)
    note b = read_round_buff [OF r]
    have "take ?j ?T = take i ?T @ bs" using f(3) by (metis take_add)
    then have h1: "holds_ask a ?j c1" using at(3) b f(2) by (simp add: holds_ask_def)
    have in1: "io_in (cn_io c1) = items" by (simp add: c1_def)
    then have m1: "in_marks c1 \<le> in_marks c" using items by (simp add: in_marks_def)
    have big1: "1024 \<le> length (ch_read_buff (cn_h c1))" using h1 by (simp add: holds_ask_def)
    have step: "readRequest_loop p i c =
        (case readRequest_check p ?j c1 of
           Inl r \<Rightarrow> (finish_read r, c1) | Inr (p, c) \<Rightarrow> readRequest_loop p ?j c)"
      by (rule readRequest_loop_step [OF rd f(1) c1_def])
    show ?thesis
    proof (cases "?j = length ?T")
      case True
      with check_whole [OF ok at(1,2), of c1 ?b] h1 b(6) at(4) step
      have "readRequest_loop p i c = (Finish (Some (ask_request a)), c1)" by (simp add: finish_read_def)
      then show ?thesis using f(4) True in1 m1 big1 asks by (simp add: read_talks_def)
    next
      case False
      with f(2,4) have j: "?j < length ?T" "good_cut a ?j" "feed full asks ?j items" by auto
      have "readRequest_loop p i c = readRequest_loop (parser_upto ?b a ?j) ?j c1"
        using check_cut [OF ok _ at(2) j(1,2) h1, of ?b] b(6) at(4) step by simp
      moreover have "at_ask asks (parser_upto ?b a ?j) ?j c1" using asks j h1 b(6) by simp
      ultimately show ?thesis
        using Cons.hyps(1) [of c1 "parser_upto ?b a ?j" ?j] in1 j(3) Cons.prems(3) m1 read_talks_from by auto
    qed
  qed
qed

section \<open>Writing\<close>

text \<open>
  The room the socket grants: the \<^verbatim>\<open>write\<close> calls for \<open>n\<close> bytes use up these grants, and what is left
  of them. Waits in between do not count.
\<close>

fun polite :: "wr_item \<Rightarrow> bool" where
  "polite (WRoom k) = (0 < k)"
| "polite (WError e) = (e = EAGAIN)"

fun room_after :: "nat \<Rightarrow> wr_item list \<Rightarrow> wr_item list option" where
  "room_after n outs =
     (if n = 0 then Some outs
      else case outs of
             [] \<Rightarrow> None
           | WRoom k # rest \<Rightarrow> room_after (n - k) rest
           | WError e # rest \<Rightarrow> room_after n rest)"

declare room_after.simps [simp del]

lemma room_after_simps [simp]:
  "room_after 0 outs = Some outs"
  "0 < n \<Longrightarrow> room_after n [] = None"
  "0 < n \<Longrightarrow> room_after n (WRoom k # outs) = room_after (n - k) outs"
  "0 < n \<Longrightarrow> room_after n (WError e # outs) = room_after n outs"
  by (simp_all add: room_after.simps [of n] room_after.simps [of 0])

fun enough_room :: "nat list \<Rightarrow> wr_item list \<Rightarrow> bool" where
  "enough_room [] outs \<longleftrightarrow> True"
| "enough_room (n # ns) outs \<longleftrightarrow> (case room_after n outs of None \<Rightarrow> False | Some rest \<Rightarrow> enough_room ns rest)"

definition out_marks :: "conn \<Rightarrow> nat" where
  "out_marks c = length (filter (\<lambda>x. x = WError EAGAIN) (io_out (cn_io c)))"

definition write_talks :: "nat \<Rightarrow> conn \<Rightarrow> (nat, bool) outcome \<times> conn \<Rightarrow> bool" where
  "write_talks w c r \<longleftrightarrow>
     (\<forall>x\<in>set (io_out (cn_io (snd r))). polite x) \<and> out_marks (snd r) \<le> out_marks c \<and>
     (case fst r of
        Suspend w' \<Rightarrow>
          (\<forall>outs. room_after (length (ch_write_buff (cn_h c)) - w) (io_out (cn_io c)) = Some outs \<longrightarrow>
             out_marks (snd r) < out_marks c \<and>
             room_after (length (ch_write_buff (cn_h c)) - w') (io_out (cn_io (snd r))) = Some outs)
      | Finish True \<Rightarrow>
          (\<forall>outs. room_after (length (ch_write_buff (cn_h c)) - w) (io_out (cn_io c)) = Some outs \<longrightarrow>
             io_out (cn_io (snd r)) = outs)
      | _ \<Rightarrow> False)"

lemma write_talks_from:
  "write_talks v d r \<Longrightarrow> ch_write_buff (cn_h d) = ch_write_buff (cn_h c) \<Longrightarrow> out_marks d = out_marks c \<Longrightarrow>
     room_after (length (ch_write_buff (cn_h c)) - w) (io_out (cn_io c)) =
       room_after (length (ch_write_buff (cn_h c)) - v) (io_out (cn_io d)) \<Longrightarrow> write_talks w c r"
  by (cases "fst r") (auto simp: write_talks_def split: bool.splits)

lemma writeResponse_loop_talks:
  "w \<le> length (ch_write_buff (cn_h c)) \<Longrightarrow> \<forall>x\<in>set (io_out (cn_io c)). polite x \<Longrightarrow>
     write_talks w c (writeResponse_loop w c)"
proof (induction "io_out (cn_io c)" arbitrary: w c)
  case Nil
  note empty = Nil.hyps [symmetric]
  with Nil.prems show ?case
    by (simp add: writeResponse_loop.simps [of w c] write_talks_def sys_write_def
        updateLastActivity_def setLastActivity_def out_marks_def)
next
  case (Cons x outs)
  note out = Cons.hyps(2) [symmetric]
  let ?b = "ch_write_buff (cn_h c)"
  show ?case
  proof (cases "w = length ?b")
    case True
    then have "writeResponse_loop w c = (Finish True, c)" by (subst writeResponse_loop.simps) simp
    with True Cons.prems show ?thesis by (simp add: write_talks_def)
  next
    case False
    show ?thesis
    proof (cases x)
      case (WError e)
      then have "e = EAGAIN" using Cons.prems(2) out by simp
      then show ?thesis using WError out False Cons.prems
        by (simp add: writeResponse_loop.simps [of w c] write_talks_def sys_write_def
            updateLastActivity_def setLastActivity_def out_marks_def)
    next
      case (WRoom k)
      define n where "n = min k (length ?b - w)"
      let ?s = "(cn_io c)\<lparr>io_out := outs, io_sent := io_sent (cn_io c) @ take k (drop w ?b)\<rparr>"
      let ?c = "set_io ?s c"
      have k: "0 < k" using Cons.prems(2) out WRoom by simp
      have wr: "sys_write (drop w ?b) (cn_io c) = (Inr n, ?s)" using out WRoom by (simp add: sys_write_def n_def)
      have n: "0 < n" "w + n \<le> length ?b" using k Cons.prems(1) False by (auto simp: n_def)
      have step: "writeResponse_loop w c = writeResponse_loop (w + n) ?c"
        using wr n(1) False by (subst writeResponse_loop.simps) simp
      have talk: "write_talks (w + n) ?c (writeResponse_loop (w + n) ?c)"
        by (rule Cons.hyps(1)) (use n(2) Cons.prems(2) out in auto)
      have "length ?b - w - k = length ?b - (w + n)" by (simp add: n_def min_def)
      then have left: "room_after (length ?b - w) (io_out (cn_io c)) = room_after (length ?b - (w + n)) outs"
        using out WRoom False Cons.prems(1) by simp
      show ?thesis unfolding step
        by (rule write_talks_from [OF talk]) (use left out WRoom in \<open>simp_all add: out_marks_def\<close>)
    qed
  qed
qed

section \<open>What a client is owed\<close>

definition served :: "(HttpRequest \<Rightarrow> http_exn + HttpResponse) \<Rightarrow> ask \<Rightarrow> bool" where
  "served cb a \<longleftrightarrow> ok_ask a \<and> (case cb (ask_request a) of Inl _ \<Rightarrow> False | Inr _ \<Rightarrow> True)"

lemma served_iff:
  "served cb a \<longleftrightarrow> wf_ask a \<and> fits_buffer a \<and> (\<exists>response. cb (ask_request a) = Inr response)"
  by (cases "cb (ask_request a)") (auto simp: served_def ok_ask_def)

definition answer :: "(HttpRequest \<Rightarrow> http_exn + HttpResponse) \<Rightarrow> ask \<Rightarrow> string" where
  "answer cb a =
     (case cb (ask_request a) of
        Inl _ \<Rightarrow> []
      | Inr response \<Rightarrow> dump (finish_response (ask_request a) response))"

fun answers :: "(HttpRequest \<Rightarrow> http_exn + HttpResponse) \<Rightarrow> ask list \<Rightarrow> string list" where
  "answers cb [] = []"
| "answers cb (a # asks) = answer cb a # (if closes a then [] else answers cb asks)"

text \<open>What is still to be sent in a state of the handler: the rest of a response, and the others.\<close>

fun owed :: "(HttpRequest \<Rightarrow> http_exn + HttpResponse) \<Rightarrow> ask list \<Rightarrow> pc \<Rightarrow> conn \<Rightarrow> string list" where
  "owed cb asks (PcWriting w close) c =
     drop w (ch_write_buff (cn_h c)) # (if close then [] else answers cb asks)"
| "owed cb asks pc c = answers cb asks"

text \<open>
  A handler that is on its way through the requests \<open>asks\<close>: suspended where they can go on, with
  only pieces of them and waits in the input, and only positive room and waits in the output.
  With \<open>full\<close> everything that is needed is on its way.
\<close>

definition talking :: "(HttpRequest \<Rightarrow> http_exn + HttpResponse) \<Rightarrow> bool \<Rightarrow> ask list \<Rightarrow> pc \<Rightarrow> conn \<Rightarrow> bool" where
  "talking cb full asks pc c \<longleftrightarrow>
     (\<forall>a\<in>set asks. served cb a) \<and> (\<forall>x\<in>set (io_out (cn_io c)). polite x) \<and>
     1024 \<le> length (ch_read_buff (cn_h c)) \<and>
     (full \<longrightarrow> enough_room (map length (owed cb asks pc c)) (io_out (cn_io c))) \<and>
     (case pc of
        PcEntry \<Rightarrow> feed full asks 0 (io_in (cn_io c))
      | PcReading p i \<Rightarrow> at_ask asks p i c \<and> feed full asks i (io_in (cn_io c))
      | PcWriting w close \<Rightarrow>
          w \<le> length (ch_write_buff (cn_h c)) \<and> (close \<or> feed full asks 0 (io_in (cn_io c)))
      | PcErrorWriting w \<Rightarrow> False)"

text \<open>Whether one of the requests asks for the connection to be closed.\<close>

fun ends :: "ask list \<Rightarrow> pc \<Rightarrow> bool" where
  "ends asks (PcWriting w close) \<longleftrightarrow> close \<or> list_ex closes asks"
| "ends asks pc \<longleftrightarrow> list_ex closes asks"

definition marks :: "conn \<Rightarrow> nat" where
  "marks c = in_marks c + out_marks c"

text \<open>
  A run of the coroutine settles what was owed: what has been sent and what is owed afterwards
  is together still \<open>whole\<close>; a handler that ends has been asked to close and owes nothing; one that is suspended although
  everything is on its way has met a wait, or owes nothing.
\<close>

definition settles :: "(HttpRequest \<Rightarrow> http_exn + HttpResponse) \<Rightarrow> bool \<Rightarrow> nat \<Rightarrow> bool \<Rightarrow> string \<Rightarrow> switch \<Rightarrow> bool" where
  "settles cb full m fin whole sw \<longleftrightarrow>
     (case fst sw of
        Yields pc \<Rightarrow>
          pc \<noteq> PcEntry \<and>
          (\<exists>asks. talking cb full asks pc (snd sw) \<and> ends asks pc = fin \<and>
             io_sent (cn_io (snd sw)) @ concat (owed cb asks pc (snd sw)) = whole \<and>
             (full \<longrightarrow> marks (snd sw) < m \<or> marks (snd sw) \<le> m \<and> owed cb asks pc (snd sw) = []))
      | Returns \<Rightarrow> fin \<and> io_sent (cn_io (snd sw)) = whole
      | Throws _ \<Rightarrow> False)"

lemma settles_mono: "settles cb full m fin whole sw \<Longrightarrow> m \<le> n \<Longrightarrow> settles cb full n fin whole sw"
  by (fastforce simp: settles_def split: body_result.splits)

lemma served_ok: "\<forall>a\<in>set asks. served cb a \<Longrightarrow> \<forall>a\<in>set asks. ok_ask a"
  by (simp add: served_def)

text \<open>After a write: the handler is suspended in it, ends, or serves the next request.\<close>

lemma after_write_settles:
  assumes c: "talking cb full asks (PcWriting w close) c"
    and next_one: "\<And>d. talking cb full asks PcEntry d \<Longrightarrow> marks d \<le> marks c \<Longrightarrow> \<not> close \<Longrightarrow>
      io_in (cn_io d) = io_in (cn_io c) \<Longrightarrow>
      settles cb full (marks d) (list_ex closes asks) (io_sent (cn_io d) @ concat (answers cb asks)) (serve cb d)"
  shows "settles cb full (marks c) (ends asks (PcWriting w close))
    (io_sent (cn_io c) @ concat (owed cb asks (PcWriting w close) c))
    (go_on cb (after_write close (writeResponse_loop w c)))"
proof -
  let ?b = "ch_write_buff (cn_h c)" and ?rest = "if close then [] else answers cb asks"
  have w: "w \<le> length ?b" and out: "\<forall>x\<in>set (io_out (cn_io c)). polite x"
    and feed: "close \<or> feed full asks 0 (io_in (cn_io c))" and big: "1024 \<le> length (ch_read_buff (cn_h c))"
    and ok: "\<forall>a\<in>set asks. served cb a"
    and room: "full \<Longrightarrow> \<exists>outs. room_after (length ?b - w) (io_out (cn_io c)) = Some outs \<and>
        enough_room (map length ?rest) outs"
    using c by (auto simp: talking_def split: option.splits)
  obtain r c' where wr: "writeResponse_loop w c = (r, c')" by fastforce
  note talk = writeResponse_loop_talks [OF w out, unfolded wr]
  from writeResponse_loop_post [OF w] wr
  have post: "same_input c c'" "\<And>w'. r = Suspend w' \<Longrightarrow> sent_upto w w' c c'"
    "r = Finish True \<Longrightarrow> sent_upto w (length ?b) c c'"
    by (auto simp: write_post_def)
  have m: "in_marks c' = in_marks c" using post(1) by (simp add: in_marks_def same_input_def)
  show ?thesis
  proof (cases r)
    case (Suspend w')
    note s = post(2) [OF Suspend]
    have "talking cb full asks (PcWriting w' close) c'"
      using s post(1) talk ok big feed room Suspend
      by (auto simp: talking_def write_talks_def same_input_def sent_upto_def)
    moreover have "full \<Longrightarrow> marks c' < marks c"
      using talk room Suspend m by (auto simp: write_talks_def marks_def)
    moreover have "io_sent (cn_io c') @ drop w' ?b = io_sent (cn_io c) @ drop w ?b"
    proof -
      have "drop w ?b = substr w (w' - w) ?b @ drop (w' - w) (drop w ?b)" by (simp add: substr_def del: drop_drop)
      then show ?thesis using s by (simp add: sent_upto_def)
    qed
    ultimately show ?thesis
      using wr Suspend post(1)
      by (auto simp: after_write_def go_on_def settles_def same_input_def intro!: exI [of _ asks])
  next
    case (Finish b)
    with talk have b: "b = True" by (cases b) (simp_all add: write_talks_def)
    with post(3) Finish have sent: "io_sent (cn_io c') = io_sent (cn_io c) @ drop w ?b"
      by (simp add: sent_upto_def substr_def)
    show ?thesis
    proof (cases close)
      case True
      with wr Finish b sent show ?thesis by (simp add: after_write_def go_on_def settles_def)
    next
      case False
      let ?d = "on_h to_reading c'"
      have "talking cb full asks PcEntry ?d"
        using post(1) talk ok big feed room Finish b False
        by (auto simp: talking_def write_talks_def same_input_def to_reading_def)
      moreover have "marks ?d \<le> marks c" using talk m by (simp add: marks_def in_marks_def out_marks_def write_talks_def)
      moreover have "io_in (cn_io ?d) = io_in (cn_io c)" using post(1) by (simp add: same_input_def)
      ultimately have "settles cb full (marks c) (list_ex closes asks) (io_sent (cn_io ?d) @ concat (answers cb asks)) (serve cb ?d)"
        using next_one [of ?d] False settles_mono by blast
      then show ?thesis using wr Finish b False sent by (simp add: after_write_def go_on_def)
    qed
  next
    case (Raise e)
    with talk show ?thesis by (simp add: write_talks_def)
  qed
qed

text \<open>After a read that talks: the handler is suspended in it, or answers the request.\<close>

lemma respond_talks:
  assumes "served cb a"
  shows "respond cb (ask_request a) c =
    writeResponse_loop 0 (on_h (\<lambda>h. h\<lparr>ch_write_buff := answer cb a\<rparr>) (on_h to_writing c))"
  using assms by (auto simp: respond_def writeResponse_def served_def answer_def split: sum.splits)

lemma owed_reading: "pc = PcEntry \<or> (\<exists>p i. pc = PcReading p i) \<Longrightarrow> owed cb asks pc c = answers cb asks"
  by auto

lemma after_read_settles:
  assumes r: "read_talks full asks c (readRequest_loop p i c)" and room: "i < length (ch_read_buff (cn_h c))"
    and ok: "\<forall>a\<in>set asks. served cb a" and out: "\<forall>x\<in>set (io_out (cn_io c)). polite x"
    and big: "1024 \<le> length (ch_read_buff (cn_h c))"
    and enough: "full \<Longrightarrow> enough_room (map length (answers cb asks)) (io_out (cn_io c))"
    and next_one: "\<And>d as. talking cb full as PcEntry d \<Longrightarrow> length as < length asks \<Longrightarrow>
      settles cb full (marks d) (list_ex closes as) (io_sent (cn_io d) @ concat (answers cb as)) (serve cb d)"
  shows "settles cb full (marks c) (list_ex closes asks) (io_sent (cn_io c) @ concat (answers cb asks))
    (go_on cb (after_read cb (readRequest_loop p i c)))"
proof -
  obtain o1 c1 where rc: "readRequest_loop p i c = (o1, c1)" by fastforce
  have same: "same_output c c1" using readRequest_loop_post [of i c p] room rc by (simp add: read_post_def room_def)
  then have om: "out_marks c1 = out_marks c" by (simp add: out_marks_def same_output_def)
  show ?thesis
  proof (cases o1)
    case (Suspend x)
    obtain q j where x: "x = (q, j)" by fastforce
    have q: "at_ask asks q j c1" "feed full asks j (io_in (cn_io c1))"
      "in_marks c1 < in_marks c \<or> in_marks c1 = in_marks c \<and> io_in (cn_io c1) = []"
      using r rc Suspend x by (simp_all add: read_talks_def)
    have "1024 \<le> length (ch_read_buff (cn_h c1))" using q(1) by (cases asks) (simp_all add: holds_ask_def)
    then have "talking cb full asks (PcReading q j) c1"
      using q same ok out enough by (simp add: talking_def same_output_def)
    moreover have "full \<longrightarrow> marks c1 < marks c \<or> marks c1 \<le> marks c \<and> answers cb asks = []"
      using q(2,3) om by (auto simp: marks_def)
    ultimately show ?thesis using rc Suspend x same
      by (auto simp: after_read_def go_on_def settles_def same_output_def intro!: exI [of _ asks])
  next
    case (Finish res)
    with r rc obtain a as where asks: "asks = a # as" and res: "res = Some (ask_request a)"
      by (cases res; cases asks) (auto simp: read_talks_def)
    have f: "in_marks c1 \<le> in_marks c" "1024 \<le> length (ch_read_buff (cn_h c1))"
      "closes a \<or> feed full as 0 (io_in (cn_io c1))"
      using r rc Finish asks res by (simp_all add: read_talks_def)
    define d where "d = on_h (\<lambda>h. h\<lparr>ch_write_buff := answer cb a\<rparr>) (on_h to_writing c1)"
    have d: "io_in (cn_io d) = io_in (cn_io c1)" "io_out (cn_io d) = io_out (cn_io c1)"
      "io_sent (cn_io d) = io_sent (cn_io c1)" "ch_write_buff (cn_h d) = answer cb a"
      "ch_read_buff (cn_h d) = ch_read_buff (cn_h c1)"
      by (simp_all add: d_def to_writing_def)
    have ow: "owed cb as (PcWriting 0 (closes a)) d = answers cb asks" using d asks by simp
    have "talking cb full as (PcWriting 0 (closes a)) d"
      using f d ok out enough same asks ow by (simp add: talking_def same_output_def)
    from after_write_settles [OF this] next_one asks
    have "settles cb full (marks d) (list_ex closes asks) (io_sent (cn_io d) @ concat (answers cb asks))
        (go_on cb (after_write (closes a) (writeResponse_loop 0 d)))"
      unfolding ow by simp
    moreover have "marks d \<le> marks c" using f(1) om d by (simp add: marks_def in_marks_def out_marks_def)
    moreover have "io_sent (cn_io d) = io_sent (cn_io c)" using same d by (simp add: same_output_def)
    moreover have "after_read cb (readRequest_loop p i c) = after_write (closes a) (writeResponse_loop 0 d)"
      using rc Finish res respond_talks [of cb a c1] ok asks
      by (simp add: after_read_def closes_def d_def)
    ultimately show ?thesis using settles_mono by metis
  next
    case (Raise e)
    with r rc show ?thesis by (simp add: read_talks_def)
  qed
qed

lemma serve_settles:
  "talking cb full asks PcEntry c \<Longrightarrow>
     settles cb full (marks c) (list_ex closes asks) (io_sent (cn_io c) @ concat (answers cb asks)) (serve cb c)"
proof (induction asks arbitrary: c rule: length_induct)
  case (1 asks)
  have t: "\<forall>a\<in>set asks. served cb a" "\<forall>x\<in>set (io_out (cn_io c)). polite x"
    "1024 \<le> length (ch_read_buff (cn_h c))" "feed full asks 0 (io_in (cn_io c))"
    "full \<Longrightarrow> enough_room (map length (answers cb asks)) (io_out (cn_io c))"
    using "1.prems" by (simp_all add: talking_def)
  have r: "read_talks full asks c (readRequest_loop HttpRequestParser_init 0 c)"
    by (rule readRequest_loop_talks [OF at_ask_start [OF t(3)] t(4) served_ok [OF t(1)]])
  have "0 < length (ch_read_buff (cn_h c))" using t(3) by linarith
  from after_read_settles [OF r this t(1-3,5)] "1.IH"
  show ?case by (simp add: serve_eq_go_on readRequest_def)
qed

text \<open>One run of the coroutine, wherever it is suspended.\<close>

lemma run_settles:
  assumes t: "talking cb full asks pc c" and "\<not> isTimeout (cn_h c)"
  shows "settles cb full (marks c) (ends asks pc) (io_sent (cn_io c) @ concat (owed cb asks pc c))
    (run_handler cb pc c)"
proof (cases pc)
  case PcEntry
  with assms serve_settles [of cb full asks c] show ?thesis by simp
next
  case (PcReading p i)
  then have at: "at_ask asks p i c" and f: "feed full asks i (io_in (cn_io c))"
    and d: "\<forall>a\<in>set asks. served cb a" "\<forall>x\<in>set (io_out (cn_io c)). polite x"
      "1024 \<le> length (ch_read_buff (cn_h c))"
      "full \<Longrightarrow> enough_room (map length (answers cb asks)) (io_out (cn_io c))"
    using t by (simp_all add: talking_def)
  have "i < length (ch_read_buff (cn_h c))"
  proof (cases asks)
    case Nil
    then show ?thesis using at d(3) by auto
  next
    case (Cons a as)
    then have "i < length (ask_text a)" "ok_ask a" using at d(1) by (simp_all add: served_def)
    then show ?thesis using d(3) by (simp add: ok_ask_defs)
  qed
  from after_read_settles [OF readRequest_loop_talks [OF at f served_ok [OF d(1)]] this d serve_settles]
  show ?thesis using PcReading assms(2) resume_is_loop [OF at served_ok [OF d(1)]] by simp
next
  case (PcWriting w close)
  from after_write_settles [OF t [unfolded PcWriting] serve_settles] assms(2) PcWriting
  show ?thesis by (simp add: writeResponse_resume_def)
next
  case (PcErrorWriting w)
  with t show ?thesis by (simp add: talking_def)
qed

section \<open>Run after run\<close>

text \<open>The worker resumes a suspended handler again, at most \<open>n\<close> times.\<close>

fun drive :: "(HttpRequest \<Rightarrow> http_exn + HttpResponse) \<Rightarrow> nat \<Rightarrow> pc \<Rightarrow> conn \<Rightarrow> switch" where
  "drive cb 0 pc c = (Yields pc, c)"
| "drive cb (Suc n) pc c =
     (case run_handler cb pc c of
        (Yields pc, c) \<Rightarrow> drive cb n pc c
      | sw \<Rightarrow> sw)"

lemma run_keeps_timeout:
  assumes "run_handler cb pc c = (Yields pc', c')" and "handler_inv cb pc c" and "\<not> isTimeout (cn_h c)"
  shows "handler_inv cb pc' c'" and "\<not> isTimeout (cn_h c')"
  using run_handler_post [OF assms(2)] assms(1,3)
  by (auto simp: switch_post_def conn_frame_def isTimeout_def)

lemma owed_Nil:
  assumes "talking cb full asks pc c" and "owed cb asks pc c = []"
  shows "asks = []" and "pc = PcEntry \<or> pc = PcReading HttpRequestParser_init 0"
proof -
  have pc: "pc = PcEntry \<or> (\<exists>p i. pc = PcReading p i)"
    using assms by (cases pc) (auto simp: talking_def)
  with assms(2) show "asks = []" by (cases asks) (auto simp: owed_reading)
  with pc assms(1) show "pc = PcEntry \<or> pc = PcReading HttpRequestParser_init 0" by (auto simp: talking_def)
qed

text \<open>A handler that owes nothing goes on waiting.\<close>

lemma idle_run:
  assumes t: "talking cb True [] (PcReading HttpRequestParser_init 0) c" and quiet: "\<not> isTimeout (cn_h c)"
  shows "\<exists>c'. run_handler cb (PcReading HttpRequestParser_init 0) c =
      (Yields (PcReading HttpRequestParser_init 0), c') \<and>
    talking cb True [] (PcReading HttpRequestParser_init 0) c' \<and> \<not> isTimeout (cn_h c') \<and>
    io_sent (cn_io c') = io_sent (cn_io c)"
proof -
  have at: "at_ask [] HttpRequestParser_init 0 c" and f: "feed True [] 0 (io_in (cn_io c))"
    using t by (simp_all add: talking_def)
  obtain o1 c1 where rc: "readRequest_loop HttpRequestParser_init 0 c = (o1, c1)" by fastforce
  from readRequest_loop_talks [OF at f] rc
  have o1: "o1 = Suspend (HttpRequestParser_init, 0)" "at_ask [] HttpRequestParser_init 0 c1"
    "feed True [] 0 (io_in (cn_io c1))"
    by (auto simp: read_talks_def split: outcome.splits option.splits)
  have "room 0 c" using at by (auto simp: room_def)
  from readRequest_loop_post [OF this, of HttpRequestParser_init] rc
  have p: "conn_frame c c1" "same_output c c1" by (simp_all add: read_post_def)
  have "talking cb True [] (PcReading HttpRequestParser_init 0) c1"
    using t o1 p(2) by (simp add: talking_def same_output_def)
  with rc o1(1) quiet p resume_is_loop [OF at] show ?thesis
    by (simp add: after_read_def go_on_def conn_frame_def same_output_def isTimeout_def)
qed

lemma drive_idle:
  "talking cb True [] (PcReading HttpRequestParser_init 0) c \<Longrightarrow> \<not> isTimeout (cn_h c) \<Longrightarrow>
     \<exists>c'. drive cb n (PcReading HttpRequestParser_init 0) c =
       (Yields (PcReading HttpRequestParser_init 0), c') \<and> io_sent (cn_io c') = io_sent (cn_io c)"
proof (induction n arbitrary: c)
  case (Suc n)
  from idle_run [OF Suc.prems] obtain c1 where c1: "run_handler cb (PcReading HttpRequestParser_init 0) c =
      (Yields (PcReading HttpRequestParser_init 0), c1)"
    "talking cb True [] (PcReading HttpRequestParser_init 0) c1" "\<not> isTimeout (cn_h c1)"
    "io_sent (cn_io c1) = io_sent (cn_io c)" by blast
  from Suc.IH [OF c1(2,3)] c1 show ?case by simp
qed simp

lemma drive_settles:
  "talking cb True asks pc c \<Longrightarrow> \<not> isTimeout (cn_h c) \<Longrightarrow> handler_inv cb pc c \<Longrightarrow> marks c < n \<Longrightarrow>
     \<exists>c'. drive cb n pc c =
         (if ends asks pc then Returns else Yields (PcReading HttpRequestParser_init 0), c') \<and>
       io_sent (cn_io c') = io_sent (cn_io c) @ concat (owed cb asks pc c)"
proof (induction n arbitrary: asks pc c)
  case (Suc n)
  obtain res c1 where run: "run_handler cb pc c = (res, c1)" by fastforce
  note settled = run_settles [OF Suc.prems(1,2), unfolded run]
  show ?case
  proof (cases res)
    case Returns
    with settled run show ?thesis by (simp add: settles_def)
  next
    case (Throws e)
    with settled show ?thesis by (simp add: settles_def)
  next
    case (Yields pc1)
    note quiet = run_keeps_timeout [OF run [unfolded Yields] Suc.prems(3,2)]
    from settled Yields obtain as where as: "talking cb True as pc1 c1" "ends as pc1 = ends asks pc"
      "io_sent (cn_io c1) @ concat (owed cb as pc1 c1) = io_sent (cn_io c) @ concat (owed cb asks pc c)"
      and m: "marks c1 < marks c \<or> owed cb as pc1 c1 = []" and pc1: "pc1 \<noteq> PcEntry"
      by (auto simp: settles_def)
    show ?thesis
    proof (cases "owed cb as pc1 c1 = []")
      case False
      with m Suc.prems(4) have "marks c1 < n" by linarith
      from Suc.IH [OF as(1) quiet(2,1) this] as(2,3) run Yields show ?thesis by simp
    next
      case True
      from owed_Nil [OF as(1) True] pc1 have nil: "as = []" "pc1 = PcReading HttpRequestParser_init 0" by auto
      from drive_idle [OF as(1) [unfolded nil] quiet(2), of n] as(2,3) run Yields nil
      show ?thesis by simp
    qed
  qed
qed simp

section \<open>Conversations\<close>

lemma talking_start:
  assumes "\<forall>a\<in>set asks. served cb a" and "feed full asks 0 items" and "\<forall>x\<in>set outs. polite x"
    and "full \<longrightarrow> enough_room (map length (answers cb asks)) outs"
  shows "talking cb full asks PcEntry (new_conn f rid now items outs)"
  using assms
  by (simp add: talking_def new_conn_def ConnectionHandler_new_def io_init_def initial_buffer_size_def)

text \<open>
  C2: Every request of a conversation that fits the read buffer is answered, in order and exactly once. Let
  a client send any number of well-formed requests on a new connection, with or without a body, each
  of at most 1024 bytes in all, none of which makes the callback throw. Let them arrive in any pieces
  that hold bytes of one request only and are cut neither behind a CR nor in front of the last byte
  of a body; let the peer and the kernel make the handler wait at any points, in the middle of a
  request and in the middle of a response; and let there be room for the responses in the end.
  Then after one resumption per wait and one more the bytes on the wire are exactly the serialised
  responses of the callback to the requests the client sent, in their order, up to the first request
  that asks for the connection to be closed; the coroutine has ended if there is one, and otherwise
  it is suspended in front of the next request.
\<close>

theorem conversation_answered:
  assumes wf: "\<forall>a\<in>set asks. wf_ask a" and fits: "\<forall>a\<in>set asks. fits_buffer a"
    and calm: "\<forall>a\<in>set asks. \<exists>response. cb (ask_request a) = Inr response" and "feed True asks 0 items"
    and "\<forall>x\<in>set outs. polite x" and "enough_room (map length (answers cb asks)) outs"
    and "length (filter (\<lambda>x. x = RError EAGAIN) items) + length (filter (\<lambda>x. x = WError EAGAIN) outs) < n"
  shows "\<exists>c'. drive cb n PcEntry (new_conn f rid now items outs) =
      (if list_ex closes asks then Returns else Yields (PcReading HttpRequestParser_init 0), c') \<and>
    io_sent (cn_io c') = concat (answers cb asks)"
proof -
  let ?c = "new_conn f rid now items outs"
  have "\<forall>a\<in>set asks. served cb a"
    using wf fits calm by (simp add: served_iff)
  then have "talking cb True asks PcEntry ?c" by (rule talking_start) (use assms in simp_all)
  moreover have "handler_inv cb PcEntry ?c" using conn_reach_inv [OF conn_reach.start] by blast
  moreover have "\<not> isTimeout (cn_h ?c)"
    by (simp add: new_conn_def ConnectionHandler_new_def isTimeout_def)
  moreover have "marks ?c < n"
    using assms(7) by (simp add: marks_def in_marks_def out_marks_def new_conn_def io_init_def)
  moreover have "io_sent (cn_io ?c) = []" by (simp add: new_conn_def io_init_def)
  ultimately show ?thesis using drive_settles [of cb asks PcEntry ?c n] by simp
qed

text \<open>
  Two requests, the first one with a body and cut in its head, the second one asking to close; the
  handler waits for the rest of the first request and once while it sends the first response.
\<close>

definition demo_asks :: "ask list" where
  "demo_asks =
     [\<lparr>ak_method = POST, ak_path = ''/'', ak_query = [], ak_version = HTTP1_1,
       ak_headers = [(''Content-Length'', ''2'')], ak_body = ''xy''\<rparr>,
      \<lparr>ak_method = GET, ak_path = ''/'', ak_query = [], ak_version = HTTP1_1,
       ak_headers = [(''Connection'', ''close'')], ak_body = []\<rparr>]"

definition demo_items :: "rd_item list" where
  "demo_items =
     [RBytes (take 20 (ask_text (demo_asks ! 0))), RError EAGAIN, RBytes (drop 20 (ask_text (demo_asks ! 0))),
      RBytes (ask_text (demo_asks ! 1))]"

lemma demo_asks_served: "\<forall>a\<in>set demo_asks. served greet a"
proof -
  have "to_dec (length ''xy'') = ''2''" by code_simp
  then have cl: "ci_find ''Content-Length'' [(''Content-Length'', ''2'')] = Some (to_dec (length ''xy''))"
    by (simp add: dict_find_def ci.eq_refl)
  have len: "\<forall>a\<in>set demo_asks. length (ask_text a) \<le> 1024" by code_simp
  show ?thesis using cl len
    by (simp add: demo_asks_def served_def ok_ask_defs greet_def ok_request_def ok_path_def ok_header_def bodiless_def)
qed

lemma demo_asks_ok:
  "\<forall>a\<in>set demo_asks. wf_ask a" "\<forall>a\<in>set demo_asks. fits_buffer a"
  "\<forall>a\<in>set demo_asks. \<exists>response. greet (ask_request a) = Inr response"
  using demo_asks_served by (simp_all add: served_iff)

theorem conversation_answered_witness:
  "\<exists>c'. drive greet 3 PcEntry (new_conn 5 1 0 demo_items [WRoom 10, WError EAGAIN, WRoom 90, WRoom 90]) =
      (Returns, c') \<and>
    io_sent (cn_io c') = concat (answers greet demo_asks)"
proof -
  have feed: "feed True demo_asks 0 demo_items" by code_simp
  have "enough_room (map length (answers greet demo_asks)) [WRoom 10, WError EAGAIN, WRoom 90, WRoom 90]"
    by code_simp
  from conversation_answered [OF demo_asks_ok feed _ this, of 3 5 1 0]
  have "\<exists>c'. drive greet 3 PcEntry (new_conn 5 1 0 demo_items [WRoom 10, WError EAGAIN, WRoom 90, WRoom 90]) =
      (if list_ex closes demo_asks then Returns else Yields (PcReading HttpRequestParser_init 0), c') \<and>
    io_sent (cn_io c') = concat (answers greet demo_asks)"
    by (simp add: demo_items_def)
  moreover have "list_ex closes demo_asks" by code_simp
  ultimately show ?thesis by simp
qed



end
