(* ===== verification/Worker_Conversation.thy ===== *)
theory Worker_Conversation
  imports Worker_Serves Handler_Conversation
begin

text \<open>
  Clients that stay: the conversations of \<^verbatim>\<open>Handler_Conversation\<close> carried through the rounds of the
  worker's event loop, beside everything the other connections do. A client of the worker is
  either still in front of its first event or has a handler suspended on its way through the
  client's requests; an event of the client pays what it is owed, and all other events, the
  time-out scan and the arrival of more requests leave it as it is.
\<close>

section \<open>The kernel's consent\<close>

text \<open>No call of \<^verbatim>\<open>epoll_ctl\<close> is going to fail for want of resources.\<close>

definition willing :: "epoll \<Rightarrow> bool" where
  "willing k \<longleftrightarrow> False \<notin> set (ep_script k)"

lemma willing_tl: "False \<notin> set s \<Longrightarrow> False \<notin> set (tl s)"
  by (cases s) auto

lemma willing_ctl:
  "willing k \<Longrightarrow> add fd ev k = (r, k') \<Longrightarrow> willing k'"
  "willing k \<Longrightarrow> modify fd ev k = (r, k') \<Longrightarrow> willing k'"
  by (auto simp: willing_def add_def modify_def Let_def willing_tl split: prod.splits bool.splits if_splits)

lemma modify_willing:
  assumes "willing k" and "watched k fd \<noteq> None"
  obtains k' where "modify fd ev k = (Inr (), k')" and "watched k' = (watched k)(fd \<mapsto> ev_data ev)"
    and "willing k'"
proof -
  have "epoll_allowed k"
    using assms(1) by (cases "ep_script k") (auto simp: willing_def epoll_allowed_def)
  then obtain k' where "modify fd ev k = (Inr (), k')" "watched k' = (watched k)(fd \<mapsto> ev_data ev)"
    using assms(2) by (cases "modify fd ev k") (auto simp: modify_def Let_def watched_def update_conv')
  then show thesis using willing_ctl(2) [OF assms(1)] that by blast
qed

lemma willing_sys_close [simp]: "willing (nt_epoll (sys_close fd n)) = willing (nt_epoll n)"
  by (simp add: willing_def sys_close_def epoll_forget_def)

lemma willing_sys_closes [simp]: "willing (nt_epoll (fold sys_close fds n)) = willing (nt_epoll n)"
  by (induction fds arbitrary: n) simp_all

lemma willing_net [simp]:
  "willing (nt_epoll (erase fd n)) = willing (nt_epoll n)"
  "willing (nt_epoll (log_net m n)) = willing (nt_epoll n)"
  "willing (nt_epoll (mark_timeout fd n)) = willing (nt_epoll n)"
  "willing (nt_epoll (deliver fd items rooms n)) = willing (nt_epoll n)"
  by (simp_all add: erase_def log_net_def mark_timeout_def deliver_def split: option.split)

lemma resumeHandler_willing:
  assumes "coro_inv (hw_ord w)" and h: "handler_of (hw_net w) fd = Some h"
    and r: "ch_routine h = Some rid" "live (hw_ord w) rid" "cont (hw_ord w) rid = Some (fd, pc)"
    and w: "willing (nt_epoll (hw_net w))"
  shows "willing (nt_epoll (hw_net (resumeHandler cf fd w)))"
proof -
  obtain res c where run: "run_handler (cf_callback cf) pc (conn_of (hw_net w) fd h) = (res, c)" by fastforce
  obtain q w1 where go: "handler_resume cf h w = (q, w1)" by fastforce
  have "willing (nt_epoll (hw_net w1))"
    using handler_resume_step(1) [OF assms(1) h r run go] w by simp
  then show ?thesis
    using h go willing_ctl(2)
    by (fastforce simp: resumeHandler_def Let_def split: sum.splits bool.splits option.splits prod.splits)
qed

lemma registerClients_willing:
  "willing (nt_epoll (hw_net w)) \<Longrightarrow> willing (nt_epoll (hw_net (registerClients acc w)))"
proof (induction acc w rule: registerClients.induct)
  case (3 fd s rest w)
  then show ?case using willing_ctl(1) by (fastforce simp: Let_def split: prod.splits)
qed auto

lemma handleEvent_willing:
  assumes inv: "worker_inv cf w" and watch: "watched (nt_epoll (hw_net w)) fd \<noteq> None"
    and w: "willing (nt_epoll (hw_net w))"
  shows "willing (nt_epoll (hw_net (handleEvent cf acc fd w)))"
proof (cases "fd = cf_server_fd cf")
  case True
  with registerClients_willing [OF w] show ?thesis by (simp add: handleEvent_def)
next
  case False
  show ?thesis
  proof (cases "handler_of (hw_net w) fd")
    case None
    obtain h rid w1 where eq: "registerHandler cf fd w = resumeHandler cf fd w1"
      and h: "h = (fst (move_ctor (ConnectionHandler_new fd only_IN)))\<lparr>ch_routine := Some rid\<rparr>"
      and net: "hw_net w1 = (hw_net w)\<lparr>nt_coroutines := AList.update fd h (nt_coroutines (hw_net w))\<rparr>"
      and r: "coro_inv (hw_ord w1)" "live (hw_ord w1) rid" "cont (hw_ord w1) rid = Some (fd, PcEntry)"
      by (rule registerHandler_resumes [OF inv None watch False])
    have "handler_of (hw_net w1) fd = Some h" "ch_routine h = Some rid" "willing (nt_epoll (hw_net w1))"
      using w by (simp_all add: net h)
    from resumeHandler_willing [OF r(1) this(1,2) r(2,3) this(3)]
    have "willing (nt_epoll (hw_net (resumeHandler cf fd w1)))" .
    then show ?thesis using False None eq by (simp add: handleEvent_def)
  next
    case (Some h)
    have "coro_inv (hw_ord w)" "handler_ok (cf_callback cf) (hw_ord w) (hw_net w) fd h"
      using inv Some by (auto simp: worker_ok_def)
    then obtain rid pc where "coro_inv (hw_ord w)" "ch_routine h = Some rid" "live (hw_ord w) rid"
      "cont (hw_ord w) rid = Some (fd, pc)"
      by (auto simp: handler_ok_def)
    from resumeHandler_willing [OF this(1) Some this(2-4) w] Some False
    show ?thesis by (simp add: handleEvent_def)
  qed
qed

section \<open>A client of the worker\<close>

definition talking_new :: "(HttpRequest \<Rightarrow> http_exn + HttpResponse) \<Rightarrow> bool \<Rightarrow> ask list \<Rightarrow> io \<Rightarrow> bool" where
  "talking_new cb full asks s \<longleftrightarrow>
     (\<forall>a\<in>set asks. served cb a) \<and> (\<forall>x\<in>set (io_out s). polite x) \<and> feed full asks 0 (io_in s) \<and>
     (full \<longrightarrow> enough_room (map length (answers cb asks)) (io_out s))"

text \<open>
  The client at \<open>fd\<close> is on its way through some requests; \<open>owe\<close> is what it is owed, \<open>fin\<close> whether it
  will ask for the connection to be closed.
\<close>

definition client_talks :: "config \<Rightarrow> bool \<Rightarrow> bool \<Rightarrow> string list \<Rightarrow> int \<Rightarrow> worker \<Rightarrow> bool" where
  "client_talks cf full fin owe fd w \<longleftrightarrow>
     fd \<noteq> cf_server_fd cf \<and> watched (nt_epoll (hw_net w)) fd \<noteq> None \<and>
     (case handler_of (hw_net w) fd of
        None \<Rightarrow>
          (\<exists>asks. talking_new (cf_callback cf) full asks (nt_ios (hw_net w) fd) \<and>
             fin = list_ex closes asks \<and> owe = answers (cf_callback cf) asks)
      | Some h \<Rightarrow>
          (\<exists>asks rid pc. ch_routine h = Some rid \<and> live (hw_ord w) rid \<and>
             cont (hw_ord w) rid = Some (fd, pc) \<and>
             talking (cf_callback cf) full asks pc (conn_of (hw_net w) fd h) \<and>
             fin = ends asks pc \<and> owe = owed (cf_callback cf) asks pc (conn_of (hw_net w) fd h)))"

definition client_closed :: "int \<Rightarrow> worker \<Rightarrow> bool" where
  "client_closed fd w \<longleftrightarrow> handler_of (hw_net w) fd = None \<and> watched (nt_epoll (hw_net w)) fd = None"

abbreviation sent_to :: "int \<Rightarrow> worker \<Rightarrow> string" where
  "sent_to fd w \<equiv> io_sent (nt_ios (hw_net w) fd)"

definition waits :: "io \<Rightarrow> nat" where
  "waits s = length (filter (\<lambda>x. x = RError EAGAIN) (io_in s)) + length (filter (\<lambda>x. x = WError EAGAIN) (io_out s))"

lemma marks_waits: "marks c = waits (cn_io c)"
  by (simp add: marks_def in_marks_def out_marks_def waits_def)

text \<open>Neither the clock nor the log matters to a conversation.\<close>

lemma owed_env: "cn_h d = cn_h c \<Longrightarrow> owed cb asks pc d = owed cb asks pc c"
  by (cases pc) simp_all

lemma talking_env:
  assumes "cn_h d = cn_h c" and "cn_io d = cn_io c"
  shows "talking cb full asks pc d = talking cb full asks pc c"
  using assms at_ask_env [of d c] owed_env [of d c] by (cases pc) (simp_all add: talking_def)

lemma talking_entry:
  "talking cb full asks PcEntry c \<longleftrightarrow>
     talking_new cb full asks (cn_io c) \<and> 1024 \<le> length (ch_read_buff (cn_h c))"
  by (auto simp: talking_def talking_new_def)

text \<open>
  What an event of the client has done by the time \<open>t\<close>: with everything paid the connection is
  closed, or the client goes on, active at \<open>t\<close>; without waits in its way nothing is owed any more.
\<close>

definition paid :: "config \<Rightarrow> bool \<Rightarrow> bool \<Rightarrow> bool \<Rightarrow> string \<Rightarrow> nat \<Rightarrow> int \<Rightarrow> worker \<Rightarrow> bool" where
  "paid cf full prompt fin whole t fd w \<longleftrightarrow>
     fin \<and> client_closed fd w \<and> sent_to fd w = whole \<or>
     (\<exists>owe h. client_talks cf full fin owe fd w \<and> handler_of (hw_net w) fd = Some h \<and>
        getLastActivity h = t \<and> sent_to fd w @ concat owe = whole \<and>
        (prompt \<longrightarrow> owe = [] \<and> waits (nt_ios (hw_net w) fd) = 0))"

section \<open>An event of the client\<close>

text \<open>A handler that is suspended again: its new interest, if it has changed, is registered.\<close>

lemma resumeHandler_suspended:
  assumes h: "handler_of (hw_net w) fd = Some h" and n: "hw_net w1 = put_conn fd c (hw_net w)"
    and go: "handler_resume cf h w = (Inr True, w1)"
    and w: "willing (nt_epoll (hw_net w))" "watched (nt_epoll (hw_net w)) fd \<noteq> None"
  obtains k where "resumeHandler cf fd w = on_net (\<lambda>n. n\<lparr>nt_epoll := k\<rparr>) w1" and "watched k fd \<noteq> None"
proof (cases "ch_set (cn_h c) = ch_set h")
  case True
  have "on_net (\<lambda>n. n\<lparr>nt_epoll := nt_epoll (hw_net w1)\<rparr>) w1 = w1" by (simp add: on_net_def)
  with resumeHandler_same_interest [OF h n go True] w(2) n that [of "nt_epoll (hw_net w1)"] show thesis by simp
next
  case False
  obtain k where k: "modify fd (ch_set (cn_h c)) (nt_epoll (hw_net w1)) = (Inr (), k)"
      "watched k = (watched (nt_epoll (hw_net w1)))(fd \<mapsto> ev_data (ch_set (cn_h c)))"
    by (rule modify_willing [of "nt_epoll (hw_net w1)" fd "ch_set (cn_h c)"]) (use w n in auto)
  have "handler_of (hw_net w1) fd = Some (cn_h c)" by (simp add: n)
  with h go False k(1) have "resumeHandler cf fd w = on_net (\<lambda>n. n\<lparr>nt_epoll := k\<rparr>) w1"
    by (simp add: resumeHandler_def getEventsSet_def)
  with k(2) that show thesis by simp
qed

lemma resumeHandler_pays:
  assumes ci: "coro_inv (hw_ord w)" and pos: "fd \<noteq> -1" and srv: "fd \<noteq> cf_server_fd cf"
    and h: "handler_of (hw_net w) fd = Some h" "ch_fd h = fd" "\<not> isTimeout h"
    and r: "ch_routine h = Some rid" "live (hw_ord w) rid" "cont (hw_ord w) rid = Some (fd, pc)"
    and hi: "handler_inv (cf_callback cf) pc (conn_of (hw_net w) fd h)"
    and k: "watched (nt_epoll (hw_net w)) fd \<noteq> None" "willing (nt_epoll (hw_net w))"
    and t: "talking (cf_callback cf) full asks pc (conn_of (hw_net w) fd h)"
  shows "paid cf full (full \<and> waits (nt_ios (hw_net w) fd) = 0) (ends asks pc)
    (sent_to fd w @ concat (owed (cf_callback cf) asks pc (conn_of (hw_net w) fd h)))
    (nt_now (hw_net w)) fd (resumeHandler cf fd w)"
proof -
  let ?cb = "cf_callback cf" and ?c = "conn_of (hw_net w) fd h"
  let ?whole = "sent_to fd w @ concat (owed ?cb asks pc ?c)"
  obtain res c where run: "run_handler ?cb pc ?c = (res, c)" by fastforce
  obtain q w1 where go: "handler_resume cf h w = (q, w1)" by fastforce
  note step = handler_resume_step [OF ci h(1) r run go]
  have post: "switch_post ?cb ?c (res, c)" using run_handler_post [OF hi] run by simp
  then have frame: "conn_frame ?c c" by (simp add: switch_post_def)
  have "\<not> isTimeout (cn_h ?c)" using h(3) by (simp add: conn_of_def)
  from run_settles [OF t this] run
  have s: "settles ?cb full (waits (nt_ios (hw_net w) fd)) (ends asks pc) ?whole (res, c)"
    by (simp add: marks_waits) (simp add: conn_of_def)
  show ?thesis
  proof (cases res)
    case Returns
    with step(4) have q: "q = Inr False" by (simp add: resume_result_def)
    from resumeHandler_finished [OF h(1,2) pos go [unfolded q] step(1) frame] s Returns
    show ?thesis by (simp add: paid_def client_closed_def settled_def settles_def)
  next
    case (Throws e)
    with s show ?thesis by (simp add: settles_def)
  next
    case (Yields pc')
    with step(4) have q: "q = Inr True" "live (hw_ord w1) rid" "cont (hw_ord w1) rid = Some (fd, pc')"
      by (simp_all add: resume_result_def)
    from s Yields obtain as where as: "talking ?cb full as pc' c" "ends as pc' = ends asks pc"
      "io_sent (cn_io c) @ concat (owed ?cb as pc' c) = ?whole"
      "full \<longrightarrow> waits (cn_io c) < waits (nt_ios (hw_net w) fd) \<or>
         waits (cn_io c) \<le> waits (nt_ios (hw_net w) fd) \<and> owed ?cb as pc' c = []"
      by (auto simp: settles_def marks_waits)
    obtain k' where w': "resumeHandler cf fd w = on_net (\<lambda>n. n\<lparr>nt_epoll := k'\<rparr>) w1" and k': "watched k' fd \<noteq> None"
      by (rule resumeHandler_suspended [OF h(1) step(1) go [unfolded q(1)] k(2,1)])
    let ?w = "on_net (\<lambda>n. n\<lparr>nt_epoll := k'\<rparr>) w1"
    have h1: "handler_of (hw_net ?w) fd = Some (cn_h c)" and io: "nt_ios (hw_net ?w) fd = cn_io c"
      by (simp_all add: step(1))
    have env: "cn_h (conn_of (hw_net ?w) fd (cn_h c)) = cn_h c" "cn_io (conn_of (hw_net ?w) fd (cn_h c)) = cn_io c"
      by (simp_all add: conn_of_def io del: worker_simps)
    have rid: "ch_routine (cn_h c) = Some rid" "getLastActivity (cn_h c) = nt_now (hw_net w)"
      using frame r(1) post Yields by (simp_all add: conn_frame_def conn_of_def switch_post_def stamped_def)
    have "client_talks cf full (ends asks pc) (owed ?cb as pc' c) fd ?w"
      using as(1,2) q(2,3) k' srv rid(1) h1 talking_env [OF env] owed_env [OF env(1)]
      by (auto simp: client_talks_def)
    with h1 io rid(2) as(3,4) show ?thesis unfolding w' paid_def
      by (intro disjI2 exI [of _ "owed ?cb as pc' c"] exI [of _ "cn_h c"]) auto
  qed
qed

lemma handleEvent_pays:
  assumes inv: "worker_inv cf w" and c: "client_talks cf full fin owe fd w" and k: "willing (nt_epoll (hw_net w))"
  shows "paid cf full (full \<and> waits (nt_ios (hw_net w) fd) = 0) fin (sent_to fd w @ concat owe)
    (nt_now (hw_net w)) fd (handleEvent cf acc fd w)"
proof -
  let ?cb = "cf_callback cf"
  have srv: "fd \<noteq> cf_server_fd cf" and watch: "watched (nt_epoll (hw_net w)) fd \<noteq> None"
    using c by (simp_all add: client_talks_def)
  then have pos: "fd \<noteq> -1" using inv by (auto simp: worker_ok_def)
  show ?thesis
  proof (cases "handler_of (hw_net w) fd")
    case None
    then obtain asks where t: "talking_new ?cb full asks (nt_ios (hw_net w) fd)" "fin = list_ex closes asks"
        "owe = answers ?cb asks"
      using c by (auto simp: client_talks_def)
    obtain h rid w1 where eq: "registerHandler cf fd w = resumeHandler cf fd w1"
      and h: "h = (fst (move_ctor (ConnectionHandler_new fd only_IN)))\<lparr>ch_routine := Some rid\<rparr>"
      and net: "hw_net w1 = (hw_net w)\<lparr>nt_coroutines := AList.update fd h (nt_coroutines (hw_net w))\<rparr>"
      and ci: "coro_inv (hw_ord w1)"
      and r: "live (hw_ord w1) rid" "cont (hw_ord w1) rid = Some (fd, PcEntry)"
        "handler_inv ?cb PcEntry (conn_of (hw_net w1) fd h)"
      by (rule registerHandler_resumes [OF inv None watch srv])
    have hf: "handler_of (hw_net w1) fd = Some h" "ch_fd h = fd" "\<not> isTimeout h" "ch_routine h = Some rid"
      "watched (nt_epoll (hw_net w1)) fd \<noteq> None" "willing (nt_epoll (hw_net w1))"
      using watch k by (simp_all add: net h)
    have "talking ?cb full asks PcEntry (conn_of (hw_net w1) fd h)"
      using t(1) by (simp add: talking_entry conn_of_def net h initial_buffer_size_def)
    from resumeHandler_pays [OF ci pos srv hf(1-4) r hf(5,6) this] t(2,3)
    show ?thesis using None srv eq by (simp add: handleEvent_def net)
  next
    case (Some h)
    with c obtain asks rid pc where t: "ch_routine h = Some rid" "live (hw_ord w) rid"
      "cont (hw_ord w) rid = Some (fd, pc)" "talking ?cb full asks pc (conn_of (hw_net w) fd h)"
      "fin = ends asks pc" "owe = owed ?cb asks pc (conn_of (hw_net w) fd h)"
      by (auto simp: client_talks_def)
    have ci: "coro_inv (hw_ord w)" and ok: "handler_ok ?cb (hw_ord w) (hw_net w) fd h"
      using inv Some by (auto simp: worker_ok_def)
    then have hf: "ch_fd h = fd" "\<not> isTimeout h" "handler_inv ?cb pc (conn_of (hw_net w) fd h)"
      using t(1,3) by (auto simp: handler_ok_def)
    from resumeHandler_pays [OF ci pos srv Some hf(1,2) t(1-3) hf(3) watch k t(4)] t(5,6) Some srv
    show ?thesis by (simp add: handleEvent_def)
  qed
qed

section \<open>All other events\<close>

definition leaves :: "int \<Rightarrow> worker \<Rightarrow> worker \<Rightarrow> bool" where
  "leaves fd w w' \<longleftrightarrow>
     untouched fd (hw_net w) (hw_net w') \<and>
     (\<forall>rid pc. live (hw_ord w) rid \<longrightarrow> cont (hw_ord w) rid = Some (fd, pc) \<longrightarrow>
        live (hw_ord w') rid \<and> cont (hw_ord w') rid = Some (fd, pc))"

lemma leaves_refl [simp]: "leaves fd w w"
  by (simp add: leaves_def)

lemma leaves_trans [trans]: "leaves fd a b \<Longrightarrow> leaves fd b c \<Longrightarrow> leaves fd a c"
  unfolding leaves_def by (blast intro: untouched_trans)

lemma leaves_now [simp]: "leaves fd w (on_net (\<lambda>n. n\<lparr>nt_now := t\<rparr>) w)"
  by (simp add: leaves_def untouched_def)

lemma changes_at_leaves: "changes_at g w w' \<Longrightarrow> fd \<noteq> g \<Longrightarrow> coro_inv (hw_ord w) \<Longrightarrow> leaves fd w w'"
  by (auto simp: leaves_def changes_at_untouched) (auto simp: changes_at_def keeps_routines_def)

lemma client_talks_leaves:
  assumes "client_talks cf full fin owe fd w" and l: "leaves fd w w'"
  shows "client_talks cf full fin owe fd w'"
proof -
  have e: "handler_of (hw_net w') fd = handler_of (hw_net w) fd" "nt_ios (hw_net w') fd = nt_ios (hw_net w) fd"
    "watched (nt_epoll (hw_net w')) fd = watched (nt_epoll (hw_net w)) fd"
    using l by (simp_all add: leaves_def untouched_def)
  have c: "cn_h (conn_of (hw_net w') fd h) = cn_h (conn_of (hw_net w) fd h)"
    "cn_io (conn_of (hw_net w') fd h) = cn_io (conn_of (hw_net w) fd h)" for h
    using e(2) by (simp_all add: conn_of_def)
  show ?thesis
    using assms(1) l unfolding client_talks_def e talking_env [OF c] owed_env [OF c(1)] leaves_def
    by (fastforce split: option.splits)
qed

lemma paid_leaves:
  assumes "paid cf full prompt fin whole t fd w" and l: "leaves fd w w'"
  shows "paid cf full prompt fin whole t fd w'"
proof -
  have e: "handler_of (hw_net w') fd = handler_of (hw_net w) fd" "nt_ios (hw_net w') fd = nt_ios (hw_net w) fd"
    "watched (nt_epoll (hw_net w')) fd = watched (nt_epoll (hw_net w)) fd"
    using l by (simp_all add: leaves_def untouched_def)
  show ?thesis
    using assms(1) client_talks_leaves [OF _ l] unfolding paid_def client_closed_def e by blast
qed

lemma registerClients_ord [simp]: "hw_ord (registerClients acc w) = hw_ord w"
  by (induction acc w rule: registerClients.induct) (auto simp: Let_def split: prod.splits)

lemma handleEvent_leaves:
  assumes inv: "worker_inv cf w" and watch: "watched (nt_epoll (hw_net w)) g \<noteq> None"
    and "fd \<noteq> g" and "\<not> accepted acc fd"
  shows "leaves fd w (handleEvent cf acc g w)"
proof (cases "g = cf_server_fd cf")
  case True
  with registerClients_untouched [OF assms(4)] show ?thesis by (simp add: leaves_def handleEvent_def)
next
  case False
  have ci: "coro_inv (hw_ord w)" using inv by (simp add: worker_ok_def)
  show ?thesis
  proof (cases "handler_of (hw_net w) g")
    case None
    with changes_at_leaves [OF registerHandler_inv(1) [OF inv None watch False] assms(3) ci] False
    show ?thesis by (simp add: handleEvent_def)
  next
    case (Some h)
    with changes_at_leaves [OF resumeHandler_inv(1) [OF inv Some] assms(3) ci] False
    show ?thesis by (simp add: handleEvent_def)
  qed
qed

lemma handleEvents_willing:
  "worker_inv cf w \<Longrightarrow> events_ok cf acc es w \<Longrightarrow> willing (nt_epoll (hw_net w)) \<Longrightarrow>
     willing (nt_epoll (hw_net (handleEvents cf acc es w)))"
proof (induction es arbitrary: w)
  case (Cons g es)
  note step = events_ok_Cons [OF Cons.prems(1,2)]
  from Cons.IH [OF step(1,2) handleEvent_willing [OF Cons.prems(1) step(4) Cons.prems(3)]]
  show ?case by (simp add: handleEvents_def)
qed (simp add: handleEvents_def)

lemma handleEvents_leaves:
  "worker_inv cf w \<Longrightarrow> events_ok cf acc es w \<Longrightarrow> fd \<notin> set es \<Longrightarrow> \<not> accepted acc fd \<Longrightarrow>
     leaves fd w (handleEvents cf acc es w)"
proof (induction es arbitrary: w)
  case (Cons g es)
  note step = events_ok_Cons [OF Cons.prems(1,2)]
  from Cons.prems(3,4) handleEvent_leaves [OF Cons.prems(1) step(4), of fd acc] Cons.IH [OF step(1,2)]
  show ?case by (auto simp: handleEvents_def intro: leaves_trans)
qed (simp add: handleEvents_def)

text \<open>The batch: other events, the client's, other events.\<close>

lemma handleEvents_pays:
  "worker_inv cf w \<Longrightarrow> events_ok cf acc es w \<Longrightarrow> fd \<in> set es \<Longrightarrow> \<not> accepted acc fd \<Longrightarrow>
     client_talks cf full fin owe fd w \<Longrightarrow> willing (nt_epoll (hw_net w)) \<Longrightarrow>
     paid cf full (full \<and> waits (nt_ios (hw_net w) fd) = 0) fin (sent_to fd w @ concat owe)
       (nt_now (hw_net w)) fd (handleEvents cf acc es w)"
proof (induction es arbitrary: w)
  case (Cons g es)
  note step = events_ok_Cons [OF Cons.prems(1,2)]
  let ?w = "handleEvent cf acc g w"
  have batch: "handleEvents cf acc (g # es) w = handleEvents cf acc es ?w" by (simp add: handleEvents_def)
  show ?case
  proof (cases "g = fd")
    case True
    then have "fd \<notin> set es" using Cons.prems(2) by (simp add: events_ok_def)
    from paid_leaves [OF _ handleEvents_leaves [OF step(1,2) this Cons.prems(4)]]
      handleEvent_pays [OF Cons.prems(1,5,6), of acc] True
    show ?thesis unfolding batch by simp
  next
    case False
    have l: "leaves fd w ?w" by (rule handleEvent_leaves [OF Cons.prems(1) step(4) _ Cons.prems(4)]) (use False in simp)
    then have "nt_ios (hw_net ?w) fd = nt_ios (hw_net w) fd" by (simp add: leaves_def untouched_def)
    with Cons.IH [OF step(1,2) _ Cons.prems(4) client_talks_leaves [OF Cons.prems(5) l]
        handleEvent_willing [OF Cons.prems(1) step(4) Cons.prems(6)]] Cons.prems(3) False step(3)
    show ?thesis by (simp add: batch)
  qed
qed simp

section \<open>The time-out scan\<close>

lemma expire_handler_willing:
  assumes inv: "worker_inv cf w" and h: "handler_of (hw_net w) fd = Some h"
    and k: "willing (nt_epoll (hw_net w))"
  shows "willing (nt_epoll (hw_net (expire_handler cf fd h w)))"
proof -
  let ?w = "on_net (mark_timeout fd) w" and ?h = "setTimeout h"
  have "coro_inv (hw_ord w)" "handler_ok (cf_callback cf) (hw_ord w) (hw_net w) fd h"
    using inv h by (simp_all add: worker_ok_def)
  then obtain rid pc where r: "coro_inv (hw_ord w)" "ch_routine h = Some rid" "live (hw_ord w) rid"
      "cont (hw_ord w) rid = Some (fd, pc)"
    by (auto simp: handler_ok_def)
  obtain res c where run: "run_handler (cf_callback cf) pc (conn_of (hw_net ?w) fd ?h) = (res, c)" by fastforce
  obtain q w1 where go: "handler_resume cf ?h ?w = (q, w1)" by fastforce
  have "hw_net w1 = put_conn fd c (hw_net ?w)"
    by (rule handler_resume_step(1) [OF _ _ _ _ _ run go]) (use r h in \<open>simp_all add: setTimeout_def\<close>)
  then have "willing (nt_epoll (hw_net w1))" using k by simp
  then show ?thesis using go by (cases q) (simp_all add: expire_handler_def Let_def)
qed

lemma scan_leaves:
  "worker_inv cf w \<Longrightarrow> \<not> expired cf now (hw_net w) fd \<Longrightarrow> willing (nt_epoll (hw_net w)) \<Longrightarrow>
     leaves fd w (fold (timeout_step cf now) ks w) \<and>
     willing (nt_epoll (hw_net (fold (timeout_step cf now) ks w)))"
proof (induction ks arbitrary: w)
  case (Cons k ks)
  show ?case
  proof (cases "expired cf now (hw_net w) k")
    case False
    then have "timeout_step cf now k w = w"
      by (auto simp: timeout_step_def expired_def split: option.splits)
    with Cons show ?thesis by simp
  next
    case True
    then obtain h where h: "handler_of (hw_net w) k = Some h" "idle cf now h"
      by (auto simp: expired_def split: option.splits)
    let ?w = "expire_handler cf k h w"
    note eff = expire_handler_effect [OF Cons.prems(1) h(1)]
    have ne: "fd \<noteq> k" using True Cons.prems(2) by auto
    have "coro_inv (hw_ord w)" using Cons.prems(1) by (simp add: worker_ok_def)
    from changes_at_leaves [OF eff(2) ne this] have l: "leaves fd w ?w" .
    then have "\<not> expired cf now (hw_net ?w) fd"
      using Cons.prems(2) by (simp add: expired_def leaves_def untouched_def)
    from Cons.IH [OF eff(1) this expire_handler_willing [OF Cons.prems(1) h(1) Cons.prems(3)]] l
    show ?thesis using h by (auto simp: timeout_step_def intro: leaves_trans)
  qed
qed simp

section \<open>A round of the event loop\<close>

text \<open>A round in which the client's descriptor is reported, and that does not take as long as a time-out.\<close>

definition reports :: "config \<Rightarrow> round \<Rightarrow> int \<Rightarrow> bool" where
  "reports cf r fd \<longleftrightarrow>
     (case rd_wait r of Triggered es \<Rightarrow> fd \<in> set es | WaitError _ \<Rightarrow> False) \<and>
     \<not> accepted (rd_accepts r) fd \<and> int (rd_after r) - int (rd_returned r) < cf_timeout_threshold cf"

lemma round_pays:
  assumes inv: "worker_inv cf w" and ok: "round_ok cf r w" and rep: "reports cf r fd"
    and c: "client_talks cf full fin owe fd w" and k: "willing (nt_epoll (hw_net w))"
  shows "\<exists>tp' w'. loop_round cf r tp w = Inr (tp', w') \<and> willing (nt_epoll (hw_net w')) \<and>
    nt_now (hw_net w') = rd_after r \<and>
    paid cf full (full \<and> waits (nt_ios (hw_net w) fd) = 0) fin (sent_to fd w @ concat owe) (rd_returned r) fd w'"
proof -
  let ?t = "rd_returned r" and ?prompt = "full \<and> waits (nt_ios (hw_net w) fd) = 0"
  let ?whole = "sent_to fd w @ concat owe"
  obtain es where es: "rd_wait r = Triggered es" "fd \<in> set es" "\<not> accepted (rd_accepts r) fd"
    and soon: "int (rd_after r) - int ?t < cf_timeout_threshold cf"
    using rep by (auto simp: reports_def split: wait_outcome.splits)
  define w0 where "w0 = on_net (\<lambda>n. n\<lparr>nt_now := ?t\<rparr>) w"
  define w1 where "w1 = handleEvents cf (rd_accepts r) es w0"
  define w2 where "w2 = on_net (\<lambda>n. n\<lparr>nt_now := rd_after r\<rparr>) w1"
  have inv0: "worker_inv cf w0" using inv ok unfolding w0_def by (intro worker_inv_now) (simp_all add: round_ok_def)
  have e: "events_ok cf (rd_accepts r) es w0" using es ok by (simp add: round_ok_def w0_def)
  have c0: "client_talks cf full fin owe fd w0" unfolding w0_def by (rule client_talks_leaves [OF c leaves_now])
  have k0: "willing (nt_epoll (hw_net w0))" using k by (simp add: w0_def)
  have p1: "paid cf full ?prompt fin ?whole ?t fd w1"
    using handleEvents_pays [OF inv0 e es(2,3) c0 k0] by (simp add: w0_def w1_def)
  have p2: "paid cf full ?prompt fin ?whole ?t fd w2" unfolding w2_def by (rule paid_leaves [OF p1 leaves_now])
  have inv2: "worker_inv cf w2" unfolding w2_def
    by (rule worker_inv_now) (use handleEvents_inv [OF inv0 e] ok in \<open>simp_all add: w1_def w0_def round_ok_def\<close>)
  have k2: "willing (nt_epoll (hw_net w2))" using handleEvents_willing [OF inv0 e k0] by (simp add: w2_def w1_def)
  have "\<not> expired cf (rd_after r) (hw_net w2) fd"
    using p2 soon by (auto simp: expired_def paid_def client_closed_def idle_def)
  note scan = scan_leaves [OF inv2 this k2, of "map fst (nt_coroutines (hw_net w2))",
      folded scheduleTimeoutHandler_def]
  have wait: "wait_with_timeout (rd_wait r) = Inr (Some es)"
    using es by (cases es) (simp_all add: wait_with_timeout_def)
  have "loop_round cf r tp w =
      (let t = tp + (int (rd_after r) - int (rd_before r))
       in if TIMER_TICK \<le> t then Inr (0, scheduleTimeoutHandler cf (rd_after r) w2) else Inr (t, w2))"
    by (simp add: loop_round_def wait Let_def w0_def w1_def w2_def)
  then obtain tp' w' where "loop_round cf r tp w = Inr (tp', w')"
    and "w' = w2 \<or> w' = scheduleTimeoutHandler cf (rd_after r) w2"
    by (cases "TIMER_TICK \<le> tp + (int (rd_after r) - int (rd_before r))") (auto simp: Let_def)
  moreover have "nt_now (hw_net w2) = rd_after r" by (simp add: w2_def)
  ultimately show ?thesis
    using p2 k2 scan paid_leaves [OF p2] scheduleTimeoutHandler_inv(2) [OF inv2, of "rd_after r"] by auto
qed

section \<open>More requests\<close>

lemma room_after_rest: "room_after n outs = Some rest \<Longrightarrow> \<exists>e. outs = e @ rest"
proof (induction outs arbitrary: n)
  case Nil
  then show ?case by (cases "n = 0") auto
next
  case (Cons x xs)
  show ?case
  proof (cases "n = 0")
    case False
    with Cons.prems Cons.IH obtain e where "xs = e @ rest" by (cases x) auto
    then have "x # xs = (x # e) @ rest" by simp
    then show ?thesis by blast
  qed (use Cons.prems in auto)
qed

lemma room_after_less:
  "room_after n outs = Some rest \<Longrightarrow> m \<le> n \<Longrightarrow> \<exists>e. room_after m outs = Some (e @ rest)"
proof (induction outs arbitrary: n m)
  case Nil
  then show ?case by (cases "n = 0") auto
next
  case (Cons x xs)
  show ?case
  proof (cases "m = 0")
    case True
    with room_after_rest [OF Cons.prems(1)] show ?thesis by simp
  next
    case False
    with Cons.prems Cons.IH [of "case x of WRoom k \<Rightarrow> n - k | WError e \<Rightarrow> n"
        "case x of WRoom k \<Rightarrow> m - k | WError e \<Rightarrow> m"]
    show ?thesis by (cases x) auto
  qed
qed

lemma room_after_extra:
  "room_after n outs = Some rest \<Longrightarrow> m \<le> n \<Longrightarrow> \<exists>e. room_after m (extra @ outs) = Some (e @ rest)"
proof (induction extra arbitrary: m)
  case Nil
  then show ?case using room_after_less by simp
next
  case (Cons x xs)
  show ?case
  proof (cases "m = 0")
    case True
    obtain e where "room_after 0 outs = Some (e @ rest)" using room_after_less [OF Cons.prems(1)] by blast
    then show ?thesis using True by simp
  next
    case False
    then show ?thesis using Cons.IH [of "case x of WRoom k \<Rightarrow> m - k | WError e \<Rightarrow> m"] Cons.prems by (cases x) auto
  qed
qed

lemma enough_room_extra: "enough_room ns outs \<Longrightarrow> enough_room ns (extra @ outs)"
proof (induction ns arbitrary: outs extra)
  case (Cons n ns)
  then obtain rest where r: "room_after n outs = Some rest" "enough_room ns rest" by (auto split: option.splits)
  from room_after_extra [OF r(1) order_refl, of extra] Cons.IH [OF r(2)] show ?case by auto
qed simp

lemma feed_behind_waits: "feed True [] i s \<Longrightarrow> feed full asks j items \<Longrightarrow> feed full asks j (s @ items)"
proof (induction s)
  case (Cons x s)
  then show ?case by (cases x; cases asks) auto
qed simp

text \<open>Requests that arrive for a client that is owed nothing.\<close>

lemma deliver_talks:
  assumes c: "client_talks cf True fin [] fd w"
    and asks: "\<forall>a\<in>set asks. served (cf_callback cf) a" "feed full asks 0 items" "\<forall>x\<in>set outs. polite x"
      "full \<longrightarrow> enough_room (map length (answers (cf_callback cf) asks)) outs"
  shows "client_talks cf full (list_ex closes asks) (answers (cf_callback cf) asks) fd
    (on_net (deliver fd items outs) w)"
proof -
  let ?cb = "cf_callback cf"
  define w' where "w' = on_net (deliver fd items outs) w"
  have e: "handler_of (hw_net w') = handler_of (hw_net w)" "nt_epoll (hw_net w') = nt_epoll (hw_net w)"
    "io_in (nt_ios (hw_net w') fd) = io_in (nt_ios (hw_net w) fd) @ items"
    "io_out (nt_ios (hw_net w') fd) = io_out (nt_ios (hw_net w) fd) @ outs" "hw_ord w' = hw_ord w"
    by (simp_all add: deliver_def w'_def)
  have "client_talks cf full (list_ex closes asks) (answers ?cb asks) fd w'"
  proof (cases "handler_of (hw_net w) fd")
    case None
    with c obtain as where "talking_new ?cb True as (nt_ios (hw_net w) fd)" "answers ?cb as = []"
      by (auto simp: client_talks_def)
    then have "talking_new ?cb True [] (nt_ios (hw_net w) fd)" by (cases as) auto
    then have "talking_new ?cb full asks (nt_ios (hw_net w') fd)"
      using asks feed_behind_waits enough_room_extra by (auto simp: talking_new_def e)
    with c None show ?thesis unfolding client_talks_def e by auto
  next
    case (Some h)
    with c obtain as rid pc where r: "ch_routine h = Some rid" "live (hw_ord w) rid"
        "cont (hw_ord w) rid = Some (fd, pc)" "talking ?cb True as pc (conn_of (hw_net w) fd h)"
        "owed ?cb as pc (conn_of (hw_net w) fd h) = []"
      by (auto simp: client_talks_def)
    from owed_Nil [OF r(4,5)] have pc: "as = []" "pc = PcEntry \<or> pc = PcReading HttpRequestParser_init 0" .
    let ?c = "conn_of (hw_net w') fd h"
    have cc: "cn_h ?c = h" "cn_io ?c = nt_ios (hw_net w') fd" "cn_h (conn_of (hw_net w) fd h) = h"
      "cn_io (conn_of (hw_net w) fd h) = nt_ios (hw_net w) fd"
      by (simp_all add: conn_of_def)
    have "1024 \<le> length (ch_read_buff h)" "\<forall>x\<in>set (io_out (nt_ios (hw_net w) fd)). polite x"
      "feed True [] 0 (io_in (nt_ios (hw_net w) fd))"
      using r(4) pc by (auto simp: talking_def cc)
    then have "talking ?cb full asks pc ?c" "owed ?cb asks pc ?c = answers ?cb asks" "ends asks pc = list_ex closes asks"
      using asks pc(2) at_ask_start [of ?c asks] feed_behind_waits enough_room_extra
      by (auto simp: talking_def cc e)
    then show ?thesis using c Some r(1-3) unfolding client_talks_def e by auto
  qed
  then show ?thesis by (simp only: w'_def)
qed

lemma leaves_deliver: "g \<noteq> fd \<Longrightarrow> leaves fd w (on_net (deliver g items outs) w)"
  by (simp add: leaves_def untouched_def deliver_def)

section \<open>Rounds of a conversation\<close>

text \<open>
  One exchange: the requests a client sends in it and how they arrive, what arrives for other
  clients in the meantime, and the round of the event loop that follows.
\<close>

record exchange =
  ex_asks :: "ask list"
  ex_items :: "rd_item list"
  ex_outs :: "wr_item list"
  ex_others :: "(int \<times> rd_item list \<times> wr_item list) list"
  ex_round :: round

definition exchange_ok :: "config \<Rightarrow> int \<Rightarrow> exchange \<Rightarrow> bool" where
  "exchange_ok cf fd x \<longleftrightarrow>
     (\<forall>a\<in>set (ex_asks x). served (cf_callback cf) a) \<and> feed True (ex_asks x) 0 (ex_items x) \<and>
     (\<forall>y\<in>set (ex_outs x). polite y) \<and>
     enough_room (map length (answers (cf_callback cf) (ex_asks x))) (ex_outs x) \<and>
     RError EAGAIN \<notin> set (ex_items x) \<and> WError EAGAIN \<notin> set (ex_outs x) \<and>
     fd \<notin> set (map fst (ex_others x)) \<and> reports cf (ex_round x) fd"

definition deliver_all :: "(int \<times> rd_item list \<times> wr_item list) list \<Rightarrow> worker \<Rightarrow> worker" where
  "deliver_all = fold (\<lambda>(g, items, outs). on_net (deliver g items outs))"

lemma deliver_all_simps [simp]:
  "deliver_all [] w = w"
  "deliver_all ((g, items, outs) # others) w = deliver_all others (on_net (deliver g items outs) w)"
  by (simp_all add: deliver_all_def)

lemma deliver_all_reach: "worker_reach cf w \<Longrightarrow> worker_reach cf (deliver_all others w)"
proof (induction others arbitrary: w)
  case (Cons x others)
  then show ?case by (cases x) (simp add: Cons.IH worker_reach.arrive)
qed simp

lemma deliver_all_epoll [simp]: "nt_epoll (hw_net (deliver_all others w)) = nt_epoll (hw_net w)"
  by (induction others arbitrary: w) (auto simp: deliver_def)

lemma deliver_all_leaves: "fd \<notin> set (map fst others) \<Longrightarrow> leaves fd w (deliver_all others w)"
proof (induction others arbitrary: w)
  case (Cons x others)
  obtain g items outs where x: "x = (g, items, outs)" by (metis prod_cases3)
  with Cons.prems have "leaves fd w (on_net (deliver g items outs) w)" by (intro leaves_deliver) auto
  with Cons x show ?case by (auto intro: leaves_trans)
qed simp

definition arrivals :: "int \<Rightarrow> exchange \<Rightarrow> worker \<Rightarrow> worker" where
  "arrivals fd x w =
     deliver_all (ex_others x) (on_net (deliver fd (ex_items x) (ex_outs x)) w)"

fun exchanges :: "config \<Rightarrow> int \<Rightarrow> exchange list \<Rightarrow> int \<Rightarrow> worker \<Rightarrow> tcp_exn + int \<times> worker" where
  "exchanges cf fd [] tp w = Inr (tp, w)"
| "exchanges cf fd (x # xs) tp w =
     (case loop_round cf (ex_round x) tp (arrivals fd x w) of
        Inl e \<Rightarrow> Inl e
      | Inr (tp, w) \<Rightarrow> exchanges cf fd xs tp w)"

text \<open>What the kernel guarantees of each of these rounds.\<close>

fun exchanges_fit :: "config \<Rightarrow> int \<Rightarrow> exchange list \<Rightarrow> int \<Rightarrow> worker \<Rightarrow> bool" where
  "exchanges_fit cf fd [] tp w = True"
| "exchanges_fit cf fd (x # xs) tp w =
     (round_ok cf (ex_round x) (arrivals fd x w) \<and>
      (case loop_round cf (ex_round x) tp (arrivals fd x w) of
         Inl _ \<Rightarrow> True
       | Inr (tp, w) \<Rightarrow> exchanges_fit cf fd xs tp w))"

lemma arrivals_talk:
  assumes c: "client_talks cf True fin [] fd w" and "waits (nt_ios (hw_net w) fd) = 0"
    and x: "exchange_ok cf fd x"
  shows "client_talks cf True (list_ex closes (ex_asks x)) (answers (cf_callback cf) (ex_asks x)) fd (arrivals fd x w)"
    and "waits (nt_ios (hw_net (arrivals fd x w)) fd) = 0" and "sent_to fd (arrivals fd x w) = sent_to fd w"
proof -
  let ?w = "on_net (deliver fd (ex_items x) (ex_outs x)) w"
  have l: "leaves fd ?w (arrivals fd x w)"
    unfolding arrivals_def by (rule deliver_all_leaves) (use x in \<open>simp add: exchange_ok_def\<close>)
  then have io: "nt_ios (hw_net (arrivals fd x w)) fd = nt_ios (hw_net ?w) fd"
    by (simp add: leaves_def untouched_def)
  show "client_talks cf True (list_ex closes (ex_asks x)) (answers (cf_callback cf) (ex_asks x)) fd (arrivals fd x w)"
    by (rule client_talks_leaves [OF deliver_talks [OF c] l]) (use x in \<open>simp_all add: exchange_ok_def\<close>)
  show "waits (nt_ios (hw_net (arrivals fd x w)) fd) = 0"
    using assms(2) x by (simp add: io waits_def deliver_def exchange_ok_def filter_empty_conv) metis
  show "sent_to fd (arrivals fd x w) = sent_to fd w" unfolding io by (simp add: deliver_def)
qed

lemma idle_not_ending:
  assumes "client_talks cf True fin [] fd w"
  shows "\<not> fin"
proof (cases "handler_of (hw_net w) fd")
  case None
  with assms have "\<exists>as. [] = answers (cf_callback cf) as \<and> fin = list_ex closes as"
    by (auto simp: client_talks_def)
  then obtain as where "[] = answers (cf_callback cf) as" "fin = list_ex closes as" by blast
  then show ?thesis by (cases as) simp_all
next
  case (Some h)
  with assms obtain as pc where t: "talking (cf_callback cf) True as pc (conn_of (hw_net w) fd h)"
      "owed (cf_callback cf) as pc (conn_of (hw_net w) fd h) = []" "fin = ends as pc"
    by (auto simp: client_talks_def)
  from owed_Nil [OF t(1,2)] t(3) show ?thesis by auto
qed

lemma idle_watched:
  assumes inv: "worker_inv cf w" and c: "client_talks cf True fin [] fd w"
    and h: "handler_of (hw_net w) fd \<noteq> None"
  shows "watched (nt_epoll (hw_net w)) fd = Some (ev_data only_IN)"
proof -
  obtain hd where hd: "handler_of (hw_net w) fd = Some hd" using h by blast
  with c obtain as rid pc where t: "ch_routine hd = Some rid" "cont (hw_ord w) rid = Some (fd, pc)"
      "talking (cf_callback cf) True as pc (conn_of (hw_net w) fd hd)"
      "owed (cf_callback cf) as pc (conn_of (hw_net w) fd hd) = []"
    by (auto simp: client_talks_def)
  have "handler_ok (cf_callback cf) (hw_ord w) (hw_net w) fd hd" using inv hd by (simp add: worker_ok_def)
  then have "handler_inv (cf_callback cf) pc (conn_of (hw_net w) fd hd)"
    "watched (nt_epoll (hw_net w)) fd = Some (ev_data (ch_set hd))"
    using t(1,2) by (auto simp: handler_ok_def)
  with owed_Nil(2) [OF t(3,4)] show ?thesis by (auto simp: reading_def conn_of_def)
qed

text \<open>One exchange with a client that is owed nothing.\<close>

definition idle_client :: "config \<Rightarrow> int \<Rightarrow> worker \<Rightarrow> bool" where
  "idle_client cf fd w \<longleftrightarrow>
     worker_reach cf w \<and> client_talks cf True False [] fd w \<and> waits (nt_ios (hw_net w) fd) = 0 \<and>
     willing (nt_epoll (hw_net w))"

lemma exchange_pays:
  assumes c: "idle_client cf fd w" and x: "exchange_ok cf fd x"
    and ok: "round_ok cf (ex_round x) (arrivals fd x w)"
  obtains tp' w' where "loop_round cf (ex_round x) tp (arrivals fd x w) = Inr (tp', w')"
    and "worker_reach cf w'" and "nt_now (hw_net w') = rd_after (ex_round x)"
    and "sent_to fd w' = sent_to fd w @ concat (answers (cf_callback cf) (ex_asks x))"
    and "if list_ex closes (ex_asks x) then client_closed fd w'
         else idle_client cf fd w' \<and> handler_of (hw_net w') fd \<noteq> None"
proof -
  let ?cb = "cf_callback cf" and ?w = "arrivals fd x w"
  have i: "worker_reach cf w" "client_talks cf True False [] fd w" "waits (nt_ios (hw_net w) fd) = 0"
    "willing (nt_epoll (hw_net w))"
    using c by (simp_all add: idle_client_def)
  note a = arrivals_talk [OF i(2,3) x]
  have rep: "reports cf (ex_round x) fd" using x by (simp add: exchange_ok_def)
  have reach: "worker_reach cf ?w"
    unfolding arrivals_def by (rule deliver_all_reach [OF worker_reach.arrive [OF i(1)]])
  have k: "willing (nt_epoll (hw_net ?w))" using i(4) by (simp add: arrivals_def)
  obtain tp1 w1 where l: "loop_round cf (ex_round x) tp ?w = Inr (tp1, w1)" and k1: "willing (nt_epoll (hw_net w1))"
    and now: "nt_now (hw_net w1) = rd_after (ex_round x)"
    and p: "paid cf True True (list_ex closes (ex_asks x)) (sent_to fd w @ concat (answers ?cb (ex_asks x)))
      (rd_returned (ex_round x)) fd w1"
    using round_pays [OF worker_reach_inv [OF reach] ok rep a(1) k, of tp] unfolding a(2,3) by auto
  have reach1: "worker_reach cf w1" by (rule worker_reach.round [OF reach ok l])
  show thesis
  proof (rule that [OF l reach1 now])
    show "sent_to fd w1 = sent_to fd w @ concat (answers ?cb (ex_asks x))"
      using p idle_not_ending by (auto simp: paid_def)
    show "if list_ex closes (ex_asks x) then client_closed fd w1
        else idle_client cf fd w1 \<and> handler_of (hw_net w1) fd \<noteq> None"
      using p idle_not_ending reach1 k1 by (auto simp: paid_def idle_client_def)
  qed
qed

lemma exchanges_pay:
  "idle_client cf fd w \<Longrightarrow> \<forall>x\<in>set xs. exchange_ok cf fd x \<Longrightarrow> exchanges_fit cf fd xs tp w \<Longrightarrow>
     \<forall>x\<in>set (butlast xs). \<not> list_ex closes (ex_asks x) \<Longrightarrow> xs \<noteq> [] \<Longrightarrow>
     \<exists>tp' w'. exchanges cf fd xs tp w = Inr (tp', w') \<and> worker_reach cf w' \<and>
       sent_to fd w' = sent_to fd w @ concat (concat (map (\<lambda>x. answers (cf_callback cf) (ex_asks x)) xs)) \<and>
       (if list_ex closes (ex_asks (last xs)) then client_closed fd w'
        else idle_client cf fd w' \<and> handler_of (hw_net w') fd \<noteq> None)"
proof (induction xs arbitrary: tp w)
  case (Cons x xs)
  have x: "exchange_ok cf fd x" "round_ok cf (ex_round x) (arrivals fd x w)" using Cons.prems(2,3) by simp_all
  obtain tp1 w1 where l: "loop_round cf (ex_round x) tp (arrivals fd x w) = Inr (tp1, w1)"
    and w1: "worker_reach cf w1" "sent_to fd w1 = sent_to fd w @ concat (answers (cf_callback cf) (ex_asks x))"
      "if list_ex closes (ex_asks x) then client_closed fd w1
       else idle_client cf fd w1 \<and> handler_of (hw_net w1) fd \<noteq> None"
    by (rule exchange_pays [OF Cons.prems(1) x])
  show ?case
  proof (cases "xs = []")
    case True
    with l w1 show ?thesis by simp
  next
    case False
    then have "\<not> list_ex closes (ex_asks x)" "\<forall>x\<in>set (butlast xs). \<not> list_ex closes (ex_asks x)"
      using Cons.prems(4) by simp_all
    moreover have "exchanges_fit cf fd xs tp1 w1" using Cons.prems(3) l by simp
    ultimately show ?thesis using Cons.IH [of w1 tp1] Cons.prems(2) l w1 False by auto
  qed
qed simp

text \<open>
  Rounds of one client alone, one after the other, are such as the kernel may produce.
\<close>

fun in_turn :: "int \<Rightarrow> nat \<Rightarrow> exchange list \<Rightarrow> bool" where
  "in_turn fd t [] \<longleftrightarrow> True"
| "in_turn fd t (x # xs) \<longleftrightarrow>
     rd_wait (ex_round x) = Triggered [fd] \<and> rd_accepts (ex_round x) = [] \<and> t \<le> rd_returned (ex_round x) \<and>
     rd_returned (ex_round x) \<le> rd_after (ex_round x) \<and> in_turn fd (rd_after (ex_round x)) xs"

lemma arrivals_now [simp]: "nt_now (hw_net (arrivals fd x w)) = nt_now (hw_net w)"
proof -
  have "nt_now (hw_net (deliver_all others w)) = nt_now (hw_net w)" for others w
    by (induction others arbitrary: w) (auto simp: deliver_def)
  then show ?thesis by (simp add: arrivals_def) (simp add: deliver_def)
qed

lemma in_turn_round:
  assumes "watched (nt_epoll (hw_net w)) fd \<noteq> None" and "in_turn fd (nt_now (hw_net w)) (x # xs)"
    and "fd \<noteq> cf_server_fd cf"
  shows "round_ok cf (ex_round x) (arrivals fd x w)"
proof -
  have "nt_epoll (hw_net (arrivals fd x w)) = nt_epoll (hw_net w)" by (simp add: arrivals_def) (simp add: deliver_def)
  then show ?thesis using assms by (simp add: round_ok_def events_ok_def)
qed

lemma in_turn_fit:
  "idle_client cf fd w \<Longrightarrow> \<forall>x\<in>set xs. exchange_ok cf fd x \<Longrightarrow> in_turn fd (nt_now (hw_net w)) xs \<Longrightarrow>
     \<forall>x\<in>set (butlast xs). \<not> list_ex closes (ex_asks x) \<Longrightarrow> exchanges_fit cf fd xs tp w"
proof (induction xs arbitrary: tp w)
  case (Cons x xs)
  have x: "exchange_ok cf fd x" using Cons.prems(2) by simp
  have c: "client_talks cf True False [] fd w" using Cons.prems(1) by (simp add: idle_client_def)
  then have ok: "round_ok cf (ex_round x) (arrivals fd x w)"
    using Cons.prems(3) by (intro in_turn_round [of _ _ _ xs]) (simp_all add: client_talks_def)
  obtain tp1 w1 where l: "loop_round cf (ex_round x) tp (arrivals fd x w) = Inr (tp1, w1)"
    and w1: "nt_now (hw_net w1) = rd_after (ex_round x)"
      "if list_ex closes (ex_asks x) then client_closed fd w1
       else idle_client cf fd w1 \<and> handler_of (hw_net w1) fd \<noteq> None"
    by (rule exchange_pays [OF Cons.prems(1) x ok])
  show ?case
  proof (cases "xs = []")
    case True
    with ok l show ?thesis by simp
  next
    case False
    with Cons.prems(4) w1(2) have "idle_client cf fd w1" by simp
    with Cons.IH [of w1 tp1] Cons.prems(2,3,4) False w1(1) ok l show ?thesis by simp
  qed
qed simp

lemma new_client_idle:
  assumes "fd \<noteq> cf_server_fd cf" and "watched (nt_epoll (hw_net w)) fd \<noteq> None"
    and "handler_of (hw_net w) fd = None" and "nt_ios (hw_net w) fd = io_init [] []"
    and "worker_reach cf w" and "False \<notin> set (ep_script (nt_epoll (hw_net w)))"
  shows "idle_client cf fd w"
proof -
  have "talking_new (cf_callback cf) True [] (nt_ios (hw_net w) fd)"
    by (simp add: talking_new_def assms(4) io_init_def)
  then have "\<exists>asks. talking_new (cf_callback cf) True asks (nt_ios (hw_net w) fd) \<and>
      False = list_ex closes asks \<and> [] = answers (cf_callback cf) asks"
    by (intro exI [of _ "[]"]) simp
  then have "client_talks cf True False [] fd w" using assms(1-3) by (simp add: client_talks_def)
  moreover have "waits (nt_ios (hw_net w) fd) = 0" by (simp add: assms(4) waits_def io_init_def)
  ultimately show ?thesis using assms(5,6) by (simp add: idle_client_def willing_def)
qed

text \<open>
  C1: A worker keeps a conversation with a client that it has newly accepted. Let the worker be in any
  reachable state, let \<^verbatim>\<open>epoll_ctl\<close> not fail, and let any number of rounds of the event loop follow. In
  front of each of them the client sends some whole well-formed requests, each of at most 1024
  bytes and none of which makes the callback throw, in pieces that hold bytes of one request only
  and have good cuts, all of which are there when the round begins, with room for all the responses;
  and anything may arrive for other clients. In
  each round \<^verbatim>\<open>epoll_wait\<close> reports the client together with any other events, and the round takes less
  time than the time-out. Then no round ends with an exception, and afterwards the bytes sent to the
  client are exactly the serialised responses to all its requests in order, whatever the other
  clients did and whichever rounds ended with a time-out scan. If the client asks for the connection
  to be closed, in the last round, it is out of the worker's table and no longer watched; otherwise
  its handler is still there and the descriptor is watched for input.
\<close>

theorem worker_keeps_conversation:
  assumes "worker_reach cf w" and "fd \<noteq> cf_server_fd cf" and "watched (nt_epoll (hw_net w)) fd \<noteq> None"
    and "handler_of (hw_net w) fd = None" and "nt_ios (hw_net w) fd = io_init [] []"
    and "False \<notin> set (ep_script (nt_epoll (hw_net w)))" and "xs \<noteq> []"
    and "\<forall>x\<in>set xs. exchange_ok cf fd x" and "\<forall>x\<in>set (butlast xs). \<not> list_ex closes (ex_asks x)"
    and "exchanges_fit cf fd xs tp w"
  shows "\<exists>tp' w'. exchanges cf fd xs tp w = Inr (tp', w') \<and>
    io_sent (nt_ios (hw_net w') fd) =
      concat (concat (map (\<lambda>x. answers (cf_callback cf) (ex_asks x)) xs)) \<and>
    (if list_ex closes (ex_asks (last xs))
     then handler_of (hw_net w') fd = None \<and> watched (nt_epoll (hw_net w')) fd = None
     else handler_of (hw_net w') fd \<noteq> None \<and>
       watched (nt_epoll (hw_net w')) fd = Some (ev_data (EventsSet_of [IN])))"
proof -
  from exchanges_pay [OF new_client_idle [OF assms(2-5,1,6)] assms(8,10,9,7)] assms(5)
  obtain tp' w' where w': "exchanges cf fd xs tp w = Inr (tp', w')" "worker_reach cf w'"
    "sent_to fd w' = concat (concat (map (\<lambda>x. answers (cf_callback cf) (ex_asks x)) xs))"
    "if list_ex closes (ex_asks (last xs)) then client_closed fd w'
     else idle_client cf fd w' \<and> handler_of (hw_net w') fd \<noteq> None"
    by (auto simp: io_init_def)
  then show ?thesis
    using idle_watched [OF worker_reach_inv [OF w'(2)], of False fd]
    by (auto simp: client_closed_def idle_client_def only_IN_def split: if_splits)
qed

text \<open>A client that sends one request, gets its answer, and asks to close with a second one.\<close>

definition demo_exchange :: "nat \<Rightarrow> ask \<Rightarrow> exchange" where
  "demo_exchange t a =
     \<lparr>ex_asks = [a], ex_items = [RBytes (ask_text a)], ex_outs = [WRoom 200], ex_others = [],
      ex_round = ready_round t\<rparr>"

definition demo_client :: worker where
  "demo_client = after_round accept_round (demo_start [])"

text \<open>To accept it the worker needs no callback.\<close>

lemma accept_round_any:
  "round_ok (demo_config\<lparr>cf_callback := cb\<rparr>) accept_round w = round_ok demo_config accept_round w"
  "loop_round (demo_config\<lparr>cf_callback := cb\<rparr>) accept_round 0 w = loop_round demo_config accept_round 0 w"
  by (simp_all add: round_ok_def events_ok_def loop_round_def accept_round_def wait_with_timeout_def
      handleEvents_def handleEvent_def demo_config_def TIMER_TICK_def)

lemma demo_start_reach_any: "worker_reach (demo_config\<lparr>cf_callback := cb\<rparr>) (demo_start [])"
proof -
  let ?cf = "demo_config\<lparr>cf_callback := cb\<rparr>"
  let ?w = "HttpWorker_new (\<lambda>_. io_init [] []) [True] (cf_server_fd ?cf) 0"
  let ?a = "add (cf_server_fd ?cf) (EventsSet_of [IN, EXCLUSIVE]) (nt_epoll (hw_net ?w))"
  have ok: "?a = (Inr (), snd ?a)"
    by (simp add: add_def Let_def epoll_allowed_def HttpWorker_new_def)
  have "worker_reach ?cf (on_net (\<lambda>n. n\<lparr>nt_epoll := snd ?a\<rparr>) ?w)"
    by (rule worker_reach.start [OF _ refl ok]) (simp add: demo_config_def)
  moreover have "demo_start [] = on_net (\<lambda>n. n\<lparr>nt_epoll := snd ?a\<rparr>) ?w"
    by (simp add: demo_start_def on_net_def demo_config_def Let_def)
  ultimately show ?thesis by simp
qed

lemma demo_client_reach_any: "worker_reach (demo_config\<lparr>cf_callback := cb\<rparr>) demo_client"
proof -
  have "\<exists>tp' w'. loop_round demo_config accept_round 0 (demo_start []) = Inr (tp', w')"
    by (simp add: loop_round_def accept_round_def wait_with_timeout_def Let_def)
  then obtain tp' w' where l: "loop_round demo_config accept_round 0 (demo_start []) = Inr (tp', w')" by blast
  have "round_ok demo_config accept_round (demo_start [])"
    unfolding round_ok_def by (simp add: accept_round_def) code_simp
  with l worker_reach.round [OF demo_start_reach_any [of cb], of accept_round 0 tp' w']
  show ?thesis by (simp add: accept_round_any demo_client_def after_round_def)
qed

lemma demo_client_new:
  "handler_of (hw_net demo_client) 5 = None" "nt_ios (hw_net demo_client) 5 = io_init [] []"
  "ep_script (nt_epoll (hw_net demo_client)) = []" "nt_now (hw_net demo_client) = 10"
  "watched (nt_epoll (hw_net demo_client)) 5 \<noteq> None"
proof -
  have "\<not> Option.is_none (watched (nt_epoll (hw_net demo_client)) 5)" by code_simp
  then show "watched (nt_epoll (hw_net demo_client)) 5 \<noteq> None" by (auto simp: Option.is_none_def)
qed code_simp+

theorem worker_keeps_conversation_witness:
  "\<exists>tp' w'. exchanges demo_config 5 [demo_exchange 20 (demo_asks ! 0), demo_exchange 30 (demo_asks ! 1)] 0 demo_client =
      Inr (tp', w') \<and>
    io_sent (nt_ios (hw_net w') 5) = concat (answers greet demo_asks) \<and> handler_of (hw_net w') 5 = None"
proof -
  let ?xs = "[demo_exchange 20 (demo_asks ! 0), demo_exchange 30 (demo_asks ! 1)]"
  have cb: "cf_callback demo_config = greet" by (simp add: demo_config_def)
  have served: "served greet (demo_asks ! 0)" "served greet (demo_asks ! 1)"
    using demo_asks_served by (simp_all add: demo_asks_def)
  have feed: "feed True [demo_asks ! 0] 0 [RBytes (ask_text (demo_asks ! 0))]"
    "feed True [demo_asks ! 1] 0 [RBytes (ask_text (demo_asks ! 1))]" by code_simp+
  have room: "enough_room (map length (answers greet [demo_asks ! 0])) [WRoom 200]"
    "enough_room (map length (answers greet [demo_asks ! 1])) [WRoom 200]" by code_simp+
  have "reports demo_config (ready_round 20) 5" "reports demo_config (ready_round 30) 5"
    by (simp_all add: reports_def ready_round_def demo_config_def)
  with served feed room have ok: "\<forall>x\<in>set ?xs. exchange_ok demo_config 5 x"
    by (simp add: exchange_ok_def demo_exchange_def cb)
  have c: "closes (demo_asks ! 1)" "\<not> closes (demo_asks ! 0)" by code_simp+
  have srv: "5 \<noteq> cf_server_fd demo_config" by (simp add: demo_config_def)
  have reach: "worker_reach demo_config demo_client"
    using demo_client_reach_any [of greet] by (simp add: demo_config_def)
  have idle: "idle_client demo_config 5 demo_client"
    by (rule new_client_idle [OF srv demo_client_new(5,1,2) reach]) (simp add: demo_client_new(3))
  then have rounds: "exchanges_fit demo_config 5 ?xs 0 demo_client"
    by (intro in_turn_fit [OF _ ok]) (simp_all add: demo_client_new(4) demo_exchange_def ready_round_def c)
  have "\<exists>tp' w'. exchanges demo_config 5 ?xs 0 demo_client = Inr (tp', w') \<and>
      io_sent (nt_ios (hw_net w') 5) =
        concat (concat (map (\<lambda>x. answers (cf_callback demo_config) (ex_asks x)) ?xs)) \<and>
      (if list_ex closes (ex_asks (last ?xs))
       then handler_of (hw_net w') 5 = None \<and> watched (nt_epoll (hw_net w')) 5 = None
       else handler_of (hw_net w') 5 \<noteq> None \<and>
         watched (nt_epoll (hw_net w')) 5 = Some (ev_data (EventsSet_of [IN])))"
    by (rule worker_keeps_conversation [OF reach srv demo_client_new(5,1,2) _ _ ok _ rounds])
       (simp_all add: demo_client_new(3) demo_exchange_def c)
  then obtain tp' w' where w': "exchanges demo_config 5 ?xs 0 demo_client = Inr (tp', w')"
    "io_sent (nt_ios (hw_net w') 5) = concat (concat (map (\<lambda>x. answers (cf_callback demo_config) (ex_asks x)) ?xs))"
    "if list_ex closes (ex_asks (last ?xs))
     then handler_of (hw_net w') 5 = None \<and> watched (nt_epoll (hw_net w')) 5 = None
     else handler_of (hw_net w') 5 \<noteq> None \<and>
       watched (nt_epoll (hw_net w')) 5 = Some (ev_data (EventsSet_of [IN]))"
    by blast
  have "concat (map (\<lambda>x. answers (cf_callback demo_config) (ex_asks x)) ?xs) = answers greet demo_asks"
    using c by (simp add: demo_exchange_def demo_asks_def cb)
  moreover have "list_ex closes (ex_asks (last ?xs))" using c by (simp add: demo_exchange_def)
  ultimately have "io_sent (nt_ios (hw_net w') 5) = concat (answers greet demo_asks)"
    "handler_of (hw_net w') 5 = None"
    using w'(2,3) by (simp_all only: if_True)
  with w'(1) show ?thesis by blast
qed

end
