(* ===== verification/Tcp_Socket.thy ===== *)
theory Tcp_Socket
  imports Epoller
begin

text \<open>
  \<^verbatim>\<open>lib/tcp/utils.cpp\<close> and the sockets of the process as the blocking \<^verbatim>\<open>tcp\<close> classes see them: which
  descriptors are open and connected, the scripts behind them, their time-outs, and what the
  kernel knows of their addresses. How each address of a resolved list will turn out is part
  of the list.
\<close>

section \<open>Sockets\<close>

definition FD_CLOSED :: int where
  "FD_CLOSED = -1"

record tcp_os =
  to_open :: "int list"
  to_connected :: "int \<Rightarrow> bool"
  to_io :: "int \<Rightarrow> io"
  to_sndtimeo :: "int \<Rightarrow> int option"
  to_rcvtimeo :: "int \<Rightarrow> int option"
  to_local :: "int \<Rightarrow> errno + Sockinfo"
  to_remote :: "int \<Rightarrow> errno + Sockinfo"

definition fresh_fd :: "int list \<Rightarrow> int" where
  "fresh_fd fds = hd (filter (\<lambda>n. n \<notin> set fds) (map int [0..<Suc (length fds)]))"

lemma fresh_fd: "fresh_fd fds \<notin> set fds" "0 \<le> fresh_fd fds"
proof -
  have "\<not> set (map int [0..<Suc (length fds)]) \<subseteq> set fds"
  proof
    assume "set (map int [0..<Suc (length fds)]) \<subseteq> set fds"
    then have "card (set (map int [0..<Suc (length fds)])) \<le> card (set fds)"
      by (intro card_mono) simp_all
    moreover have "card (set (map int [0..<Suc (length fds)])) = Suc (length fds)"
      by (subst distinct_card) (auto simp: distinct_map)
    ultimately show False using card_length [of fds] by simp
  qed
  then have "filter (\<lambda>n. n \<notin> set fds) (map int [0..<Suc (length fds)]) \<noteq> []"
    by (auto simp: filter_empty_conv)
  from hd_in_set [OF this] show "fresh_fd fds \<notin> set fds" "0 \<le> fresh_fd fds"
    by (auto simp: fresh_fd_def)
qed

text \<open>\<^verbatim>\<open>close\<close>, \<^verbatim>\<open>shutdown(SHUT_RDWR)\<close>, \<^verbatim>\<open>read\<close> and \<^verbatim>\<open>write\<close>. A reset ends the connection.\<close>

definition os_close :: "int \<Rightarrow> tcp_os \<Rightarrow> (errno + unit) \<times> tcp_os" where
  "os_close fd s =
     (if fd \<in> set (to_open s) then (Inr (), s\<lparr>to_open := removeAll fd (to_open s)\<rparr>)
      else (Inl EBADF, s))"

definition os_shutdown :: "int \<Rightarrow> tcp_os \<Rightarrow> (errno + unit) \<times> tcp_os" where
  "os_shutdown fd s =
     (if fd \<notin> set (to_open s) then (Inl EBADF, s)
      else if \<not> to_connected s fd then (Inl ENOTCONN, s)
      else (Inr (), s))"

definition note_reset :: "int \<Rightarrow> errno \<Rightarrow> tcp_os \<Rightarrow> tcp_os" where
  "note_reset fd e s =
     (if e = ECONNRESET \<or> e = EPIPE then s\<lparr>to_connected := (to_connected s)(fd := False)\<rparr> else s)"

definition os_read :: "int \<Rightarrow> nat \<Rightarrow> tcp_os \<Rightarrow> (errno + string) \<times> tcp_os" where
  "os_read fd n s =
     (if fd \<notin> set (to_open s) then (Inl EBADF, s)
      else (case sys_read n (to_io s fd) of
              (Inl e, i) \<Rightarrow> (Inl e, note_reset fd e (s\<lparr>to_io := (to_io s)(fd := i)\<rparr>))
            | (Inr bs, i) \<Rightarrow> (Inr bs, s\<lparr>to_io := (to_io s)(fd := i)\<rparr>)))"

definition os_write :: "int \<Rightarrow> string \<Rightarrow> tcp_os \<Rightarrow> (errno + nat) \<times> tcp_os" where
  "os_write fd bs s =
     (if fd \<notin> set (to_open s) then (Inl EBADF, s)
      else (case sys_write bs (to_io s fd) of
              (Inl e, i) \<Rightarrow> (Inl e, note_reset fd e (s\<lparr>to_io := (to_io s)(fd := i)\<rparr>))
            | (Inr n, i) \<Rightarrow> (Inr n, s\<lparr>to_io := (to_io s)(fd := i)\<rparr>)))"

text \<open>The options of \<^verbatim>\<open>setsockopt\<close> at \<^verbatim>\<open>SOL_SOCKET\<close> that matter, by their Linux numbers.\<close>

definition SO_RCVTIMEO :: u32 where "SO_RCVTIMEO = 20"
definition SO_SNDTIMEO :: u32 where "SO_SNDTIMEO = 21"

definition os_setsockopt :: "int \<Rightarrow> u32 \<Rightarrow> int \<Rightarrow> tcp_os \<Rightarrow> (errno + unit) \<times> tcp_os" where
  "os_setsockopt fd opt v s =
     (if fd \<notin> set (to_open s) then (Inl EBADF, s)
      else if opt = SO_RCVTIMEO then (Inr (), s\<lparr>to_rcvtimeo := (to_rcvtimeo s)(fd := Some v)\<rparr>)
      else if opt = SO_SNDTIMEO then (Inr (), s\<lparr>to_sndtimeo := (to_sndtimeo s)(fd := Some v)\<rparr>)
      else (Inl EINVAL, s))"

lemma note_reset_simps [simp]:
  "to_open (note_reset fd e s) = to_open s" "to_io (note_reset fd e s) = to_io s"
  "to_rcvtimeo (note_reset fd e s) = to_rcvtimeo s" "to_sndtimeo (note_reset fd e s) = to_sndtimeo s"
  by (simp_all add: note_reset_def)

section \<open>Addresses\<close>

text \<open>
  A node of the list \<^verbatim>\<open>getaddrinfo\<close> returns, with how the calls made for it will end.
\<close>

record addr =
  ad_info :: Sockinfo
  ad_socket :: bool
  ad_connect :: bool
  ad_bind :: bool
  ad_listen :: bool
  ad_local :: "errno + Sockinfo"
  ad_remote :: "errno + Sockinfo"

definition os_socket :: "addr \<Rightarrow> tcp_os \<Rightarrow> int option \<times> tcp_os" where
  "os_socket a s =
     (if ad_socket a then
        let fd = fresh_fd (to_open s)
        in (Some fd, s\<lparr>to_open := fd # to_open s, to_connected := (to_connected s)(fd := False),
             to_sndtimeo := (to_sndtimeo s)(fd := None), to_rcvtimeo := (to_rcvtimeo s)(fd := None)\<rparr>)
      else (None, s))"

definition os_connect :: "int \<Rightarrow> addr \<Rightarrow> tcp_os \<Rightarrow> bool \<times> tcp_os" where
  "os_connect fd a s =
     (if ad_connect a then
        (True, s\<lparr>to_connected := (to_connected s)(fd := True), to_local := (to_local s)(fd := ad_local a),
           to_remote := (to_remote s)(fd := ad_remote a)\<rparr>)
      else (False, s))"

text \<open>
  \<open>gai\<close> is \<^verbatim>\<open>getaddrinfo\<close> for IPv4 streams: a list, or failure, with whatever \<^verbatim>\<open>errno\<close> holds then.
\<close>

type_synonym resolver = "string \<Rightarrow> string \<Rightarrow> errno + addr list"

definition resolve_ipv4_tcp :: "resolver \<Rightarrow> string \<Rightarrow> u16 \<Rightarrow> tcp_exn + addr list" where
  "resolve_ipv4_tcp gai hostname port =
     (case gai (c_str hostname) (to_dec (unat port)) of
        Inl e \<Rightarrow> Inl (Exception (strerror e))
      | Inr addrs \<Rightarrow> Inr addrs)"

definition get_local_sockaddr :: "int \<Rightarrow> tcp_os \<Rightarrow> tcp_exn + Sockinfo" where
  "get_local_sockaddr fd s =
     (case to_local s fd of
        Inl e \<Rightarrow> Inl (Exception (''unable to get local socket address of fd'' @ strerror e))
      | Inr a \<Rightarrow> Inr a)"

definition get_remote_sockaddr :: "int \<Rightarrow> tcp_os \<Rightarrow> tcp_exn + Sockinfo" where
  "get_remote_sockaddr fd s =
     (case to_remote s fd of
        Inl e \<Rightarrow> Inl (Exception (''unable to get remote socket address of fd: '' @ strerror e))
      | Inr a \<Rightarrow> Inr a)"

definition Sockinfo_default :: Sockinfo where
  "Sockinfo_default = \<lparr>si_address = 0, si_port = 0\<rparr>"

section \<open>Opening a listening socket\<close>

text \<open>
  The loop of the constructors of \<^verbatim>\<open>tcp::Server\<close>, \<^verbatim>\<open>tcp::AsyncServer\<close> and \<^verbatim>\<open>HttpServer\<close>: the first
  address that can be bound and listened to; the descriptors of the others are closed.
\<close>

fun listen_loop :: "addr list \<Rightarrow> tcp_os \<Rightarrow> (int \<times> Sockinfo) option \<times> tcp_os" where
  "listen_loop [] s = (None, s)"
| "listen_loop (a # rest) s =
     (case os_socket a s of
        (None, s) \<Rightarrow> listen_loop rest s
      | (Some fd, s) \<Rightarrow>
          if ad_bind a \<and> ad_listen a then (Some (fd, ad_info a), s)
          else listen_loop rest (snd (os_close fd s)))"

lemma os_socket_open:
  "os_socket a s = (Some fd, s') \<Longrightarrow> to_open s' = fd # to_open s \<and> fd \<notin> set (to_open s) \<and> 0 \<le> fd"
  using fresh_fd [of "to_open s"] by (auto simp: os_socket_def Let_def split: if_splits)

lemma os_socket_close:
  "os_socket a s = (Some fd, s') \<Longrightarrow> to_open (snd (os_close fd s')) = to_open s"
  using os_socket_open [of a s fd s'] by (auto simp: os_close_def)

lemma os_socket_None: "os_socket a s = (None, s') \<Longrightarrow> s' = s"
  by (auto simp: os_socket_def Let_def split: if_splits)

lemma listen_loop_fds:
  "listen_loop addrs s = (r, s') \<Longrightarrow>
     case r of
       None \<Rightarrow> to_open s' = to_open s \<and> (\<forall>a \<in> set addrs. \<not> (ad_socket a \<and> ad_bind a \<and> ad_listen a))
     | Some (fd, info) \<Rightarrow> to_open s' = fd # to_open s \<and> fd \<notin> set (to_open s) \<and> 0 \<le> fd \<and>
         (\<exists>a \<in> set addrs. info = ad_info a \<and> ad_socket a \<and> ad_bind a \<and> ad_listen a)"
proof (induction addrs arbitrary: s)
  case (Cons a rest)
  obtain q s1 where q: "os_socket a s = (q, s1)" by fastforce
  show ?case
  proof (cases q)
    case None
    with q have "\<not> ad_socket a" "s1 = s" by (auto simp: os_socket_def Let_def split: if_splits)
    with Cons None q show ?thesis by (auto split: option.splits)
  next
    case (Some fd)
    with q have a: "ad_socket a" by (auto simp: os_socket_def split: if_splits)
    note op = os_socket_open [OF q [unfolded Some]]
    show ?thesis
    proof (cases "ad_bind a \<and> ad_listen a")
      case True
      with Cons.prems q Some a op show ?thesis by auto
    next
      case False
      with Cons.prems q Some have l: "listen_loop rest (snd (os_close fd s1)) = (r, s')" by auto
      from Cons.IH [OF l] False show ?thesis
        unfolding os_socket_close [OF q [unfolded Some]] by (auto split: option.splits)
    qed
  qed
qed simp

end
