(* ===== verification/Exact_IO.thy ===== *)
theory Exact_IO
  imports Posix_IO
begin

text \<open>
  \<^verbatim>\<open>readExact\<close> and \<^verbatim>\<open>writeExact\<close>, which \<^verbatim>\<open>tcp::Connection\<close> and \<^verbatim>\<open>Process\<close> have in common: the
  two loops over a class's \<^verbatim>\<open>read\<close> and \<^verbatim>\<open>write\<close>, and the interface \<open>byte_stream\<close> that these
  have to offer for the loops to be exact.
\<close>

section \<open>The loops\<close>

text \<open>
  \<open>rd\<close> and \<open>wr\<close> are the object's own operations on its state, \<open>eof\<close> the exception thrown when
  they transfer nothing, given the total so far. The results are the outcome, the contents of
  the caller's buffer (the number of bytes written), and the state.
\<close>

lemma diff_shrinks: "xs \<noteq> [] \<Longrightarrow> k < len \<Longrightarrow> len - (k + length xs) < len - (k :: nat)"
  by (cases xs) auto

function (sequential) read_exact ::
    "(nat \<Rightarrow> 's \<Rightarrow> ('e + string) \<times> 's) \<Rightarrow> (nat \<Rightarrow> 's \<Rightarrow> 'e) \<Rightarrow> nat \<Rightarrow> string \<Rightarrow> 's \<Rightarrow> ('e + unit) \<times> string \<times> 's" where
  "read_exact rd eof len data s =
     (if length data < len then
        (case rd (len - length data) s of
           (Inl e, s) \<Rightarrow> (Inl e, data, s)
         | (Inr got, s) \<Rightarrow>
             if got = [] then (Inl (eof (length data) s), data, s)
             else read_exact rd eof len (data @ got) s)
      else (Inr (), data, s))"
  by pat_completeness auto
termination
  by (relation "measure (\<lambda>(rd, eof, len, data, s). len - length data)") (auto intro: diff_shrinks)

declare read_exact.simps [simp del]

function (sequential) write_exact ::
    "(string \<Rightarrow> 's \<Rightarrow> ('e + nat) \<times> 's) \<Rightarrow> (nat \<Rightarrow> 's \<Rightarrow> 'e) \<Rightarrow> string \<Rightarrow> nat \<Rightarrow> 's \<Rightarrow> ('e + unit) \<times> nat \<times> 's" where
  "write_exact wr eof data tot s =
     (if tot < length data then
        (case wr (drop tot data) s of
           (Inl e, s) \<Rightarrow> (Inl e, tot, s)
         | (Inr sent, s) \<Rightarrow>
             if sent = 0 then (Inl (eof tot s), tot, s)
             else write_exact wr eof data (tot + sent) s)
      else (Inr (), tot, s))"
  by pat_completeness auto
termination
  by (relation "measure (\<lambda>(wr, eof, data, tot, s). length data - tot)") auto

declare write_exact.simps [simp del]

section \<open>The interface\<close>

text \<open>
  \<open>incoming\<close> is what \<open>rd\<close> will deliver before its first failure or the end of the stream,
  \<open>sent\<close> what has gone out.
\<close>

locale byte_stream =
  fixes rd :: "nat \<Rightarrow> 's \<Rightarrow> ('e + string) \<times> 's"
    and wr :: "string \<Rightarrow> 's \<Rightarrow> ('e + nat) \<times> 's"
    and incoming :: "'s \<Rightarrow> string"
    and sent :: "'s \<Rightarrow> string"
  assumes rd_ok: "rd n s = (Inr bs, s') \<Longrightarrow> 0 < n \<Longrightarrow> incoming s = bs @ incoming s' \<and> length bs \<le> n"
    and rd_progress: "0 < n \<Longrightarrow> incoming s \<noteq> [] \<Longrightarrow> \<exists>bs s'. rd n s = (Inr bs, s') \<and> bs \<noteq> []"
    and wr_ok: "wr bs s = (Inr n, s') \<Longrightarrow> n \<le> length bs \<and> sent s' = sent s @ take n bs"
    and wr_fail: "wr bs s = (Inl e, s') \<Longrightarrow> sent s' = sent s"
begin

lemma read_exact_spec:
  assumes "read_exact rd eof len data s = (r, data', s')" and "length data \<le> len"
  shows "data' = data @ take (len - length data) (incoming s) \<and>
    (r = Inr () \<longleftrightarrow> len \<le> length data + length (incoming s)) \<and>
    (r = Inr () \<longrightarrow> incoming s = drop (length data) data' @ incoming s')"
  using assms
proof (induction "len - length data" arbitrary: data s rule: less_induct)
  case less
  show ?case
  proof (cases "length data < len")
    case False
    with less.prems show ?thesis by (subst (asm) read_exact.simps) auto
  next
    case True
    then have n: "0 < len - length data" by simp
    obtain q s1 where rd: "rd (len - length data) s = (q, s1)" by fastforce
    show ?thesis
    proof (cases "incoming s = []")
      case True
      have "q = Inr [] \<or> (\<exists>e. q = Inl e)"
        using rd_ok [of _ s _ s1, OF _ n] rd True by (cases q) auto
      then have "data' = data \<and> (\<exists>e. r = Inl e)"
        using less.prems(1) rd \<open>length data < len\<close> by (subst (asm) read_exact.simps) (auto split: if_splits)
      with True \<open>length data < len\<close> show ?thesis by auto
    next
      case False
      then obtain bs where q: "q = Inr bs" "bs \<noteq> []" using rd_progress [OF n False] rd by auto
      note ok = rd_ok [OF rd [unfolded q(1)] n]
      have step: "read_exact rd eof len (data @ bs) s1 = (r, data', s')"
        using less.prems(1) rd q True by (subst (asm) read_exact.simps) simp
      have shrinks: "len - length (data @ bs) < len - length data"
        using diff_shrinks [OF q(2) True] by simp
      have "length (data @ bs) \<le> len" using ok True by (auto simp: le_diff_conv2)
      note ih = less.hyps [OF shrinks step this]
      have inc: "incoming s = bs @ incoming s1" and le: "length bs \<le> len - length data" using ok by auto
      have tk: "take (len - length data) (incoming s) = bs @ take (len - length (data @ bs)) (incoming s1)"
        using le by (simp add: inc)
      have "data' = data @ take (len - length data) (incoming s)"
        unfolding tk by (simp add: ih [THEN conjunct1])
      moreover have "r = Inr () \<longleftrightarrow> len \<le> length data + length (incoming s)"
        using ih [THEN conjunct2, THEN conjunct1] by (simp add: inc add.assoc)
      moreover have "drop (length data) data' = bs @ drop (length (data @ bs)) data'"
        by (simp add: ih [THEN conjunct1])
      then have "r = Inr () \<longrightarrow> incoming s = drop (length data) data' @ incoming s'"
        using ih [THEN conjunct2, THEN conjunct2] by (simp add: inc)
      ultimately show ?thesis by simp
    qed
  qed
qed

lemma write_exact_spec:
  assumes "write_exact wr eof data tot s = (r, tot', s')" and "tot \<le> length data"
  shows "tot' \<le> length data \<and> take tot data @ drop (length (sent s)) (sent s') = take tot' data \<and>
    sent s = take (length (sent s)) (sent s') \<and> (r = Inr () \<longleftrightarrow> tot' = length data)"
  using assms
proof (induction "length data - tot" arbitrary: tot s rule: less_induct)
  case less
  show ?case
  proof (cases "tot < length data")
    case False
    with less.prems show ?thesis by (subst (asm) write_exact.simps) auto
  next
    case True
    obtain q s1 where wr: "wr (drop tot data) s = (q, s1)" by fastforce
    show ?thesis
    proof (cases q)
      case (Inl e)
      with less.prems(1) wr True have "tot' = tot" "r = Inl e" "s' = s1"
        by (subst (asm) write_exact.simps, simp)+
      with wr_fail [OF wr [unfolded Inl]] True show ?thesis by simp
    next
      case (Inr n)
      note ok = wr_ok [OF wr [unfolded Inr]]
      show ?thesis
      proof (cases "n = 0")
        case n0: True
        with less.prems(1) wr Inr True have "tot' = tot" "s' = s1" "\<exists>e. r = Inl e"
          by (subst (asm) write_exact.simps, auto)+
        with ok n0 True show ?thesis by auto
      next
        case False
        with less.prems(1) wr Inr True have step: "write_exact wr eof data (tot + n) s1 = (r, tot', s')"
          by (subst (asm) write_exact.simps) simp
        have le: "tot + n \<le> length data" using ok True by (auto simp: le_diff_conv2)
        have ih: "tot' \<le> length data" "take (tot + n) data @ drop (length (sent s1)) (sent s') = take tot' data"
          "sent s1 = take (length (sent s1)) (sent s')" "r = Inr () \<longleftrightarrow> tot' = length data"
          using less.hyps [OF _ step le] True False by auto
        have s1: "sent s1 = sent s @ take n (drop tot data)" using ok by simp
        obtain t where t: "sent s' = sent s1 @ t" using ih(3) by (metis append_take_drop_id)
        have "take tot data @ drop (length (sent s)) (sent s') = take (tot + n) data @ t"
          by (simp add: t s1 take_add)
        with ih t s1 show ?thesis by simp
      qed
    qed
  qed
qed

end

section \<open>Scripted descriptors\<close>

lemma sys_read_progress:
  "pending (io_in i) \<noteq> [] \<Longrightarrow> 0 < n \<Longrightarrow> \<exists>bs i'. sys_read n i = (Inr bs, i') \<and> bs \<noteq> []"
  by (cases "io_in i" rule: pending.cases) (auto simp: sys_read_def split: if_splits)

lemma sys_read_end: "sys_read n i = (Inr [], i') \<Longrightarrow> 0 < n \<Longrightarrow> pending (io_in i) = []"
  by (auto simp: sys_read_def split: list.splits rd_item.splits if_splits)

end
