(* ===== verification/Tcp_Connection.thy ===== *)
theory Tcp_Connection
  imports Tcp_Socket Exact_IO
begin

text \<open>
  \<^verbatim>\<open>include/tcp/connection.hpp\<close>, \<^verbatim>\<open>lib/tcp/connection.cpp\<close>, \<^verbatim>\<open>include/tcp/server.hpp\<close> and
  \<^verbatim>\<open>lib/tcp/server.cpp\<close>: blocking connections and listening sockets. The connection is a
  \<open>byte_stream\<close>, so that its exact operations are exact.
\<close>

section \<open>Connections\<close>

record Connection =
  con_fd :: int
  con_local :: Sockinfo
  con_remote :: Sockinfo

type_synonym con_state = "Connection \<times> tcp_os"

definition isOpened :: "Connection \<Rightarrow> bool" where
  "isOpened c \<longleftrightarrow> con_fd c \<noteq> FD_CLOSED"

definition con_error :: "string \<Rightarrow> Connection \<Rightarrow> tcp_exn" where
  "con_error m c = SocketException m (con_local c) (con_remote c)"

text \<open>The private constructor from an accepted descriptor.\<close>

definition Connection_of_fd :: "int \<Rightarrow> tcp_os \<Rightarrow> tcp_exn + Connection" where
  "Connection_of_fd fd s =
     (case get_local_sockaddr fd s of
        Inl e \<Rightarrow> Inl e
      | Inr l \<Rightarrow>
          (case get_remote_sockaddr fd s of
             Inl e \<Rightarrow> Inl e
           | Inr r \<Rightarrow> Inr \<lparr>con_fd = fd, con_local = l, con_remote = r\<rparr>))"

definition Connection_close :: "con_state \<Rightarrow> (tcp_exn + unit) \<times> con_state" where
  "Connection_close x =
     (case x of (c, s) \<Rightarrow>
        if con_fd c = FD_CLOSED then (Inr (), c, s)
        else (case os_shutdown (con_fd c) s of
                (Inl e, s) \<Rightarrow> (Inl (con_error (''unable to shutdown socket: '' @ strerror e) c), c, s)
              | (Inr _, s) \<Rightarrow>
                  (case os_close (con_fd c) s of
                     (Inl e, s) \<Rightarrow> (Inl (con_error (''unable to close socket: '' @ strerror e) c), c, s)
                   | (Inr _, s) \<Rightarrow> (Inr (), c\<lparr>con_fd := FD_CLOSED\<rparr>, s))))"

definition Connection_dtor :: "con_state \<Rightarrow> tcp_os" where
  "Connection_dtor x = snd (snd (Connection_close x))"

text \<open>The option passed is the bitwise or of the two time-out options.\<close>

definition setTimeout_fd :: "Connection \<Rightarrow> int \<Rightarrow> int \<Rightarrow> tcp_os \<Rightarrow> (tcp_exn + unit) \<times> tcp_os" where
  "setTimeout_fd c fd timeout_sec s =
     (case os_setsockopt fd (or SO_SNDTIMEO SO_RCVTIMEO) timeout_sec s of
        (Inl e, s) \<Rightarrow> (Inl (con_error (''unable to set timeout on socket fd: '' @ strerror e) c), s)
      | (Inr _, s) \<Rightarrow> (Inr (), s))"

definition Connection_setTimeout :: "int \<Rightarrow> con_state \<Rightarrow> (tcp_exn + unit) \<times> con_state" where
  "Connection_setTimeout timeout_sec x =
     (case x of (c, s) \<Rightarrow>
        if \<not> isOpened c then (Inl (con_error ''unable to set timeout on closed socket'' c), c, s)
        else (case setTimeout_fd c (con_fd c) timeout_sec s of (r, s) \<Rightarrow> (r, c, s)))"

text \<open>
  The public constructor. An exception behind a successful \<^verbatim>\<open>connect\<close> leaves the descriptor open:
  the object is not constructed, its destructor does not run.
\<close>

fun connect_loop :: "string \<Rightarrow> u16 \<Rightarrow> int \<Rightarrow> addr list \<Rightarrow> tcp_os \<Rightarrow> (tcp_exn + Connection) \<times> tcp_os" where
  "connect_loop hostname port timeout_sec [] s =
     (Inl (SocketOpeningException ''unable to connect to endpoint'' hostname port), s)"
| "connect_loop hostname port timeout_sec (a # rest) s =
     (case os_socket a s of
        (None, s) \<Rightarrow> connect_loop hostname port timeout_sec rest s
      | (Some fd, s) \<Rightarrow>
          (case os_connect fd a s of
             (True, s) \<Rightarrow>
               (case Connection_of_fd fd s of
                  Inl e \<Rightarrow> (Inl e, s)
                | Inr c \<Rightarrow>
                    (case setTimeout_fd c fd timeout_sec s of
                       (Inl e, s) \<Rightarrow> (Inl e, s)
                     | (Inr _, s) \<Rightarrow> (Inr c, s)))
           | (False, s) \<Rightarrow> connect_loop hostname port timeout_sec rest (snd (os_close fd s))))"

definition Connection_new ::
    "resolver \<Rightarrow> string \<Rightarrow> u16 \<Rightarrow> int \<Rightarrow> tcp_os \<Rightarrow> (tcp_exn + Connection) \<times> tcp_os" where
  "Connection_new gai hostname port timeout_sec s =
     (case resolve_ipv4_tcp gai hostname port of
        Inl e \<Rightarrow> (Inl e, s)
      | Inr addrs \<Rightarrow> connect_loop hostname port timeout_sec addrs s)"

definition Connection_read :: "nat \<Rightarrow> con_state \<Rightarrow> (tcp_exn + string) \<times> con_state" where
  "Connection_read len x =
     (case x of (c, s) \<Rightarrow>
        if \<not> isOpened c then (Inl (con_error ''attempt to read from closed socket'' c), c, s)
        else (case os_read (con_fd c) len s of
                (Inl e, s) \<Rightarrow>
                  (Inl (con_error (''unable to perform Connection::read '' @ strerror e) c), c, s)
              | (Inr got, s) \<Rightarrow>
                  if got = [] then
                    (case Connection_close (c, s) of
                       (Inl e, x) \<Rightarrow> (Inl e, x)
                     | (Inr _, x) \<Rightarrow> (Inr [], x))
                  else (Inr got, c, s)))"

definition Connection_write :: "string \<Rightarrow> con_state \<Rightarrow> (tcp_exn + nat) \<times> con_state" where
  "Connection_write data x =
     (case x of (c, s) \<Rightarrow>
        if \<not> isOpened c then (Inl (con_error ''attempt to write to closed socket'' c), c, s)
        else (case os_write (con_fd c) data s of
                (Inl e, s) \<Rightarrow>
                  (Inl (con_error (''fail to perform write() syscall in Connection::write '' @ strerror e) c), c, s)
              | (Inr sent, s) \<Rightarrow> (Inr sent, c, s)))"

definition Connection_readExact :: "nat \<Rightarrow> con_state \<Rightarrow> (tcp_exn + unit) \<times> string \<times> con_state" where
  "Connection_readExact len x =
     read_exact Connection_read
       (\<lambda>n x. con_error (''EOF encountered in readExact method, read '' @ to_dec n @ '' bytes'') (fst x)) len [] x"

definition Connection_writeExact :: "string \<Rightarrow> con_state \<Rightarrow> (tcp_exn + unit) \<times> nat \<times> con_state" where
  "Connection_writeExact data x =
     write_exact Connection_write
       (\<lambda>n x. con_error (''EOF encountered in writeExact method, wrote '' @ to_dec n @ '' bytes'') (fst x)) data 0 x"

text \<open>Moving, swapping, assigning. A temporary is destroyed at the end of its function.\<close>

definition closed_connection :: Connection where
  "closed_connection = \<lparr>con_fd = FD_CLOSED, con_local = Sockinfo_default, con_remote = Sockinfo_default\<rparr>"

definition Connection_move :: "Connection \<Rightarrow> Connection \<times> Connection" where
  "Connection_move other = (other, closed_connection)"

definition Connection_swap :: "Connection \<Rightarrow> Connection \<Rightarrow> Connection \<times> Connection" where
  "Connection_swap this other = (other, this)"

definition Connection_assign :: "Connection \<Rightarrow> Connection \<Rightarrow> tcp_os \<Rightarrow> Connection \<times> Connection \<times> tcp_os" where
  "Connection_assign this other s =
     (case Connection_move other of
        (tmp, other) \<Rightarrow>
          (case Connection_swap tmp this of (tmp, this) \<Rightarrow> (this, other, Connection_dtor (tmp, s))))"

definition Connection_connect ::
    "resolver \<Rightarrow> string \<Rightarrow> u16 \<Rightarrow> int \<Rightarrow> con_state \<Rightarrow> (tcp_exn + unit) \<times> con_state" where
  "Connection_connect gai hostname port timeout_sec x =
     (case x of (this, s) \<Rightarrow>
        case Connection_new gai hostname port timeout_sec s of
          (Inl e, s) \<Rightarrow> (Inl e, this, s)
        | (Inr tmp, s) \<Rightarrow>
            (case Connection_swap this tmp of (this, tmp) \<Rightarrow> (Inr (), this, Connection_dtor (tmp, s))))"

section \<open>Listening sockets\<close>

record Server =
  srv_fd :: int
  srv_socket :: Sockinfo

definition Server_isOpened :: "Server \<Rightarrow> bool" where
  "Server_isOpened v \<longleftrightarrow> srv_fd v \<noteq> FD_CLOSED"

definition Server_new :: "resolver \<Rightarrow> string \<Rightarrow> u16 \<Rightarrow> tcp_os \<Rightarrow> (tcp_exn + Server) \<times> tcp_os" where
  "Server_new gai hostname port s =
     (case resolve_ipv4_tcp gai hostname port of
        Inl e \<Rightarrow> (Inl e, s)
      | Inr addrs \<Rightarrow>
          (case listen_loop addrs s of
             (None, s) \<Rightarrow> (Inl (SocketOpeningException ''unable to bind'' hostname port), s)
           | (Some (fd, info), s) \<Rightarrow> (Inr \<lparr>srv_fd = fd, srv_socket = info\<rparr>, s)))"

definition Server_close :: "Server \<times> tcp_os \<Rightarrow> (tcp_exn + unit) \<times> Server \<times> tcp_os" where
  "Server_close x =
     (case x of (v, s) \<Rightarrow>
        if \<not> Server_isOpened v then (Inr (), v, s)
        else (case os_close (srv_fd v) s of
                (Inl e, s) \<Rightarrow>
                  (Inl (ServerSocketException (''unable to close server: '' @ strerror e) (srv_socket v)), v, s)
              | (Inr _, s) \<Rightarrow> (Inr (), v\<lparr>srv_fd := FD_CLOSED\<rparr>, s)))"

definition Server_dtor :: "Server \<times> tcp_os \<Rightarrow> tcp_os" where
  "Server_dtor x = snd (snd (Server_close x))"

text \<open>
  \<open>incoming_con\<close> is what \<^verbatim>\<open>accept\<close> on the listening descriptor will return: an error or a peer.
\<close>

definition os_accept :: "errno + addr \<Rightarrow> tcp_os \<Rightarrow> (errno + int) \<times> tcp_os" where
  "os_accept incoming_con s =
     (case incoming_con of
        Inl e \<Rightarrow> (Inl e, s)
      | Inr a \<Rightarrow>
          let fd = fresh_fd (to_open s)
          in (Inr fd, s\<lparr>to_open := fd # to_open s, to_connected := (to_connected s)(fd := True),
               to_local := (to_local s)(fd := ad_local a), to_remote := (to_remote s)(fd := ad_remote a)\<rparr>))"

definition Server_accept :: "errno + addr \<Rightarrow> Server \<Rightarrow> tcp_os \<Rightarrow> (tcp_exn + Connection) \<times> tcp_os" where
  "Server_accept incoming_con v s =
     (if \<not> Server_isOpened v then
        (Inl (ServerSocketException ''attempt to listen on closed socket'' (srv_socket v)), s)
      else (case os_accept incoming_con s of
              (Inl e, s) \<Rightarrow>
                (Inl (ServerSocketException (''unable to accept connection: '' @ strerror e) (srv_socket v)), s)
            | (Inr fd, s) \<Rightarrow> (Connection_of_fd fd s, s)))"

text \<open>
  \<open>listened\<close> is the outcome of \<^verbatim>\<open>listen\<close>; the message is built with \<open>strerror_int\<close>, the text of
  the errno number that \<open>connmax\<close> happens to be.
\<close>

definition Server_setMaxConnect :: "(int \<Rightarrow> string) \<Rightarrow> errno + unit \<Rightarrow> int \<Rightarrow> Server \<Rightarrow> tcp_exn + unit" where
  "Server_setMaxConnect strerror_int listened connmax v =
     (case listened of
        Inl e \<Rightarrow>
          Inl (ServerSocketException
            (''unable to change max connections to '' @ strerror_int connmax @ '' '' @ strerror e) (srv_socket v))
      | Inr _ \<Rightarrow> Inr ())"

definition Server_move :: "Server \<Rightarrow> Server \<times> Server" where
  "Server_move other = (other, \<lparr>srv_fd = FD_CLOSED, srv_socket = Sockinfo_default\<rparr>)"

definition Server_swap :: "Server \<Rightarrow> Server \<Rightarrow> Server \<times> Server" where
  "Server_swap this other = (other, this)"

definition Server_assign :: "Server \<Rightarrow> Server \<Rightarrow> tcp_os \<Rightarrow> Server \<times> Server \<times> tcp_os" where
  "Server_assign this other s =
     (case Server_move other of
        (tmp, other) \<Rightarrow> (case Server_swap tmp this of (tmp, this) \<Rightarrow> (this, other, Server_dtor (tmp, s))))"

definition Server_open :: "resolver \<Rightarrow> string \<Rightarrow> u16 \<Rightarrow> Server \<times> tcp_os \<Rightarrow> (tcp_exn + unit) \<times> Server \<times> tcp_os" where
  "Server_open gai hostname port x =
     (case x of (this, s) \<Rightarrow>
        case Server_new gai hostname port s of
          (Inl e, s) \<Rightarrow> (Inl e, this, s)
        | (Inr server, s) \<Rightarrow>
            (case Server_swap this server of (this, server) \<Rightarrow> (Inr (), this, Server_dtor (server, s))))"

end
