(* ===== verification/Async_Connection.thy ===== *)
theory Async_Connection
  imports Tcp_Connection
begin

text \<open>
  \<^verbatim>\<open>include/tcp/async_connection.hpp\<close> and \<^verbatim>\<open>lib/tcp/async_connection.cpp\<close>: a non-blocking
  connection with its interest set. Several owners share one object, so that it carries an
  identity besides its descriptor, which is reused.
\<close>

section \<open>Results\<close>

text \<open>The size transferred, 0 for "not now", \<open>None\<close> for the end of the stream.\<close>

type_synonym NonBlockResult = "nat option"

definition isEOF :: "NonBlockResult \<Rightarrow> bool" where
  "isEOF r \<longleftrightarrow> r = None"

text \<open>
  \<^verbatim>\<open>bytes()\<close> and \<^verbatim>\<open>again()\<close> throw \<^verbatim>\<open>bad_optional_access\<close> at the end of the stream; \<open>None\<close> here.
\<close>

definition bytes :: "NonBlockResult \<Rightarrow> nat option" where
  "bytes r = r"

definition again :: "NonBlockResult \<Rightarrow> bool option" where
  "again r = map_option (\<lambda>n. n = 0) r"

section \<open>Connections\<close>

record AsyncConnection =
  ac_id :: nat
  ac_fd :: int
  ac_local :: Sockinfo
  ac_remote :: Sockinfo
  ac_interest :: EventsSet

type_synonym ac_state = "AsyncConnection \<times> tcp_os"

definition ac_isOpened :: "AsyncConnection \<Rightarrow> bool" where
  "ac_isOpened c \<longleftrightarrow> ac_fd c \<noteq> FD_CLOSED"

definition ac_error :: "string \<Rightarrow> AsyncConnection \<Rightarrow> tcp_exn" where
  "ac_error m c = SocketException m (ac_local c) (ac_remote c)"

definition AsyncConnection_new :: "nat \<Rightarrow> int \<Rightarrow> tcp_os \<Rightarrow> tcp_exn + AsyncConnection" where
  "AsyncConnection_new n fd s =
     (case get_local_sockaddr fd s of
        Inl e \<Rightarrow> Inl e
      | Inr l \<Rightarrow>
          (case get_remote_sockaddr fd s of
             Inl e \<Rightarrow> Inl e
           | Inr r \<Rightarrow>
               Inr \<lparr>ac_id = n, ac_fd = fd, ac_local = l, ac_remote = r, ac_interest = EventsSet_of_mask 0\<rparr>))"

text \<open>Unlike \<^verbatim>\<open>tcp::Connection::close\<close> it does not ask whether the connection is open.\<close>

definition ac_close :: "ac_state \<Rightarrow> (tcp_exn + unit) \<times> ac_state" where
  "ac_close x =
     (case x of (c, s) \<Rightarrow>
        case os_shutdown (ac_fd c) s of
          (Inl e, s) \<Rightarrow> (Inl (ac_error (''unable to shutdown socket: '' @ strerror e) c), c, s)
        | (Inr _, s) \<Rightarrow>
            (case os_close (ac_fd c) s of
               (Inl e, s) \<Rightarrow> (Inl (ac_error (''unable to close socket: '' @ strerror e) c), c, s)
             | (Inr _, s) \<Rightarrow> (Inr (), c\<lparr>ac_fd := FD_CLOSED\<rparr>, s)))"

definition ac_dtor :: "ac_state \<Rightarrow> tcp_os" where
  "ac_dtor x = snd (snd (ac_close x))"

text \<open>The bytes read come with the result.\<close>

definition ac_read :: "nat \<Rightarrow> ac_state \<Rightarrow> (tcp_exn + NonBlockResult \<times> string) \<times> ac_state" where
  "ac_read len x =
     (case x of (c, s) \<Rightarrow>
        if \<not> ac_isOpened c then (Inl (ac_error ''attempt to read from closed socket'' c), c, s)
        else (case os_read (ac_fd c) len s of
                (Inl e, s) \<Rightarrow>
                  if e = EAGAIN then (Inr (Some 0, []), c, s)
                  else (Inl (ac_error (''unable to perform AsyncConnection::read '' @ strerror e) c), c, s)
              | (Inr got, s) \<Rightarrow>
                  if got = [] then
                    (case ac_close (c, s) of
                       (Inl e, x) \<Rightarrow> (Inl e, x)
                     | (Inr _, x) \<Rightarrow> (Inr (None, []), x))
                  else (Inr (Some (length got), got), c, s)))"

definition ac_write :: "string \<Rightarrow> ac_state \<Rightarrow> (tcp_exn + NonBlockResult) \<times> ac_state" where
  "ac_write data x =
     (case x of (c, s) \<Rightarrow>
        if \<not> ac_isOpened c then (Inl (ac_error ''attempt to write to closed socket'' c), c, s)
        else (case os_write (ac_fd c) data s of
                (Inl e, s) \<Rightarrow>
                  if e = EAGAIN then (Inr (Some 0), c, s)
                  else (Inl (ac_error (''fail to perform write() syscall in AsyncConnection::write '' @ strerror e) c), c, s)
              | (Inr sent, s) \<Rightarrow> (Inr (Some sent), c, s)))"

definition triggersOn :: "AsyncConnection \<Rightarrow> EventsSet \<Rightarrow> bool" where
  "triggersOn c events \<longleftrightarrow> haveIntersection (ac_interest c) events"

definition setInterestsSet :: "EventsSet \<Rightarrow> AsyncConnection \<Rightarrow> AsyncConnection" where
  "setInterestsSet new_set c = c\<lparr>ac_interest := new_set\<rparr>"

definition getInterestSet :: "AsyncConnection \<Rightarrow> EventsSet" where
  "getInterestSet c = ac_interest c"

definition ac_move :: "AsyncConnection \<Rightarrow> AsyncConnection \<times> AsyncConnection" where
  "ac_move other =
     (other, other\<lparr>ac_fd := FD_CLOSED, ac_local := Sockinfo_default, ac_remote := Sockinfo_default,
        ac_interest := EventsSet_of []\<rparr>)"

text \<open>An assignment through a temporary; the identities stay where they are.\<close>

definition ac_swap :: "AsyncConnection \<Rightarrow> AsyncConnection \<Rightarrow> AsyncConnection \<times> AsyncConnection" where
  "ac_swap this other = (other\<lparr>ac_id := ac_id this\<rparr>, this\<lparr>ac_id := ac_id other\<rparr>)"

definition ac_assign :: "AsyncConnection \<Rightarrow> AsyncConnection \<Rightarrow> tcp_os \<Rightarrow> AsyncConnection \<times> AsyncConnection \<times> tcp_os" where
  "ac_assign this other s =
     (case ac_move other of
        (tmp, other) \<Rightarrow> (case ac_swap tmp this of (tmp, this) \<Rightarrow> (this, other, ac_dtor (tmp, s))))"

section \<open>Frames\<close>

text \<open>
  What an operation on a connection may do to the process: it works on its own descriptor only,
  which it either keeps or closes, marking the connection.
\<close>

definition ac_frame :: "ac_state \<Rightarrow> ac_state \<Rightarrow> bool" where
  "ac_frame x y \<longleftrightarrow>
     (case (x, y) of ((c, s), (c', s')) \<Rightarrow>
        ac_id c' = ac_id c \<and>
        (ac_fd c' = ac_fd c \<and> to_open s' = to_open s \<or>
         ac_fd c' = FD_CLOSED \<and> to_open s' = removeAll (ac_fd c) (to_open s)))"

lemma ac_frame_refl [simp]: "ac_frame (c, s) (c, s)"
  by (simp add: ac_frame_def)

lemma ac_frame_interest [simp]: "ac_frame x (c\<lparr>ac_interest := i\<rparr>, s) = ac_frame x (c, s)"
  by (cases x) (simp add: ac_frame_def)

definition fds_valid :: "tcp_os \<Rightarrow> bool" where
  "fds_valid s \<longleftrightarrow> FD_CLOSED \<notin> set (to_open s)"

lemma ac_frame_valid: "ac_frame x y \<Longrightarrow> fds_valid (snd x) \<Longrightarrow> fds_valid (snd y)"
  by (auto simp: ac_frame_def fds_valid_def split: prod.splits)

lemma ac_frame_trans:
  assumes "ac_frame x y" and "ac_frame y z" and "fds_valid (snd x)"
  shows "ac_frame x z"
  using assms by (auto simp: ac_frame_def fds_valid_def removeAll_id split: prod.splits)

lemma ac_close_frame: "ac_close x = (r, y) \<Longrightarrow> ac_frame x y"
  by (auto simp: ac_close_def ac_frame_def os_shutdown_def os_close_def split: prod.splits if_splits)

lemma os_read_open: "os_read fd n s = (r, s') \<Longrightarrow> to_open s' = to_open s"
  by (auto simp: os_read_def split: if_splits prod.splits sum.splits)

lemma os_write_open: "os_write fd bs s = (r, s') \<Longrightarrow> to_open s' = to_open s"
  by (auto simp: os_write_def split: if_splits prod.splits sum.splits)

lemma ac_read_frame:
  assumes "ac_read len x = (r, y)"
  shows "ac_frame x y"
proof -
  obtain c s where x: "x = (c, s)" by fastforce
  obtain q s1 where q: "os_read (ac_fd c) len s = (q, s1)" by fastforce
  note op = os_read_open [OF q]
  have base: "ac_frame (c, s) (c, s1)" using op by (simp add: ac_frame_def)
  obtain k z where k: "ac_close (c, s1) = (k, z)" by (metis surj_pair)
  have "ac_frame (c, s1) z" by (rule ac_close_frame [OF k])
  then have close: "ac_frame (c, s) z" using op by (auto simp: ac_frame_def split: prod.splits)
  show ?thesis
    using assms base close q k unfolding x ac_read_def
    by (auto split: if_splits sum.splits prod.splits)
qed

lemma ac_write_frame: "ac_write data x = (r, y) \<Longrightarrow> ac_frame x y"
  using os_write_open [of "ac_fd (fst x)" data "snd x"]
  by (auto simp: ac_write_def ac_frame_def split: if_splits sum.splits prod.splits)

text \<open>What a read that does not throw has done: bytes, nothing yet, or the end of the stream.\<close>

lemma ac_read_result:
  assumes "ac_read len (c, s) = (Inr (r, got), c', s')"
  obtains (data) i where "r = Some (length got)" "got \<noteq> []" "c' = c"
      "sys_read len (to_io s (ac_fd c)) = (Inr got, i)" "s' = s\<lparr>to_io := (to_io s)(ac_fd c := i)\<rparr>"
    | (again) i where "r = Some 0" "got = []" "c' = c"
      "sys_read len (to_io s (ac_fd c)) = (Inl EAGAIN, i)" "s' = s\<lparr>to_io := (to_io s)(ac_fd c := i)\<rparr>"
    | (eof) i where "r = None" "got = []" "c' = c\<lparr>ac_fd := FD_CLOSED\<rparr>"
      "sys_read len (to_io s (ac_fd c)) = (Inr [], i)"
      "s' = s\<lparr>to_io := (to_io s)(ac_fd c := i), to_open := removeAll (ac_fd c) (to_open s)\<rparr>"
proof -
  have op: "ac_isOpened c" "ac_fd c \<in> set (to_open s)"
    using assms by (auto simp: ac_read_def os_read_def split: if_splits)
  obtain q i where q: "sys_read len (to_io s (ac_fd c)) = (q, i)" by fastforce
  show thesis
  proof (cases q)
    case (Inl e)
    with assms op q have "e = EAGAIN" "r = Some 0" "got = []" "c' = c"
      "s' = note_reset (ac_fd c) e (s\<lparr>to_io := (to_io s)(ac_fd c := i)\<rparr>)"
      by (auto simp: ac_read_def os_read_def split: if_splits)
    with again Inl q show thesis by (simp add: note_reset_def)
  next
    case (Inr bs)
    show thesis
    proof (cases "bs = []")
      case False
      show thesis
        by (rule data [of i]) (use assms op q Inr False in \<open>auto simp: ac_read_def os_read_def\<close>)
    next
      case True
      with eof assms op q Inr show thesis
        by (simp add: ac_read_def os_read_def ac_close_def os_shutdown_def os_close_def split: if_splits)
    qed
  qed
qed

text \<open>Likewise for a write.\<close>

lemma ac_write_result:
  assumes "ac_write data (c, s) = (Inr r, c', s')"
  obtains (sent) n i where "r = Some n" "c' = c"
      "sys_write data (to_io s (ac_fd c)) = (Inr n, i)" "s' = s\<lparr>to_io := (to_io s)(ac_fd c := i)\<rparr>"
    | (again) i where "r = Some 0" "c' = c"
      "sys_write data (to_io s (ac_fd c)) = (Inl EAGAIN, i)" "s' = s\<lparr>to_io := (to_io s)(ac_fd c := i)\<rparr>"
proof -
  have op: "ac_isOpened c" "ac_fd c \<in> set (to_open s)"
    using assms by (auto simp: ac_write_def os_write_def split: if_splits)
  obtain q i where q: "sys_write data (to_io s (ac_fd c)) = (q, i)" by fastforce
  show thesis
  proof (cases q)
    case (Inl e)
    with assms op q have "e = EAGAIN" "r = Some 0" "c' = c"
      "s' = note_reset (ac_fd c) e (s\<lparr>to_io := (to_io s)(ac_fd c := i)\<rparr>)"
      by (auto simp: ac_write_def os_write_def split: if_splits)
    with again Inl q show thesis by (simp add: note_reset_def)
  next
    case (Inr n)
    show thesis
      by (rule sent [of n i]) (use assms op q Inr in \<open>auto simp: ac_write_def os_write_def\<close>)
  qed
qed

lemma ac_read_progress:
  assumes "ac_read len (c, s) = (Inr (r, got), c', s')" and "\<not> isEOF r" and "again r \<noteq> Some True"
  shows "in_weight (to_io s' (ac_fd c')) < in_weight (to_io s (ac_fd c))"
  using assms(1)
proof (cases rule: ac_read_result)
  case (data i)
  with sys_read_length [of len "to_io s (ac_fd c)" got i] have "0 < len" by (cases got) auto
  with data show ?thesis by (simp add: sys_read_weight)
qed (use assms in \<open>simp_all add: isEOF_def again_def\<close>)

lemma ac_write_progress:
  assumes "ac_write data (c, s) = (Inr r, c', s')" and "again r = Some False"
  shows "length (io_out (to_io s' (ac_fd c'))) < length (io_out (to_io s (ac_fd c)))"
  using assms(1) by (cases rule: ac_write_result) (use assms(2) in \<open>auto simp: again_def dest: sys_write_shrinks\<close>)

end
