(* ===== verification/Async_Server.thy ===== *)
theory Async_Server
  imports Async_Connection
begin

text \<open>
  \<^verbatim>\<open>include/tcp/async_server.hpp\<close> and \<^verbatim>\<open>lib/tcp/async_server.cpp\<close>: an epoll loop over a listening
  socket and its connections, with the callback \<open>handler\<close> as an argument. A callback works on
  its own state, on the connection (which is shared with the server's table), and on the
  process.
\<close>

section \<open>State\<close>

type_synonym 'h handler =
  "AsyncConnection \<Rightarrow> EventsSet \<Rightarrow> 'h \<times> tcp_os \<Rightarrow> (tcp_exn + unit) \<times> AsyncConnection \<times> 'h \<times> tcp_os"

record 'h AsyncServer =
  as_fd :: int
  as_socket :: Sockinfo
  as_poller :: epoll
  as_connections :: "(int \<times> AsyncConnection) list"
  as_default_interests_set :: EventsSet
  as_timeout :: int
  as_handler_state :: 'h
  as_next_id :: nat
  as_os :: tcp_os

definition as_isOpened :: "'h AsyncServer \<Rightarrow> bool" where
  "as_isOpened v \<longleftrightarrow> as_fd v \<noteq> FD_CLOSED"

definition as_connection :: "'h AsyncServer \<Rightarrow> int \<rightharpoonup> AsyncConnection" where
  "as_connection v = map_of (as_connections v)"

text \<open>Closing a descriptor takes it out of the kernel's interest list.\<close>

definition set_os :: "tcp_os \<Rightarrow> 'h AsyncServer \<Rightarrow> 'h AsyncServer" where
  "set_os s v =
     v\<lparr>as_os := s, as_poller := (as_poller v)\<lparr>ep_interest :=
        filter (\<lambda>(fd, _). fd \<in> set (to_open s)) (ep_interest (as_poller v))\<rparr>\<rparr>"

definition set_poller :: "epoll \<Rightarrow> 'h AsyncServer \<Rightarrow> 'h AsyncServer" where
  "set_poller k v = v\<lparr>as_poller := k\<rparr>"

definition put_connection :: "int \<Rightarrow> AsyncConnection \<Rightarrow> 'h AsyncServer \<Rightarrow> 'h AsyncServer" where
  "put_connection fd c v = v\<lparr>as_connections := AList.update fd c (as_connections v)\<rparr>"

definition drop_connection :: "int \<Rightarrow> 'h AsyncServer \<Rightarrow> 'h AsyncServer" where
  "drop_connection fd v = v\<lparr>as_connections := AList.delete fd (as_connections v)\<rparr>"

section \<open>Construction\<close>

text \<open>\<open>ctl\<close> is the script of the new poller, \<open>None\<close> if it cannot be created.\<close>

definition AsyncServer_new ::
    "resolver \<Rightarrow> string \<Rightarrow> u16 \<Rightarrow> 'h \<Rightarrow> EventsSet \<Rightarrow> int \<Rightarrow> bool list option \<Rightarrow> tcp_os \<Rightarrow>
     (tcp_exn + 'h AsyncServer) \<times> tcp_os" where
  "AsyncServer_new gai hostname port h interests_set timeout ctl s =
     (case Epoller_new (ctl \<noteq> None) of
        Inl e \<Rightarrow> (Inl e, s)
      | Inr poller \<Rightarrow>
          (case resolve_ipv4_tcp gai hostname port of
             Inl e \<Rightarrow> (Inl e, s)
           | Inr addrs \<Rightarrow>
               (case listen_loop addrs s of
                  (None, s) \<Rightarrow> (Inl (SocketOpeningException ''unable to bind'' hostname port), s)
                | (Some (fd, info), s) \<Rightarrow>
                    (Inr \<lparr>as_fd = fd, as_socket = info, as_poller = poller\<lparr>ep_script := the ctl\<rparr>,
                       as_connections = [], as_default_interests_set = interests_set, as_timeout = timeout,
                       as_handler_state = h, as_next_id = 0, as_os = s\<rparr>, s))))"

lemma AsyncServer_new_Some:
  "AsyncServer_new gai hostname port h interests_set timeout (Some ctl) s =
     (case resolve_ipv4_tcp gai hostname port of
        Inl e \<Rightarrow> (Inl e, s)
      | Inr addrs \<Rightarrow>
          (case listen_loop addrs s of
             (None, s) \<Rightarrow> (Inl (SocketOpeningException ''unable to bind'' hostname port), s)
           | (Some (fd, info), s) \<Rightarrow>
               (Inr \<lparr>as_fd = fd, as_socket = info, as_poller = \<lparr>ep_interest = [], ep_script = ctl\<rparr>,
                  as_connections = [], as_default_interests_set = interests_set, as_timeout = timeout,
                  as_handler_state = h, as_next_id = 0, as_os = s\<rparr>, s)))"
  by (auto simp: AsyncServer_new_def Epoller_new_def split: sum.splits prod.splits option.splits)

lemma AsyncServer_new_None:
  "AsyncServer_new gai hostname port h interests_set timeout None s =
     (Inl (Exception ''unable to create epoll''), s)"
  by (simp add: AsyncServer_new_def Epoller_new_def)

definition as_close :: "'h AsyncServer \<Rightarrow> (tcp_exn + unit) \<times> 'h AsyncServer" where
  "as_close v =
     (if \<not> as_isOpened v then (Inr (), v)
      else (case os_close (as_fd v) (as_os v) of
              (Inl e, s) \<Rightarrow>
                (Inl (ServerSocketException (''unable to close server: '' @ strerror e) (as_socket v)), set_os s v)
            | (Inr _, s) \<Rightarrow> (Inr (), set_os s v\<lparr>as_fd := FD_CLOSED\<rparr>)))"

definition as_setMaxConnect :: "(int \<Rightarrow> string) \<Rightarrow> errno + unit \<Rightarrow> int \<Rightarrow> 'h AsyncServer \<Rightarrow> tcp_exn + unit" where
  "as_setMaxConnect strerror_int listened connmax v =
     (case listened of
        Inl e \<Rightarrow>
          Inl (ServerSocketException
            (''unable to change max connections to '' @ strerror_int connmax @ '' '' @ strerror e) (as_socket v))
      | Inr _ \<Rightarrow> Inr ())"

text \<open>
  \<^verbatim>\<open>swap\<close> exchanges descriptor, address, time-out and poller of two servers of one process, and
  leaves the tables, the handlers and the default interests where they are.
\<close>

definition as_swap :: "'h AsyncServer \<Rightarrow> 'h AsyncServer \<Rightarrow> 'h AsyncServer \<times> 'h AsyncServer" where
  "as_swap this other =
     (this\<lparr>as_fd := as_fd other, as_socket := as_socket other, as_timeout := as_timeout other,
        as_poller := as_poller other\<rparr>,
      other\<lparr>as_fd := as_fd this, as_socket := as_socket this, as_timeout := as_timeout this,
        as_poller := as_poller this\<rparr>)"

text \<open>
  The move constructor does not move the table; what remains of a moved-from \<^verbatim>\<open>std::function\<close> and
  poller is not used again. \<open>open\<close> and the assignment go through a temporary and \<^verbatim>\<open>swap\<close>; the
  process is that of the object assigned to.
\<close>

definition as_dtor :: "'h AsyncServer \<Rightarrow> tcp_os" where
  "as_dtor v = as_os (snd (as_close v))"

definition as_move :: "'h AsyncServer \<Rightarrow> 'h AsyncServer \<times> 'h AsyncServer" where
  "as_move other =
     (other\<lparr>as_connections := []\<rparr>,
      other\<lparr>as_fd := FD_CLOSED, as_socket := Sockinfo_default, as_default_interests_set := EventsSet_of []\<rparr>)"

definition as_assign :: "'h AsyncServer \<Rightarrow> 'h AsyncServer \<Rightarrow> 'h AsyncServer \<times> 'h AsyncServer" where
  "as_assign this other =
     (case as_move other of
        (tmp, other) \<Rightarrow>
          (case as_swap this tmp of
             (this, tmp) \<Rightarrow> (set_os (as_dtor (tmp\<lparr>as_os := as_os this\<rparr>)) this, other)))"

definition as_open ::
    "resolver \<Rightarrow> string \<Rightarrow> u16 \<Rightarrow> EventsSet \<Rightarrow> bool list option \<Rightarrow> 'h AsyncServer \<Rightarrow> (tcp_exn + unit) \<times> 'h AsyncServer" where
  "as_open gai hostname port default_interests_set ctl v =
     (case AsyncServer_new gai hostname port (as_handler_state v) default_interests_set (-1) ctl (as_os v) of
        (Inl e, s) \<Rightarrow> (Inl e, set_os s v)
      | (Inr server, s) \<Rightarrow>
          (case as_swap (v\<lparr>as_os := s\<rparr>) server of
             (v, server) \<Rightarrow> (Inr (), set_os (as_dtor server) v)))"

lemma open_keeps_interests:
  "as_open gai hostname port interests ctl v = (Inr u, v') \<Longrightarrow>
     as_default_interests_set v' = as_default_interests_set v \<and> as_connections v' = as_connections v"
  by (auto simp: as_open_def as_swap_def set_os_def split: prod.splits sum.splits)

section \<open>Accepting\<close>

text \<open>
  \<open>new AsyncConnection{clientfd}\<close> may throw, and then nobody owns the descriptor; if the
  connection cannot be watched, its destructor closes it.
\<close>

definition registerConnection :: "int \<Rightarrow> 'h AsyncServer \<Rightarrow> (tcp_exn + unit) \<times> 'h AsyncServer" where
  "registerConnection clientfd v =
     (case AsyncConnection_new (as_next_id v) clientfd (as_os v) of
        Inl e \<Rightarrow> (Inl e, v)
      | Inr c \<Rightarrow>
          let c = setInterestsSet (as_default_interests_set v) c;
              v = v\<lparr>as_next_id := Suc (as_next_id v)\<rparr>
          in (case add clientfd (getInterestSet c) (as_poller v) of
                (Inl e, k) \<Rightarrow> (Inl e, set_os (ac_dtor (c, as_os v)) (set_poller k v))
              | (Inr _, k) \<Rightarrow> (Inr (), put_connection clientfd c (set_poller k v))))"

text \<open>The outcomes of the successive \<^verbatim>\<open>accept4\<close> calls; the end of the list is \<^verbatim>\<open>EAGAIN\<close>.\<close>

fun acceptConnections :: "(errno + addr) list \<Rightarrow> 'h AsyncServer \<Rightarrow> (tcp_exn + unit) \<times> 'h AsyncServer" where
  "acceptConnections [] v = (Inr (), v)"
| "acceptConnections (a # rest) v =
     (case os_accept a (as_os v) of
        (Inl e, s) \<Rightarrow>
          if e = EAGAIN then (Inr (), v)
          else if e = ECONNABORTED \<or> e = EINTR \<or> e = EPERM then acceptConnections rest v
          else (Inl (ServerSocketException (''unable to accept connection: '' @ strerror e) (as_socket v)), v)
      | (Inr clientfd, s) \<Rightarrow>
          and_then (registerConnection clientfd (set_os s v)) (\<lambda>_. acceptConnections rest))"

section \<open>Events\<close>

definition getConnection :: "int \<Rightarrow> 'h AsyncServer \<Rightarrow> tcp_exn + AsyncConnection" where
  "getConnection fd v =
     (case as_connection v fd of
        None \<Rightarrow> Inl (Exception ''unexpected state: event on non-existent connection'')
      | Some c \<Rightarrow> Inr c)"

definition as_handleEvent :: "'h handler \<Rightarrow> int \<Rightarrow> u32 \<Rightarrow> 'h AsyncServer \<Rightarrow> (tcp_exn + unit) \<times> 'h AsyncServer" where
  "as_handleEvent handler fd events v =
     (case getConnection fd v of
        Inl e \<Rightarrow> (Inl e, v)
      | Inr c \<Rightarrow>
          let interests_before = getInterestSet c;
              events_set = EventsSet_of_mask events
          in (case (if triggersOn c events_set \<or> haveIntersection events_set (EventsSet_of [HUP, RDHUP, ERR])
                    then handler c events_set (as_handler_state v, as_os v)
                    else (Inr (), c, as_handler_state v, as_os v)) of
                (r, c, h, s) \<Rightarrow>
                  let v = set_os s (put_connection fd c (v\<lparr>as_handler_state := h\<rparr>))
                  in (case r of
                        Inl e \<Rightarrow> (Inl e, v)
                      | Inr _ \<Rightarrow>
                          if \<not> ac_isOpened c then (Inr (), drop_connection fd v)
                          else if \<not> ev_empty (ev_diff (getInterestSet c) interests_before) then
                            (case modify fd (getInterestSet c) (as_poller v) of
                               (Inl e, k) \<Rightarrow> (Inl e, set_poller k v)
                             | (Inr _, k) \<Rightarrow> (Inr (), set_poller k v))
                          else (Inr (), v))))"

definition closeConnection :: "int \<Rightarrow> 'h AsyncServer \<Rightarrow> (tcp_exn + unit) \<times> 'h AsyncServer" where
  "closeConnection fd v =
     (case as_connection v fd of
        None \<Rightarrow> (Inr (), v)
      | Some c \<Rightarrow>
          (case ac_close (c, as_os v) of
             (Inl e, c, s) \<Rightarrow> (Inl e, set_os s (drop_connection fd v))
           | (Inr _, c, s) \<Rightarrow> (Inr (), set_os s (drop_connection fd v))))"

section \<open>The loop\<close>

text \<open>One element of what \<^verbatim>\<open>epoll_wait\<close> returns: the listening descriptor, or a connection.\<close>

datatype async_event = Incoming "(errno + addr) list" | Ready int u32

fun serve_event :: "'h handler \<Rightarrow> async_event \<Rightarrow> 'h AsyncServer \<Rightarrow> (tcp_exn + unit) \<times> 'h AsyncServer" where
  "serve_event handler (Incoming outcomes) v = acceptConnections outcomes v"
| "serve_event handler (Ready fd events) v =
     (case as_handleEvent handler fd events v of
        (Inl _, v) \<Rightarrow> closeConnection fd v
      | (Inr _, v) \<Rightarrow> (Inr (), v))"

fun serve_events :: "'h handler \<Rightarrow> async_event list \<Rightarrow> 'h AsyncServer \<Rightarrow> (tcp_exn + unit) \<times> 'h AsyncServer" where
  "serve_events handler [] v = (Inr (), v)"
| "serve_events handler (e # es) v = and_then (serve_event handler e v) (\<lambda>_. serve_events handler es)"

text \<open>
  \<^verbatim>\<open>accept()\<close> on what the successive waits return; \<open>Inr\<close> at their end is "still serving", because
  nothing inside the loop closes the server.
\<close>

definition end_accept :: "'h AsyncServer \<Rightarrow> (tcp_exn + unit) \<times> 'h AsyncServer" where
  "end_accept v = (case remove (as_fd v) (as_poller v) of (r, k) \<Rightarrow> (r, set_poller k v))"

fun serve_rounds :: "'h handler \<Rightarrow> (tcp_exn + async_event list) list \<Rightarrow> 'h AsyncServer \<Rightarrow> (tcp_exn + unit) \<times> 'h AsyncServer" where
  "serve_rounds handler [] v = (if as_isOpened v then (Inr (), v) else end_accept v)"
| "serve_rounds handler (w # ws) v =
     (if as_isOpened v then
        (case w of
           Inl e \<Rightarrow> (Inl e, v)
         | Inr events \<Rightarrow> and_then (serve_events handler events v) (\<lambda>_. serve_rounds handler ws))
      else end_accept v)"

definition as_accept :: "'h handler \<Rightarrow> (tcp_exn + async_event list) list \<Rightarrow> 'h AsyncServer \<Rightarrow> (tcp_exn + unit) \<times> 'h AsyncServer" where
  "as_accept handler waits v =
     (case add (as_fd v) (EventsSet_of [IN]) (as_poller v) of
        (Inl e, k) \<Rightarrow> (Inl e, set_poller k v)
      | (Inr _, k) \<Rightarrow> serve_rounds handler waits (set_poller k v))"

end
