(* ===== verification/Http_Server.thy ===== *)
theory Http_Server
  imports Worker_Props Async_Server
begin

text \<open>
  \<^verbatim>\<open>include/http/http_server.hpp\<close> and \<^verbatim>\<open>lib/http/http_server.cpp\<close>: a listening socket and a pool of
  workers that share it, run until a signal arrives. Also here: what the constructors of the three
  kinds of server have in common.
\<close>

section \<open>State\<close>

record HttpServer =
  hs_fd :: int
  hs_closed :: bool
  hs_timeout :: int
  hs_thread_pool_size :: nat

datatype server_exn = TcpError tcp_exn | RuntimeError string

definition HttpServer_new ::
    "resolver \<Rightarrow> string \<Rightarrow> u16 \<Rightarrow> nat \<Rightarrow> int \<Rightarrow> tcp_os \<Rightarrow> (server_exn + HttpServer) \<times> tcp_os" where
  "HttpServer_new gai hostname port thread_pool_size timeout s =
     (case resolve_ipv4_tcp gai hostname port of
        Inl e \<Rightarrow> (Inl (TcpError e), s)
      | Inr addrs \<Rightarrow>
          (case listen_loop addrs s of
             (None, s) \<Rightarrow> (Inl (RuntimeError (''unable to bind to addr'' @ [LF])), s)
           | (Some (fd, _), s) \<Rightarrow>
               (Inr \<lparr>hs_fd = fd, hs_closed = False, hs_timeout = timeout,
                  hs_thread_pool_size = thread_pool_size\<rparr>, s)))"

definition HttpServer_dtor :: "HttpServer \<Rightarrow> tcp_os \<Rightarrow> tcp_os" where
  "HttpServer_dtor v s = snd (os_close (hs_fd v) s)"

section \<open>Running\<close>

definition server_config :: "(HttpRequest \<Rightarrow> http_exn + HttpResponse) \<Rightarrow> HttpServer \<Rightarrow> config" where
  "server_config serveRequest v =
     \<lparr>cf_callback = serveRequest, cf_timeout_threshold = hs_timeout v, cf_server_fd = hs_fd v\<rparr>"

text \<open>
  What one worker meets: whether its epoll descriptor can be created and which changes to it will
  be refused, the sockets, the clock at its start, the uninitialised counter, and the rounds of its
  loop until it sees that the server is closed.
\<close>

record worker_env =
  we_epoll :: bool
  we_ctl :: "bool list"
  we_ios :: "int \<Rightarrow> io"
  we_now :: nat
  we_time_passed :: int
  we_rounds :: "round list"

definition worker_start :: "config \<Rightarrow> worker_env \<Rightarrow> worker" where
  "worker_start cf e = HttpWorker_new (we_ios e) (we_ctl e) (cf_server_fd cf) (we_now e)"

definition worker_run :: "config \<Rightarrow> worker_env \<Rightarrow> tcp_exn + worker" where
  "worker_run cf e = run_events_loop cf (we_rounds e) (we_time_passed e) (worker_start cf e)"

text \<open>The first element of the \<^verbatim>\<open>forward_list\<close> is the last worker started.\<close>

fun start_pool :: "worker_env list \<Rightarrow> worker_env list \<Rightarrow> (tcp_exn \<times> worker_env list) + worker_env list" where
  "start_pool [] started = Inr started"
| "start_pool (e # envs) started =
     (case Epoller_new (we_epoll e) of
        Inl x \<Rightarrow> Inl (x, started)
      | Inr _ \<Rightarrow> start_pool envs (e # started))"

text \<open>
  How \<^verbatim>\<open>run\<close> can end. Destroying the list joins every thread, which never happens if the server has
  not been closed; an exception out of a thread ends the program.
\<close>

datatype run_outcome = Returned HttpServer "worker list" | Joining | Raised tcp_exn | Terminated tcp_exn

fun join_pool :: "(tcp_exn + worker) list \<Rightarrow> tcp_exn + worker list" where
  "join_pool [] = Inr []"
| "join_pool (r # rs) =
     (case r of
        Inl e \<Rightarrow> Inl e
      | Inr w \<Rightarrow> (case join_pool rs of Inl e \<Rightarrow> Inl e | Inr ws \<Rightarrow> Inr (w # ws)))"

definition http_run ::
    "(HttpRequest \<Rightarrow> http_exn + HttpResponse) \<Rightarrow> (nat \<Rightarrow> worker_env) \<Rightarrow> bool \<Rightarrow> HttpServer \<Rightarrow> run_outcome" where
  "http_run serveRequest env enable_graceful_shutdown v =
     (case start_pool (map env [0..<hs_thread_pool_size v]) [] of
        Inl (e, started) \<Rightarrow> if started = [] then Raised e else Joining
      | Inr started \<Rightarrow>
          if enable_graceful_shutdown then
            let v = v\<lparr>hs_closed := True\<rparr>
            in (case join_pool (map (worker_run (server_config serveRequest v)) started) of
                  Inl e \<Rightarrow> Terminated e
                | Inr ws \<Rightarrow> Returned v ws)
          else if started = [] then Returned v [] else Joining)"

section \<open>Listening\<close>

text \<open>
  A constructor that succeeds has opened exactly one descriptor, bound and listening; one that fails
  has opened none.
\<close>

definition listens_once :: "resolver \<Rightarrow> string \<Rightarrow> u16 \<Rightarrow> tcp_os \<Rightarrow> int option \<Rightarrow> tcp_os \<Rightarrow> bool" where
  "listens_once gai hostname port s r s' \<longleftrightarrow>
     (case r of
        Some fd \<Rightarrow> to_open s' = fd # to_open s \<and> fd \<notin> set (to_open s) \<and> 0 \<le> fd
      | None \<Rightarrow> to_open s' = to_open s \<and>
          (case resolve_ipv4_tcp gai hostname port of
             Inl _ \<Rightarrow> True
           | Inr addrs \<Rightarrow> list_all (\<lambda>a. \<not> (ad_socket a \<and> ad_bind a \<and> ad_listen a)) addrs))"

lemma listen_loop_once:
  assumes "resolve_ipv4_tcp gai hostname port = Inr addrs" and "listen_loop addrs s = (r, s')"
  shows "listens_once gai hostname port s (map_option fst r) s'"
  using listen_loop_fds [OF assms(2)] assms(1)
  by (auto simp: listens_once_def list_all_iff split: option.splits)

lemma resolve_failed_once:
  "resolve_ipv4_tcp gai hostname port = Inl e \<Longrightarrow> listens_once gai hostname port s None s"
  by (simp add: listens_once_def)

text \<open>
  The constructors of \<^verbatim>\<open>tcp::Server\<close>, \<^verbatim>\<open>tcp::AsyncServer\<close> and \<^verbatim>\<open>HttpServer\<close>, for every answer of
  the resolver and every outcome of the calls for each address (given that the asynchronous server
  gets its epoll descriptor): on success exactly one new
  descriptor is open, the server's; on failure none is, and no address of the list could be bound
  and listened to.
\<close>

theorem constructors_listen_once:
  "(case Server_new gai hostname port s of
      (r, s') \<Rightarrow> listens_once gai hostname port s (case r of Inl _ \<Rightarrow> None | Inr v \<Rightarrow> Some (srv_fd v)) s') \<and>
   (case AsyncServer_new gai hostname port h interests t (Some ctl) s of
      (r, s') \<Rightarrow> listens_once gai hostname port s (case r of Inl _ \<Rightarrow> None | Inr v \<Rightarrow> Some (as_fd v)) s') \<and>
   (case HttpServer_new gai hostname port pool timeout s of
      (r, s') \<Rightarrow> listens_once gai hostname port s (case r of Inl _ \<Rightarrow> None | Inr v \<Rightarrow> Some (hs_fd v)) s')"
proof (cases "resolve_ipv4_tcp gai hostname port")
  case (Inl e)
  then show ?thesis
    by (simp add: Server_new_def AsyncServer_new_Some HttpServer_new_def resolve_failed_once)
next
  case (Inr addrs)
  obtain r s' where l: "listen_loop addrs s = (r, s')" by fastforce
  from listen_loop_once [OF Inr l] show ?thesis
    by (cases r) (auto simp: Server_new_def AsyncServer_new_Some HttpServer_new_def Inr l)
qed

section \<open>The pool\<close>

lemma start_pool_Inr:
  "start_pool envs started = Inr rs \<longleftrightarrow> list_all we_epoll envs \<and> rs = rev envs @ started"
  by (induction envs started rule: start_pool.induct) (auto simp: Epoller_new_def)

lemma join_pool_map: "join_pool (map Inr ws) = Inr ws"
  by (induction ws) simp_all

lemma join_pool_Inr: "join_pool rs = Inr ws \<longleftrightarrow> rs = map Inr ws"
proof
  show "join_pool rs = Inr ws \<Longrightarrow> rs = map Inr ws"
    by (induction rs arbitrary: ws) (auto split: sum.splits)
qed (simp add: join_pool_map)

text \<open>What the rounds of one worker have to satisfy: the kernel tells the truth and time passes.\<close>

fun rounds_ok :: "config \<Rightarrow> round list \<Rightarrow> int \<Rightarrow> worker \<Rightarrow> bool" where
  "rounds_ok cf [] tp w \<longleftrightarrow> True"
| "rounds_ok cf (r # rs) tp w \<longleftrightarrow>
     round_ok cf r w \<and> (case loop_round cf r tp w of Inl _ \<Rightarrow> True | Inr (tp, w) \<Rightarrow> rounds_ok cf rs tp w)"

lemma events_rounds_reach:
  "worker_reach cf w \<Longrightarrow> rounds_ok cf rs tp w \<Longrightarrow> events_rounds cf rs tp w = Inr w' \<Longrightarrow> worker_reach cf w'"
proof (induction rs arbitrary: tp w)
  case (Cons r rs)
  then obtain tp1 w1 where r: "loop_round cf r tp w = Inr (tp1, w1)" by (auto split: sum.splits)
  with Cons.prems have "worker_reach cf w1" by (auto intro: worker_reach.round)
  with Cons r show ?case by auto
qed simp

definition env_ok :: "config \<Rightarrow> worker_env \<Rightarrow> bool" where
  "env_ok cf e \<longleftrightarrow>
     (case add (cf_server_fd cf) (EventsSet_of [IN, EXCLUSIVE]) (nt_epoll (hw_net (worker_start cf e))) of
        (Inl _, _) \<Rightarrow> True
      | (Inr _, k) \<Rightarrow>
          rounds_ok cf (we_rounds e) (we_time_passed e) (on_net (\<lambda>n. n\<lparr>nt_epoll := k\<rparr>) (worker_start cf e)))"

text \<open>The state in which a worker's loop has ended, before the handlers are told to time out.\<close>

definition loop_ends :: "config \<Rightarrow> worker_env \<Rightarrow> worker \<Rightarrow> bool" where
  "loop_ends cf e w \<longleftrightarrow>
     (case add (cf_server_fd cf) (EventsSet_of [IN, EXCLUSIVE]) (nt_epoll (hw_net (worker_start cf e))) of
        (Inl _, _) \<Rightarrow> False
      | (Inr _, k) \<Rightarrow>
          events_rounds cf (we_rounds e) (we_time_passed e)
            (on_net (\<lambda>n. n\<lparr>nt_epoll := k\<rparr>) (worker_start cf e)) = Inr w)"

lemma worker_run_drains:
  assumes "worker_run cf e = Inr w" and "0 \<le> cf_server_fd cf" and "env_ok cf e"
  shows "\<exists>w0. loop_ends cf e w0 \<and> worker_reach cf w0 \<and> drained w0 w"
proof -
  let ?w = "worker_start cf e"
  obtain q k where a: "add (cf_server_fd cf) (EventsSet_of [IN, EXCLUSIVE]) (nt_epoll (hw_net ?w)) = (q, k)"
    by fastforce
  with assms(1) obtain x where q: "q = Inr x"
    by (cases q) (simp_all add: worker_run_def run_events_loop_def del: EventsSet_of.simps)
  with assms(1) a obtain w0 where e: "events_rounds cf (we_rounds e) (we_time_passed e) (on_net (\<lambda>n. n\<lparr>nt_epoll := k\<rparr>) ?w) = Inr w0"
    and w: "w = shutdown_handlers cf (map fst (nt_coroutines (hw_net w0))) w0"
    by (auto simp: worker_run_def run_events_loop_def simp del: EventsSet_of.simps split: sum.splits)
  have "worker_reach cf (on_net (\<lambda>n. n\<lparr>nt_epoll := k\<rparr>) ?w)"
    by (rule worker_reach.start [OF assms(2) worker_start_def]) (use a q in \<open>simp add: worker_start_def del: EventsSet_of.simps\<close>)
  moreover have "rounds_ok cf (we_rounds e) (we_time_passed e) (on_net (\<lambda>n. n\<lparr>nt_epoll := k\<rparr>) ?w)"
    using assms(3) a q by (simp add: env_ok_def del: EventsSet_of.simps)
  ultimately have reach: "worker_reach cf w0" using e by (rule events_rounds_reach)
  have "loop_ends cf e w0" using a q e by (simp add: loop_ends_def del: EventsSet_of.simps)
  with reach shutdown_drains [OF reach] w show ?thesis by blast
qed

text \<open>
  C13: A graceful shutdown of the server drains its pool. If \<^verbatim>\<open>run\<close> returns after the signal, then each of
  the \<^verbatim>\<open>thread_pool_size\<close> workers has left its loop, in a reachable state, and ended; on the way it has
  read and written nothing more, and every coroutine that one of its handlers waited in, which was
  not finished when the loop ended, is finished, unless some handler of that worker was in the
  middle of an error response (it throws, and the handlers behind it in the table stay unfinished).
  In all their rounds the kernel reports only descriptors that are watched and accepts none that is
  in use, and time does not go backwards.
\<close>

theorem graceful_run_drains_pool:
  assumes "http_run serveRequest env True v = Returned v' ws" and "0 \<le> hs_fd v"
    and "list_all (\<lambda>i. env_ok (server_config serveRequest v) (env i)) [0..<hs_thread_pool_size v]"
  shows "length ws = hs_thread_pool_size v \<and>
    (\<forall>i<hs_thread_pool_size v. \<exists>w0. loop_ends (server_config serveRequest v) (env i) w0 \<and>
       worker_reach (server_config serveRequest v) w0 \<and> drained w0 (rev ws ! i))"
proof -
  let ?cf = "server_config serveRequest v"
  let ?envs = "map env [0..<hs_thread_pool_size v]"
  have cf: "server_config serveRequest (v\<lparr>hs_closed := True\<rparr>) = ?cf" by (simp add: server_config_def)
  obtain st where st: "start_pool ?envs [] = Inr st"
    using assms(1) by (auto simp: http_run_def split: sum.splits if_splits)
  then have rev: "st = rev ?envs" by (simp add: start_pool_Inr)
  from assms(1) st have "map (worker_run ?cf) (rev ?envs) = map Inr ws"
    by (auto simp: http_run_def cf rev Let_def join_pool_Inr simp del: map_map split: sum.splits)
  then have j: "map (worker_run ?cf) ?envs = map Inr (rev ws)" by (metis rev_map rev_rev_ident)
  have len: "length ws = hs_thread_pool_size v" using arg_cong [OF j, of length] by simp
  have "\<exists>w0. loop_ends ?cf (env i) w0 \<and> worker_reach ?cf w0 \<and> drained w0 (rev ws ! i)"
    if i: "i < hs_thread_pool_size v" for i
  proof -
    have "worker_run ?cf (env i) = Inr (rev ws ! i)" using arg_cong [OF j, of "\<lambda>xs. xs ! i"] i len by simp
    with assms(2,3) i show ?thesis
      by (intro worker_run_drains) (auto simp: server_config_def list_all_iff)
  qed
  with len show ?thesis by blast
qed

text \<open>Without it, \<^verbatim>\<open>run\<close> never returns, because nothing closes the server.\<close>

lemma run_without_signals:
  assumes "0 < hs_thread_pool_size v" and "list_all (\<lambda>i. we_epoll (env i)) [0..<hs_thread_pool_size v]"
  shows "http_run serveRequest env False v = Joining"
proof -
  have "start_pool (map env [0..<hs_thread_pool_size v]) [] = Inr (rev (map env [0..<hs_thread_pool_size v]))"
    using assms(2) by (simp add: start_pool_Inr list_all_iff)
  with assms(1) show ?thesis by (simp add: http_run_def)
qed

definition idle_env :: "nat \<Rightarrow> worker_env" where
  "idle_env i = \<lparr>we_epoll = True, we_ctl = [], we_ios = (\<lambda>_. io_init [] []), we_now = 0, we_time_passed = 0,
     we_rounds = [accept_round]\<rparr>"

definition idle_server :: HttpServer where
  "idle_server = \<lparr>hs_fd = 3, hs_closed = False, hs_timeout = 1000, hs_thread_pool_size = 2\<rparr>"

lemma idle_config: "server_config greet (idle_server\<lparr>hs_closed := b\<rparr>) = demo_config"
  by (simp add: server_config_def idle_server_def demo_config_def)

lemma idle_env_same: "idle_env i = idle_env 0"
  by (simp add: idle_env_def)

lemma idle_worker_runs: "\<exists>w. worker_run demo_config (idle_env i) = Inr w"
proof -
  have "(case worker_run demo_config (idle_env 0) of Inl _ \<Rightarrow> False | Inr _ \<Rightarrow> True)" by code_simp
  then show ?thesis unfolding idle_env_same [of i] by (auto split: sum.splits)
qed

lemma idle_env_ok: "env_ok demo_config (idle_env i)"
proof -
  let ?w = "worker_start demo_config (idle_env 0)"
  define k where "k = snd (add (cf_server_fd demo_config) (EventsSet_of [IN, EXCLUSIVE]) (nt_epoll (hw_net ?w)))"
  have "round_ok demo_config accept_round (on_net (\<lambda>n. n\<lparr>nt_epoll := k\<rparr>) ?w)"
    unfolding round_ok_def k_def by (simp add: accept_round_def) code_simp
  then have "rounds_ok demo_config (we_rounds (idle_env 0)) (we_time_passed (idle_env 0))
      (on_net (\<lambda>n. n\<lparr>nt_epoll := k\<rparr>) ?w)"
    by (auto simp: idle_env_def split: sum.splits)
  then have "env_ok demo_config (idle_env 0)"
    by (auto simp: env_ok_def k_def simp del: EventsSet_of.simps split: prod.splits sum.splits)
  then show ?thesis unfolding idle_env_same [of i] .
qed

lemma idle_runs: "\<exists>v' ws. http_run greet idle_env True idle_server = Returned v' ws"
proof -
  obtain w where w: "worker_run demo_config (idle_env 0) = Inr w" using idle_worker_runs by blast
  have "start_pool (map idle_env [0..<2]) [] = Inr [idle_env 0, idle_env 0]"
    by (simp add: upt_rec idle_env_def Epoller_new_def)
  moreover have "hs_thread_pool_size idle_server = 2" by (simp add: idle_server_def)
  ultimately show ?thesis by (simp add: http_run_def idle_config w)
qed

theorem graceful_run_drains_pool_witness:
  "\<exists>v' ws w0. http_run greet idle_env True idle_server = Returned v' ws \<and> length ws = 2 \<and>
    loop_ends demo_config (idle_env 0) w0 \<and> drained w0 (rev ws ! 0)"
proof -
  obtain v' ws where run: "http_run greet idle_env True idle_server = Returned v' ws" using idle_runs by blast
  have "0 \<le> hs_fd idle_server" by (simp add: idle_server_def)
  moreover have "server_config greet idle_server = demo_config"
    by (simp add: server_config_def idle_server_def demo_config_def)
  moreover have "hs_thread_pool_size idle_server = 2" by (simp add: idle_server_def)
  ultimately show ?thesis
    using graceful_run_drains_pool [OF run] idle_env_ok run by (fastforce simp: list_all_iff)
qed

end
