(* ===== verification/Logging.thy ===== *)
theory Logging
  imports Cpp_String
begin

text \<open>
  \<^verbatim>\<open>include/log\<close> and \<^verbatim>\<open>lib/log\<close>: levels, messages, the base logger and its three sinks, the
  thread-safe variants and the global logger. The interface \<open>line_logger\<close> is what the users of
  a \<^verbatim>\<open>BaseLogger\<close> rely on; the file, stderr and stdout loggers implement it.
\<close>

section \<open>Levels and messages\<close>

datatype Level = DEBUG | INFO | WARN | ERROR

fun level_value :: "Level \<Rightarrow> nat" where
  "level_value DEBUG = 3"
| "level_value INFO = 2"
| "level_value WARN = 1"
| "level_value ERROR = 0"

lemma level_value_inject [simp]: "level_value a = level_value b \<longleftrightarrow> a = b"
  by (cases a; cases b) simp_all

text \<open>The comparison of two enumerators is the one of their values.\<close>

instantiation Level :: linorder
begin

definition less_eq_Level :: "Level \<Rightarrow> Level \<Rightarrow> bool" where
  "less_eq_Level a b \<longleftrightarrow> level_value a \<le> level_value b"

definition less_Level :: "Level \<Rightarrow> Level \<Rightarrow> bool" where
  "less_Level a b \<longleftrightarrow> level_value a < level_value b"

instance
  by standard (auto simp: less_eq_Level_def less_Level_def)

end

lemma ERROR_least [simp]: "ERROR \<le> l"
  by (simp add: less_eq_Level_def)

lemma DEBUG_greatest [simp]: "l \<le> DEBUG"
  by (cases l) (simp_all add: less_eq_Level_def)

fun to_string :: "Level \<Rightarrow> string" where
  "to_string DEBUG = ''DEBUG''"
| "to_string INFO = ''INFO''"
| "to_string WARN = ''WARN''"
| "to_string ERROR = ''ERROR''"

record LogMessage =
  lm_level :: Level
  lm_text :: string

definition show_message :: "LogMessage \<Rightarrow> string" where
  "show_message m = ''['' @ to_string (lm_level m) @ '']: '' @ lm_text m"

section \<open>Exceptions and streams\<close>

datatype log_exn = LogError string | FileLogError string string | RuntimeError string

fun log_what :: "log_exn \<Rightarrow> string" where
  "log_what (LogError m) = m"
| "log_what (FileLogError m _) = m"
| "log_what (RuntimeError m) = m"

fun log_file :: "log_exn \<Rightarrow> string option" where
  "log_file (FileLogError _ p) = Some p"
| "log_file _ = None"

text \<open>A \<^verbatim>\<open>std::ostream\<close>: what has gone out, how much more can, and whether it has failed.\<close>

record ostream =
  os_text :: string
  os_room :: nat
  os_good :: bool

definition put :: "string \<Rightarrow> ostream \<Rightarrow> ostream" where
  "put s out =
     (if \<not> os_good out then out
      else if length s \<le> os_room out then
        out\<lparr>os_text := os_text out @ s, os_room := os_room out - length s\<rparr>
      else out\<lparr>os_text := os_text out @ take (os_room out) s, os_room := 0, os_good := False\<rparr>)"

definition log_line :: "Level \<Rightarrow> string \<Rightarrow> string" where
  "log_line level text = show_message \<lparr>lm_level = level, lm_text = text\<rparr> @ [LF]"

text \<open>\<^verbatim>\<open>sink << LogMessage{...} << '\n'\<close>\<close>

definition put_line :: "Level \<Rightarrow> string \<Rightarrow> ostream \<Rightarrow> ostream" where
  "put_line level text out = put [LF] (put (show_message \<lparr>lm_level = level, lm_text = text\<rparr>) out)"

lemma put_line_good:
  assumes "os_good (put_line level text out)"
  shows "os_text (put_line level text out) = os_text out @ log_line level text"
  using assms by (auto simp: put_line_def put_def log_line_def split: if_splits)

section \<open>The loggers\<close>

record BaseLogger =
  bl_level :: Level

definition BaseLogger_new :: "Level \<Rightarrow> BaseLogger" where
  "BaseLogger_new level = \<lparr>bl_level = level\<rparr>"

definition set_level :: "Level \<Rightarrow> 'a BaseLogger_scheme \<Rightarrow> 'a BaseLogger_scheme" where
  "set_level level s = s\<lparr>bl_level := level\<rparr>"

definition get_level :: "'a BaseLogger_scheme \<Rightarrow> Level" where
  "get_level s = bl_level s"

definition willBeLogged :: "Level \<Rightarrow> 'a BaseLogger_scheme \<Rightarrow> bool" where
  "willBeLogged level s \<longleftrightarrow> level \<le> bl_level s"

record FileLogger = BaseLogger +
  fl_sink :: ostream
  fl_logfile :: string

text \<open>\<open>opened\<close> is the stream \<^verbatim>\<open>std::ofstream\<close> makes of the path, if it can.\<close>

definition FileLogger_new :: "string \<Rightarrow> ostream option \<Rightarrow> Level \<Rightarrow> log_exn + FileLogger" where
  "FileLogger_new path opened level =
     (case opened of
        None \<Rightarrow> Inl (FileLogError ''unable to open file for writing'' path)
      | Some sink \<Rightarrow> Inr \<lparr>bl_level = level, fl_sink = sink, fl_logfile = path\<rparr>)"

definition file_log :: "string \<Rightarrow> Level \<Rightarrow> FileLogger \<Rightarrow> (log_exn + unit) \<times> FileLogger" where
  "file_log message level s =
     (if willBeLogged level s then
        let s = s\<lparr>fl_sink := put_line level message (fl_sink s)\<rparr>
        in if \<not> os_good (fl_sink s) then
             (Inl (FileLogError ''unable to write message to file'' (fl_logfile s)), s)
           else (Inr (), s)
      else (Inr (), s))"

text \<open>The console loggers write to \<^verbatim>\<open>std::cerr\<close> and \<^verbatim>\<open>std::cout\<close>, the second component.\<close>

definition stderr_log ::
    "string \<Rightarrow> Level \<Rightarrow> BaseLogger \<times> ostream \<Rightarrow> (log_exn + unit) \<times> BaseLogger \<times> ostream" where
  "stderr_log message level s =
     (case s of (b, cerr) \<Rightarrow>
        if willBeLogged level b then
          let cerr = put_line level message cerr
          in if \<not> os_good cerr then (Inl (LogError ''unable to write message to stderr''), b, cerr)
             else (Inr (), b, cerr)
        else (Inr (), b, cerr))"

definition stdout_log ::
    "string \<Rightarrow> Level \<Rightarrow> BaseLogger \<times> ostream \<Rightarrow> (log_exn + unit) \<times> BaseLogger \<times> ostream" where
  "stdout_log message level s =
     (case s of (b, cout) \<Rightarrow>
        if willBeLogged level b then
          let cout = put_line level message cout
          in if \<not> os_good cout then (Inl (LogError ''unable to write message to stdout''), b, cout)
             else (Inr (), b, cout)
        else (Inr (), b, cout))"

text \<open>The public members call the virtual \<^verbatim>\<open>log\<close>, an argument here.\<close>

type_synonym 'l log_fn = "string \<Rightarrow> Level \<Rightarrow> 'l \<Rightarrow> (log_exn + unit) \<times> 'l"

definition debug :: "'l log_fn \<Rightarrow> string \<Rightarrow> 'l \<Rightarrow> (log_exn + unit) \<times> 'l" where
  "debug f message = f message DEBUG"

definition error :: "'l log_fn \<Rightarrow> string \<Rightarrow> 'l \<Rightarrow> (log_exn + unit) \<times> 'l" where
  "error f message = f message ERROR"

definition info :: "'l log_fn \<Rightarrow> string \<Rightarrow> 'l \<Rightarrow> (log_exn + unit) \<times> 'l" where
  "info f message = f message INFO"

definition warn :: "'l log_fn \<Rightarrow> string \<Rightarrow> 'l \<Rightarrow> (log_exn + unit) \<times> 'l" where
  "warn f message = f message WARN"

section \<open>The interface\<close>

text \<open>A program's calls of a logger, one after the other; the first exception ends them.\<close>

fun log_all :: "'l log_fn \<Rightarrow> (Level \<times> string) list \<Rightarrow> 'l \<Rightarrow> (log_exn + unit) \<times> 'l" where
  "log_all f [] s = (Inr (), s)"
| "log_all f ((level, message) # rest) s = and_then (f message level s) (\<lambda>_. log_all f rest)"

definition lines_upto :: "Level \<Rightarrow> (Level \<times> string) list \<Rightarrow> string" where
  "lines_upto threshold ms =
     concat (map (\<lambda>(level, text). log_line level text) (filter (\<lambda>(level, _). level \<le> threshold) ms))"

locale line_logger =
  fixes f :: "string \<Rightarrow> Level \<Rightarrow> 'l \<Rightarrow> (log_exn + unit) \<times> 'l"
    and threshold :: "'l \<Rightarrow> Level"
    and contents :: "'l \<Rightarrow> string"
    and healthy :: "'l \<Rightarrow> bool"
  assumes skip: "\<not> level \<le> threshold s \<Longrightarrow> f m level s = (Inr (), s)"
    and log_ok: "level \<le> threshold s \<Longrightarrow> f m level s = (Inr u, s') \<Longrightarrow>
      contents s' = contents s @ log_line level m \<and> healthy s'"
    and log_fail: "f m level s = (Inl e, s') \<Longrightarrow> \<not> healthy s'"
    and keeps_threshold: "f m level s = (r, s') \<Longrightarrow> threshold s' = threshold s"
begin

lemma log_all_lines:
  "log_all f ms s = (Inr u, s') \<Longrightarrow>
     contents s' = contents s @ lines_upto (threshold s) ms \<and> threshold s' = threshold s"
proof (induction ms arbitrary: s)
  case Nil
  then show ?case by (simp add: lines_upto_def)
next
  case (Cons m ms)
  obtain level message where m: "m = (level, message)" by fastforce
  from Cons.prems obtain v s1 where s1: "f message level s = (Inr v, s1)"
    and rest: "log_all f ms s1 = (Inr u, s')"
    by (auto simp: m and_then_Inr_iff)
  note th = keeps_threshold [OF s1]
  from Cons.IH [OF rest] th
  have ih: "contents s' = contents s1 @ lines_upto (threshold s) ms" "threshold s' = threshold s" by auto
  show ?case
  proof (cases "level \<le> threshold s")
    case True
    with log_ok [OF True s1] ih show ?thesis by (simp add: lines_upto_def m)
  next
    case False
    with skip [OF False, of message] s1 ih show ?thesis by (simp add: lines_upto_def m)
  qed
qed

lemma log_all_error: "log_all f ms s = (Inl e, s') \<Longrightarrow> \<not> healthy s'"
proof (induction ms arbitrary: s)
  case (Cons m ms)
  then show ?case
    by (cases m) (auto simp: and_then_Inl_iff dest: log_fail)
qed simp

end

interpretation flog: line_logger file_log bl_level "\<lambda>s. os_text (fl_sink s)" "\<lambda>s. os_good (fl_sink s)"
  by unfold_locales (auto simp: file_log_def willBeLogged_def Let_def put_line_good split: if_splits)

interpretation elog: line_logger stderr_log "\<lambda>s. bl_level (fst s)" "\<lambda>s. os_text (snd s)" "\<lambda>s. os_good (snd s)"
  by unfold_locales
     (auto simp: stderr_log_def willBeLogged_def Let_def put_line_good split: if_splits prod.splits)

interpretation olog: line_logger stdout_log "\<lambda>s. bl_level (fst s)" "\<lambda>s. os_text (snd s)" "\<lambda>s. os_good (snd s)"
  by unfold_locales
     (auto simp: stdout_log_def willBeLogged_def Let_def put_line_good split: if_splits prod.splits)

section \<open>The global logger\<close>

datatype any_logger = File_Logger FileLogger | Stderr_Logger BaseLogger | Stdout_Logger BaseLogger

record Logger =
  gl_global_logger :: any_logger
  gl_cout :: ostream
  gl_cerr :: ostream

definition create_stderr_logger :: any_logger where
  "create_stderr_logger = Stderr_Logger (BaseLogger_new ERROR)"

definition create_stdout_logger :: any_logger where
  "create_stdout_logger = Stdout_Logger (BaseLogger_new ERROR)"

definition create_file_logger :: "string \<Rightarrow> ostream option \<Rightarrow> log_exn + any_logger" where
  "create_file_logger path opened =
     (case FileLogger_new path opened ERROR of
        Inl e \<Rightarrow> Inl e
      | Inr l \<Rightarrow> Inr (File_Logger l))"

text \<open>\<^verbatim>\<open>logger->set_level(...)\<close> on a logger of unknown class.\<close>

definition any_set_level :: "Level \<Rightarrow> any_logger \<Rightarrow> any_logger" where
  "any_set_level level l =
     (case l of
        File_Logger f \<Rightarrow> File_Logger (set_level level f)
      | Stderr_Logger b \<Rightarrow> Stderr_Logger (set_level level b)
      | Stdout_Logger b \<Rightarrow> Stdout_Logger (set_level level b))"

definition Logger_new :: "ostream \<Rightarrow> ostream \<Rightarrow> Logger" where
  "Logger_new cout cerr =
     \<lparr>gl_global_logger = create_stderr_logger, gl_cout = cout, gl_cerr = cerr\<rparr>"

text \<open>\<open>None\<close> is the null pointer.\<close>

definition set_global_logger :: "any_logger option \<Rightarrow> Logger \<Rightarrow> (log_exn + unit) \<times> Logger" where
  "set_global_logger l s =
     (case l of
        None \<Rightarrow> (Inl (RuntimeError ''set_global_logger called with nullptr''), s)
      | Some l \<Rightarrow> (Inr (), s\<lparr>gl_global_logger := l\<rparr>))"

definition global_log :: "string \<Rightarrow> Level \<Rightarrow> Logger \<Rightarrow> (log_exn + unit) \<times> Logger" where
  "global_log message level s =
     (case gl_global_logger s of
        File_Logger l \<Rightarrow>
          (case file_log message level l of (r, l) \<Rightarrow> (r, s\<lparr>gl_global_logger := File_Logger l\<rparr>))
      | Stderr_Logger l \<Rightarrow>
          (case stderr_log message level (l, gl_cerr s) of
             (r, l, cerr) \<Rightarrow> (r, s\<lparr>gl_global_logger := Stderr_Logger l, gl_cerr := cerr\<rparr>))
      | Stdout_Logger l \<Rightarrow>
          (case stdout_log message level (l, gl_cout s) of
             (r, l, cout) \<Rightarrow> (r, s\<lparr>gl_global_logger := Stdout_Logger l, gl_cout := cout\<rparr>)))"

definition global_level :: "Logger \<Rightarrow> Level" where
  "global_level s =
     (case gl_global_logger s of
        File_Logger l \<Rightarrow> bl_level l | Stderr_Logger l \<Rightarrow> bl_level l | Stdout_Logger l \<Rightarrow> bl_level l)"

definition global_sink :: "Logger \<Rightarrow> ostream" where
  "global_sink s =
     (case gl_global_logger s of
        File_Logger l \<Rightarrow> fl_sink l | Stderr_Logger _ \<Rightarrow> gl_cerr s | Stdout_Logger _ \<Rightarrow> gl_cout s)"

interpretation glog: line_logger global_log global_level "\<lambda>s. os_text (global_sink s)" "\<lambda>s. os_good (global_sink s)"
  by unfold_locales
     (auto simp: global_log_def global_level_def global_sink_def file_log_def stderr_log_def
        stdout_log_def willBeLogged_def Let_def put_line_good
        split: any_logger.splits if_splits prod.splits)

text \<open>
  A logger writes exactly the messages its level admits. Whatever is logged through the global
  logger, with any of the three sinks: as long as no call throws, the sink has received one
  line \<^verbatim>\<open>[LEVEL]: text\<close> for each message whose level is not above the logger's, in order and
  nothing else, and the level is unchanged; when a call throws, the sink has failed.
\<close>
theorem logger_writes_admitted_lines:
  "case log_all global_log ms s of
     (Inr _, s') \<Rightarrow>
       os_text (global_sink s') = os_text (global_sink s) @ lines_upto (global_level s) ms \<and>
       global_level s' = global_level s
   | (Inl _, s') \<Rightarrow> \<not> os_good (global_sink s')"
proof -
  obtain r s' where l: "log_all global_log ms s = (r, s')" by fastforce
  show ?thesis
  proof (cases r)
    case (Inl e)
    with l glog.log_all_error [of ms s e s'] show ?thesis by simp
  next
    case (Inr u)
    with l glog.log_all_lines [of ms s u s'] show ?thesis by simp
  qed
qed

section \<open>Thread-safe loggers\<close>

text \<open>
  \<^verbatim>\<open>ThreadSafeFileLogger\<close> and its siblings take a mutex around the base class's \<open>log\<close>. The stream
  receives a line in five insertions, none of which fails; between two of them another thread
  may run. A thread
  is the list of messages it still has to log and, inside \<open>log\<close>, the insertions still to do.
\<close>

definition insertions :: "Level \<times> string \<Rightarrow> string list" where
  "insertions m = [''['', to_string (fst m), '']: '', snd m, [LF]]"

lemma concat_insertions: "concat (insertions m) = log_line (fst m) (snd m)"
  by (simp add: insertions_def log_line_def show_message_def)

record log_thread =
  lt_todo :: "(Level \<times> string) list"
  lt_rest :: "string list option"

record shared_log =
  sl_level :: Level
  sl_text :: string
  sl_lock :: "nat option"
  sl_threads :: "log_thread list"
  sl_order :: "(nat \<times> Level \<times> string) list"

inductive ts_log_step :: "shared_log \<Rightarrow> shared_log \<Rightarrow> bool" where
  enter: "t < length (sl_threads s) \<Longrightarrow> sl_threads s ! t = \<lparr>lt_todo = m # ms, lt_rest = None\<rparr> \<Longrightarrow>
    sl_lock s = None \<Longrightarrow>
    ts_log_step s (s\<lparr>sl_lock := Some t, sl_order := sl_order s @ [(t, m)],
      sl_threads := (sl_threads s)[t := \<lparr>lt_todo = ms,
        lt_rest = Some (if fst m \<le> sl_level s then insertions m else [])\<rparr>]\<rparr>)"
| insert: "t < length (sl_threads s) \<Longrightarrow> sl_threads s ! t = \<lparr>lt_todo = ms, lt_rest = Some (x # xs)\<rparr> \<Longrightarrow>
    ts_log_step s (s\<lparr>sl_text := sl_text s @ x,
      sl_threads := (sl_threads s)[t := \<lparr>lt_todo = ms, lt_rest = Some xs\<rparr>]\<rparr>)"
| leave: "t < length (sl_threads s) \<Longrightarrow> sl_threads s ! t = \<lparr>lt_todo = ms, lt_rest = Some []\<rparr> \<Longrightarrow>
    ts_log_step s (s\<lparr>sl_lock := None,
      sl_threads := (sl_threads s)[t := \<lparr>lt_todo = ms, lt_rest = None\<rparr>]\<rparr>)"

text \<open>The step that thread \<open>t\<close> can make, if any; the relation is made of these.\<close>

definition ts_next :: "nat \<Rightarrow> shared_log \<Rightarrow> shared_log option" where
  "ts_next t s =
     (if t < length (sl_threads s) then
        (case lt_rest (sl_threads s ! t) of
           None \<Rightarrow>
             (case lt_todo (sl_threads s ! t) of
                [] \<Rightarrow> None
              | m # ms \<Rightarrow>
                  if sl_lock s = None then
                    Some (s\<lparr>sl_lock := Some t, sl_order := sl_order s @ [(t, m)],
                      sl_threads := (sl_threads s)[t := \<lparr>lt_todo = ms,
                        lt_rest = Some (if fst m \<le> sl_level s then insertions m else [])\<rparr>]\<rparr>)
                  else None)
         | Some [] \<Rightarrow> Some (s\<lparr>sl_lock := None, sl_threads := (sl_threads s)[t :=
             \<lparr>lt_todo = lt_todo (sl_threads s ! t), lt_rest = None\<rparr>]\<rparr>)
         | Some (x # xs) \<Rightarrow> Some (s\<lparr>sl_text := sl_text s @ x, sl_threads := (sl_threads s)[t :=
             \<lparr>lt_todo = lt_todo (sl_threads s ! t), lt_rest = Some xs\<rparr>]\<rparr>))
      else None)"

lemma ts_log_step_iff: "ts_log_step s s' \<longleftrightarrow> (\<exists>t. ts_next t s = Some s')"
proof
  assume "ts_log_step s s'"
  then show "\<exists>t. ts_next t s = Some s'"
  proof (cases rule: ts_log_step.cases)
    case (enter t m ms)
    then have "ts_next t s = Some s'" unfolding ts_next_def by simp
    then show ?thesis ..
  next
    case (insert t ms x xs)
    then have "ts_next t s = Some s'" unfolding ts_next_def by simp
    then show ?thesis ..
  next
    case (leave t ms)
    then have "ts_next t s = Some s'" unfolding ts_next_def by simp
    then show ?thesis ..
  qed
next
  assume "\<exists>t. ts_next t s = Some s'"
  then obtain t where t: "ts_next t s = Some s'" by blast
  obtain ms r where th: "sl_threads s ! t = \<lparr>lt_todo = ms, lt_rest = r\<rparr>"
    by (cases "sl_threads s ! t")
  show "ts_log_step s s'"
  proof (cases r)
    case None
    with t th obtain m ms' where "ms = m # ms'"
      by (cases ms) (simp_all add: ts_next_def split: if_splits)
    with None t th ts_log_step.enter [of t s m ms'] show ?thesis
      by (simp add: ts_next_def split: if_splits del: split_paired_All)
  next
    case (Some xs)
    with t th show ?thesis
      by (cases xs) (auto simp: ts_next_def split: if_splits intro: ts_log_step.intros)
  qed
qed

fun ts_run :: "nat list \<Rightarrow> shared_log \<Rightarrow> shared_log option" where
  "ts_run [] s = Some s"
| "ts_run (t # ts) s = (case ts_next t s of None \<Rightarrow> None | Some s' \<Rightarrow> ts_run ts s')"

definition shared_log_new :: "Level \<Rightarrow> (Level \<times> string) list list \<Rightarrow> shared_log" where
  "shared_log_new level todos =
     \<lparr>sl_level = level, sl_text = [], sl_lock = None,
      sl_threads = map (\<lambda>ms. \<lparr>lt_todo = ms, lt_rest = None\<rparr>) todos, sl_order = []\<rparr>"

inductive ts_reach :: "Level \<Rightarrow> (Level \<times> string) list list \<Rightarrow> shared_log \<Rightarrow> bool" for level todos where
  init: "ts_reach level todos (shared_log_new level todos)"
| step: "ts_reach level todos s \<Longrightarrow> ts_log_step s s' \<Longrightarrow> ts_reach level todos s'"

lemma ts_run_reach: "ts_run ts s = Some s' \<Longrightarrow> ts_reach level todos s \<Longrightarrow> ts_reach level todos s'"
proof (induction ts arbitrary: s)
  case (Cons t ts)
  then obtain s1 where "ts_next t s = Some s1" "ts_run ts s1 = Some s'"
    by (auto split: option.splits)
  with Cons.IH [of s1] Cons.prems(2) show ?case
    using ts_log_step_iff ts_reach.step by blast
qed simp

definition in_log :: "shared_log \<Rightarrow> nat \<Rightarrow> bool" where
  "in_log s t \<longleftrightarrow> lt_rest (sl_threads s ! t) \<noteq> None"

definition pending_text :: "shared_log \<Rightarrow> string" where
  "pending_text s = (case sl_lock s of None \<Rightarrow> []
     | Some t \<Rightarrow> (case lt_rest (sl_threads s ! t) of None \<Rightarrow> [] | Some xs \<Rightarrow> concat xs))"

definition own_order :: "nat \<Rightarrow> shared_log \<Rightarrow> (Level \<times> string) list" where
  "own_order t s = map snd (filter (\<lambda>(u, _). u = t) (sl_order s))"

definition ts_inv :: "Level \<Rightarrow> (Level \<times> string) list list \<Rightarrow> shared_log \<Rightarrow> bool" where
  "ts_inv level todos s \<longleftrightarrow>
     sl_level s = level \<and> length (sl_threads s) = length todos \<and>
     (\<forall>t < length todos. in_log s t \<longleftrightarrow> sl_lock s = Some t) \<and>
     (\<forall>t. sl_lock s = Some t \<longrightarrow> t < length todos) \<and>
     sl_text s @ pending_text s = lines_upto level (map snd (sl_order s)) \<and>
     (\<forall>t < length todos. own_order t s @ lt_todo (sl_threads s ! t) = todos ! t)"

lemma lines_upto_snoc:
  "lines_upto level (ms @ [m]) = lines_upto level ms @ (if fst m \<le> level then log_line (fst m) (snd m) else [])"
  by (cases m) (simp add: lines_upto_def)

lemma ts_inv_step:
  assumes "ts_inv level todos s" and "ts_log_step s s'"
  shows "ts_inv level todos s'"
  using assms(2)
proof (cases rule: ts_log_step.cases)
  case (enter t m ms)
  then have "\<forall>u < length todos. \<not> in_log s u" "pending_text s = []"
    using assms(1) by (auto simp: ts_inv_def pending_text_def)
  with enter assms(1) show ?thesis
    unfolding ts_inv_def in_log_def pending_text_def own_order_def
    by (auto simp: nth_list_update lines_upto_snoc concat_insertions)
next
  case (insert t ms x xs)
  then have "sl_lock s = Some t" using assms(1) by (auto simp: ts_inv_def in_log_def)
  with insert assms(1) show ?thesis
    unfolding ts_inv_def in_log_def pending_text_def own_order_def
    by (auto simp: nth_list_update)
next
  case (leave t ms)
  then have "sl_lock s = Some t" using assms(1) by (auto simp: ts_inv_def in_log_def)
  with leave assms(1) show ?thesis
    unfolding ts_inv_def in_log_def pending_text_def own_order_def
    by (auto simp: nth_list_update)
qed

lemma ts_reach_inv: "ts_reach level todos s \<Longrightarrow> ts_inv level todos s"
proof (induction rule: ts_reach.induct)
  case init
  show ?case
    by (auto simp: ts_inv_def shared_log_new_def in_log_def pending_text_def own_order_def lines_upto_def)
qed (rule ts_inv_step)

text \<open>
  C34: Thread-safe loggers do not tear lines. However the insertions of any number of threads
  interleave, whenever no thread is inside \<open>log\<close> the sink holds exactly the admitted lines of
  the messages logged so far, whole and in the order in which the mutex was taken, and each
  thread's own messages appear in the order in which it logs them.
\<close>
theorem thread_safe_lines:
  assumes "ts_reach level todos s" and "\<forall>t < length todos. \<not> in_log s t"
  shows "sl_text s = lines_upto level (map snd (sl_order s)) \<and>
    (\<forall>t < length todos. own_order t s @ lt_todo (sl_threads s ! t) = todos ! t)"
proof -
  have inv: "ts_inv level todos s" by (rule ts_reach_inv [OF assms(1)])
  have "sl_lock s = None"
    using inv assms(2) by (cases "sl_lock s") (auto simp: ts_inv_def)
  with inv show ?thesis by (simp add: ts_inv_def pending_text_def)
qed

theorem thread_safe_lines_witness:
  "map_option sl_text (ts_run [0, 0, 0, 0, 0, 0, 0, 1, 1]
     (shared_log_new INFO [[(INFO, ''a'')], [(DEBUG, ''b'')]])) = Some (''[INFO]: a'' @ [LF])"
proof -
  let ?todos = "[[(INFO, ''a'')], [(DEBUG, ''b'')]]"
  let ?s = "\<lparr>sl_level = INFO, sl_text = ''[INFO]: a'' @ [LF], sl_lock = None,
    sl_threads = [\<lparr>lt_todo = [], lt_rest = None\<rparr>, \<lparr>lt_todo = [], lt_rest = None\<rparr>],
    sl_order = [(0, INFO, ''a''), (1, DEBUG, ''b'')]\<rparr>"
  have run: "ts_run [0, 0, 0, 0, 0, 0, 0, 1, 1] (shared_log_new INFO ?todos) = Some ?s"
    by code_simp
  have out: "\<forall>t < length ?todos. \<not> in_log ?s t"
    by (auto simp: in_log_def less_Suc_eq)
  have "sl_text ?s = lines_upto INFO (map snd (sl_order ?s))"
    using thread_safe_lines [OF ts_run_reach [OF run ts_reach.init] out] by blast
  moreover have "lines_upto INFO (map snd (sl_order ?s)) = ''[INFO]: a'' @ [LF]"
    by code_simp
  ultimately show ?thesis by (simp only: run option.map)
qed

end
