(* ===== verification/Cli.thy ===== *)
theory Cli
  imports Cpp_String Logging
begin

text \<open>
  The option parsers of the example programs: \<^verbatim>\<open>examples/*/include/*cli.hpp\<close>. \<^verbatim>\<open>getopt\<close> is
  modelled for short options with the usual reordering of arguments: an option string in which
  a colon marks an option with an argument, clusters of options, \<^verbatim>\<open>--\<close>.
\<close>

section \<open>getopt\<close>

text \<open>Whether an option is known and, if it is, whether it has an argument.\<close>

fun opt_kind :: "string \<Rightarrow> char \<Rightarrow> bool option" where
  "opt_kind [] c = None"
| "opt_kind (x # xs) c =
     (if x = c \<and> c \<noteq> CHR '':'' then Some (xs \<noteq> [] \<and> hd xs = CHR '':'') else opt_kind xs c)"

text \<open>One argument, behind its dash; \<open>rest\<close> are the arguments that follow it.\<close>

fun opt_cluster :: "string \<Rightarrow> string \<Rightarrow> string list \<Rightarrow> (char \<times> string option) list \<times> string list" where
  "opt_cluster spec [] rest = ([], rest)"
| "opt_cluster spec (c # cs) rest =
     (case opt_kind spec c of
        None \<Rightarrow> (case opt_cluster spec cs rest of (os, r) \<Rightarrow> ((CHR ''?'', None) # os, r))
      | Some False \<Rightarrow> (case opt_cluster spec cs rest of (os, r) \<Rightarrow> ((c, None) # os, r))
      | Some True \<Rightarrow>
          if cs \<noteq> [] then ([(c, Some cs)], rest)
          else (case rest of [] \<Rightarrow> ([(CHR ''?'', None)], []) | a # rest \<Rightarrow> ([(c, Some a)], rest)))"

lemma opt_cluster_length: "length (snd (opt_cluster spec cs rest)) \<le> length rest"
  by (induction spec cs rest rule: opt_cluster.induct)
    (auto split: option.splits bool.splits prod.splits list.splits)

lemma opt_cluster_shorter: "(os, r) = opt_cluster spec cs rest \<Longrightarrow> length r < Suc (length rest)"
  using opt_cluster_length [of spec cs rest] by (metis le_imp_less_Suc snd_conv)

function getopt :: "string \<Rightarrow> string list \<Rightarrow> (char \<times> string option) list" where
  "getopt spec [] = []"
| "getopt spec (a # rest) =
     (if a = ''--'' then []
      else if 1 < length a \<and> hd a = CHR ''-'' then
        (case opt_cluster spec (tl a) rest of (os, r) \<Rightarrow> os @ getopt spec r)
      else getopt spec rest)"
  by pat_completeness auto
termination
  by (relation "measure (\<lambda>(spec, args). length args)") (auto dest: opt_cluster_shorter)

lemma getopt_option_arg:
  "c \<noteq> CHR '':'' \<Longrightarrow> c \<noteq> CHR ''-'' \<Longrightarrow> opt_kind spec c = Some True \<Longrightarrow>
     getopt spec ([CHR ''-'', c] # a # rest) = (c, Some a) # getopt spec rest"
  by simp

lemma opt_cluster_known:
  "(c, a) \<in> set (fst (opt_cluster spec cs rest)) \<Longrightarrow>
     c = CHR ''?'' \<and> a = None \<or> (\<exists>b. opt_kind spec c = Some b \<and> (a \<noteq> None \<longleftrightarrow> b))"
  by (induction spec cs rest rule: opt_cluster.induct)
    (auto split: option.splits bool.splits prod.splits list.splits if_splits)

lemma getopt_known:
  "(c, a) \<in> set (getopt spec args) \<Longrightarrow>
     c = CHR ''?'' \<and> a = None \<or> (\<exists>b. opt_kind spec c = Some b \<and> (a \<noteq> None \<longleftrightarrow> b))"
proof (induction spec args rule: getopt.induct)
  case (2 spec x rest)
  obtain os r where o: "opt_cluster spec (tl x) rest = (os, r)" by fastforce
  show ?case
    using 2 opt_cluster_known [of c a spec "tl x" rest] o by (auto split: if_splits)
qed simp

section \<open>Numbers\<close>

text \<open>\<open>optarg\<close> is a null pointer behind an option without an argument.\<close>

datatype cli_exn = StdNumError num_error | NullString

text \<open>\<^verbatim>\<open>std::stoul\<close> and \<^verbatim>\<open>std::stoull\<close>: both 64 bits wide.\<close>

definition opt_number :: "string option \<Rightarrow> cli_exn + u64" where
  "opt_number a =
     (case a of
        None \<Rightarrow> Inl NullString
      | Some s \<Rightarrow> (case stoull s of Inl e \<Rightarrow> Inl (StdNumError e) | Inr n \<Rightarrow> Inr (of_nat n)))"

definition opt_string :: "string option \<Rightarrow> cli_exn + string" where
  "opt_string a = (case a of None \<Rightarrow> Inl NullString | Some s \<Rightarrow> Inr (c_str s))"

text \<open>\<^verbatim>\<open>strtol(s, nullptr, 10)\<close>: no error, the value is clamped to 64 bits.\<close>

definition strtol :: "string \<Rightarrow> int" where
  "strtol s =
     (let t = dropWhile is_space (c_str s);
          neg = (t \<noteq> [] \<and> hd t = CHR ''-'');
          u = (if t \<noteq> [] \<and> (hd t = CHR ''-'' \<or> hd t = CHR ''+'') then tl t else t);
          v = int (dec_val (takeWhile is_digit u))
      in if neg then max (- (2 ^ 63)) (- v) else min (2 ^ 63 - 1) v)"

fun fold_opts :: "(char \<times> string option \<Rightarrow> 'c \<Rightarrow> cli_exn + 'c) \<Rightarrow> (char \<times> string option) list \<Rightarrow> 'c \<Rightarrow> cli_exn + 'c" where
  "fold_opts f [] c = Inr c"
| "fold_opts f (x # xs) c = (case f x c of Inl e \<Rightarrow> Inl e | Inr c \<Rightarrow> fold_opts f xs c)"

definition set_opt :: "cli_exn + 'a \<Rightarrow> ('a \<Rightarrow> 'c) \<Rightarrow> cli_exn + 'c" where
  "set_opt r f = (case r of Inl e \<Rightarrow> Inl e | Inr a \<Rightarrow> Inr (f a))"

lemma fold_opts_inv:
  assumes "\<And>x c c'. x \<in> set xs \<Longrightarrow> P c \<Longrightarrow> f x c = Inr c' \<Longrightarrow> P c'"
  shows "fold_opts f xs c = Inr c' \<Longrightarrow> P c \<Longrightarrow> P c'"
  using assms
proof (induction xs arbitrary: c)
  case (Cons x xs)
  from Cons.prems(1) obtain c1 where c1: "f x c = Inr c1" "fold_opts f xs c1 = Inr c'"
    by (auto split: sum.splits)
  have "P c1" by (rule Cons.prems(3) [OF _ Cons.prems(2) c1(1)]) simp
  then show ?case
    by (rule Cons.IH [OF c1(2)]) (rule Cons.prems(3), simp_all)
qed simp

section \<open>The parsers\<close>

record GeneratorConfig =
  gc_filename :: string
  gc_keys_number :: u64
  gc_keys_step :: u64

definition GeneratorConfig_init :: GeneratorConfig where
  "GeneratorConfig_init = \<lparr>gc_filename = ''/tmp/data.db'', gc_keys_number = 65536, gc_keys_step = 100\<rparr>"

fun generator_opt :: "char \<times> string option \<Rightarrow> GeneratorConfig \<Rightarrow> cli_exn + GeneratorConfig" where
  "generator_opt (opt, optarg) c =
     (if opt = CHR ''n'' then set_opt (opt_number optarg) (\<lambda>v. c\<lparr>gc_keys_number := v\<rparr>)
      else if opt = CHR ''s'' then set_opt (opt_number optarg) (\<lambda>v. c\<lparr>gc_keys_step := v\<rparr>)
      else if opt = CHR ''k'' then set_opt (opt_string optarg) (\<lambda>v. c\<lparr>gc_filename := v\<rparr>)
      else Inr c)"

definition parse_generator_opts :: "string list \<Rightarrow> cli_exn + GeneratorConfig" where
  "parse_generator_opts args = fold_opts generator_opt (getopt ''k:n:s:'' args) GeneratorConfig_init"

record HttpConfig =
  hc_hostname :: string
  hc_port :: u16
  hc_timeout :: int
  hc_concurrency :: u32
  hc_log_level :: Level
  hc_logfile :: "string option"

definition HttpConfig_init :: HttpConfig where
  "HttpConfig_init =
     \<lparr>hc_hostname = ''localhost'', hc_port = 8080, hc_timeout = 1000, hc_concurrency = 4,
      hc_log_level = INFO, hc_logfile = None\<rparr>"

fun http_opt :: "char \<times> string option \<Rightarrow> 'a HttpConfig_scheme \<Rightarrow> cli_exn + 'a HttpConfig_scheme" where
  "http_opt (opt, optarg) c =
     (if opt = CHR ''h'' then set_opt (opt_string optarg) (\<lambda>v. c\<lparr>hc_hostname := v\<rparr>)
      else if opt = CHR ''p'' then set_opt (opt_number optarg) (\<lambda>v. c\<lparr>hc_port := ucast v\<rparr>)
      else if opt = CHR ''t'' then set_opt (opt_number optarg) (\<lambda>v. c\<lparr>hc_timeout := sint v\<rparr>)
      else if opt = CHR ''c'' then set_opt (opt_number optarg) (\<lambda>v. c\<lparr>hc_concurrency := ucast v\<rparr>)
      else if opt = CHR ''i'' then Inr (c\<lparr>hc_log_level := INFO\<rparr>)
      else if opt = CHR ''w'' then Inr (c\<lparr>hc_log_level := WARN\<rparr>)
      else if opt = CHR ''e'' then Inr (c\<lparr>hc_log_level := ERROR\<rparr>)
      else if opt = CHR ''d'' then Inr (c\<lparr>hc_log_level := DEBUG\<rparr>)
      else if opt = CHR ''l'' then set_opt (opt_string optarg) (\<lambda>v. c\<lparr>hc_logfile := Some v\<rparr>)
      else Inr c)"

definition parse_http_opts :: "string list \<Rightarrow> cli_exn + HttpConfig" where
  "parse_http_opts args = fold_opts http_opt (getopt ''h:p:t:i:w:e:l'' args) HttpConfig_init"

record KVStoreConfig = HttpConfig +
  kc_kvstore_file :: string
  kc_kvstore_size :: u64

definition KVStoreConfig_init :: KVStoreConfig where
  "KVStoreConfig_init =
     \<lparr>hc_hostname = ''localhost'', hc_port = 8080, hc_timeout = 1000, hc_concurrency = 4,
      hc_log_level = INFO, hc_logfile = None, kc_kvstore_file = ''/tmp/data.db'', kc_kvstore_size = 0\<rparr>"

fun kvstore_opt :: "char \<times> string option \<Rightarrow> KVStoreConfig \<Rightarrow> cli_exn + KVStoreConfig" where
  "kvstore_opt (opt, optarg) c =
     (if opt = CHR ''s'' then set_opt (opt_number optarg) (\<lambda>v. c\<lparr>kc_kvstore_size := v\<rparr>)
      else if opt = CHR ''k'' then set_opt (opt_string optarg) (\<lambda>v. c\<lparr>kc_kvstore_file := v\<rparr>)
      else http_opt (opt, optarg) c)"

definition parse_kvstore_opts :: "string list \<Rightarrow> cli_exn + KVStoreConfig" where
  "parse_kvstore_opts args = fold_opts kvstore_opt (getopt ''h:p:t:i:w:e:l:s:k:'' args) KVStoreConfig_init"

record TcpConfig =
  tc_hostname :: string
  tc_port :: u16

definition TcpConfig_init :: TcpConfig where
  "TcpConfig_init = \<lparr>tc_hostname = ''localhost'', tc_port = 8080\<rparr>"

fun tcp_opt :: "char \<times> string option \<Rightarrow> TcpConfig \<Rightarrow> cli_exn + TcpConfig" where
  "tcp_opt (opt, optarg) c =
     (if opt = CHR ''h'' then set_opt (opt_string optarg) (\<lambda>v. c\<lparr>tc_hostname := v\<rparr>)
      else if opt = CHR ''p'' then set_opt (opt_string optarg) (\<lambda>v. c\<lparr>tc_port := of_int (strtol v)\<rparr>)
      else Inr c)"

definition parse_tcp_opts :: "string list \<Rightarrow> cli_exn + TcpConfig" where
  "parse_tcp_opts args = fold_opts tcp_opt (getopt ''h:p:'' args) TcpConfig_init"

section \<open>What the parsers accept\<close>

text \<open>
  The options of the key-value server. Each of the options host, port, time-out, log file,
  size and file, given with its argument, ends up in the configuration: numbers are read in
  full, and of the port only the lowest sixteen bits are kept.
\<close>
theorem kvstore_opts_read:
  assumes "n < 2 ^ 64" and "ms < 2 ^ 63" and "port < 2 ^ 64"
    and "NUL \<notin> set host" and "NUL \<notin> set log" and "NUL \<notin> set db"
  shows "parse_kvstore_opts
      [''-h'', host, ''-p'', to_dec port, ''-t'', to_dec ms, ''-l'', log, ''-s'', to_dec n, ''-k'', db] =
    Inr \<lparr>hc_hostname = host, hc_port = of_nat (port mod 65536), hc_timeout = int ms, hc_concurrency = 4,
      hc_log_level = INFO, hc_logfile = Some log, kc_kvstore_file = db, kc_kvstore_size = of_nat n\<rparr>"
proof -
  have ms: "stoull (to_dec ms) = Inr ms" using assms(2) by (intro stoull_to_dec) simp
  have p: "(ucast (of_nat port :: u64) :: u16) = of_nat (port mod 65536)"
    using assms(3) by (simp add: word_unat_eq_iff unsigned_ucast_eq take_bit_eq_mod unat_of_nat)
  have t: "sint (of_nat ms :: u64) = int ms"
    using assms(2) by (simp add: sint_uint signed_take_bit_int_eq_self uint_nat unat_of_nat)
  show ?thesis
    using assms ms stoull_to_dec [OF assms(1)] stoull_to_dec [OF assms(3)]
    by (simp add: parse_kvstore_opts_def KVStoreConfig_init_def opt_number_def opt_string_def set_opt_def p t)
qed

text \<open>
  Neither concurrency nor the level DEBUG can be chosen. The switches for \<^verbatim>\<open>-c\<close> and \<^verbatim>\<open>-d\<close> are
  in the code but not in the option string, so that on every command line that is accepted,
  of both servers, the concurrency is the default 4 and the level is not DEBUG. And the log
  file of the HTTP example cannot be chosen either: its \<^verbatim>\<open>l\<close> has no argument, so that \<^verbatim>\<open>-l\<close>
  makes a string of a null pointer.
\<close>
theorem unreachable_options:
  "(case parse_http_opts args of Inl _ \<Rightarrow> True | Inr c \<Rightarrow> hc_concurrency c = 4 \<and> hc_log_level c \<noteq> DEBUG) \<and>
   (case parse_kvstore_opts args of Inl _ \<Rightarrow> True | Inr c \<Rightarrow> hc_concurrency c = 4 \<and> hc_log_level c \<noteq> DEBUG) \<and>
   parse_http_opts (''-l'' # args) = Inl NullString"
proof (intro conjI)
  have known: "c \<noteq> CHR ''c'' \<and> c \<noteq> CHR ''d''"
    if "(c, a) \<in> set (getopt spec args)" "opt_kind spec CHR ''c'' = None" "opt_kind spec CHR ''d'' = None"
    for c a spec
    using getopt_known [OF that(1)] that(2,3) by auto
  show "case parse_http_opts args of Inl _ \<Rightarrow> True | Inr c \<Rightarrow> hc_concurrency c = 4 \<and> hc_log_level c \<noteq> DEBUG"
  proof (cases "parse_http_opts args")
    case (Inr c)
    have "hc_concurrency c = 4 \<and> hc_log_level c \<noteq> DEBUG"
      by (rule fold_opts_inv [OF _ Inr [unfolded parse_http_opts_def]])
        (use known in \<open>auto simp: HttpConfig_init_def set_opt_def split: if_splits sum.splits\<close>)
    with Inr show ?thesis by simp
  qed simp
  show "case parse_kvstore_opts args of Inl _ \<Rightarrow> True | Inr c \<Rightarrow> hc_concurrency c = 4 \<and> hc_log_level c \<noteq> DEBUG"
  proof (cases "parse_kvstore_opts args")
    case (Inr c)
    have "hc_concurrency c = 4 \<and> hc_log_level c \<noteq> DEBUG"
      by (rule fold_opts_inv [OF _ Inr [unfolded parse_kvstore_opts_def]])
        (use known in \<open>auto simp: KVStoreConfig_init_def set_opt_def split: if_splits sum.splits\<close>)
    with Inr show ?thesis by simp
  qed simp
  show "parse_http_opts (''-l'' # args) = Inl NullString"
    by (simp add: parse_http_opts_def HttpConfig_init_def set_opt_def opt_string_def split: prod.split)
qed

theorem kvstore_opts_read_witness:
  "map_sum id hc_port (parse_kvstore_opts
      [''-h'', ''::1'', ''-p'', to_dec 70000, ''-t'', to_dec 5, ''-l'', ''log'', ''-s'', to_dec 3, ''-k'', ''db'']) = Inr 4464"
  using kvstore_opts_read [of 3 5 70000 "''::1''" "''log''" "''db''"] by simp

end
