(* ===== verification/KV_File.thy ===== *)
theory KV_File
  imports Posix_IO
begin

text \<open>
  \<^verbatim>\<open>include/kvstore/file.hpp\<close>, \<^verbatim>\<open>descriptor.hpp\<close>, \<^verbatim>\<open>exceptions.hpp\<close> and their sources: a
  memory-mapped file of fixed-size records, with the descriptors and the disk contents it is
  made from. An access outside the mapping is the value \<open>Inl BadAccess\<close> (the process would
  receive a signal).
\<close>

section \<open>Exceptions\<close>

datatype kv_exn = Exception string | ErrnoException string errno

fun kv_what :: "kv_exn \<Rightarrow> string" where
  "kv_what (Exception msg) = msg"
| "kv_what (ErrnoException msg _) = msg"

fun get_errno :: "kv_exn \<Rightarrow> errno option" where
  "get_errno (Exception _) = None"
| "get_errno (ErrnoException _ e) = Some e"

datatype fault = BadAccess | DivideByZero

section \<open>Records\<close>

text \<open>
  \<^verbatim>\<open>struct Data\<close> is trivially copyable, 32 bytes long: the key, least significant byte first,
  twenty bytes of data and four of padding, which \<^verbatim>\<open>memcpy\<close> moves along with the rest.
\<close>

record Data =
  d_key :: u64
  d_data :: "u8 list"
  d_pad :: "u8 list"

definition sizeof_Data :: nat where
  "sizeof_Data = 32"

fun le_bytes :: "nat \<Rightarrow> nat \<Rightarrow> u8 list" where
  "le_bytes 0 v = []"
| "le_bytes (Suc n) v = of_nat (v mod 256) # le_bytes n (v div 256)"

fun le_value :: "u8 list \<Rightarrow> nat" where
  "le_value [] = 0"
| "le_value (b # bs) = unat b + 256 * le_value bs"

definition Data_bytes :: "Data \<Rightarrow> u8 list" where
  "Data_bytes d = le_bytes 8 (unat (d_key d)) @ d_data d @ d_pad d"

definition Data_of :: "u8 list \<Rightarrow> Data" where
  "Data_of bs = \<lparr>d_key = of_nat (le_value (take 8 bs)), d_data = take 20 (drop 8 bs), d_pad = drop 28 bs\<rparr>"

definition Data_wf :: "Data \<Rightarrow> bool" where
  "Data_wf d \<longleftrightarrow> length (d_data d) = 20 \<and> length (d_pad d) = 4"

lemma length_le_bytes [simp]: "length (le_bytes n v) = n"
  by (induction n arbitrary: v) simp_all

lemma le_value_bytes: "le_value (le_bytes n v) = v mod 256 ^ n"
proof (induction n arbitrary: v)
  case (Suc n)
  have "unat (of_nat (v mod 256) :: u8) = v mod 256"
    by (simp add: unat_of_nat)
  with Suc show ?case
    by (simp add: mod_mult2_eq)
qed simp

lemma length_Data_bytes [simp]: "Data_wf d \<Longrightarrow> length (Data_bytes d) = sizeof_Data"
  by (simp add: Data_bytes_def Data_wf_def sizeof_Data_def)

lemma unat_u64_less: "unat (k :: u64) < 256 ^ 8"
  using unsigned_less [of k] by simp

lemma Data_of_bytes [simp]:
  assumes "Data_wf d"
  shows "Data_of (Data_bytes d) = d"
proof -
  have "le_value (le_bytes 8 (unat (d_key d))) = unat (d_key d)"
    using unat_u64_less [of "d_key d"] by (simp only: le_value_bytes mod_less)
  with assms show ?thesis
    by (cases d) (simp add: Data_of_def Data_bytes_def Data_wf_def)
qed

section \<open>Descriptors and the disk\<close>

text \<open>
  What the process has open, how many descriptors it may have, and the contents of the
  regular files it can open.
\<close>

record kv_os =
  os_fds :: "(nat \<times> string) list"
  os_limit :: nat
  os_disk :: "string \<Rightarrow> u8 list option"

definition lowest_free :: "nat list \<Rightarrow> nat" where
  "lowest_free fds = hd (filter (\<lambda>n. n \<notin> set fds) [0..<Suc (length fds)])"

datatype open_flags = O_RDONLY | O_RDWR | O_RDWR_CREAT_TRUNC

definition sys_open :: "string \<Rightarrow> open_flags \<Rightarrow> kv_os \<Rightarrow> (errno + nat) \<times> kv_os" where
  "sys_open path flags s =
     (if os_limit s \<le> length (os_fds s) then (Inl EMFILE, s)
      else if flags \<noteq> O_RDWR_CREAT_TRUNC \<and> os_disk s path = None then (Inl ENOENT, s)
      else let fd = lowest_free (map fst (os_fds s));
               s = (if flags = O_RDWR_CREAT_TRUNC then s\<lparr>os_disk := (os_disk s)(path \<mapsto> [])\<rparr> else s)
           in (Inr fd, s\<lparr>os_fds := (fd, path) # os_fds s\<rparr>))"

definition sys_close :: "nat \<Rightarrow> kv_os \<Rightarrow> kv_os" where
  "sys_close fd s = s\<lparr>os_fds := filter (\<lambda>(f, _). f \<noteq> fd) (os_fds s)\<rparr>"

text \<open>
  \<^verbatim>\<open>Descriptor\<close> keeps what \<^verbatim>\<open>open\<close> returned, \<open>Inl\<close> being -1. Its destructor closes -1 and
  nothing else; \<^verbatim>\<open>close(-1)\<close> fails without an effect.
\<close>

type_synonym Descriptor = "errno + nat"

definition Descriptor_dtor :: "Descriptor \<Rightarrow> kv_os \<Rightarrow> kv_os" where
  "Descriptor_dtor fd s = (case fd of Inl _ \<Rightarrow> s | Inr n \<Rightarrow> s)"

section \<open>Mapped files\<close>

datatype Mode = READONLY | READWRITE

text \<open>
  The object: the readable bytes from \<^verbatim>\<open>data_\<close> on (\<open>None\<close> is the null pointer of a moved-from
  object), \<^verbatim>\<open>size_\<close>, and the file a shared mapping writes to.
\<close>

record File =
  f_data :: "u8 list option"
  f_size :: u64
  f_shared :: "string option"

definition page_up :: "nat \<Rightarrow> nat \<Rightarrow> nat" where
  "page_up pg n = (n + pg - 1) div pg * pg"

definition zeros :: "nat \<Rightarrow> u8 list" where
  "zeros n = replicate n 0"

text \<open>
  \<^verbatim>\<open>mmap\<close> maps whole pages of \<open>pg\<close> bytes. The file shows up to its last page, whose rest is
  zero; pages behind it cannot be accessed. \<open>beyond\<close> are the bytes that happen to be mapped
  right behind the mapping: unless the file is shorter than the mapping they can be read, too.
\<close>

definition sys_mmap :: "nat \<Rightarrow> u8 list \<Rightarrow> Descriptor \<Rightarrow> u64 \<Rightarrow> kv_os \<Rightarrow> errno + u8 list" where
  "sys_mmap pg beyond fd sz s =
     (case fd of
        Inl _ \<Rightarrow> Inl EBADF
      | Inr n \<Rightarrow>
          (case map_of (os_fds s) n of
             None \<Rightarrow> Inl EBADF
           | Some path \<Rightarrow>
               if sz = 0 then Inl EINVAL
               else let content = (case os_disk s path of None \<Rightarrow> [] | Some c \<Rightarrow> c);
                        whole = content @ zeros (page_up pg (length content) - length content);
                        len = page_up pg (unat sz)
                    in Inr (take len whole @ (if len \<le> length whole then beyond else []))))"

definition File_new ::
    "nat \<Rightarrow> u8 list \<Rightarrow> string \<Rightarrow> u64 \<Rightarrow> Mode \<Rightarrow> kv_os \<Rightarrow> (kv_exn + File) \<times> kv_os" where
  "File_new pg beyond path sz mode s =
     (if mode = READONLY then
        (case sys_open path O_RDONLY s of
           (fd, s) \<Rightarrow>
             (case sys_mmap pg beyond fd sz s of
                Inl e \<Rightarrow> (Inl (ErrnoException ''fail to mmap file'' e), Descriptor_dtor fd s)
              | Inr bytes \<Rightarrow>
                  (Inr \<lparr>f_data = Some bytes, f_size = sz, f_shared = None\<rparr>, Descriptor_dtor fd s)))
      else
        (case sys_open path O_RDWR s of
           (fd, s) \<Rightarrow>
             (case sys_mmap pg beyond fd sz s of
                Inl e \<Rightarrow> (Inl (ErrnoException ''fail to mmap file'' e), Descriptor_dtor fd s)
              | Inr bytes \<Rightarrow>
                  (Inr \<lparr>f_data = Some bytes, f_size = sz, f_shared = Some path\<rparr>,
                   Descriptor_dtor fd s))))"

definition read_at :: "File \<Rightarrow> u64 \<Rightarrow> fault + Data" where
  "read_at f position =
     (case f_data f of
        None \<Rightarrow> Inl BadAccess
      | Some bytes \<Rightarrow>
          if unat position + sizeof_Data \<le> length bytes
          then Inr (Data_of (take sizeof_Data (drop (unat position) bytes)))
          else Inl BadAccess)"

definition write_at :: "Data \<Rightarrow> u64 \<Rightarrow> File \<Rightarrow> fault + File" where
  "write_at obj position f =
     (case f_data f of
        None \<Rightarrow> Inl BadAccess
      | Some bytes \<Rightarrow>
          if unat position + sizeof_Data \<le> length bytes
          then Inr (f\<lparr>f_data := Some (splice (unat position) (Data_bytes obj) bytes)\<rparr>)
          else Inl BadAccess)"

text \<open>
  \<^verbatim>\<open>munmap\<close>; what was written to a shared mapping is in the file, as far as the file goes.
  (The program never has two mappings of one file at a time, so the file need not follow each
  write.)
\<close>

definition File_dtor :: "nat \<Rightarrow> File \<Rightarrow> kv_os \<Rightarrow> kv_os" where
  "File_dtor pg f s =
     (case f_data f of
        None \<Rightarrow> s
      | Some bytes \<Rightarrow>
          (case f_shared f of
             None \<Rightarrow> s
           | Some path \<Rightarrow>
               (case os_disk s path of
                  None \<Rightarrow> s
                | Some content \<Rightarrow>
                    let n = min (length content) (page_up pg (unat (f_size f)))
                    in s\<lparr>os_disk := (os_disk s)(path \<mapsto> take n bytes @ drop n content)\<rparr>)))"

text \<open>The move constructor gives the new object and what remains of the old one.\<close>

definition File_move :: "File \<Rightarrow> File \<times> File" where
  "File_move other = (other, \<lparr>f_data = None, f_size = 0, f_shared = None\<rparr>)"

text \<open>Move assignment: the old mapping ends with the temporary it was swapped into.\<close>

definition File_assign :: "nat \<Rightarrow> File \<Rightarrow> File \<Rightarrow> kv_os \<Rightarrow> File \<times> File \<times> kv_os" where
  "File_assign pg this other s =
     (case File_move other of
        (tmp, other) \<Rightarrow> (case (tmp, this) of (this, tmp) \<Rightarrow> (this, other, File_dtor pg tmp s)))"

section \<open>Reading what was written\<close>

lemma read_write_same:
  assumes "write_at d p f = Inr f'" and "Data_wf d"
  shows "read_at f' p = Inr d"
proof -
  from assms obtain bytes where b: "f_data f = Some bytes" "unat p + sizeof_Data \<le> length bytes"
    and f': "f' = f\<lparr>f_data := Some (splice (unat p) (Data_bytes d) bytes)\<rparr>"
    by (auto simp: write_at_def split: option.splits if_splits)
  have "take sizeof_Data (drop (unat p) (splice (unat p) (Data_bytes d) bytes)) = Data_bytes d"
    using b assms(2) by (simp add: splice_def)
  with b f' assms(2) show ?thesis by (simp add: read_at_def)
qed

lemma slice_splice_other:
  assumes "pos + length xs \<le> length buf" and "q + n \<le> length buf" and "q + n \<le> pos \<or> pos + length xs \<le> q"
  shows "take n (drop q (splice pos xs buf)) = take n (drop q buf)"
  by (rule nth_equalityI) (use assms in \<open>auto simp: nth_splice_other\<close>)

lemma read_write_other:
  assumes "write_at d p f = Inr f'" and "Data_wf d"
    and "unat q + sizeof_Data \<le> unat p \<or> unat p + sizeof_Data \<le> unat q"
  shows "read_at f' q = read_at f q"
proof -
  from assms obtain bytes where b: "f_data f = Some bytes" "unat p + sizeof_Data \<le> length bytes"
    and f': "f' = f\<lparr>f_data := Some (splice (unat p) (Data_bytes d) bytes)\<rparr>"
    by (auto simp: write_at_def split: option.splits if_splits)
  have "take sizeof_Data (drop (unat q) (splice (unat p) (Data_bytes d) bytes)) =
      take sizeof_Data (drop (unat q) bytes)" if "unat q + sizeof_Data \<le> length bytes"
    using b assms(2,3) that by (intro slice_splice_other) auto
  with b f' assms(2) show ?thesis by (simp add: read_at_def)
qed

section \<open>The descriptors of mapped files\<close>

text \<open>Opening and destroying the same file again and again.\<close>

fun reopen :: "nat \<Rightarrow> nat \<Rightarrow> string \<Rightarrow> u64 \<Rightarrow> kv_os \<Rightarrow> (kv_exn + unit) \<times> kv_os" where
  "reopen 0 pg path sz s = (Inr (), s)"
| "reopen (Suc n) pg path sz s =
     and_then (File_new pg [] path sz READONLY s) (\<lambda>f s. reopen n pg path sz (File_dtor pg f s))"

lemma File_new_ok:
  assumes "length (os_fds s) < os_limit s" and "os_disk s path = Some content" and "sz \<noteq> 0"
  shows "\<exists>f. File_new pg [] path sz READONLY s =
      (Inr f, s\<lparr>os_fds := (lowest_free (map fst (os_fds s)), path) # os_fds s\<rparr>) \<and>
    f_shared f = None \<and> f_size f = sz"
  using assms by (simp add: File_new_def sys_open_def sys_mmap_def Descriptor_dtor_def Let_def)

lemma File_new_full:
  assumes "os_limit s \<le> length (os_fds s)"
  shows "File_new pg [] path sz READONLY s = (Inl (ErrnoException ''fail to mmap file'' EBADF), s)"
  using assms by (simp add: File_new_def sys_open_def sys_mmap_def Descriptor_dtor_def)

lemma File_dtor_private: "f_shared f = None \<Longrightarrow> File_dtor pg f s = s"
  by (simp add: File_dtor_def split: option.splits)

text \<open>
  A \<^verbatim>\<open>File\<close> never gives its descriptor back. With room for exactly \<open>k\<close> more descriptors,
  opening and destroying an existing file \<open>k\<close> times leaves all of them open, and the next
  attempt throws "fail to mmap file" with EBADF (\<^verbatim>\<open>mmap\<close> of -1, not the EMFILE of \<^verbatim>\<open>open\<close>),
  although no object is alive.
\<close>
theorem file_leaks_descriptors:
  assumes "length (os_fds s) + k = os_limit s" and "os_disk s path = Some content" and "sz \<noteq> 0"
  shows "\<exists>s'. reopen k pg path sz s = (Inr (), s') \<and> length (os_fds s') = os_limit s \<and>
    reopen (Suc k) pg path sz s = (Inl (ErrnoException ''fail to mmap file'' EBADF), s')"
  using assms(1,2)
proof (induction k arbitrary: s)
  case 0
  then show ?case by (simp add: File_new_full)
next
  case (Suc k)
  define fd where "fd = lowest_free (map fst (os_fds s))"
  obtain f where f: "File_new pg [] path sz READONLY s = (Inr f, s\<lparr>os_fds := (fd, path) # os_fds s\<rparr>)"
    "f_shared f = None"
    unfolding fd_def using Suc.prems File_new_ok [of s path content sz pg] assms(3) by auto
  let ?s = "s\<lparr>os_fds := (fd, path) # os_fds s\<rparr>"
  have step: "reopen (Suc m) pg path sz s = reopen m pg path sz ?s" for m
    by (simp add: f File_dtor_private)
  have "length (os_fds ?s) + k = os_limit ?s" "os_disk ?s path = Some content"
    using Suc.prems by simp_all
  note ih = Suc.IH [OF this]
  show ?case
    unfolding step using ih by simp
qed

theorem file_leaks_descriptors_witness:
  "\<exists>s'. reopen (Suc 2) 32 ''db'' 64 \<lparr>os_fds = [], os_limit = 2, os_disk = [''db'' \<mapsto> zeros 64]\<rparr> =
     (Inl (ErrnoException ''fail to mmap file'' EBADF), s') \<and> length (os_fds s') = 2"
proof -
  let ?s = "\<lparr>os_fds = [], os_limit = 2, os_disk = [''db'' \<mapsto> zeros 64]\<rparr>"
  have "length (os_fds ?s) + 2 = os_limit ?s" "os_disk ?s ''db'' = Some (zeros 64)" "(64 :: u64) \<noteq> 0"
    by simp_all
  from file_leaks_descriptors [OF this, of 32] show ?thesis
    by (auto simp del: reopen.simps)
qed

end
