(* ===== verification/KV_Store.thy ===== *)
theory KV_Store
  imports KV_File
begin

text \<open>
  \<^verbatim>\<open>include/kvstore/index.hpp\<close> and \<^verbatim>\<open>store.hpp\<close>: the sparse index over a file of records
  sorted by key and the binary search inside one of its pages. Offsets are \<^verbatim>\<open>size_t\<close> and wrap.
  An operation that may not return is a \<^theory_text>\<open>partial_function (option)\<close>; its value is \<^term>\<open>None\<close> if
  it loops for ever.
\<close>

section \<open>The index\<close>

text \<open>\<^verbatim>\<open>std::map<Key, size_t>\<close>: the entries in the order of their keys, one for each key.\<close>

fun map_put :: "u64 \<Rightarrow> u64 \<Rightarrow> (u64 \<times> u64) list \<Rightarrow> (u64 \<times> u64) list" where
  "map_put k v [] = [(k, v)]"
| "map_put k v ((k', v') # rest) =
     (if k < k' then (k, v) # (k', v') # rest
      else if k = k' then (k, v) # rest
      else (k', v') # map_put k v rest)"

text \<open>An iterator is a position; \<^verbatim>\<open>end()\<close> is the number of entries.\<close>

definition lower_bound :: "u64 \<Rightarrow> (u64 \<times> u64) list \<Rightarrow> nat" where
  "lower_bound k store = length (takeWhile (\<lambda>(k', _). k' < k) store)"

record KVIndex =
  store_ix :: "(u64 \<times> u64) list"
  page_size :: u64
  last_page_size :: u64

partial_function (option) index_loop ::
    "File \<Rightarrow> u64 \<Rightarrow> u64 \<Rightarrow> (u64 \<times> u64) list \<Rightarrow> (fault + (u64 \<times> u64) list) option" where
  "index_loop f psize i store =
     (if i < f_size f then
        (case read_at f i of
           Inl e \<Rightarrow> Some (Inl e)
         | Inr d \<Rightarrow> index_loop f psize (i + psize) (map_put (d_key d) i store))
      else Some (Inr store))"

definition KVIndex_new :: "File \<Rightarrow> u64 \<Rightarrow> (fault + KVIndex) option" where
  "KVIndex_new f keys_per_index_page =
     (let psize = of_nat sizeof_Data * keys_per_index_page
      in if psize = 0 then Some (Inl DivideByZero)
         else let last = f_size f mod psize;
                  last = (if last = 0 then psize else last)
              in (case index_loop f psize 0 [] of
                    None \<Rightarrow> None
                  | Some (Inl e) \<Rightarrow> Some (Inl e)
                  | Some (Inr store) \<Rightarrow>
                      Some (Inr \<lparr>store_ix = store, page_size = psize, last_page_size = last\<rparr>)))"

text \<open>
  \<open>at_end\<close> is what the program finds when it dereferences \<^verbatim>\<open>end()\<close>, which the language leaves
  undefined. Stepping back from \<^verbatim>\<open>end()\<close> gives the last entry.
\<close>

definition deref :: "u64 \<times> u64 \<Rightarrow> (u64 \<times> u64) list \<Rightarrow> nat \<Rightarrow> u64 \<times> u64" where
  "deref at_end store it = (if it < length store then store ! it else at_end)"

definition find_page :: "u64 \<times> u64 \<Rightarrow> u64 \<Rightarrow> KVIndex \<Rightarrow> (u64 \<times> u64) option" where
  "find_page at_end k ix =
     (let store = store_ix ix;
          itlow = lower_bound k store
      in if fst (deref at_end store itlow) = k then
           let b = snd (deref at_end store itlow) in Some (b, b + page_size ix)
         else if itlow \<noteq> 0 \<and> itlow \<noteq> length store then
           let b = snd (deref at_end store (itlow - 1)) in Some (b, b + page_size ix)
         else if itlow = length store then
           let b = snd (deref at_end store (itlow - 1)) in Some (b, b + last_page_size ix)
         else None)"

section \<open>The store\<close>

record KVStore =
  file_st :: File
  index_st :: KVIndex

definition KVStore_new ::
    "nat \<Rightarrow> u8 list \<Rightarrow> string \<Rightarrow> u64 \<Rightarrow> u64 \<Rightarrow> kv_os \<Rightarrow> (kv_exn + (fault + KVStore) option) \<times> kv_os" where
  "KVStore_new pg beyond path sz keys_per_index_page s =
     (case File_new pg beyond path sz READONLY s of
        (Inl e, s) \<Rightarrow> (Inl e, s)
      | (Inr f, s) \<Rightarrow>
          if sz mod of_nat sizeof_Data \<noteq> 0 then
            (Inl (Exception ''size is not multiply of sizeof(Data)''), File_dtor pg f s)
          else
            (Inr (case KVIndex_new f keys_per_index_page of
                    None \<Rightarrow> None
                  | Some (Inl e) \<Rightarrow> Some (Inl e)
                  | Some (Inr ix) \<Rightarrow> Some (Inr \<lparr>file_st = f, index_st = ix\<rparr>)), s))"

partial_function (option) search_loop ::
    "File \<Rightarrow> u64 \<Rightarrow> u64 \<Rightarrow> u64 \<Rightarrow> (fault + Data option) option" where
  "search_loop f k lo hi =
     (if lo \<le> hi then
        let mid = lo + (hi - lo) div 2
        in (case read_at f (mid * of_nat sizeof_Data) of
              Inl e \<Rightarrow> Some (Inl e)
            | Inr middata \<Rightarrow>
                if d_key middata = k then Some (Inr (Some middata))
                else if k < d_key middata then search_loop f k lo (mid - 1)
                else search_loop f k (mid + 1) hi)
      else Some (Inr None))"

definition find_by_key :: "File \<Rightarrow> u64 \<Rightarrow> u64 \<Rightarrow> u64 \<Rightarrow> (fault + Data option) option" where
  "find_by_key f k offset_begin offset_end =
     search_loop f k (offset_begin div of_nat sizeof_Data) (offset_end div of_nat sizeof_Data)"

definition KVStore_get :: "u64 \<times> u64 \<Rightarrow> u64 \<Rightarrow> KVStore \<Rightarrow> (fault + Data option) option" where
  "KVStore_get at_end k st =
     (case find_page at_end k (index_st st) of
        None \<Rightarrow> Some (Inr None)
      | Some (page_begin, page_end) \<Rightarrow> find_by_key (file_st st) k page_begin page_end)"

end
