(* ===== verification/KV_Lookup.thy ===== *)
theory KV_Lookup
  imports KV_Store
begin

text \<open>
  Look-ups in a sorted file: what the index holds, that the search ends and finds exactly the
  record with the key, and the look-ups that leave the mapping.
\<close>

section \<open>Word arithmetic of offsets\<close>

lemma unat_mid:
  fixes lo hi :: u64
  assumes "lo \<le> hi"
  shows "unat (lo + (hi - lo) div 2) = unat lo + (unat hi - unat lo) div 2"
proof -
  have d: "unat ((hi - lo) div 2) = (unat hi - unat lo) div 2"
    using assms by (simp add: unat_div_distrib unat_sub)
  have "unat lo \<le> unat hi" using assms by (simp add: word_le_nat_alt)
  moreover have "unat hi < 2 ^ 64"
    using unsigned_less [of hi, where ?'a = nat] by simp
  ultimately have "unat lo + (unat hi - unat lo) div 2 < 2 ^ 64"
    by linarith
  with d show ?thesis by (simp add: unat_word_ariths)
qed

lemma unat_of_nat_u64: "n < 2 ^ 64 \<Longrightarrow> unat (of_nat n :: u64) = n"
  by (simp add: unat_of_nat)

lemma unat_succ:
  fixes w :: u64
  assumes "unat w < 2 ^ 63"
  shows "unat (w + 1) = unat w + 1"
  using assms by (simp add: unat_word_ariths)

lemma unat_pred:
  fixes w :: u64
  assumes "0 < unat w"
  shows "unat (w - 1) = unat w - 1"
  using assms by (simp add: unat_sub word_le_nat_alt)

section \<open>Files of records\<close>

definition d_keys :: "Data list \<Rightarrow> u64 list" where
  "d_keys ds = map d_key ds"

text \<open>The file object shows exactly the records \<open>ds\<close>, of increasing keys.\<close>

definition holds_records :: "Data list \<Rightarrow> File \<Rightarrow> bool" where
  "holds_records ds f \<longleftrightarrow>
     ds \<noteq> [] \<and> sizeof_Data * length ds < 2 ^ 62 \<and> unat (f_size f) = sizeof_Data * length ds \<and>
     sorted_wrt (<) (d_keys ds) \<and>
     (\<forall>i < length ds. read_at f (of_nat (sizeof_Data * i)) = Inr (ds ! i))"

definition lookup_key :: "u64 \<Rightarrow> Data list \<Rightarrow> Data option" where
  "lookup_key k ds = find (\<lambda>d. d_key d = k) ds"

lemma keys_less:
  "sorted_wrt (<) (d_keys ds) \<Longrightarrow> i < j \<Longrightarrow> j < length ds \<Longrightarrow> d_key (ds ! i) < d_key (ds ! j)"
  by (auto simp: d_keys_def sorted_wrt_iff_nth_less)

lemma keys_le:
  "sorted_wrt (<) (d_keys ds) \<Longrightarrow> i \<le> j \<Longrightarrow> j < length ds \<Longrightarrow> d_key (ds ! i) \<le> d_key (ds ! j)"
  using keys_less [of ds i j] by (cases "i = j") auto

lemma lookup_key_nth:
  assumes "sorted_wrt (<) (d_keys ds)" and "i < length ds"
  shows "lookup_key (d_key (ds ! i)) ds = Some (ds ! i)"
proof -
  have "\<forall>j<i. d_key (ds ! j) \<noteq> d_key (ds ! i)"
    using keys_less [OF assms(1) _ assms(2)] by fastforce
  with assms(2) show ?thesis by (auto simp: lookup_key_def find_Some_iff)
qed

lemma lookup_key_absent: "\<forall>i < length ds. d_key (ds ! i) \<noteq> k \<Longrightarrow> lookup_key k ds = None"
  by (auto simp: lookup_key_def find_None_iff in_set_conv_nth)

section \<open>The search\<close>

lemma read_record:
  assumes "holds_records ds f" and "unat mid < length ds"
  shows "read_at f (mid * of_nat sizeof_Data) = Inr (ds ! unat mid)"
proof -
  have "mid * of_nat sizeof_Data = (of_nat (sizeof_Data * unat mid) :: u64)"
    by (simp add: mult.commute)
  moreover have "read_at f (of_nat (sizeof_Data * unat mid)) = Inr (ds ! unat mid)"
    using assms unfolding holds_records_def by blast
  ultimately show ?thesis by (simp only:)
qed

lemma holds_records_length: "holds_records ds f \<Longrightarrow> length ds < 2 ^ 57"
  by (simp add: holds_records_def sizeof_Data_def)

text \<open>
  With the key not above the last one, the search never looks at the position \<open>length ds\<close>,
  although \<open>hi\<close> may be it; with the key not below the first one, \<open>mid - 1\<close> never wraps.
\<close>

lemma search_loop_finds:
  assumes "holds_records ds f"
    and "k \<le> d_key (last ds)" and "d_key (hd ds) \<le> k"
    and "unat hi \<le> length ds"
    and "\<forall>i < length ds. i < unat lo \<longrightarrow> d_key (ds ! i) < k"
    and "\<forall>i < length ds. unat hi < i \<longrightarrow> k < d_key (ds ! i)"
  shows "search_loop f k lo hi = Some (Inr (lookup_key k ds))"
  using assms(4-6)
proof (induction "Suc (unat hi) - unat lo" arbitrary: lo hi rule: less_induct)
  case less
  note srt = assms(1) [unfolded holds_records_def] and len = holds_records_length [OF assms(1)]
  show ?case
  proof (cases "lo \<le> hi")
    case False
    then have "unat hi < unat lo" by (simp add: word_less_nat_alt not_le)
    then have "\<forall>i < length ds. d_key (ds ! i) \<noteq> k"
      using less.prems by (metis leI less_le_not_le order_le_less_trans not_less_iff_gr_or_eq)
    with False show ?thesis by (simp add: search_loop.simps lookup_key_absent)
  next
    case True
    define mid where "mid = lo + (hi - lo) div 2"
    have le: "unat lo \<le> unat hi" using True by (simp add: word_le_nat_alt)
    have um: "unat mid = unat lo + (unat hi - unat lo) div 2"
      unfolding mid_def by (rule unat_mid [OF True])
    have b: "unat lo \<le> unat mid" "unat mid \<le> unat hi" using um le by auto
    have mid: "unat mid < length ds"
    proof (rule ccontr)
      assume "\<not> unat mid < length ds"
      then have "unat lo = length ds" using um le less.prems(1) by auto
      then have "d_key (last ds) < k"
        using less.prems(2) srt by (simp add: last_conv_nth)
      with assms(2) show False by simp
    qed
    let ?d = "ds ! unat mid"
    note rd = read_record [OF assms(1) mid]
    consider (eq) "d_key ?d = k" | (lt) "k < d_key ?d" | (gt) "d_key ?d < k"
      by fastforce
    then show ?thesis
    proof cases
      case eq
      with mid srt have "lookup_key k ds = Some ?d" using lookup_key_nth by auto
      with eq True rd show ?thesis
        by (subst search_loop.simps) (simp add: Let_def mid_def [symmetric])
    next
      case lt
      have "unat mid \<noteq> 0"
        using lt assms(3) srt hd_conv_nth [of ds] by (metis not_less)
      then have u: "unat (mid - 1) = unat mid - 1" by (simp add: unat_pred)
      have "search_loop f k lo (mid - 1) = Some (Inr (lookup_key k ds))"
      proof (rule less.hyps)
        show "Suc (unat (mid - 1)) - unat lo < Suc (unat hi) - unat lo"
          using u b le \<open>unat mid \<noteq> 0\<close> by linarith
        show "unat (mid - 1) \<le> length ds" using u mid by simp
        show "\<forall>i < length ds. unat (mid - 1) < i \<longrightarrow> k < d_key (ds ! i)"
          using u lt keys_le [of ds "unat mid"] srt by (auto simp: less_le_trans)
      qed (use less.prems in simp)
      with lt True rd show ?thesis
        by (subst search_loop.simps) (auto simp: Let_def mid_def [symmetric])
    next
      case gt
      have u: "unat (mid + 1) = unat mid + 1"
        using mid len by (intro unat_succ) simp
      have "search_loop f k (mid + 1) hi = Some (Inr (lookup_key k ds))"
      proof (rule less.hyps)
        show "Suc (unat hi) - unat (mid + 1) < Suc (unat hi) - unat lo"
          using u b by linarith
        show "\<forall>i < length ds. i < unat (mid + 1) \<longrightarrow> d_key (ds ! i) < k"
          using u gt keys_le [of ds _ "unat mid"] srt mid
          by (fastforce simp: less_Suc_eq_le intro: le_less_trans)
      qed (use less.prems in simp_all)
      with gt True rd show ?thesis
        by (subst search_loop.simps) (auto simp: Let_def mid_def [symmetric])
    qed
  qed
qed

lemma search_loop_fault:
  "lo \<le> hi \<Longrightarrow> read_at f ((lo + (hi - lo) div 2) * of_nat sizeof_Data) = Inl e \<Longrightarrow>
     search_loop f k lo hi = Some (Inl e)"
  by (subst search_loop.simps) (simp add: Let_def)

text \<open>With a key above all of them, the position \<open>length ds\<close> is always reached.\<close>

lemma search_loop_overruns:
  assumes "holds_records ds f" and "\<forall>i < length ds. d_key (ds ! i) < k"
    and "read_at f (of_nat (sizeof_Data * length ds)) = Inl BadAccess"
    and "unat hi = length ds" and "unat lo \<le> length ds"
  shows "search_loop f k lo hi = Some (Inl BadAccess)"
  using assms(5)
proof (induction "length ds - unat lo" arbitrary: lo rule: less_induct)
  case less
  have le: "lo \<le> hi" using less.prems assms(4) by (simp add: word_le_nat_alt)
  define mid where "mid = lo + (hi - lo) div 2"
  have um: "unat mid = unat lo + (length ds - unat lo) div 2"
    unfolding mid_def using unat_mid [OF le] assms(4) by simp
  show ?case
  proof (cases "unat mid < length ds")
    case True
    note rd = read_record [OF assms(1) True]
    have lt: "d_key (ds ! unat mid) < k" using assms(2) True by simp
    have u: "unat (mid + 1) = unat mid + 1"
      using True holds_records_length [OF assms(1)] by (intro unat_succ) simp
    have "search_loop f k (mid + 1) hi = Some (Inl BadAccess)"
      by (rule less.hyps) (use u um True less.prems in linarith)+
    with lt le rd show ?thesis
      by (subst search_loop.simps) (auto simp: Let_def mid_def [symmetric])
  next
    case False
    then have "unat mid = length ds" using um less.prems by auto
    moreover have "mid = of_nat (unat mid)" by simp
    ultimately have "mid = of_nat (length ds)" by (simp only:)
    then have "mid * of_nat sizeof_Data = of_nat (sizeof_Data * length ds)"
      by (simp add: mult.commute)
    then have "read_at f (mid * of_nat sizeof_Data) = Inl BadAccess"
      using assms(3) by (simp only:)
    with le show ?thesis
      by (subst search_loop.simps) (simp add: Let_def mid_def [symmetric])
  qed
qed

section \<open>The index of a sorted file\<close>

text \<open>The index entries of the first \<open>m\<close> pages of \<open>kpp\<close> records.\<close>

definition page_entries :: "nat \<Rightarrow> Data list \<Rightarrow> nat \<Rightarrow> (u64 \<times> u64) list" where
  "page_entries kpp ds m = map (\<lambda>j. (d_key (ds ! (j * kpp)), of_nat (sizeof_Data * (j * kpp)))) [0..<m]"

lemma page_entries_nth:
  "length (page_entries kpp ds m) = m"
  "j < m \<Longrightarrow> page_entries kpp ds m ! j = (d_key (ds ! (j * kpp)), of_nat (sizeof_Data * (j * kpp)))"
  by (simp_all add: page_entries_def)

definition pages :: "nat \<Rightarrow> nat \<Rightarrow> nat" where
  "pages kpp n = (n + kpp - 1) div kpp"

lemma pages_bounds:
  assumes "0 < kpp" and "0 < n"
  shows "0 < pages kpp n" "(pages kpp n - 1) * kpp < n" "n \<le> pages kpp n * kpp"
proof -
  have d: "pages kpp n * kpp + (n + kpp - 1) mod kpp = n + kpp - 1"
    by (simp add: pages_def)
  have m: "(n + kpp - 1) mod kpp < kpp" using assms by simp
  show p: "0 < pages kpp n" using assms by (simp add: pages_def div_greater_zero_iff)
  show "n \<le> pages kpp n * kpp" using d m by linarith
  have "pages kpp n * kpp \<le> n + kpp - 1" using d by linarith
  then show "(pages kpp n - 1) * kpp < n"
    using p assms by (simp add: diff_mult_distrib)
qed

lemma map_put_snoc: "\<forall>(k', _) \<in> set xs. k' < k \<Longrightarrow> map_put k v xs = xs @ [(k, v)]"
proof (induction xs)
  case (Cons x xs)
  then show ?case by (cases x) auto
qed simp

lemma index_loop_pages:
  assumes h: "holds_records ds f" and k: "0 < kpp" "sizeof_Data * kpp < 2 ^ 62"
    and m: "j \<le> pages kpp (length ds)"
  shows "index_loop f (of_nat (sizeof_Data * kpp)) (of_nat (sizeof_Data * (j * kpp))) (page_entries kpp ds j) =
    Some (Inr (page_entries kpp ds (pages kpp (length ds))))"
  using m
proof (induction "pages kpp (length ds) - j" arbitrary: j)
  case 0
  then have j: "j = pages kpp (length ds)" by simp
  let ?p = "pages kpp (length ds) * kpp"
  have n: "0 < length ds" using h by (simp add: holds_records_def)
  note pb = pages_bounds [OF k(1) n]
  have "sizeof_Data * p < 2 ^ 64" if "p < length ds + kpp" for p
    using that holds_records_length [OF h] k(2) by (simp add: sizeof_Data_def)
  moreover have "?p < length ds + kpp" using pb(1,2) by (simp add: diff_mult_distrib)
  ultimately have "sizeof_Data * ?p < 2 ^ 64" by blast
  then have "unat (of_nat (sizeof_Data * ?p) :: u64) = sizeof_Data * ?p" by (rule unat_of_nat_u64)
  moreover have "unat (f_size f) = sizeof_Data * length ds" using h by (simp add: holds_records_def)
  ultimately have "\<not> (of_nat (sizeof_Data * ?p) :: u64) < f_size f"
    using pb(3) by (simp only: word_less_nat_alt) (simp add: sizeof_Data_def)
  then show ?case unfolding j by (subst index_loop.simps) simp
next
  case (Suc x)
  have n: "0 < length ds" using h by (simp add: holds_records_def)
  have j: "j * kpp < length ds"
  proof -
    have "j \<le> pages kpp (length ds) - 1" using Suc.hyps(2) by linarith
    then have "j * kpp \<le> (pages kpp (length ds) - 1) * kpp" by (rule mult_le_mono1)
    with pages_bounds(2) [OF k(1) n] show ?thesis by linarith
  qed
  let ?o = "of_nat (sizeof_Data * (j * kpp)) :: u64"
  have "sizeof_Data * (j * kpp) < 2 ^ 64"
    using j h by (simp add: holds_records_def sizeof_Data_def)
  then have "unat ?o = sizeof_Data * (j * kpp)" by (rule unat_of_nat_u64)
  moreover have "unat (f_size f) = sizeof_Data * length ds" using h by (simp add: holds_records_def)
  ultimately have lt: "?o < f_size f"
    using j by (simp only: word_less_nat_alt) (simp add: sizeof_Data_def)
  have rd: "read_at f ?o = Inr (ds ! (j * kpp))"
    using h j unfolding holds_records_def by blast
  have "\<forall>(k', _) \<in> set (page_entries kpp ds j). k' < d_key (ds ! (j * kpp))"
    using h j k(1) by (auto simp: page_entries_def holds_records_def intro!: keys_less)
  then have put: "map_put (d_key (ds ! (j * kpp))) ?o (page_entries kpp ds j) = page_entries kpp ds (Suc j)"
    by (subst map_put_snoc) (simp_all add: page_entries_def)
  have nxt: "?o + of_nat (sizeof_Data * kpp) = of_nat (sizeof_Data * (Suc j * kpp))"
    by (simp add: algebra_simps)
  have "index_loop f (of_nat (sizeof_Data * kpp)) (of_nat (sizeof_Data * (Suc j * kpp))) (page_entries kpp ds (Suc j)) =
      Some (Inr (page_entries kpp ds (pages kpp (length ds))))"
    by (rule Suc.hyps(1)) (use Suc.hyps(2) in linarith)+
  then show ?case
    by (subst index_loop.simps) (simp only: lt rd put nxt if_True sum.case)
qed

text \<open>How many records the last page has.\<close>

definition last_page :: "nat \<Rightarrow> nat \<Rightarrow> nat" where
  "last_page kpp n = (if n mod kpp = 0 then kpp else n mod kpp)"

lemma last_page_end:
  assumes "0 < kpp" and "0 < n"
  shows "(pages kpp n - 1) * kpp + last_page kpp n = n"
proof -
  note pb = pages_bounds [OF assms]
  define r where "r = n - (pages kpp n - 1) * kpp"
  have n: "n = (pages kpp n - 1) * kpp + r" using pb by (simp add: r_def)
  have "(pages kpp n - 1) * kpp + kpp = pages kpp n * kpp" using pb(1) by (cases "pages kpp n") simp_all
  then have r: "0 < r" "r \<le> kpp" using pb n by linarith+
  have "n mod kpp = r mod kpp" by (subst n) simp
  with r n show ?thesis by (cases "r = kpp") (simp_all add: last_page_def)
qed

lemma KVIndex_new_pages:
  assumes h: "holds_records ds f" and k: "0 < kpp" "sizeof_Data * kpp < 2 ^ 62"
  shows "KVIndex_new f (of_nat kpp) = Some (Inr
    \<lparr>store_ix = page_entries kpp ds (pages kpp (length ds)),
     page_size = of_nat (sizeof_Data * kpp), last_page_size = of_nat (sizeof_Data * last_page kpp (length ds))\<rparr>)"
proof -
  have ps: "unat (of_nat (sizeof_Data * kpp) :: u64) = sizeof_Data * kpp"
    using k(2) by (intro unat_of_nat_u64) simp
  have fs: "unat (f_size f) = sizeof_Data * length ds" using h by (simp add: holds_records_def)
  have psize: "of_nat sizeof_Data * of_nat kpp = (of_nat (sizeof_Data * kpp) :: u64)" by simp
  have nz: "(of_nat (sizeof_Data * kpp) :: u64) \<noteq> 0"
    using ps k(1) by (metis unat_0 sizeof_Data_def mult_is_0 not_gr_zero zero_neq_numeral)
  have r: "f_size f mod of_nat (sizeof_Data * kpp) = of_nat (sizeof_Data * (length ds mod kpp))"
  proof -
    have "unat (f_size f mod of_nat (sizeof_Data * kpp)) = sizeof_Data * (length ds mod kpp)"
      by (simp only: unat_mod_distrib ps fs mult_mod_right)
    moreover have "f_size f mod of_nat (sizeof_Data * kpp) =
        of_nat (unat (f_size f mod of_nat (sizeof_Data * kpp)))" by simp
    ultimately show ?thesis by (simp only:)
  qed
  have z: "(of_nat (sizeof_Data * (length ds mod kpp)) :: u64) = 0 \<longleftrightarrow> length ds mod kpp = 0"
  proof -
    have "sizeof_Data * (length ds mod kpp) < 2 ^ 64"
      using k mod_less_divisor [OF k(1), of "length ds"] unfolding sizeof_Data_def
      by (simp add: order.strict_trans)
    then have "unat (of_nat (sizeof_Data * (length ds mod kpp)) :: u64) = sizeof_Data * (length ds mod kpp)"
      by (rule unat_of_nat_u64)
    then show ?thesis by (metis mult_is_0 of_nat_0 sizeof_Data_def unat_0 zero_neq_numeral)
  qed
  have "index_loop f (of_nat (sizeof_Data * kpp)) 0 [] =
      Some (Inr (page_entries kpp ds (pages kpp (length ds))))"
    using index_loop_pages [OF h k, of 0] by (simp add: page_entries_def)
  with nz show ?thesis
    unfolding KVIndex_new_def psize Let_def r z by (simp add: last_page_def del: of_nat_mult)
qed

section \<open>Choosing the page\<close>

lemma lower_bound_entries:
  assumes es_def: "es = page_entries kpp ds m"
  shows "lower_bound k es \<le> m"
    and "j < lower_bound k es \<Longrightarrow> d_key (ds ! (j * kpp)) < k"
    and "lower_bound k es < m \<Longrightarrow> k \<le> d_key (ds ! (lower_bound k es * kpp))"
proof -
  let ?P = "\<lambda>(k', _ :: u64). k' < k"
  have len: "length es = m" by (simp add: es_def page_entries_def)
  show le: "lower_bound k es \<le> m"
    using length_takeWhile_le [of ?P es] len by (simp add: lower_bound_def)
  have nth: "es ! j = (d_key (ds ! (j * kpp)), of_nat (sizeof_Data * (j * kpp)))" if "j < m" for j
    using that by (simp add: es_def page_entries_def)
  show "d_key (ds ! (j * kpp)) < k" if j: "j < lower_bound k es"
  proof -
    have "takeWhile ?P es ! j \<in> set (takeWhile ?P es)"
      using j by (simp add: lower_bound_def)
    then have "?P (takeWhile ?P es ! j)" by (rule set_takeWhileD [THEN conjunct2])
    then have "?P (es ! j)" using j by (simp add: lower_bound_def takeWhile_nth)
    moreover have "j < m" using j le by simp
    ultimately show ?thesis by (simp add: nth)
  qed
  show "k \<le> d_key (ds ! (lower_bound k es * kpp))" if "lower_bound k es < m"
    using that nth_length_takeWhile [of ?P es] len nth
    by (auto simp: lower_bound_def not_less)
qed

text \<open>
  The page chosen for \<open>k\<close>, as positions: its first record is not above \<open>k\<close>, the record at its
  inclusive end not below it, and that end is inside the file, except for the first key of a
  partial last page.
\<close>

lemma find_page_spec:
  assumes h: "holds_records ds f" and kpp: "0 < kpp" "sizeof_Data * kpp < 2 ^ 62"
    and ix: "KVIndex_new f (of_nat kpp) = Some (Inr ix)"
    and k: "d_key (hd ds) \<le> k" and ne: "fst at_end \<noteq> k"
    and full: "kpp dvd length ds \<or> k \<noteq> d_key (ds ! ((pages kpp (length ds) - 1) * kpp))"
  obtains b e where "find_page at_end k ix = Some (of_nat (sizeof_Data * b), of_nat (sizeof_Data * e))"
    and "b < length ds" and "e \<le> length ds"
    and "d_key (ds ! b) \<le> k" and "e < length ds \<longrightarrow> k \<le> d_key (ds ! e)"
    and "d_key (last ds) < k \<longrightarrow> e = length ds"
proof -
  let ?n = "length ds"
  define m where "m = pages kpp ?n"
  have n: "0 < ?n" and srt: "sorted_wrt (<) (d_keys ds)" using h by (simp_all add: holds_records_def)
  note pb = pages_bounds [OF kpp(1) n, folded m_def]
  define es where "es = page_entries kpp ds m"
  have ixv: "ix = \<lparr>store_ix = es, page_size = of_nat (sizeof_Data * kpp),
      last_page_size = of_nat (sizeof_Data * last_page kpp ?n)\<rparr>"
    using KVIndex_new_pages [OF h kpp] ix by (simp add: es_def m_def)
  define c where "c = lower_bound k es"
  note lb = lower_bound_entries [OF es_def, where k = k, folded c_def]
  have len: "length es = m" by (simp add: es_def page_entries_def)
  have nth: "es ! j = (d_key (ds ! (j * kpp)), of_nat (sizeof_Data * (j * kpp)))" if "j < m" for j
    using that by (simp add: es_def page_entries_def)
  have in_file: "j * kpp < ?n" if "j < m" for j
    using that pb(2) mult_le_mono1 [of j "m - 1" kpp] by linarith
  have next_page: "of_nat (sizeof_Data * (j * kpp)) + of_nat (sizeof_Data * kpp) =
      (of_nat (sizeof_Data * ((j + 1) * kpp)) :: u64)" for j
    by (simp add: algebra_simps)
  have last_le: "d_key (ds ! j) \<le> d_key (last ds)" if "j < ?n" for j
    using that keys_le [OF srt, of j "?n - 1"] n by (simp add: last_conv_nth)
  consider (exact) "c < m" "d_key (ds ! (c * kpp)) = k"
    | (inner) "c < m" "k < d_key (ds ! (c * kpp))" "c \<noteq> 0" | (at_end) "c = m"
  proof -
    have "k = d_key (ds ! 0)" if "c = 0" "k \<le> d_key (ds ! 0)"
      using that k n by (simp add: hd_conv_nth)
    with lb(1,3) that show thesis by (cases "c = 0") fastforce+
  qed
  then show thesis
  proof cases
    case exact
    have "find_page at_end k ix = Some (of_nat (sizeof_Data * (c * kpp)), of_nat (sizeof_Data * ((c + 1) * kpp)))"
      using exact unfolding find_page_def ixv
      by (simp add: Let_def deref_def len nth c_def [symmetric] next_page del: of_nat_mult)
    moreover have e: "(c + 1) * kpp \<le> ?n"
    proof (cases "c + 1 < m")
      case True
      then show ?thesis using in_file [of "c + 1"] by simp
    next
      case False
      then have c: "c = m - 1" using exact(1) by simp
      with exact full have "kpp dvd ?n" by (simp add: m_def)
      then have "last_page kpp ?n = kpp" by (simp add: last_page_def)
      with last_page_end [OF kpp(1) n] c show ?thesis by (simp add: m_def)
    qed
    moreover have "(c + 1) * kpp < ?n \<longrightarrow> k \<le> d_key (ds ! ((c + 1) * kpp))"
      using exact keys_le [OF srt, of "c * kpp" "(c + 1) * kpp"] by simp
    moreover have "d_key (ds ! (c * kpp)) \<le> k" using exact(2) by simp
    moreover have "\<not> d_key (last ds) < k"
      using exact last_le [OF in_file [of c]] by auto
    ultimately show thesis
      using that [of "c * kpp" "(c + 1) * kpp"] in_file [OF exact(1)] by blast
  next
    case inner
    have "find_page at_end k ix = Some (of_nat (sizeof_Data * ((c - 1) * kpp)), of_nat (sizeof_Data * (c * kpp)))"
    proof -
      have "c - 1 < m" "d_key (ds ! (c * kpp)) \<noteq> k" "c - 1 + 1 = c" using inner by auto
      then show ?thesis
        using inner(1,3) next_page [of "c - 1"] unfolding find_page_def ixv
        by (simp add: Let_def deref_def len nth c_def [symmetric] del: of_nat_mult)
    qed
    moreover have "d_key (ds ! ((c - 1) * kpp)) \<le> k"
      using lb(2) [of "c - 1"] inner by simp
    moreover have "\<not> d_key (last ds) < k"
      using inner last_le [OF in_file [of c]] by auto
    moreover have "(c - 1) * kpp < ?n" "c * kpp \<le> ?n"
      using in_file [of c] in_file [of "c - 1"] inner(1) by simp_all
    ultimately show thesis
      using that [of "(c - 1) * kpp" "c * kpp"] inner(2) by (metis less_imp_le)
  next
    case at_end
    have "0 < m" by (rule pb(1))
    have "of_nat (sizeof_Data * ((m - 1) * kpp)) + of_nat (sizeof_Data * last_page kpp ?n) =
        (of_nat (sizeof_Data * ?n) :: u64)"
      using last_page_end [OF kpp(1) n] unfolding m_def
      by (metis of_nat_add add_mult_distrib2)
    then have "find_page at_end k ix = Some (of_nat (sizeof_Data * ((m - 1) * kpp)), of_nat (sizeof_Data * ?n))"
      using at_end ne \<open>0 < m\<close> unfolding find_page_def ixv
      by (simp add: Let_def deref_def len nth c_def [symmetric] del: of_nat_mult)
    moreover have "d_key (ds ! ((m - 1) * kpp)) \<le> k"
      using lb(2) [of "m - 1"] at_end \<open>0 < m\<close> by simp
    moreover have "(m - 1) * kpp < ?n"
      using in_file [of "m - 1"] \<open>0 < m\<close> by simp
    ultimately show thesis
      using that [of "(m - 1) * kpp" ?n] by blast
  qed
qed

section \<open>A file image\<close>

lemma drop_concat_records:
  "\<forall>d \<in> set ds. Data_wf d \<Longrightarrow> i \<le> length ds \<Longrightarrow>
     drop (sizeof_Data * i) (concat (map Data_bytes ds) @ rest) = concat (map Data_bytes (drop i ds)) @ rest"
proof (induction ds arbitrary: i)
  case (Cons d ds)
  then show ?case by (cases i) simp_all
qed simp

lemma length_concat_records:
  "\<forall>d \<in> set ds. Data_wf d \<Longrightarrow> length (concat (map Data_bytes ds)) = sizeof_Data * length ds"
  by (induction ds) simp_all

lemma read_image:
  assumes "f_data f = Some (concat (map Data_bytes ds) @ rest)" and "\<forall>d \<in> set ds. Data_wf d"
    and "sizeof_Data * length ds < 2 ^ 62" and "i < length ds"
  shows "read_at f (of_nat (sizeof_Data * i)) = Inr (ds ! i)"
proof -
  have "sizeof_Data * i < 2 ^ 64" using assms(3,4) by (simp add: sizeof_Data_def)
  then have u: "unat (of_nat (sizeof_Data * i) :: u64) = sizeof_Data * i" by (rule unat_of_nat_u64)
  have wf: "Data_wf (ds ! i)" using assms(2,4) by simp
  have "drop (sizeof_Data * i) (concat (map Data_bytes ds) @ rest) =
      Data_bytes (ds ! i) @ concat (map Data_bytes (drop (Suc i) ds)) @ rest"
    using drop_concat_records [OF assms(2), of i rest] assms(4) by (simp add: Cons_nth_drop_Suc [symmetric])
  then have "take sizeof_Data (drop (sizeof_Data * i) (concat (map Data_bytes ds) @ rest)) = Data_bytes (ds ! i)"
    using wf by simp
  moreover have "sizeof_Data * i + sizeof_Data \<le> length (concat (map Data_bytes ds) @ rest)"
    using assms(4) by (simp add: length_concat_records [OF assms(2)] sizeof_Data_def)
  ultimately show ?thesis using assms(1) wf by (simp add: read_at_def u del: of_nat_mult)
qed

text \<open>A small file for the examples: keys 0, 100, 200, ..., data bytes \<^verbatim>\<open>x\<close>, \<open>rest\<close> behind it.\<close>

definition sample_record :: "nat \<Rightarrow> Data" where
  "sample_record i = \<lparr>d_key = of_nat (100 * i), d_data = replicate 20 0x78, d_pad = zeros 4\<rparr>"

definition sample_file :: "nat \<Rightarrow> nat \<Rightarrow> File" where
  "sample_file n behind =
     \<lparr>f_data = Some (concat (map Data_bytes (map sample_record [0..<n])) @ zeros behind),
      f_size = of_nat (sizeof_Data * n), f_shared = None\<rparr>"

lemma sample_file_holds:
  assumes "0 < n" and "n < 2 ^ 20"
  shows "holds_records (map sample_record [0..<n]) (sample_file n behind)"
proof -
  have key: "unat (of_nat (100 * i) :: u64) = 100 * i" if "i < n" for i
    using that assms(2) by (intro unat_of_nat_u64) simp
  have "sorted_wrt (<) (d_keys (map sample_record [0..<n]))"
    by (auto simp: d_keys_def sorted_wrt_iff_nth_less sample_record_def word_less_nat_alt key
        simp del: of_nat_mult)
  moreover have "unat (of_nat (sizeof_Data * n) :: u64) = sizeof_Data * n"
    using assms(2) by (intro unat_of_nat_u64) (simp add: sizeof_Data_def)
  moreover have "read_at (sample_file n behind) (of_nat (sizeof_Data * i)) = Inr (map sample_record [0..<n] ! i)"
    if "i < n" for i
    by (rule read_image [where rest = "zeros behind"])
      (use that assms(2) in \<open>auto simp: sample_file_def sample_record_def Data_wf_def zeros_def sizeof_Data_def\<close>)
  ultimately show ?thesis
    using assms by (simp add: holds_records_def sample_file_def sizeof_Data_def del: of_nat_mult)
qed

lemma sample_file_end:
  assumes "0 < n" and "n < 2 ^ 20" and "m < 2 ^ 21" and "sizeof_Data * n + behind < sizeof_Data * m + sizeof_Data"
  shows "read_at (sample_file n behind) (of_nat (sizeof_Data * m)) = Inl BadAccess"
proof -
  have u: "unat (of_nat (sizeof_Data * m) :: u64) = sizeof_Data * m"
    using assms(3) by (intro unat_of_nat_u64) (simp add: sizeof_Data_def)
  have "\<forall>d \<in> set (map sample_record [0..<n]). Data_wf d"
    by (simp add: sample_record_def Data_wf_def zeros_def)
  from length_concat_records [OF this] assms(4) show ?thesis
    by (simp add: read_at_def sample_file_def u zeros_def del: of_nat_mult map_map)
qed

section \<open>Look-ups\<close>

lemma page_offset:
  assumes "holds_records ds f" and "i \<le> length ds"
  shows "unat ((of_nat (sizeof_Data * i) :: u64) div of_nat sizeof_Data) = i"
proof -
  have "sizeof_Data * i < 2 ^ 64"
    using assms(2) holds_records_length [OF assms(1)] by (simp add: sizeof_Data_def)
  then have "unat (of_nat (sizeof_Data * i) :: u64) = sizeof_Data * i" by (rule unat_of_nat_u64)
  moreover have "unat (of_nat sizeof_Data :: u64) = sizeof_Data"
    by (simp add: sizeof_Data_def)
  ultimately show ?thesis
    by (simp only: unat_div_distrib) (simp add: sizeof_Data_def)
qed

lemma get_lookup:
  assumes "holds_records ds f" and "0 < kpp" and "sizeof_Data * kpp < 2 ^ 62"
    and "fst at_end \<noteq> k" and "k \<le> d_key (last ds)"
    and "kpp dvd length ds \<or> k \<noteq> d_key (ds ! ((pages kpp (length ds) - 1) * kpp))"
    and ix: "KVIndex_new f (of_nat kpp) = Some (Inr ix)"
  shows "KVStore_get at_end k \<lparr>file_st = f, index_st = ix\<rparr> = Some (Inr (lookup_key k ds))"
proof -
  note h = assms(1)
  have store: "store_ix ix = page_entries kpp ds (pages kpp (length ds))"
    using KVIndex_new_pages [OF h assms(2,3)] ix by simp
  have n: "ds \<noteq> []" and srt: "sorted_wrt (<) (d_keys ds)" using h by (simp_all add: holds_records_def)
  show ?thesis
  proof (cases "d_key (hd ds) \<le> k")
    case True
    obtain b e where p: "find_page at_end k ix = Some (of_nat (sizeof_Data * b), of_nat (sizeof_Data * e))"
      and be: "b < length ds" "e \<le> length ds" "d_key (ds ! b) \<le> k" "e < length ds \<longrightarrow> k \<le> d_key (ds ! e)"
      by (rule find_page_spec [OF h assms(2,3) ix True assms(4,6)])
    have "find_by_key f k (of_nat (sizeof_Data * b)) (of_nat (sizeof_Data * e)) = Some (Inr (lookup_key k ds))"
      unfolding find_by_key_def
    proof (rule search_loop_finds [OF h assms(5) True])
      show "\<forall>i < length ds. i < unat ((of_nat (sizeof_Data * b) :: u64) div of_nat sizeof_Data) \<longrightarrow> d_key (ds ! i) < k"
        unfolding page_offset [OF h less_imp_le [OF be(1)]]
        using less_le_trans [OF keys_less [OF srt _ be(1)] be(3)] by blast
      show "\<forall>i < length ds. unat ((of_nat (sizeof_Data * e) :: u64) div of_nat sizeof_Data) < i \<longrightarrow> k < d_key (ds ! i)"
        unfolding page_offset [OF h be(2)]
        using keys_less [OF srt] be(4) by (metis le_less_trans less_trans)
    qed (simp only: page_offset [OF h be(2)] be(2))
    with p show ?thesis by (simp add: KVStore_get_def del: of_nat_mult)
  next
    case False
    have lt: "k < d_key (ds ! i)" if "i < length ds" for i
      using that False keys_le [OF srt, of 0 i] n by (simp add: hd_conv_nth)
    have "lookup_key k ds = None" using lt by (intro lookup_key_absent) blast
    moreover have m: "0 < pages kpp (length ds)" using assms(2) n by (intro pages_bounds) simp_all
    then have "lower_bound k (store_ix ix) = 0" "store_ix ix \<noteq> []" "fst (store_ix ix ! 0) \<noteq> k"
      using lt [of 0] n unfolding store
      by (auto simp: lower_bound_def page_entries_def upt_rec)
    then have "find_page at_end k ix = None"
      by (simp add: find_page_def deref_def)
    ultimately show ?thesis by (simp add: KVStore_get_def)
  qed
qed

text \<open>
  C20: The store finds what is in the file, within the limits of its search. For a file of records with
  increasing keys, any page size, and a key that is not above the last one, that is not the first key
  of a last page that is not full, and that does not equal what happens to lie at the \<^verbatim>\<open>end()\<close> of
  the index: building the index returns, the look-up returns, it stays inside the mapping, and its
  result is the record with that key, or nothing if there is none.
\<close>

theorem get_finds_record:
  assumes "holds_records ds f" and "0 < kpp" and "sizeof_Data * kpp < 2 ^ 62"
    and "fst at_end \<noteq> k" and "k \<le> d_key (last ds)"
    and "kpp dvd length ds \<or> k \<noteq> d_key (ds ! ((pages kpp (length ds) - 1) * kpp))"
  shows "\<exists>ix. KVIndex_new f (of_nat kpp) = Some (Inr ix) \<and>
    KVStore_get at_end k \<lparr>file_st = f, index_st = ix\<rparr> = Some (Inr (lookup_key k ds))"
  using KVIndex_new_pages [OF assms(1-3)] get_lookup [OF assms] by auto

theorem get_finds_record_witness:
  "\<exists>ix. KVIndex_new (sample_file 4 0) (of_nat 2) = Some (Inr ix) \<and>
    KVStore_get (2, 64) 300 \<lparr>file_st = sample_file 4 0, index_st = ix\<rparr> = Some (Inr (Some (sample_record 3)))"
proof -
  have "lookup_key 300 (map sample_record [0..<4]) = Some (sample_record 3)"
    by (simp add: lookup_key_def sample_record_def upt_rec)
  moreover have "holds_records (map sample_record [0..<4]) (sample_file 4 0)"
    by (rule sample_file_holds) simp_all
  note get_finds_record [OF this, of 2 "(2, 64)" 300]
  ultimately show ?thesis
    by (simp add: sizeof_Data_def sample_record_def last_map upt_rec)
qed

text \<open>
  C40: A key above the last one leaves the mapping. When nothing readable lies behind the last
  record (the file fills its pages, as the generated database of 65536 records does), looking up
  any key above the last one ends with an access outside the mapping instead of "not found".
\<close>
theorem get_above_last_key_faults:
  assumes "holds_records ds f" and "0 < kpp" and "sizeof_Data * kpp < 2 ^ 62"
    and "fst at_end \<noteq> k" and "d_key (last ds) < k"
    and "read_at f (of_nat (sizeof_Data * length ds)) = Inl BadAccess"
  shows "\<exists>ix. KVIndex_new f (of_nat kpp) = Some (Inr ix) \<and>
    KVStore_get at_end k \<lparr>file_st = f, index_st = ix\<rparr> = Some (Inl BadAccess)"
proof -
  note h = assms(1)
  obtain ix where ix: "KVIndex_new f (of_nat kpp) = Some (Inr ix)"
    using KVIndex_new_pages [OF h assms(2,3)] by auto
  have n: "ds \<noteq> []" and srt: "sorted_wrt (<) (d_keys ds)" using h by (simp_all add: holds_records_def)
  have all: "d_key (ds ! i) < k" if "i < length ds" for i
    using le_less_trans [OF keys_le [OF srt, of i "length ds - 1"] assms(5) [unfolded last_conv_nth [OF n]]]
      that by simp
  then have hd: "d_key (hd ds) \<le> k" using n by (simp add: hd_conv_nth less_imp_le)
  have "(pages kpp (length ds) - 1) * kpp < length ds"
    using assms(2) n by (intro pages_bounds) simp_all
  then have "k \<noteq> d_key (ds ! ((pages kpp (length ds) - 1) * kpp))" using all by blast
  then obtain b e where p: "find_page at_end k ix = Some (of_nat (sizeof_Data * b), of_nat (sizeof_Data * e))"
    and be: "b < length ds" "e = length ds"
    using find_page_spec [OF h assms(2,3) ix hd assms(4)] assms(5) by metis
  have "find_by_key f k (of_nat (sizeof_Data * b)) (of_nat (sizeof_Data * e)) = Some (Inl BadAccess)"
    unfolding find_by_key_def
  proof (rule search_loop_overruns [OF h _ assms(6)])
    show "\<forall>i < length ds. d_key (ds ! i) < k" using all by blast
  qed (simp_all only: be(2) page_offset [OF h less_imp_le [OF be(1)]] page_offset [OF h order_refl]
         less_imp_le [OF be(1)])
  with ix p show ?thesis by (simp add: KVStore_get_def del: of_nat_mult)
qed

theorem get_above_last_key_faults_witness:
  "\<exists>ix. KVIndex_new (sample_file 4 0) (of_nat 2) = Some (Inr ix) \<and>
    KVStore_get (2, 64) 301 \<lparr>file_st = sample_file 4 0, index_st = ix\<rparr> = Some (Inl BadAccess)"
proof -
  have "holds_records (map sample_record [0..<4]) (sample_file 4 0)"
    by (rule sample_file_holds) simp_all
  moreover have "read_at (sample_file 4 0) (of_nat (sizeof_Data * 4)) = Inl BadAccess"
    by (rule sample_file_end) (simp_all add: sizeof_Data_def)
  ultimately show ?thesis
    using get_above_last_key_faults [of "map sample_record [0..<4]" "sample_file 4 0" 2 "(2, 64)" 301]
    by (simp add: sizeof_Data_def sample_record_def last_map)
qed

text \<open>
  The first key of a last page that is not full leaves the mapping, although the record is
  there. The bounds of an exact index hit are those of a full page; when the middle of that
  range is not readable, the look-up of a key that is in the file is an access outside the
  mapping.
\<close>
theorem get_partial_page_head_faults:
  assumes "holds_records ds f" and "0 < kpp" and "sizeof_Data * kpp < 2 ^ 62"
    and "b = (pages kpp (length ds) - 1) * kpp" and "k = d_key (ds ! b)"
    and "read_at f (of_nat (sizeof_Data * (b + kpp div 2))) = Inl BadAccess"
  shows "lookup_key k ds = Some (ds ! b) \<and>
    (\<exists>ix. KVIndex_new f (of_nat kpp) = Some (Inr ix) \<and>
      KVStore_get at_end k \<lparr>file_st = f, index_st = ix\<rparr> = Some (Inl BadAccess))"
proof -
  note h = assms(1)
  let ?m = "pages kpp (length ds)"
  have n: "ds \<noteq> []" and srt: "sorted_wrt (<) (d_keys ds)" using h by (simp_all add: holds_records_def)
  have m: "0 < ?m" and b: "b < length ds"
    using pages_bounds [OF assms(2), of "length ds"] n assms(4) by simp_all
  obtain ix where ix: "KVIndex_new f (of_nat kpp) = Some (Inr ix)"
    and ixv: "ix = \<lparr>store_ix = page_entries kpp ds ?m, page_size = of_nat (sizeof_Data * kpp),
      last_page_size = of_nat (sizeof_Data * last_page kpp (length ds))\<rparr>"
    using KVIndex_new_pages [OF h assms(2,3)] by auto
  define c where "c = lower_bound k (page_entries kpp ds ?m)"
  note lb = lower_bound_entries [OF refl, where k = k and m = ?m and kpp = kpp and ds = ds, folded c_def]
  have c: "c = ?m - 1"
  proof -
    have "\<not> ?m - 1 < c" using lb(2) [of "?m - 1"] assms(4,5) by auto
    moreover have "\<not> c < ?m - 1"
    proof
      assume c: "c < ?m - 1"
      then have "c * kpp < b" using assms(2,4) by simp
      then have "d_key (ds ! (c * kpp)) < k" using keys_less [OF srt _ b] assms(5) by simp
      moreover have "c < ?m" using c by simp
      note lb(3) [OF this]
      ultimately show False by simp
    qed
    ultimately show "c = ?m - 1" by simp
  qed
  have "find_page at_end k ix = Some (of_nat (sizeof_Data * b), of_nat (sizeof_Data * b) + of_nat (sizeof_Data * kpp))"
  proof -
    have "c < ?m" "d_key (ds ! (c * kpp)) = k" "c * kpp = b" using c m assms(4,5) by simp_all
    then show ?thesis unfolding find_page_def ixv
      by (simp add: Let_def deref_def page_entries_nth c_def [symmetric] del: of_nat_mult)
  qed
  moreover have "(of_nat (sizeof_Data * b) + of_nat (sizeof_Data * kpp) :: u64) = of_nat (sizeof_Data * (b + kpp))"
    by (simp add: algebra_simps)
  ultimately have p: "find_page at_end k ix = Some (of_nat (sizeof_Data * b), of_nat (sizeof_Data * (b + kpp)))"
    by (simp only:)
  let ?lo = "of_nat (sizeof_Data * b) div of_nat sizeof_Data :: u64"
  let ?hi = "of_nat (sizeof_Data * (b + kpp)) div of_nat sizeof_Data :: u64"
  have lo: "unat ?lo = b" by (rule page_offset [OF h less_imp_le [OF b]])
  have hi: "unat ?hi = b + kpp"
  proof -
    have "sizeof_Data * (b + kpp) < 2 ^ 64"
      using b assms(3) holds_records_length [OF h] by (simp add: sizeof_Data_def)
    then have "unat (of_nat (sizeof_Data * (b + kpp)) :: u64) = sizeof_Data * (b + kpp)" by (rule unat_of_nat_u64)
    then show ?thesis by (simp only: unat_div_distrib) (simp add: sizeof_Data_def)
  qed
  have le: "?lo \<le> ?hi" using lo hi by (simp add: word_le_nat_alt)
  define mid where "mid = ?lo + (?hi - ?lo) div 2"
  have "unat mid = b + kpp div 2"
    unfolding mid_def unat_mid [OF le] lo hi by simp
  moreover have "mid = of_nat (unat mid)" by simp
  ultimately have "mid = of_nat (b + kpp div 2)" by (simp only:)
  then have "mid * of_nat sizeof_Data = of_nat (sizeof_Data * (b + kpp div 2))"
    by (simp add: algebra_simps)
  then have "read_at f (mid * of_nat sizeof_Data) = Inl BadAccess" using assms(6) by (simp only:)
  then have "search_loop f k ?lo ?hi = Some (Inl BadAccess)"
    unfolding mid_def by (rule search_loop_fault [OF le])
  then have "KVStore_get at_end k \<lparr>file_st = f, index_st = ix\<rparr> = Some (Inl BadAccess)"
    by (simp only: KVStore_get_def p find_by_key_def option.case prod.case KVStore.simps)
  with ix lookup_key_nth [OF srt b] assms(5) show ?thesis by simp
qed

theorem get_partial_page_head_faults_witness:
  "\<exists>ix. KVIndex_new (sample_file 5 32) (of_nat 4) = Some (Inr ix) \<and>
    KVStore_get (2, 128) 400 \<lparr>file_st = sample_file 5 32, index_st = ix\<rparr> = Some (Inl BadAccess)"
proof -
  have "holds_records (map sample_record [0..<5]) (sample_file 5 32)"
    by (rule sample_file_holds) simp_all
  moreover have "read_at (sample_file 5 32) (of_nat (sizeof_Data * (4 + 4 div 2))) = Inl BadAccess"
    by (rule sample_file_end) (simp_all add: sizeof_Data_def)
  ultimately show ?thesis
    using get_partial_page_head_faults [of "map sample_record [0..<5]" "sample_file 5 32" 4 4 400 "(2, 128)"]
    by (simp add: sizeof_Data_def sample_record_def pages_def)
qed

end
