(* ===== verification/KV_Generator.thy ===== *)
theory KV_Generator
  imports KV_Lookup
begin

text \<open>
  \<^verbatim>\<open>examples/kvstore-http/generator.cpp\<close>: writing a database of equally spaced keys, page by
  page, through a shared mapping; and that the store opens what the generator wrote.
\<close>

section \<open>The generator\<close>

text \<open>
  \<^verbatim>\<open>lseek\<close> to the position behind the size and one zero byte written there: the file is two
  bytes longer than the mapping, and zero. (An offset is signed; a position of \<open>2 ^ 63\<close> or more
  is refused and the byte written at the beginning.)
\<close>

definition write_nul_at :: "string \<Rightarrow> u64 \<Rightarrow> kv_os \<Rightarrow> kv_os" where
  "write_nul_at path pos s =
     (let pos = (if unat pos < 2 ^ 63 then unat pos else 0)
      in s\<lparr>os_disk := (os_disk s)(path \<mapsto> zeros pos @ [0])\<rparr>)"

definition create_and_map :: "nat \<Rightarrow> u8 list \<Rightarrow> string \<Rightarrow> u64 \<Rightarrow> kv_os \<Rightarrow> (kv_exn + File) \<times> kv_os" where
  "create_and_map pg beyond dest sz s =
     (case sys_open dest O_RDWR_CREAT_TRUNC s of
        (Inl e, s) \<Rightarrow>
          (Inl (ErrnoException ''unable to create new file or truncate existing file'' e),
           Descriptor_dtor (Inl e) s)
      | (Inr fd, s) \<Rightarrow>
          (case File_new pg beyond dest sz READWRITE (write_nul_at dest (sz + 1) s) of
             (r, s) \<Rightarrow> (r, Descriptor_dtor (Inr fd) s)))"

definition fill_data_page :: "Data list \<Rightarrow> u64 \<Rightarrow> u64 \<Rightarrow> Data list" where
  "fill_data_page page key_begin step =
     map (\<lambda>i. (page ! i)\<lparr>d_key := key_begin + of_nat i * step, d_data := replicate 20 0x78\<rparr>)
       [0..<length page]"

text \<open>The inner loop: the records of a page, from record position \<open>pos\<close> on.\<close>

fun write_page :: "Data list \<Rightarrow> u64 \<Rightarrow> File \<Rightarrow> fault + File" where
  "write_page [] pos f = Inr f"
| "write_page (d # ds) pos f =
     (case write_at d (pos * of_nat sizeof_Data) f of
        Inl e \<Rightarrow> Inl e
      | Inr f \<Rightarrow> write_page ds (pos + 1) f)"

partial_function (option) generate_loop ::
    "u64 \<Rightarrow> u64 \<Rightarrow> u64 \<Rightarrow> Data list \<Rightarrow> u64 \<Rightarrow> File \<Rightarrow> (fault + File) option" where
  "generate_loop until chunk_size step page i f =
     (if i < until then
        (case write_page (fill_data_page page (i * step) step) i f of
           Inl e \<Rightarrow> Some (Inl e)
         | Inr f \<Rightarrow> generate_loop until chunk_size step page (i + chunk_size) f)
      else Some (Inr f))"

text \<open>\<open>pad\<close> are the padding bytes of the records of the vector, which nothing sets.\<close>

definition new_record :: "u8 list \<Rightarrow> Data" where
  "new_record pad = \<lparr>d_key = 0, d_data = zeros 20, d_pad = pad\<rparr>"

definition generate_data ::
    "nat \<Rightarrow> u8 list \<Rightarrow> u8 list \<Rightarrow> string \<Rightarrow> u64 \<Rightarrow> u64 \<Rightarrow> kv_os \<Rightarrow> (kv_exn + (fault + unit) option) \<times> kv_os" where
  "generate_data pg beyond pad dest keys step s =
     (let chunk_size = (if 4096 < keys then 4096 else keys)
      in case create_and_map pg beyond dest (keys * of_nat sizeof_Data) s of
           (Inl e, s) \<Rightarrow> (Inl e, s)
         | (Inr f, s) \<Rightarrow>
             if chunk_size = 0 then (Inr (Some (Inl DivideByZero)), s)
             else let page = replicate (unat chunk_size) (new_record pad); rest = keys mod chunk_size
                  in (case generate_loop (keys - rest) chunk_size step page 0 f of
                        None \<Rightarrow> (Inr None, s)
                      | Some (Inl e) \<Rightarrow> (Inr (Some (Inl e)), s)
                      | Some (Inr f) \<Rightarrow>
                          if rest = 0 then (Inr (Some (Inr ())), File_dtor pg f s)
                          else let page = take (unat rest) page; rest_begin = keys - rest
                               in (case write_page (fill_data_page page (rest_begin * step) step) rest_begin f of
                                     Inl e \<Rightarrow> (Inr (Some (Inl e)), s)
                                   | Inr f \<Rightarrow> (Inr (Some (Inr ())), File_dtor pg f s))))"

section \<open>What it writes\<close>

definition generated_record :: "u8 list \<Rightarrow> u64 \<Rightarrow> nat \<Rightarrow> Data" where
  "generated_record pad step i = \<lparr>d_key = of_nat i * step, d_data = replicate 20 0x78, d_pad = pad\<rparr>"

definition generated :: "u8 list \<Rightarrow> u64 \<Rightarrow> nat \<Rightarrow> Data list" where
  "generated pad step n = map (generated_record pad step) [0..<n]"

lemma fill_data_page_generated:
  "fill_data_page (replicate m (new_record pad)) (of_nat n * step) step =
     map (generated_record pad step) [n..<n + m]"
  by (rule nth_equalityI)
    (simp_all add: fill_data_page_def generated_record_def new_record_def algebra_simps)

lemma write_page_extends:
  assumes "f_data f = Some (concat (map Data_bytes ds0) @ tail)"
    and "\<forall>d \<in> set ds0 \<union> set ds. Data_wf d"
    and "sizeof_Data * length ds \<le> length tail"
    and "sizeof_Data * (length ds0 + length ds) < 2 ^ 62"
  shows "write_page ds (of_nat (length ds0)) f =
    Inr (f\<lparr>f_data := Some (concat (map Data_bytes (ds0 @ ds)) @ drop (sizeof_Data * length ds) tail)\<rparr>)"
  using assms
proof (induction ds arbitrary: ds0 tail f)
  case Nil
  then show ?case by (cases f) simp
next
  case (Cons d ds)
  let ?p = "of_nat (length ds0) * of_nat sizeof_Data :: u64"
  have len: "length (concat (map Data_bytes ds0)) = sizeof_Data * length ds0"
    using Cons.prems(2) by (intro length_concat_records) simp
  have p: "unat ?p = sizeof_Data * length ds0"
  proof -
    have "?p = of_nat (sizeof_Data * length ds0)" by (simp add: mult.commute)
    moreover have "sizeof_Data * length ds0 < 2 ^ 64"
      using Cons.prems(4) by (simp add: sizeof_Data_def)
    ultimately show ?thesis by (simp only: unat_of_nat_u64)
  qed
  have wf: "Data_wf d" using Cons.prems(2) by simp
  let ?f = "f\<lparr>f_data := Some (concat (map Data_bytes (ds0 @ [d])) @ drop sizeof_Data tail)\<rparr>"
  have "write_at d ?p f = Inr ?f"
    using Cons.prems(1,3) wf
    by (simp add: write_at_def p len splice_def sizeof_Data_def [symmetric])
  moreover have "write_page ds (of_nat (length (ds0 @ [d]))) ?f =
      Inr (?f\<lparr>f_data := Some (concat (map Data_bytes ((ds0 @ [d]) @ ds)) @
        drop (sizeof_Data * length ds) (drop sizeof_Data tail))\<rparr>)"
    by (rule Cons.IH) (use Cons.prems in \<open>simp_all add: algebra_simps\<close>)
  moreover have "of_nat (length (ds0 @ [d])) = (of_nat (length ds0) + 1 :: u64)" by simp
  ultimately show ?case by (simp add: add.commute)
qed

lemma generated_wf: "length pad = 4 \<Longrightarrow> d \<in> set (generated pad step n) \<Longrightarrow> Data_wf d"
  by (auto simp: generated_def generated_record_def Data_wf_def)

lemma length_generated [simp]: "length (generated pad step n) = n"
  by (simp add: generated_def)

lemma generated_append: "generated pad step n @ map (generated_record pad step) [n..<n + m] = generated pad step (n + m)"
  using upt_add_eq_append [of 0 n m] by (simp add: generated_def)

text \<open>One page, written behind \<open>n\<close> records.\<close>

lemma write_generated_page:
  assumes "f_data f = Some (concat (map Data_bytes (generated pad step n)) @ tail)"
    and "length pad = 4" and "sizeof_Data * m \<le> length tail" and "sizeof_Data * (n + m) < 2 ^ 62"
  shows "write_page (fill_data_page (replicate m (new_record pad)) (of_nat n * step) step) (of_nat n) f =
    Inr (f\<lparr>f_data := Some (concat (map Data_bytes (generated pad step (n + m))) @ drop (sizeof_Data * m) tail)\<rparr>)"
proof -
  have "\<forall>d \<in> set (generated pad step n) \<union> set (map (generated_record pad step) [n..<n + m]). Data_wf d"
    using generated_wf [OF assms(2)] assms(2) by (auto simp: generated_record_def Data_wf_def)
  from write_page_extends [OF assms(1) this] assms(3,4)
  show ?thesis unfolding fill_data_page_generated by (simp add: generated_append)
qed

lemma less_u64: "a < 2 ^ 62 \<Longrightarrow> b < 2 ^ 62 \<Longrightarrow> (of_nat a :: u64) < of_nat b \<longleftrightarrow> a < b"
  by (simp add: word_less_nat_alt unat_of_nat_u64)

lemma generate_loop_pages:
  assumes "f_data f = Some (concat (map Data_bytes (generated pad step n)) @ tail)"
    and "length pad = 4" and "0 < m"
    and "sizeof_Data * (q * m) \<le> length tail" and "sizeof_Data * (n + q * m) < 2 ^ 62"
  shows "generate_loop (of_nat (n + q * m)) (of_nat m) step (replicate m (new_record pad)) (of_nat n) f =
    Some (Inr (f\<lparr>f_data := Some (concat (map Data_bytes (generated pad step (n + q * m))) @
      drop (sizeof_Data * (q * m)) tail)\<rparr>))"
  using assms(1,4,5)
proof (induction q arbitrary: n tail f)
  case 0
  then show ?case by (cases f) (subst generate_loop.simps, simp)
next
  case (Suc q)
  let ?f = "f\<lparr>f_data := Some (concat (map Data_bytes (generated pad step (n + m))) @ drop (sizeof_Data * m) tail)\<rparr>"
  have lt: "(of_nat n :: u64) < of_nat (n + Suc q * m)"
    using Suc.prems(3) assms(3) by (subst less_u64) (simp_all add: sizeof_Data_def)
  have page: "write_page (fill_data_page (replicate m (new_record pad)) (of_nat n * step) step) (of_nat n) f = Inr ?f"
    by (rule write_generated_page [OF Suc.prems(1) assms(2)])
      (use Suc.prems in \<open>simp_all add: sizeof_Data_def\<close>)
  have ih: "generate_loop (of_nat ((n + m) + q * m)) (of_nat m) step (replicate m (new_record pad)) (of_nat (n + m)) ?f =
      Some (Inr (?f\<lparr>f_data := Some (concat (map Data_bytes (generated pad step ((n + m) + q * m))) @
        drop (sizeof_Data * (q * m)) (drop (sizeof_Data * m) tail))\<rparr>))"
    by (rule Suc.IH) (use Suc.prems in \<open>simp_all add: sizeof_Data_def\<close>)
  have sums: "(n + m) + q * m = n + Suc q * m"
    "sizeof_Data * (q * m) + sizeof_Data * m = sizeof_Data * (Suc q * m)"
    "(of_nat n + of_nat m :: u64) = of_nat (n + m)"
    by (simp_all add: algebra_simps)
  show ?case
    by (subst generate_loop.simps)
      (simp only: lt page if_True sum.case sums(3) ih [unfolded sums(1) drop_drop sums(2)], simp)
qed

lemma page_up_ge: "0 < pg \<Longrightarrow> n \<le> page_up pg n"
proof -
  assume pg: "0 < pg"
  have "page_up pg n + (n + pg - 1) mod pg = n + pg - 1" by (simp add: page_up_def)
  moreover have "(n + pg - 1) mod pg < pg" using pg by simp
  ultimately show ?thesis by linarith
qed

lemma sys_mmap_content:
  assumes "map_of (os_fds s) fd = Some path" and "os_disk s path = Some (c @ rest)"
    and "unat sz = length c" and "c \<noteq> []" and "0 < pg"
  shows "\<exists>tail. sys_mmap pg beyond (Inr fd) sz s = Inr (c @ tail)"
proof -
  have "sz \<noteq> 0" using assms(3,4) by auto
  moreover have "length c \<le> page_up pg (unat sz)" using page_up_ge [OF assms(5)] assms(3) by metis
  ultimately show ?thesis using assms(1,2) by (simp add: sys_mmap_def Let_def)
qed

lemma zeros_Suc: "zeros (Suc n) = zeros n @ [0]"
  by (simp add: zeros_def replicate_append_same)

lemma create_and_map_ok:
  assumes "0 < pg" and "length (os_fds s) + 2 \<le> os_limit s" and "0 < unat sz" and "unat sz < 2 ^ 62"
  shows "\<exists>f s' tail. create_and_map pg beyond dest sz s = (Inr f, s') \<and>
    f_data f = Some (zeros (unat sz) @ tail) \<and> f_size f = sz \<and> f_shared f = Some dest \<and>
    os_disk s' dest = Some (zeros (unat sz) @ [0, 0]) \<and>
    length (os_fds s') = length (os_fds s) + 2 \<and> os_limit s' = os_limit s"
proof -
  have pos: "unat (sz + 1) = unat sz + 1" using assms(4) by (intro unat_succ) simp
  define fd where "fd = lowest_free (map fst (os_fds s))"
  define s1 where "s1 = s\<lparr>os_disk := (os_disk s)(dest \<mapsto> []), os_fds := (fd, dest) # os_fds s\<rparr>"
  have o: "sys_open dest O_RDWR_CREAT_TRUNC s = (Inr fd, s1)"
    using assms(2) by (simp add: sys_open_def fd_def s1_def Let_def)
  define s2 where "s2 = write_nul_at dest (sz + 1) s1"
  have s2: "os_disk s2 dest = Some (zeros (unat sz) @ [0, 0])" "os_fds s2 = (fd, dest) # os_fds s"
    "os_limit s2 = os_limit s"
    using assms(4) by (simp_all add: s2_def write_nul_at_def s1_def pos zeros_Suc Let_def)
  define fd2 where "fd2 = lowest_free (map fst (os_fds s2))"
  define s3 where "s3 = s2\<lparr>os_fds := (fd2, dest) # os_fds s2\<rparr>"
  have o2: "sys_open dest O_RDWR s2 = (Inr fd2, s3)"
    using assms(2) s2 by (simp add: sys_open_def fd2_def s3_def Let_def)
  have "zeros (unat sz) \<noteq> []" "unat sz = length (zeros (unat sz))"
    using assms(3) by (simp_all add: zeros_def)
  then obtain tail where "sys_mmap pg beyond (Inr fd2) sz s3 = Inr (zeros (unat sz) @ tail)"
    using sys_mmap_content [of s3 fd2 dest "zeros (unat sz)" "[0, 0]" sz pg beyond] assms(1) s2
    by (auto simp: s3_def)
  then have "create_and_map pg beyond dest sz s =
      (Inr \<lparr>f_data = Some (zeros (unat sz) @ tail), f_size = sz, f_shared = Some dest\<rparr>, s3)"
    by (simp add: create_and_map_def o s2_def [symmetric] File_new_def o2 Descriptor_dtor_def)
  with s2 show ?thesis by (simp add: s3_def)
qed

lemma File_dtor_shared:
  assumes "f_data f = Some (c @ t)" and "f_shared f = Some path" and "length c = unat (f_size f)"
    and "os_disk s path = Some old" and "length c \<le> length old" and "0 < pg"
  shows "\<exists>rest s'. File_dtor pg f s = s' \<and> os_disk s' path = Some (c @ rest) \<and>
    os_fds s' = os_fds s \<and> os_limit s' = os_limit s"
proof -
  have "length c \<le> page_up pg (unat (f_size f))"
    using page_up_ge [OF assms(6)] assms(3) by simp
  with assms show ?thesis by (simp add: File_dtor_def Let_def)
qed

lemma generate_data_ok:
  assumes "0 < pg" and "length (os_fds s) + 2 \<le> os_limit s" and "length pad = 4"
    and "0 < keys" and "sizeof_Data * keys < 2 ^ 62"
  shows "\<exists>s' rest. generate_data pg beyond pad dest (of_nat keys) step s = (Inr (Some (Inr ())), s') \<and>
    os_disk s' dest = Some (concat (map Data_bytes (generated pad step keys)) @ rest) \<and>
    length (os_fds s') = length (os_fds s) + 2 \<and> os_limit s' = os_limit s"
proof -
  define sz where "sz = (of_nat keys * of_nat sizeof_Data :: u64)"
  have sz: "unat sz = sizeof_Data * keys"
  proof -
    have "sz = of_nat (sizeof_Data * keys)" by (simp add: sz_def mult.commute)
    moreover have "sizeof_Data * keys < 2 ^ 64" using assms(5) by simp
    ultimately show ?thesis by (simp only: unat_of_nat_u64)
  qed
  obtain f s1 tail where cm: "create_and_map pg beyond dest sz s = (Inr f, s1)"
    and f: "f_data f = Some (zeros (unat sz) @ tail)" "f_size f = sz" "f_shared f = Some dest"
    and s1: "os_disk s1 dest = Some (zeros (unat sz) @ [0, 0])"
      "length (os_fds s1) = length (os_fds s) + 2" "os_limit s1 = os_limit s"
    using create_and_map_ok [OF assms(1,2), of sz beyond dest] sz assms(4,5)
    by (auto simp: sizeof_Data_def)
  define m where "m = min 4096 keys"
  have m: "0 < m" "m \<le> keys" using assms(4) by (simp_all add: m_def)
  define q r where "q = keys div m" and "r = keys mod m"
  have qr: "keys = q * m + r" "r < m" using m(1) by (simp_all add: q_def r_def)
  have k62: "keys < 2 ^ 62" using assms(5) by (simp add: sizeof_Data_def)
  have chunk: "(if 4096 < (of_nat keys :: u64) then 4096 else of_nat keys) = (of_nat m :: u64)"
    using less_u64 [of 4096 keys] k62 by (simp add: m_def)
  have um: "unat (of_nat m :: u64) = m" using m k62 by (intro unat_of_nat_u64) simp
  have "(of_nat keys :: u64) mod of_nat m = of_nat (unat ((of_nat keys :: u64) mod of_nat m))" by simp
  also have "unat ((of_nat keys :: u64) mod of_nat m) = r"
    using k62 by (simp add: unat_mod_distrib um unat_of_nat_u64 r_def)
  finally have rest: "(of_nat keys :: u64) mod of_nat m = of_nat r" .
  have until: "(of_nat keys - of_nat r :: u64) = of_nat (0 + q * m)" by (simp add: qr(1))
  have ur: "unat (of_nat r :: u64) = r" using qr(2) m k62 by (intro unat_of_nat_u64) simp
  let ?page = "replicate m (new_record pad)"
  define t1 where "t1 = drop (sizeof_Data * (q * m)) (zeros (unat sz) @ tail)"
  define f1 where "f1 = f\<lparr>f_data := Some (concat (map Data_bytes (generated pad step (q * m))) @ t1)\<rparr>"
  have loop: "generate_loop (of_nat (0 + q * m)) (of_nat m) step ?page 0 f = Some (Inr f1)"
  proof -
    have "sizeof_Data * (q * m) \<le> length (zeros (unat sz) @ tail)" "sizeof_Data * (0 + q * m) < 2 ^ 62"
      "f_data f = Some (concat (map Data_bytes (generated pad step 0)) @ zeros (unat sz) @ tail)"
      using f(1) qr(1) sz assms(5) unfolding sizeof_Data_def
      by (simp_all add: zeros_def generated_def mult.commute [of m])
    from generate_loop_pages [OF this(3) assms(3) m(1) this(1,2)]
    show ?thesis by (simp only: f1_def t1_def add_0 semiring_1_class.of_nat_0)
  qed
  have len_t1: "sizeof_Data * r \<le> length t1"
    using qr(1) sz by (simp add: t1_def zeros_def sizeof_Data_def)
  define f2 where "f2 = f\<lparr>f_data := Some (concat (map Data_bytes (generated pad step keys)) @ drop (sizeof_Data * r) t1)\<rparr>"
  have page: "write_page (fill_data_page (replicate r (new_record pad)) (of_nat (q * m) * step) step) (of_nat (q * m)) f1 = Inr f2"
    using write_generated_page [of f1 pad step "q * m" t1 r] assms(3,5) len_t1 qr(1)
    by (simp add: f1_def f2_def)
  have f1f2: "r = 0 \<Longrightarrow> f1 = f2" by (simp add: f1_def f2_def qr(1))
  have "length (concat (map Data_bytes (generated pad step keys))) = unat sz"
    using length_concat_records [of "generated pad step keys"] generated_wf [OF assms(3)] sz by simp
  then have "\<exists>rest s'. File_dtor pg f2 s1 = s' \<and>
      os_disk s' dest = Some (concat (map Data_bytes (generated pad step keys)) @ rest) \<and>
      os_fds s' = os_fds s1 \<and> os_limit s' = os_limit s1"
    by (intro File_dtor_shared [where t = "drop (sizeof_Data * r) t1" and old = "zeros (unat sz) @ [0, 0]"])
      (simp_all add: f2_def f s1(1) assms(1), simp add: zeros_def)
  then obtain rest' s' where fin: "File_dtor pg f2 s1 = s'"
    "os_disk s' dest = Some (concat (map Data_bytes (generated pad step keys)) @ rest')"
    "os_fds s' = os_fds s1" "os_limit s' = os_limit s1" by blast
  have nz: "(of_nat m :: u64) \<noteq> 0" using um m(1) by (metis unat_0 less_irrefl)
  have r0: "(of_nat r :: u64) = 0 \<longleftrightarrow> r = 0" using ur by (metis unat_eq_zero)
  have take: "take r ?page = replicate r (new_record pad)" using qr(2) by (simp add: min_def)
  have "generate_data pg beyond pad dest (of_nat keys) step s = (Inr (Some (Inr ())), s')"
    unfolding generate_data_def Let_def chunk rest until sz_def [symmetric] cm
    using loop page fin(1) f1f2
    by (simp add: nz um ur r0 take del: of_nat_mult of_nat_add take_replicate)
  with fin s1 show ?thesis by auto
qed

section \<open>Generated databases are found by the store\<close>

lemma generated_holds:
  assumes "f_data f = Some (concat (map Data_bytes (generated pad (of_nat step) keys)) @ rest)"
    and "unat (f_size f) = sizeof_Data * keys" and "length pad = 4"
    and "0 < keys" and "sizeof_Data * keys < 2 ^ 62" and "0 < step" and "keys * step < 2 ^ 64"
  shows "holds_records (generated pad (of_nat step) keys) f"
proof -
  have key: "unat (d_key (generated pad (of_nat step) keys ! i)) = i * step" if "i < keys" for i
  proof -
    have "i * step < keys * step" using that assms(6) by simp
    from less_trans [OF this assms(7)] have "unat (of_nat (i * step) :: u64) = i * step" by (rule unat_of_nat_u64)
    with that show ?thesis by (simp add: generated_def generated_record_def)
  qed
  have "sorted_wrt (<) (d_keys (generated pad (of_nat step) keys))"
    using assms(6) by (auto simp: d_keys_def sorted_wrt_iff_nth_less word_less_nat_alt key)
  moreover have "read_at f (of_nat (sizeof_Data * i)) = Inr (generated pad (of_nat step) keys ! i)"
    if "i < keys" for i
    by (rule read_image [OF assms(1)]) (use that assms(5) generated_wf [OF assms(3)] in auto)
  ultimately show ?thesis
    using assms(2,4,5) by (auto simp: holds_records_def generated_def)
qed

lemma lookup_generated:
  assumes "0 < step" and "keys * step < 2 ^ 64" and "k < keys * step"
  shows "lookup_key (of_nat k) (generated pad (of_nat step) keys) =
    (if step dvd k then Some (generated_record pad (of_nat step) (k div step)) else None)"
proof -
  have key: "d_key (generated_record pad (of_nat step) i) = of_nat k \<longleftrightarrow> i * step = k" if "i < keys" for i
  proof -
    have "i * step < 2 ^ 64" "k < 2 ^ 64"
      using that assms(2,3) mult_less_cancel2 [of i step keys] assms(1) by linarith+
    then have "(of_nat (i * step) :: u64) = of_nat k \<longleftrightarrow> i * step = k"
      by (metis unat_of_nat_u64)
    then show ?thesis by (simp add: generated_record_def)
  qed
  show ?thesis
  proof (cases "step dvd k")
    case True
    have i: "k div step < keys" using assms(1,3) by (simp add: div_less_iff_less_mult)
    have "\<forall>j < k div step. d_key (generated pad (of_nat step) keys ! j) \<noteq> of_nat k"
      using key i assms(1) by (auto simp: generated_def)
    then have "find (\<lambda>d. d_key d = of_nat k) (generated pad (of_nat step) keys) =
        Some (generated pad (of_nat step) keys ! (k div step))"
      using i key [OF i] True by (auto simp: find_Some_iff generated_def)
    with i True show ?thesis by (simp add: lookup_key_def generated_def)
  next
    case False
    have "lookup_key (of_nat k) (generated pad (of_nat step) keys) = None"
      by (rule lookup_key_absent) (use key False in \<open>auto simp: generated_def\<close>)
    with False show ?thesis by simp
  qed
qed

text \<open>The store on a database of \<open>keys\<close> keys, \<open>step\<close> apart.\<close>

definition opened_store :: "u8 list \<Rightarrow> nat \<Rightarrow> nat \<Rightarrow> nat \<Rightarrow> KVStore \<Rightarrow> bool" where
  "opened_store pad keys step kpp st \<longleftrightarrow>
     holds_records (generated pad (of_nat step) keys) (file_st st) \<and>
     KVIndex_new (file_st st) (of_nat kpp) = Some (Inr (index_st st))"

text \<open>Any process that finds the generated records in the file can open it as a store.\<close>

lemma open_database:
  assumes "0 < pg" and "length (os_fds s1) < os_limit s1" and "length pad = 4"
    and "0 < keys" and "sizeof_Data * keys < 2 ^ 62" and "0 < step" and "keys * step < 2 ^ 64"
    and "0 < kpp" and "sizeof_Data * kpp < 2 ^ 62"
    and disk: "os_disk s1 dest = Some (concat (map Data_bytes (generated pad (of_nat step) keys)) @ rest)"
  shows "\<exists>st s2. KVStore_new pg beyond' dest (of_nat (sizeof_Data * keys)) (of_nat kpp) s1 = (Inr (Some (Inr st)), s2) \<and>
    opened_store pad keys step kpp st"
proof -
  let ?ds = "generated pad (of_nat step) keys"
  let ?sz = "of_nat (sizeof_Data * keys) :: u64"
  have sz: "unat ?sz = sizeof_Data * keys" using assms(5) by (intro unat_of_nat_u64) simp
  have len: "length (concat (map Data_bytes ?ds)) = sizeof_Data * keys"
    using length_concat_records [of ?ds] generated_wf [OF assms(3)] by simp
  then have "length (concat (map Data_bytes ?ds)) \<noteq> 0" using assms(4) by (simp add: sizeof_Data_def)
  then have "concat (map Data_bytes ?ds) \<noteq> []" by (metis list.size(3))
  define fd where "fd = lowest_free (map fst (os_fds s1))"
  define s2 where "s2 = s1\<lparr>os_fds := (fd, dest) # os_fds s1\<rparr>"
  have o: "sys_open dest O_RDONLY s1 = (Inr fd, s2)"
    using assms(2) disk by (simp add: sys_open_def fd_def s2_def Let_def)
  obtain tail where mm: "sys_mmap pg beyond' (Inr fd) ?sz s2 = Inr (concat (map Data_bytes ?ds) @ tail)"
    using sys_mmap_content [of s2 fd dest "concat (map Data_bytes ?ds)" rest ?sz pg beyond']
      disk sz len \<open>concat (map Data_bytes ?ds) \<noteq> []\<close> assms(1) by (auto simp: s2_def)
  define f where "f = \<lparr>f_data = Some (concat (map Data_bytes ?ds) @ tail), f_size = ?sz, f_shared = None\<rparr>"
  have new: "File_new pg beyond' dest ?sz READONLY s1 = (Inr f, s2)"
    by (simp add: File_new_def o mm f_def Descriptor_dtor_def del: of_nat_mult)
  have h: "holds_records ?ds f"
    by (rule generated_holds [where rest = tail]) (use sz assms in \<open>simp_all add: f_def\<close>)
  obtain ix where ix: "KVIndex_new f (of_nat kpp) = Some (Inr ix)"
    using KVIndex_new_pages [OF h assms(8,9)] by auto
  have "?sz mod of_nat sizeof_Data = 0"
  proof -
    have "unat (?sz mod of_nat sizeof_Data) = 0"
      by (simp only: unat_mod_distrib sz) (simp add: sizeof_Data_def)
    then show ?thesis by (metis unat_eq_zero)
  qed
  then have "KVStore_new pg beyond' dest ?sz (of_nat kpp) s1 = (Inr (Some (Inr \<lparr>file_st = f, index_st = ix\<rparr>)), s2)"
    by (simp add: KVStore_new_def new ix del: of_nat_mult)
  moreover have "opened_store pad keys step kpp \<lparr>file_st = f, index_st = ix\<rparr>"
    using h ix by (simp add: opened_store_def)
  ultimately show ?thesis by blast
qed

lemma generate_data_disk:
  assumes "0 < pg" and "length (os_fds s) + 2 \<le> os_limit s" and "length pad = 4"
    and "0 < keys" and "sizeof_Data * keys < 2 ^ 62"
  obtains s1 rest where "generate_data pg beyond pad dest (of_nat keys) step s = (Inr (Some (Inr ())), s1)"
    and "os_disk s1 dest = Some (concat (map Data_bytes (generated pad step keys)) @ rest)"
    and "length (os_fds s1) = length (os_fds s) + 2" and "os_limit s1 = os_limit s"
  using generate_data_ok [of pg s pad keys beyond dest step] assms by auto

lemma open_generated:
  assumes "0 < pg" and "length (os_fds s) + 3 \<le> os_limit s" and "length pad = 4"
    and "0 < keys" and "sizeof_Data * keys < 2 ^ 62" and "0 < step" and "keys * step < 2 ^ 64"
    and "0 < kpp" and "sizeof_Data * kpp < 2 ^ 62"
  shows "\<exists>s1 st s2.
    generate_data pg beyond pad dest (of_nat keys) (of_nat step) s = (Inr (Some (Inr ())), s1) \<and>
    KVStore_new pg beyond' dest (of_nat (sizeof_Data * keys)) (of_nat kpp) s1 = (Inr (Some (Inr st)), s2) \<and>
    opened_store pad keys step kpp st"
proof -
  obtain s1 rest where g: "generate_data pg beyond pad dest (of_nat keys) (of_nat step) s = (Inr (Some (Inr ())), s1)"
    and s1: "os_disk s1 dest = Some (concat (map Data_bytes (generated pad (of_nat step) keys)) @ rest)"
      "length (os_fds s1) = length (os_fds s) + 2" "os_limit s1 = os_limit s"
    by (rule generate_data_disk [of pg s pad keys beyond dest "of_nat step"]) (use assms(1-5) in auto)
  have "length (os_fds s1) < os_limit s1" using assms(2) s1(2,3) by simp
  from open_database [OF assms(1) this assms(3-9) s1(1)] g show ?thesis by blast
qed

lemma get_generated:
  assumes "opened_store pad keys step kpp st" and "0 < step" and "keys * step < 2 ^ 64" and "0 < keys"
    and "0 < kpp" and "sizeof_Data * kpp < 2 ^ 62"
    and "k \<le> (keys - 1) * step" and "fst at_end \<noteq> of_nat k"
    and "kpp dvd keys \<or> k \<noteq> (pages kpp keys - 1) * kpp * step"
  shows "KVStore_get at_end (of_nat k) st =
    Some (Inr (if step dvd k then Some (generated_record pad (of_nat step) (k div step)) else None))"
proof -
  let ?ds = "generated pad (of_nat step) keys"
  obtain f ix where st: "st = \<lparr>file_st = f, index_st = ix\<rparr>" by (cases st)
  have h: "holds_records ?ds f" and ix: "KVIndex_new f (of_nat kpp) = Some (Inr ix)"
    using assms(1) by (simp_all add: opened_store_def st)
  have small: "i * step < 2 ^ 64" if "i < keys" for i
    using that assms(3) mult_le_mono1 [of i keys step] by linarith
  have lt: "k < keys * step"
    using assms(2,4,7) by (cases keys) auto
  have k: "unat (of_nat k :: u64) = k" using lt assms(3) by (intro unat_of_nat_u64) simp
  have key: "unat (d_key (?ds ! i)) = i * step" if "i < keys" for i
    using unat_of_nat_u64 [OF small [OF that]] that by (simp add: generated_def generated_record_def)
  have "(of_nat k :: u64) \<le> d_key (last ?ds)"
    using key [of "keys - 1"] assms(4,7) k by (simp add: last_conv_nth word_le_nat_alt generated_def)
  moreover have "kpp dvd length ?ds \<or> of_nat k \<noteq> d_key (?ds ! ((pages kpp (length ?ds) - 1) * kpp))"
    using assms(9) key [of "(pages kpp keys - 1) * kpp"] pages_bounds(2) [OF assms(5,4)] k by auto
  ultimately have "KVStore_get at_end (of_nat k) \<lparr>file_st = f, index_st = ix\<rparr> = Some (Inr (lookup_key (of_nat k) ?ds))"
    by (intro get_lookup [OF h assms(5,6,8) _ _ ix])
  then show ?thesis by (simp add: st lookup_generated [OF assms(2,3) lt])
qed

text \<open>
  What the generator writes, the store finds. For any number of keys and any step that do
  not overflow, on a system with pages of any size: generating a database returns, opening it
  returns, and looking up \<open>k\<close> gives the generated record number \<open>k div step\<close> if the step divides
  \<open>k\<close> and nothing otherwise. Excluded are keys above the last one, the first key of a last index
  page that is not full, and an accidental hit at the \<^verbatim>\<open>end()\<close> of the index.
\<close>
theorem generated_database_lookup:
  assumes "0 < pg" and "length (os_fds s) + 3 \<le> os_limit s" and "length pad = 4"
    and "0 < keys" and "sizeof_Data * keys < 2 ^ 62" and "0 < step" and "keys * step < 2 ^ 64"
    and "0 < kpp" and "sizeof_Data * kpp < 2 ^ 62"
    and "k \<le> (keys - 1) * step" and "fst at_end \<noteq> of_nat k"
    and "kpp dvd keys \<or> k \<noteq> (pages kpp keys - 1) * kpp * step"
  shows "\<exists>s1 st s2.
    generate_data pg beyond pad dest (of_nat keys) (of_nat step) s = (Inr (Some (Inr ())), s1) \<and>
    KVStore_new pg beyond' dest (of_nat (sizeof_Data * keys)) (of_nat kpp) s1 = (Inr (Some (Inr st)), s2) \<and>
    KVStore_get at_end (of_nat k) st =
      Some (Inr (if step dvd k then Some (generated_record pad (of_nat step) (k div step)) else None))"
  using open_generated [OF assms(1-9), of beyond dest beyond']
    get_generated [OF _ assms(6,7,4,8,9,10,11,12)] by blast

theorem generated_database_lookup_witness:
  "\<exists>s1 st s2.
    generate_data 4096 [] (zeros 4) ''db'' 65536 100 \<lparr>os_fds = [], os_limit = 1024, os_disk = \<lambda>_. None\<rparr> =
      (Inr (Some (Inr ())), s1) \<and>
    KVStore_new 4096 [] ''db'' 2097152 1024 s1 = (Inr (Some (Inr st)), s2) \<and>
    KVStore_get (64, 32768) 4200 st = Some (Inr (Some (generated_record (zeros 4) 100 42)))"
  using generated_database_lookup [of 4096 "\<lparr>os_fds = [], os_limit = 1024, os_disk = \<lambda>_. None\<rparr>"
      "zeros 4" 65536 100 1024 4200 "(64, 32768)" "[]" "''db''" "[]"]
  by (simp add: zeros_def sizeof_Data_def)

end
