(* ===== verification/KV_Server.thy ===== *)
theory KV_Server
  imports KV_Generator Http_Message
begin

text \<open>
  The request handlers of the example servers: \<^verbatim>\<open>HttpKVStoreServer::serveRequest\<close> of
  \<^verbatim>\<open>examples/kvstore-http/kvstore.cpp\<close>, with the store it reads from as an argument, and
  \<^verbatim>\<open>HttpEchoServer::serveRequest\<close> of \<^verbatim>\<open>examples/http-example/http.cpp\<close>.
\<close>

section \<open>The handlers\<close>

abbreviation DQ :: string where "DQ \<equiv> [CHR 0x22]"

text \<open>The JSON text of a record.\<close>

definition data_json :: "Data \<Rightarrow> string" where
  "data_json data =
     ''{'' @ DQ @ ''key'' @ DQ @ '':'' @ to_dec (unat (d_key data)) @
     '','' @ DQ @ ''value'' @ DQ @ '':'' @ DQ @
     map (\<lambda>d. char_of (unat d)) (d_data data) @ DQ @ ''}''"

definition kv_serveRequest ::
    "u64 \<times> u64 \<Rightarrow> KVStore \<Rightarrow> HttpRequest \<Rightarrow> (fault + HttpResponse) option" where
  "kv_serveRequest at_end st request =
     (case getQueryParameter request ''key'' of
        None \<Rightarrow> Some (Inr (setStatusCode BAD_REQUEST HttpResponse_init))
      | Some key_str \<Rightarrow>
          (case from_chars_u64 key_str of
             Inl _ \<Rightarrow> Some (Inr (setStatusCode BAD_REQUEST HttpResponse_init))
           | Inr key \<Rightarrow>
               (case KVStore_get at_end (of_nat key) st of
                  None \<Rightarrow> None
                | Some (Inl e) \<Rightarrow> Some (Inl e)
                | Some (Inr None) \<Rightarrow> Some (Inr (setStatusCode NOT_FOUND HttpResponse_init))
                | Some (Inr (Some data)) \<Rightarrow>
                    Some (Inr (setBody (data_json data)
                      (setStatusCode OK
                        (addHeader ''Content-Type'' ''application/json'' HttpResponse_init)))))))"

definition echo_serveRequest :: "HttpRequest \<Rightarrow> HttpResponse" where
  "echo_serveRequest request =
     setBody (PrettyRequest request)
       (setStatusCode OK (addHeader ''Content-Type'' ''text/plain'' HttpResponse_init))"

section \<open>The abstract database\<close>

text \<open>
  What the server promises, over a database as a partial map from keys to the data bytes: a key
  is a maximal run of digits at the beginning of the parameter.
\<close>

definition spec_response :: "(nat \<Rightarrow> string option) \<Rightarrow> string option \<Rightarrow> HttpResponse" where
  "spec_response db param =
     (case param of
        None \<Rightarrow> setStatusCode BAD_REQUEST HttpResponse_init
      | Some s \<Rightarrow>
          let digits = takeWhile is_digit s; k = dec_val digits
          in if digits = [] \<or> 2 ^ 64 \<le> k then setStatusCode BAD_REQUEST HttpResponse_init
             else (case db k of
                     None \<Rightarrow> setStatusCode NOT_FOUND HttpResponse_init
                   | Some v \<Rightarrow>
                       setBody (''{'' @ DQ @ ''key'' @ DQ @ '':'' @ to_dec k @ '','' @ DQ @ ''value'' @ DQ @ '':'' @
                           DQ @ v @ DQ @ ''}'')
                         (setStatusCode OK (addHeader ''Content-Type'' ''application/json'' HttpResponse_init))))"

definition generated_db :: "nat \<Rightarrow> nat \<Rightarrow> nat \<Rightarrow> string option" where
  "generated_db keys step k =
     (if step dvd k \<and> k < keys * step then Some (replicate 20 CHR ''x'') else None)"

definition askable :: "u64 \<times> u64 \<Rightarrow> nat \<Rightarrow> nat \<Rightarrow> nat \<Rightarrow> nat \<Rightarrow> bool" where
  "askable at_end keys step kpp k \<longleftrightarrow>
     k \<le> (keys - 1) * step \<and> fst at_end \<noteq> of_nat k \<and> (kpp dvd keys \<or> k \<noteq> (pages kpp keys - 1) * kpp * step)"

lemma char_of_120: "char_of (120 :: nat) = CHR ''x''"
  by code_simp

lemma kv_serve_spec:
  assumes "opened_store pad keys step kpp st"
    and "0 < step" and "keys * step < 2 ^ 64" and "0 < keys" and "0 < kpp" and "sizeof_Data * kpp < 2 ^ 62"
    and "case getQueryParameter request ''key'' of None \<Rightarrow> True
      | Some s \<Rightarrow> askable at_end keys step kpp (dec_val (takeWhile is_digit s))"
  shows "kv_serveRequest at_end st request =
    Some (Inr (spec_response (generated_db keys step) (getQueryParameter request ''key'')))"
proof (cases "getQueryParameter request ''key''")
  case None
  then show ?thesis by (simp add: kv_serveRequest_def spec_response_def)
next
  case (Some s)
  define k where "k = dec_val (takeWhile is_digit s)"
  have ok: "k \<le> (keys - 1) * step" "fst at_end \<noteq> of_nat k"
    "kpp dvd keys \<or> k \<noteq> (pages kpp keys - 1) * kpp * step"
    using assms(7) Some by (simp_all add: askable_def k_def)
  have lt: "k < keys * step" using ok assms(2,4) by (cases keys) auto
  then have k64: "k < 2 ^ 64" using assms(3) by simp
  have get: "KVStore_get at_end (of_nat k) st =
      Some (Inr (if step dvd k then Some (generated_record pad (of_nat step) (k div step)) else None))"
    by (rule get_generated [OF assms(1-6)]) (use ok in auto)
  have key: "step dvd k \<Longrightarrow> unat (of_nat (k div step) * of_nat step :: u64) = k"
    using k64 unat_of_nat_u64 [of k] by (simp flip: of_nat_mult)
  have json: "step dvd k \<Longrightarrow> data_json (generated_record pad (of_nat step) (k div step)) =
      ''{'' @ DQ @ ''key'' @ DQ @ '':'' @ to_dec k @ '','' @ DQ @ ''value'' @ DQ @ '':'' @
        DQ @ replicate 20 CHR ''x'' @ DQ @ ''}''"
    using key char_of_120 by (simp add: data_json_def generated_record_def)
  show ?thesis
    using get json k64 lt Some
    by (simp add: kv_serveRequest_def spec_response_def from_chars_u64_def k_def [symmetric]
        generated_db_def Let_def)
qed



end
