(* ===== verification/Tcp_Props.thy ===== *)
theory Tcp_Props
  imports Tcp_Connection
begin

text \<open>
  What holds of blocking connections and servers: exact transfers (by the interface
  \<open>byte_stream\<close>), which address a constructor takes and which descriptors it leaves open, and
  the two defects of time-outs and of closing a connection that was reset.
\<close>

section \<open>A connection is a byte stream\<close>

definition con_incoming :: "con_state \<Rightarrow> string" where
  "con_incoming x =
     (case x of (c, s) \<Rightarrow>
        if isOpened c \<and> con_fd c \<in> set (to_open s) then pending (io_in (to_io s (con_fd c))) else [])"

definition con_sent :: "con_state \<Rightarrow> string" where
  "con_sent x = (case x of (c, s) \<Rightarrow> io_sent (to_io s (con_fd c)))"

lemma os_read_ok:
  assumes "os_read fd n s = (Inr bs, s')" and "0 < n"
  shows "fd \<in> set (to_open s) \<and> to_open s' = to_open s \<and> length bs \<le> n \<and>
    pending (io_in (to_io s fd)) = bs @ pending (io_in (to_io s' fd))"
  using assms sys_read_pending [of n "to_io s fd" bs] sys_read_length [of n "to_io s fd" bs]
  by (auto simp: os_read_def split: if_splits prod.splits sum.splits)

lemma os_read_fail:
  "os_read fd n s = (Inl e, s') \<Longrightarrow> fd \<notin> set (to_open s) \<or> pending (io_in (to_io s fd)) = []"
  using sys_read_fail [of n "to_io s fd" e]
  by (auto simp: os_read_def split: if_splits prod.splits sum.splits)

lemma Connection_close_closed:
  "Connection_close x = (Inr u, x') \<Longrightarrow> con_incoming x' = []"
  by (auto simp: Connection_close_def con_incoming_def isOpened_def split: if_splits prod.splits sum.splits)

lemma Connection_read_ok:
  assumes rd: "Connection_read n x = (Inr bs, x')" and n: "0 < n"
  shows "con_incoming x = bs @ con_incoming x' \<and> length bs \<le> n"
proof -
  obtain c s where x: "x = (c, s)" by fastforce
  with rd have op: "isOpened c" by (auto simp: Connection_read_def split: if_splits)
  obtain got s1 where r: "os_read (con_fd c) n s = (Inr got, s1)"
    using rd op x by (auto simp: Connection_read_def split: prod.splits sum.splits if_splits)
  note ok = os_read_ok [OF r n]
  show ?thesis
  proof (cases "got = []")
    case True
    with rd op x r obtain u where "Connection_close (c, s1) = (Inr u, x')" "bs = []"
      by (auto simp: Connection_read_def split: prod.splits sum.splits if_splits)
    moreover have "pending (io_in (to_io s (con_fd c))) = []"
      using r sys_read_end [OF _ n, of "to_io s (con_fd c)"] True
      by (auto simp: os_read_def split: if_splits prod.splits sum.splits)
    ultimately show ?thesis using Connection_close_closed [of "(c, s1)" u x'] by (simp add: x con_incoming_def)
  next
    case False
    with rd op x r have "bs = got" "x' = (c, s1)" by (simp_all add: Connection_read_def)
    with ok op show ?thesis by (simp add: x con_incoming_def)
  qed
qed

lemma Connection_read_progress:
  assumes "0 < n" and "con_incoming x \<noteq> []"
  shows "\<exists>bs x'. Connection_read n x = (Inr bs, x') \<and> bs \<noteq> []"
proof -
  obtain c s where x: "x = (c, s)" by fastforce
  with assms have a: "isOpened c" "con_fd c \<in> set (to_open s)" "pending (io_in (to_io s (con_fd c))) \<noteq> []"
    by (auto simp: con_incoming_def split: if_splits)
  from sys_read_progress [OF a(3) assms(1)] a(1,2) show ?thesis
    by (auto simp: Connection_read_def x os_read_def)
qed

lemma os_write_Inr:
  assumes "os_write fd bs s = (Inr n, s')"
  shows "n \<le> length bs \<and> io_sent (to_io s' fd) = io_sent (to_io s fd) @ take n bs"
proof -
  from assms obtain i where i: "sys_write bs (to_io s fd) = (Inr n, i)" "to_io s' fd = i"
    by (auto simp: os_write_def split: if_splits prod.splits sum.splits)
  from sys_write_sent(1) [OF i(1)] i(2) show ?thesis by simp
qed

lemma os_write_Inl:
  assumes "os_write fd bs s = (Inl e, s')"
  shows "io_sent (to_io s' fd) = io_sent (to_io s fd)"
proof (cases "fd \<in> set (to_open s)")
  case True
  with assms obtain i where i: "sys_write bs (to_io s fd) = (Inl e, i)" "to_io s' fd = i"
    by (auto simp: os_write_def split: if_splits prod.splits sum.splits)
  from sys_write_sent(2) [OF i(1)] i(2) show ?thesis by simp
next
  case False
  with assms show ?thesis by (simp add: os_write_def)
qed

interpretation con: byte_stream Connection_read Connection_write con_incoming con_sent
proof unfold_locales
  fix bs x n x' e
  show "Connection_write bs x = (Inr n, x') \<Longrightarrow> n \<le> length bs \<and> con_sent x' = con_sent x @ take n bs"
    using os_write_Inr [of "con_fd (fst x)" bs "snd x"]
    by (auto simp: Connection_write_def con_sent_def split: prod.splits if_splits sum.splits)
  show "Connection_write bs x = (Inl e, x') \<Longrightarrow> con_sent x' = con_sent x"
    using os_write_Inl [of "con_fd (fst x)" bs "snd x"]
    by (auto simp: Connection_write_def con_sent_def split: prod.splits if_splits sum.splits)
  show "0 < n \<Longrightarrow> con_incoming x \<noteq> [] \<Longrightarrow> \<exists>bs x'. Connection_read n x = (Inr bs, x') \<and> bs \<noteq> []"
    by (rule Connection_read_progress)
qed (simp_all add: Connection_read_ok)

text \<open>
  C23: \<^verbatim>\<open>readExact\<close> is exact. On any connection, with any pattern of partial reads, errors and
  end of the stream: it returns if and only if at least \<open>len\<close> bytes arrive before the first
  error or the end, the buffer then holds exactly those bytes and what follows them is still
  to be read; and if it throws, the buffer holds everything that did arrive.
\<close>
theorem readExact_exact:
  "case Connection_readExact len x of
     (Inr _, data, x') \<Rightarrow>
       len \<le> length (con_incoming x) \<and> data = take len (con_incoming x) \<and>
       con_incoming x' = drop len (con_incoming x)
   | (Inl _, data, x') \<Rightarrow> length (con_incoming x) < len \<and> data = con_incoming x"
proof -
  obtain r data x' where r: "Connection_readExact len x = (r, data, x')" by (cases "Connection_readExact len x")
  note sp = con.read_exact_spec [OF r [unfolded Connection_readExact_def], simplified]
  show ?thesis
  proof (cases r)
    case (Inl e)
    with r sp show ?thesis by (auto simp: not_le)
  next
    case (Inr u)
    have "r = Inr ()" using Inr by simp
    then have s: "con_incoming x = data @ con_incoming x'" "len \<le> length (con_incoming x)"
      "data = take len (con_incoming x)"
      using sp by blast+
    from s(2,3) have len: "length data = len" by simp
    have "drop len (con_incoming x) = con_incoming x'"
      by (subst s(1)) (simp add: len)
    with r Inr s(2,3) show ?thesis by simp
  qed
qed

text \<open>
  \<^verbatim>\<open>writeExact\<close> is exact. Whatever partial writes and errors occur: what has gone out is a
  prefix of the data, the whole of it if and only if the call returns, and nothing twice.
\<close>
theorem writeExact_exact:
  "case Connection_writeExact data x of
     (Inr _, n, x') \<Rightarrow> con_sent x' = con_sent x @ data
   | (Inl _, n, x') \<Rightarrow> n < length data \<and> con_sent x' = con_sent x @ take n data"
proof -
  obtain r n x' where r: "Connection_writeExact data x = (r, n, x')" by (cases "Connection_writeExact data x")
  note sp = con.write_exact_spec [OF r [unfolded Connection_writeExact_def], simplified]
  have "con_sent x' = take (length (con_sent x)) (con_sent x') @ drop (length (con_sent x)) (con_sent x')"
    by simp
  also have "\<dots> = con_sent x @ take n data"
    using sp [THEN conjunct2, THEN conjunct1] sp [THEN conjunct2, THEN conjunct2, THEN conjunct1] by metis
  finally have "con_sent x' = con_sent x @ take n data" .
  with r sp show ?thesis by (cases r) auto
qed

section \<open>Choosing an address\<close>

lemma setTimeout_fd_open:
  "fd \<in> set (to_open s) \<Longrightarrow>
     setTimeout_fd c fd t s = (Inr (), s\<lparr>to_sndtimeo := (to_sndtimeo s)(fd := Some t)\<rparr>)"
  by (simp add: setTimeout_fd_def os_setsockopt_def SO_SNDTIMEO_def SO_RCVTIMEO_def)

lemma connect_loop_spec:
  "connect_loop h p t addrs s = (r, s') \<Longrightarrow>
     (case find (\<lambda>a. ad_socket a \<and> ad_connect a) addrs of
        None \<Rightarrow> r = Inl (SocketOpeningException ''unable to connect to endpoint'' h p) \<and> to_open s' = to_open s
      | Some a \<Rightarrow>
          (\<exists>fd. fd \<notin> set (to_open s) \<and> 0 \<le> fd \<and> to_open s' = fd # to_open s \<and> to_connected s' fd \<and>
            (case (ad_local a, ad_remote a) of
               (Inr l, Inr m) \<Rightarrow> r = Inr \<lparr>con_fd = fd, con_local = l, con_remote = m\<rparr>
             | _ \<Rightarrow> (\<exists>msg. r = Inl (Exception msg)))))"
proof (induction addrs arbitrary: s)
  case (Cons a rest)
  obtain q s1 where q: "os_socket a s = (q, s1)" by fastforce
  show ?case
  proof (cases q)
    case None
    with q have "\<not> ad_socket a" "s1 = s" by (auto simp: os_socket_def Let_def split: if_splits)
    with Cons None q show ?thesis by simp
  next
    case (Some fd)
    with q have a: "ad_socket a" by (auto simp: os_socket_def split: if_splits)
    note op = os_socket_open [OF q [unfolded Some]]
    show ?thesis
    proof (cases "ad_connect a")
      case True
      define s2 where "s2 = snd (os_connect fd a s1)"
      have s2: "os_connect fd a s1 = (True, s2)" "to_open s2 = fd # to_open s" "to_connected s2 fd"
        "to_local s2 fd = ad_local a" "to_remote s2 fd = ad_remote a"
        using True op by (simp_all add: s2_def os_connect_def)
      have "fd \<in> set (to_open s2)" using s2 by simp
      note st = setTimeout_fd_open [OF this]
      show ?thesis
        using Cons.prems q Some True a op s2
        by (auto simp: Connection_of_fd_def get_local_sockaddr_def get_remote_sockaddr_def st split: sum.splits)
    next
      case False
      with Cons.prems q Some have l: "connect_loop h p t rest (snd (os_close fd s1)) = (r, s')"
        by (simp add: os_connect_def)
      from Cons.IH [OF l] False show ?thesis
        unfolding os_socket_close [OF q [unfolded Some]] by simp
    qed
  qed
qed simp

text \<open>
  Which address is taken, and which descriptors stay open. Connecting takes the first
  resolved address for which a socket can be made and connected; every attempt before it has
  its descriptor closed. If none can be connected it throws and leaves no descriptor. If the
  addresses of the connected socket cannot be read, it throws and leaves that descriptor open.
\<close>
theorem connection_new_spec:
  "case Connection_new gai h p t s of (r, s') \<Rightarrow>
     (case resolve_ipv4_tcp gai h p of
        Inl e \<Rightarrow> r = Inl e \<and> s' = s
      | Inr addrs \<Rightarrow>
          (case find (\<lambda>a. ad_socket a \<and> ad_connect a) addrs of
             None \<Rightarrow> r = Inl (SocketOpeningException ''unable to connect to endpoint'' h p) \<and> to_open s' = to_open s
           | Some a \<Rightarrow>
               (\<exists>fd. fd \<notin> set (to_open s) \<and> 0 \<le> fd \<and> to_open s' = fd # to_open s \<and> to_connected s' fd \<and>
                 (case (ad_local a, ad_remote a) of
                    (Inr l, Inr m) \<Rightarrow> r = Inr \<lparr>con_fd = fd, con_local = l, con_remote = m\<rparr>
                  | _ \<Rightarrow> (\<exists>msg. r = Inl (Exception msg))))))"
proof (cases "resolve_ipv4_tcp gai h p")
  case (Inl e)
  then show ?thesis by (simp add: Connection_new_def)
next
  case (Inr addrs)
  obtain r s' where r: "connect_loop h p t addrs s = (r, s')" by fastforce
  from connect_loop_spec [OF r] show ?thesis by (simp only: Connection_new_def Inr r sum.case prod.case)
qed

section \<open>Defects\<close>

text \<open>
  A time-out never applies to reading. The two option numbers are combined bit by bit, which
  gives the number of the send time-out alone: setting a time-out on an open connection succeeds,
  sets the send time-out, and leaves the receive time-out of every socket as it was.
\<close>
theorem receive_timeout_never_set:
  assumes "isOpened c" and "con_fd c \<in> set (to_open s)"
  shows "\<exists>s'. Connection_setTimeout t (c, s) = (Inr (), c, s') \<and>
    to_sndtimeo s' (con_fd c) = Some t \<and> to_rcvtimeo s' = to_rcvtimeo s"
  using assms by (simp add: Connection_setTimeout_def setTimeout_fd_open)

text \<open>
  A connection that was reset is never closed. When a read fails because the peer has reset
  the connection, closing it throws (the shutdown of a socket that is no longer connected fails),
  and after the destructor has swallowed that exception the descriptor is still open.
\<close>
theorem reset_connection_leaks:
  assumes "isOpened c" and "con_fd c \<in> set (to_open s)"
    and "io_in (to_io s (con_fd c)) = RError ECONNRESET # rest"
  shows "\<exists>e e' x. Connection_read n (c, s) = (Inl e, x) \<and> fst (Connection_close x) = Inl e' \<and>
    con_fd c \<in> set (to_open (Connection_dtor x))"
  using assms
  by (simp add: Connection_read_def os_read_def sys_read_def note_reset_def Connection_dtor_def
      Connection_close_def os_shutdown_def isOpened_def)

definition sample_os :: "rd_item list \<Rightarrow> tcp_os" where
  "sample_os script =
     \<lparr>to_open = [5], to_connected = (\<lambda>fd. fd = 5), to_io = (\<lambda>fd. io_init (if fd = 5 then script else []) []),
      to_sndtimeo = (\<lambda>_. None), to_rcvtimeo = (\<lambda>_. None),
      to_local = (\<lambda>_. Inl EBADF), to_remote = (\<lambda>_. Inl EBADF)\<rparr>"

definition sample_con :: Connection where
  "sample_con = \<lparr>con_fd = 5, con_local = Sockinfo_default, con_remote = Sockinfo_default\<rparr>"

theorem receive_timeout_never_set_witness:
  "\<exists>s'. Connection_setTimeout 3 (sample_con, sample_os []) = (Inr (), sample_con, s') \<and>
    to_sndtimeo s' 5 = Some 3 \<and> to_rcvtimeo s' = to_rcvtimeo (sample_os [])"
  using receive_timeout_never_set [of sample_con "sample_os []" 3]
  by (simp add: isOpened_def FD_CLOSED_def sample_con_def sample_os_def)

theorem reset_connection_leaks_witness:
  "\<exists>e e' x. Connection_read 10 (sample_con, sample_os [RError ECONNRESET]) = (Inl e, x) \<and>
    fst (Connection_close x) = Inl e' \<and> 5 \<in> set (to_open (Connection_dtor x))"
  using reset_connection_leaks [of sample_con "sample_os [RError ECONNRESET]" "[]" 10]
  by (simp add: isOpened_def FD_CLOSED_def sample_con_def sample_os_def io_init_def)

end
