(* ===== verification/Async_Invariant.thy ===== *)
theory Async_Invariant
  imports Async_Server
begin

text \<open>
  The invariant of the asynchronous server, for every callback that works on its own connection
  only (the interface \<open>async_callback\<close>): while \<^verbatim>\<open>accept\<close> is running, each connection in the table
  is open and watched for exactly its current interest set.
\<close>

section \<open>The invariant\<close>

definition entry_ok :: "'h AsyncServer \<Rightarrow> int \<Rightarrow> AsyncConnection \<Rightarrow> bool" where
  "entry_ok v fd c \<longleftrightarrow>
     ac_fd c = fd \<and> fd \<in> set (to_open (as_os v)) \<and> watched (as_poller v) fd = Some (ev_data (ac_interest c))"

definition as_base :: "'h AsyncServer \<Rightarrow> bool" where
  "as_base v \<longleftrightarrow>
     fds_valid (as_os v) \<and> as_fd v \<in> set (to_open (as_os v)) \<and> as_connection v (as_fd v) = None"

definition entries_ok :: "int set \<Rightarrow> 'h AsyncServer \<Rightarrow> bool" where
  "entries_ok X v \<longleftrightarrow> (\<forall>fd c. fd \<notin> X \<longrightarrow> as_connection v fd = Some c \<longrightarrow> entry_ok v fd c)"

definition as_inv :: "'h AsyncServer \<Rightarrow> bool" where
  "as_inv v \<longleftrightarrow> as_base v \<and> entries_ok {} v"

lemma entries_present:
  "entries_ok {fd} v \<Longrightarrow> as_connection v fd = Some c \<Longrightarrow> entry_ok v fd c \<Longrightarrow> entries_ok {} v"
  unfolding entries_ok_def by (metis empty_iff insert_iff option.inject)

lemma entries_absent: "entries_ok {fd} v \<Longrightarrow> as_connection v fd = None \<Longrightarrow> entries_ok {} v"
  unfolding entries_ok_def by (metis empty_iff insert_iff option.distinct(1))

lemma as_inv_open: "as_base v \<Longrightarrow> as_isOpened v"
  by (auto simp: as_base_def as_isOpened_def fds_valid_def)

section \<open>The state updates\<close>

lemma map_of_filter_key: "map_of (filter (\<lambda>(k, _). P k) xs) k = (if P k then map_of xs k else None)"
  by (induction xs) auto

lemma watched_set_os [simp]:
  "watched (as_poller (set_os s v)) fd = (if fd \<in> set (to_open s) then watched (as_poller v) fd else None)"
  by (simp add: watched_def set_os_def map_of_filter_key)

lemma set_os_simps [simp]:
  "as_os (set_os s v) = s" "as_fd (set_os s v) = as_fd v" "as_connection (set_os s v) = as_connection v"
  "as_next_id (set_os s v) = as_next_id v" "as_handler_state (set_os s v) = as_handler_state v"
  "as_default_interests_set (set_os s v) = as_default_interests_set v"
  by (simp_all add: set_os_def as_connection_def)

lemma set_poller_simps [simp]:
  "as_os (set_poller k v) = as_os v" "as_fd (set_poller k v) = as_fd v"
  "as_connection (set_poller k v) = as_connection v" "as_poller (set_poller k v) = k"
  by (simp_all add: set_poller_def as_connection_def)

lemma put_connection_simps [simp]:
  "as_os (put_connection fd c v) = as_os v" "as_fd (put_connection fd c v) = as_fd v"
  "as_connection (put_connection fd c v) = (as_connection v)(fd \<mapsto> c)"
  "as_poller (put_connection fd c v) = as_poller v"
  by (simp_all add: put_connection_def as_connection_def update_conv')

lemma drop_connection_simps [simp]:
  "as_os (drop_connection fd v) = as_os v" "as_fd (drop_connection fd v) = as_fd v"
  "as_connection (drop_connection fd v) = (as_connection v)(fd := None)"
  "as_poller (drop_connection fd v) = as_poller v"
  by (simp_all add: drop_connection_def as_connection_def delete_conv')

lemma field_simps_server [simp]:
  "as_connection (v\<lparr>as_handler_state := h\<rparr>) = as_connection v"
  "as_connection (v\<lparr>as_next_id := n\<rparr>) = as_connection v"
  by (simp_all add: as_connection_def)

section \<open>Accepting and closing\<close>

lemma ac_dtor_frame: "ac_frame (c, s) (snd (ac_close (c, s)))"
  by (rule ac_close_frame) (rule prod.collapse [symmetric])

lemma registerConnection_inv:
  assumes inv: "as_inv v" and fd: "fd \<in> set (to_open (as_os v))" "fd \<noteq> as_fd v" "as_connection v fd = None"
    and reg: "registerConnection fd v = (Inr u, v')"
  shows "as_inv v'"
proof -
  obtain c where c: "AsyncConnection_new (as_next_id v) fd (as_os v) = Inr c"
    using reg by (auto simp: registerConnection_def split: sum.splits)
  then have cfd: "ac_fd c = fd" by (auto simp: AsyncConnection_new_def split: sum.splits)
  let ?c = "setInterestsSet (as_default_interests_set v) c"
  show ?thesis
  proof (cases rule: add_cases [of fd "getInterestSet ?c" "as_poller v"])
    case (ok k)
    then have v': "v' = put_connection fd ?c (set_poller k (v\<lparr>as_next_id := Suc (as_next_id v)\<rparr>))"
      using reg c by (simp add: registerConnection_def Let_def)
    show ?thesis
      using inv fd cfd ok(2) unfolding v'
      by (auto simp: as_inv_def as_base_def entries_ok_def entry_ok_def setInterestsSet_def getInterestSet_def)
  next
    case (failed k)
    then show ?thesis using reg c by (simp add: registerConnection_def Let_def)
  qed
qed

lemma as_inv_accepted:
  assumes inv: "as_inv v" and acc: "os_accept a (as_os v) = (Inr fd, s)"
  shows "as_inv (set_os s v) \<and> fd \<in> set (to_open s) \<and> fd \<noteq> as_fd v \<and> as_connection v fd = None"
proof -
  from acc have fd: "fd = fresh_fd (to_open (as_os v))" and s: "to_open s = fd # to_open (as_os v)"
    by (auto simp: os_accept_def Let_def split: sum.splits)
  note fr = fresh_fd [of "to_open (as_os v)", folded fd]
  have "fd \<noteq> as_fd v" using fr inv by (auto simp: as_inv_def as_base_def)
  moreover have "as_connection v fd = None"
    using fr(1) inv by (cases "as_connection v fd") (auto simp: as_inv_def entries_ok_def entry_ok_def)
  moreover have "as_inv (set_os s v)"
    using inv s fr(2)
    by (auto simp: as_inv_def as_base_def fds_valid_def FD_CLOSED_def entries_ok_def entry_ok_def)
  ultimately show ?thesis using s by simp
qed

lemma acceptConnections_inv:
  "as_inv v \<Longrightarrow> acceptConnections outcomes v = (Inr u, v') \<Longrightarrow> as_inv v'"
proof (induction outcomes arbitrary: v)
  case (Cons a rest)
  obtain r s where r: "os_accept a (as_os v) = (r, s)" by fastforce
  show ?case
  proof (cases r)
    case (Inl e)
    with Cons r show ?thesis by (auto split: if_splits)
  next
    case (Inr fd)
    note acc = as_inv_accepted [OF Cons.prems(1) r [unfolded Inr]]
    from Cons.prems(2) r Inr obtain w v1 where v1: "registerConnection fd (set_os s v) = (Inr w, v1)"
      and rest: "acceptConnections rest v1 = (Inr u, v')"
      by (auto simp: and_then_Inr_iff)
    have "as_inv v1" by (rule registerConnection_inv [OF _ _ _ _ v1]) (use acc in auto)
    with Cons.IH rest show ?thesis by blast
  qed
qed simp

text \<open>Closing a connection whose entry may be stale.\<close>

lemma closeConnection_inv:
  assumes base: "as_base v" "entries_ok {fd} v" and ne: "fd \<noteq> as_fd v"
    and own: "\<And>c. as_connection v fd = Some c \<Longrightarrow> ac_fd c = fd \<or> ac_fd c = FD_CLOSED"
    and close: "closeConnection fd v = (Inr u, v')"
  shows "as_inv v'"
proof (cases "as_connection v fd")
  case None
  with close have "v' = v" by (simp add: closeConnection_def)
  with base None show ?thesis by (simp add: as_inv_def entries_absent)
next
  case (Some c)
  from close Some obtain w c' s where k: "ac_close (c, as_os v) = (Inr w, c', s)"
    and v': "v' = set_os s (drop_connection fd v)"
    by (auto simp: closeConnection_def split: prod.splits sum.splits)
  from k have s: "ac_fd c \<in> set (to_open (as_os v))" "to_open s = removeAll (ac_fd c) (to_open (as_os v))"
    by (auto simp: ac_close_def os_shutdown_def os_close_def split: if_splits)
  with base own [OF Some] have "ac_fd c = fd" by (auto simp: as_base_def fds_valid_def)
  with s base ne show ?thesis
    unfolding v' by (auto simp: as_inv_def as_base_def entries_ok_def entry_ok_def fds_valid_def)
qed

section \<open>The interface of callbacks\<close>

locale async_callback =
  fixes handler :: "'h handler"
  assumes handler_frame: "handler c events (h, s) = (r, c', h', s') \<Longrightarrow> fds_valid s \<Longrightarrow> ac_frame (c, s) (c', s')"
begin

lemma handled_state:
  assumes inv: "as_inv v" and c: "as_connection v fd = Some c"
    and fr: "ac_frame (c, as_os v) (c', s')"
    and v1: "v1 = set_os s' (put_connection fd c' (v\<lparr>as_handler_state := h'\<rparr>))"
  shows "as_base v1 \<and> entries_ok {fd} v1 \<and> as_connection v1 fd = Some c' \<and>
    (ac_fd c' = fd \<and> fd \<in> set (to_open s') \<and> watched (as_poller v1) fd = Some (ev_data (ac_interest c)) \<or>
     ac_fd c' = FD_CLOSED) \<and> fd \<noteq> as_fd v"
proof -
  have ok: "entry_ok v fd c" using inv c by (auto simp: as_inv_def entries_ok_def)
  have ne: "fd \<noteq> as_fd v" using inv c by (auto simp: as_inv_def as_base_def)
  have op: "g \<in> set (to_open s')" if "g \<in> set (to_open (as_os v))" "g \<noteq> fd" for g
    using fr that ok by (auto simp: ac_frame_def entry_ok_def)
  have val: "fds_valid s'" using ac_frame_valid [OF fr] inv by (auto simp: as_inv_def as_base_def)
  have "as_base v1"
    using inv ne op val unfolding v1 by (auto simp: as_inv_def as_base_def)
  moreover have "entries_ok {fd} v1"
    using inv op unfolding v1 by (auto simp: as_inv_def entries_ok_def entry_ok_def)
  moreover have "ac_fd c' = fd \<and> fd \<in> set (to_open s') \<and> watched (as_poller v1) fd = Some (ev_data (ac_interest c)) \<or>
     ac_fd c' = FD_CLOSED"
    using fr ok unfolding v1 by (auto simp: ac_frame_def entry_ok_def)
  ultimately show ?thesis using ne unfolding v1 by simp
qed

lemma as_handleEvent_inv:
  assumes inv: "as_inv v" and ev: "as_handleEvent handler fd events v = (r, v')"
  shows "case r of
     Inr _ \<Rightarrow> as_inv v'
   | Inl _ \<Rightarrow> as_base v' \<and> entries_ok {fd} v' \<and>
       (\<forall>c. as_connection v' fd = Some c \<longrightarrow> fd \<noteq> as_fd v' \<and> (ac_fd c = fd \<or> ac_fd c = FD_CLOSED))"
proof (cases "as_connection v fd")
  case None
  with ev inv show ?thesis
    by (auto simp: as_handleEvent_def getConnection_def as_inv_def entries_ok_def split: sum.splits)
next
  case (Some c)
  define res where "res = (if triggersOn c (EventsSet_of_mask events) \<or>
      haveIntersection (EventsSet_of_mask events) (EventsSet_of [HUP, RDHUP, ERR])
    then handler c (EventsSet_of_mask events) (as_handler_state v, as_os v)
    else (Inr (), c, as_handler_state v, as_os v))"
  obtain q c' h' s' where res: "res = (q, c', h', s')" by (metis surj_pair)
  have "fds_valid (as_os v)" using inv by (simp add: as_inv_def as_base_def)
  then have fr: "ac_frame (c, as_os v) (c', s')"
    using res handler_frame unfolding res_def by (auto split: if_splits)
  define v1 where "v1 = set_os s' (put_connection fd c' (v\<lparr>as_handler_state := h'\<rparr>))"
  note st = handled_state [OF inv Some fr v1_def]
  note fd1 = v1_def
  have fdv1: "as_fd v1 = as_fd v" by (simp add: v1_def)
  have step: "as_handleEvent handler fd events v =
      (case q of
         Inl e \<Rightarrow> (Inl e, v1)
       | Inr _ \<Rightarrow>
           if \<not> ac_isOpened c' then (Inr (), drop_connection fd v1)
           else if \<not> ev_empty (ev_diff (getInterestSet c') (getInterestSet c)) then
             (case modify fd (getInterestSet c') (as_poller v1) of
                (Inl e, k) \<Rightarrow> (Inl e, set_poller k v1)
              | (Inr _, k) \<Rightarrow> (Inr (), set_poller k v1))
           else (Inr (), v1))"
    unfolding as_handleEvent_def getConnection_def Some
    by (simp only: Let_def sum.case option.case res_def [symmetric] res prod.case v1_def [symmetric])
  show ?thesis
  proof (cases q)
    case (Inl e)
    with ev step have "r = Inl e" "v' = v1" by simp_all
    with st fdv1 show ?thesis by auto
  next
    case (Inr u)
    show ?thesis
    proof (cases "ac_isOpened c'")
      case False
      with ev step Inr have "r = Inr ()" "v' = drop_connection fd v1" by simp_all
      with st fdv1 show ?thesis
        by (auto simp: as_inv_def as_base_def entries_ok_def entry_ok_def)
    next
      case True
      with st have w: "ac_fd c' = fd" "fd \<in> set (to_open (as_os v1))"
        "watched (as_poller v1) fd = Some (ev_data (ac_interest c))"
        by (auto simp: ac_isOpened_def v1_def)
      show ?thesis
      proof (cases "ev_empty (ev_diff (getInterestSet c') (getInterestSet c))")
        case same: True
        then have "ac_interest c' = ac_interest c"
          by (simp add: getInterestSet_def ev_diff_empty_iff)
        moreover have "r = Inr ()" "v' = v1" using ev step Inr True same by simp_all
        ultimately show ?thesis
          using st w by (auto simp: as_inv_def entry_ok_def v1_def [symmetric] intro: entries_present)
      next
        case changed: False
        show ?thesis
        proof (cases rule: modify_cases [of fd "getInterestSet c'" "as_poller v1"])
          case (ok k)
          then have "r = Inr ()" "v' = set_poller k v1" using ev step Inr True changed by simp_all
          with st w ok(2) show ?thesis
            by (auto simp: as_inv_def as_base_def entries_ok_def entry_ok_def getInterestSet_def)
        next
          case (failed k)
          then have "\<exists>e. r = Inl e" "v' = set_poller k v1" using ev step Inr True changed by auto
          with st w failed(2) fdv1 show ?thesis
            by (auto simp: as_base_def entries_ok_def entry_ok_def)
        qed
      qed
    qed
  qed
qed

lemma serve_event_inv: "as_inv v \<Longrightarrow> serve_event handler e v = (Inr u, v') \<Longrightarrow> as_inv v'"
proof (cases e)
  case (Incoming outcomes)
  then show "as_inv v \<Longrightarrow> serve_event handler e v = (Inr u, v') \<Longrightarrow> as_inv v'"
    by (simp add: acceptConnections_inv)
next
  case (Ready fd events)
  assume inv: "as_inv v" and s: "serve_event handler e v = (Inr u, v')"
  obtain r v1 where h: "as_handleEvent handler fd events v = (r, v1)" by fastforce
  note hi = as_handleEvent_inv [OF inv h]
  show "as_inv v'"
  proof (cases r)
    case (Inr w)
    with s h hi Ready show ?thesis by simp
  next
    case (Inl x)
    with s h Ready have k: "closeConnection fd v1 = (Inr u, v')" by simp
    show ?thesis
    proof (cases "as_connection v1 fd")
      case None
      with k hi Inl show ?thesis by (auto simp: closeConnection_def as_inv_def intro: entries_absent)
    next
      case (Some c)
      with hi Inl show ?thesis by (intro closeConnection_inv [OF _ _ _ _ k]) auto
    qed
  qed
qed

lemma serve_events_inv: "as_inv v \<Longrightarrow> serve_events handler es v = (Inr u, v') \<Longrightarrow> as_inv v'"
  by (induction es arbitrary: v) (auto simp: and_then_Inr_iff dest: serve_event_inv)

lemma serve_rounds_inv: "as_inv v \<Longrightarrow> serve_rounds handler ws v = (Inr u, v') \<Longrightarrow> as_inv v'"
proof (induction ws arbitrary: v)
  case Nil
  then show ?case using as_inv_open [of v] by (simp add: as_inv_def)
next
  case (Cons w ws)
  have op: "as_isOpened v" using as_inv_open Cons.prems(1) by (auto simp: as_inv_def)
  with Cons.prems(2) obtain events x v1 where "w = Inr events" "serve_events handler events v = (Inr x, v1)"
    "serve_rounds handler ws v1 = (Inr u, v')"
    by (auto simp: and_then_Inr_iff split: sum.splits)
  with Cons serve_events_inv show ?case by blast
qed

lemma as_accept_inv:
  assumes "as_accept handler waits v = (Inr u, v')"
    and "fds_valid (as_os v)" and "as_fd v \<in> set (to_open (as_os v))" and "as_connections v = []"
  shows "as_inv v'"
proof (cases rule: add_cases [of "as_fd v" "EventsSet_of [IN]" "as_poller v"])
  case (ok k)
  have "as_connection v = Map.empty" using assms(4) by (simp add: as_connection_def)
  then have "as_inv (set_poller k v)"
    using assms(2,3) by (simp add: as_inv_def as_base_def entries_ok_def)
  moreover have "serve_rounds handler waits (set_poller k v) = (Inr u, v')"
    using assms(1) ok by (simp add: as_accept_def del: EventsSet_of.simps)
  ultimately show ?thesis by (rule serve_rounds_inv)
next
  case (failed k)
  with assms(1) show ?thesis by (simp add: as_accept_def del: EventsSet_of.simps)
qed

end

end
