(* ===== verification/Async_Echo.thy ===== *)
theory Async_Echo
  imports Async_Invariant
begin

text \<open>
  \<^verbatim>\<open>examples/async-tcp-example/async-echo.cpp\<close>: a callback that sends back what it receives. Its
  registry of contexts is keyed by the connection object, here by the connection's identity.
\<close>

section \<open>The callback\<close>

record EchoContext =
  ec_read_buffer :: string
  ec_read_pos :: nat
  ec_write_pos :: nat

definition EchoContext_default :: EchoContext where
  "EchoContext_default = \<lparr>ec_read_buffer = replicate 256 (CHR 0x00), ec_read_pos = 0, ec_write_pos = 0\<rparr>"

type_synonym echo_registry = "(nat \<times> EchoContext) list"

text \<open>\<^verbatim>\<open>contexes_registry_[con]\<close>, which inserts a fresh context if there is none.\<close>

definition echo_context :: "AsyncConnection \<Rightarrow> echo_registry \<Rightarrow> EchoContext" where
  "echo_context c h = (case map_of h (ac_id c) of None \<Rightarrow> EchoContext_default | Some ctx \<Rightarrow> ctx)"

text \<open>The bytes \<open>got\<close> go into the buffer at \<open>pos\<close>.\<close>

definition store_at :: "nat \<Rightarrow> string \<Rightarrow> string \<Rightarrow> string" where
  "store_at pos got buffer = take pos buffer @ got @ drop (pos + length got) buffer"

definition echo_grow :: "string \<Rightarrow> string" where
  "echo_grow buffer = buffer @ replicate (length buffer) (CHR 0x00)"

definition echo_received :: "string \<Rightarrow> EchoContext \<Rightarrow> EchoContext" where
  "echo_received got ctx =
     (let pos = ec_read_pos ctx + length got;
          buffer = store_at (ec_read_pos ctx) got (ec_read_buffer ctx)
      in ctx\<lparr>ec_read_pos := pos, ec_read_buffer := (if length buffer = pos then echo_grow buffer else buffer)\<rparr>)"

function (sequential) echo_read_loop :: "EchoContext \<Rightarrow> ac_state \<Rightarrow> (tcp_exn + unit) \<times> EchoContext \<times> ac_state" where
  "echo_read_loop ctx (c, s) =
     (case ac_read (length (ec_read_buffer ctx) - ec_read_pos ctx) (c, s) of
        (Inl e, x) \<Rightarrow> (Inl e, ctx, x)
      | (Inr (r, got), x) \<Rightarrow>
          if isEOF r \<or> again r = Some True then (Inr (), ctx, x)
          else echo_read_loop (echo_received got ctx) x)"
  by pat_completeness auto
termination
  by (relation "measure (\<lambda>(ctx, c, s). in_weight (to_io s (ac_fd c)))") (auto intro: ac_read_progress [OF sym])

declare echo_read_loop.simps [simp del]

definition echo_handleRead :: "EchoContext \<Rightarrow> ac_state \<Rightarrow> (tcp_exn + unit) \<times> EchoContext \<times> ac_state" where
  "echo_handleRead ctx x =
     (case echo_read_loop ctx x of
        (Inl e, ctx, x) \<Rightarrow> (Inl e, ctx, x)
      | (Inr _, ctx, (c, s)) \<Rightarrow>
          (Inr (), ctx,
           (if ec_write_pos ctx < ec_read_pos ctx then c\<lparr>ac_interest := ev_add OUT (ac_interest c)\<rparr> else c), s))"

text \<open>\<^verbatim>\<open>again()\<close> of an absent result would throw; \<^verbatim>\<open>write\<close> always returns one.\<close>

function (sequential) echo_write_loop :: "EchoContext \<Rightarrow> ac_state \<Rightarrow> (tcp_exn + unit) \<times> EchoContext \<times> ac_state" where
  "echo_write_loop ctx (c, s) =
     (if ec_write_pos ctx < ec_read_pos ctx then
        (case ac_write (take (ec_read_pos ctx - ec_write_pos ctx) (drop (ec_write_pos ctx) (ec_read_buffer ctx))) (c, s) of
           (Inl e, x) \<Rightarrow> (Inl e, ctx, x)
         | (Inr r, x) \<Rightarrow>
             (case again r of
                None \<Rightarrow> (Inl (Exception ''bad optional access''), ctx, x)
              | Some True \<Rightarrow> (Inr (), ctx, x)
              | Some False \<Rightarrow> echo_write_loop (ctx\<lparr>ec_write_pos := ec_write_pos ctx + the (bytes r)\<rparr>) x))
      else (Inr (), ctx, (c, s)))"
  by pat_completeness auto
termination
  by (relation "measure (\<lambda>(ctx, c, s). length (io_out (to_io s (ac_fd c))))") (auto intro: ac_write_progress [OF sym])

declare echo_write_loop.simps [simp del]

definition drop_out :: "EchoContext \<Rightarrow> ac_state \<Rightarrow> ac_state" where
  "drop_out ctx x =
     (case x of (c, s) \<Rightarrow>
        (if ec_write_pos ctx = ec_read_pos ctx then c\<lparr>ac_interest := ev_sub OUT (ac_interest c)\<rparr> else c, s))"

definition echo_handleWrite :: "EchoContext \<Rightarrow> ac_state \<Rightarrow> (tcp_exn + unit) \<times> EchoContext \<times> ac_state" where
  "echo_handleWrite ctx x =
     (case echo_write_loop ctx x of
        (Inl e, ctx, x) \<Rightarrow> (Inl e, ctx, x)
      | (Inr _, ctx, x) \<Rightarrow> (Inr (), ctx, drop_out ctx x))"

text \<open>The body of the callback on the connection's context, which is changed in place.\<close>

definition echo_serve :: "EventsSet \<Rightarrow> EchoContext \<Rightarrow> ac_state \<Rightarrow> (tcp_exn + unit) \<times> EchoContext \<times> ac_state" where
  "echo_serve events ctx x =
     (case (if contains events IN then echo_handleRead ctx x else (Inr (), ctx, x)) of
        (Inl e, ctx, x) \<Rightarrow> (Inl e, ctx, x)
      | (Inr _, ctx, x) \<Rightarrow>
          (case (if contains events OUT then echo_handleWrite ctx x else (Inr (), ctx, x)) of
             (Inl e, ctx, x) \<Rightarrow> (Inl e, ctx, x)
           | (Inr _, ctx, x) \<Rightarrow> (Inr (), ctx, drop_out ctx x)))"

definition echo_handler :: "echo_registry handler" where
  "echo_handler c events hs =
     (case hs of (h, s) \<Rightarrow>
        if contains events ERR then
          (case ac_close (c, s) of (r, c, s) \<Rightarrow> (r, c, AList.delete (ac_id c) h, s))
        else
          (case echo_serve events (echo_context c h) (c, s) of
             (r, ctx, (c, s)) \<Rightarrow> (r, c, AList.update (ac_id c) ctx h, s)))"

section \<open>The callback's frame\<close>

lemma echo_read_loop_frame:
  "echo_read_loop ctx x = (r, ctx', y) \<Longrightarrow> fds_valid (snd x) \<Longrightarrow> ac_frame x y"
proof (induction "in_weight (to_io (snd x) (ac_fd (fst x)))" arbitrary: ctx x rule: less_induct)
  case less
  obtain c s where x: "x = (c, s)" by fastforce
  obtain q c1 s1 where q: "ac_read (length (ec_read_buffer ctx) - ec_read_pos ctx) (c, s) = (q, c1, s1)"
    by (metis surj_pair)
  note fr = ac_read_frame [OF q]
  show ?case
  proof (cases "\<exists>n got. q = Inr (n, got) \<and> \<not> isEOF n \<and> again n \<noteq> Some True")
    case False
    then have "y = (c1, s1)"
      using less.prems(1) q unfolding x by (subst (asm) echo_read_loop.simps) (auto split: sum.splits if_splits)
    with fr x show ?thesis by simp
  next
    case True
    then obtain n got where n: "q = Inr (n, got)" "\<not> isEOF n" "again n \<noteq> Some True" by blast
    have step: "echo_read_loop (echo_received got ctx) (c1, s1) = (r, ctx', y)"
      using less.prems(1) q n unfolding x by (subst (asm) echo_read_loop.simps) simp
    have "ac_frame (c1, s1) y"
      by (rule less.hyps [OF _ step])
        (use ac_read_progress [OF q [unfolded n(1)] n(2,3)] ac_frame_valid [OF fr] less.prems(2) x in simp_all)
    with fr x less.prems(2) show ?thesis by (auto intro: ac_frame_trans)
  qed
qed

lemma echo_write_loop_frame:
  "echo_write_loop ctx x = (r, ctx', y) \<Longrightarrow> fds_valid (snd x) \<Longrightarrow> ac_frame x y"
proof (induction "length (io_out (to_io (snd x) (ac_fd (fst x))))" arbitrary: ctx x rule: less_induct)
  case less
  obtain c s where x: "x = (c, s)" by fastforce
  let ?data = "take (ec_read_pos ctx - ec_write_pos ctx) (drop (ec_write_pos ctx) (ec_read_buffer ctx))"
  obtain q c1 s1 where q: "ac_write ?data (c, s) = (q, c1, s1)" by (metis surj_pair)
  note fr = ac_write_frame [OF q]
  show ?case
  proof (cases "ec_write_pos ctx < ec_read_pos ctx \<and> (\<exists>n. q = Inr n \<and> again n = Some False)")
    case False
    then have "y = (c1, s1) \<or> y = (c, s)"
      using less.prems(1) q unfolding x
      by (subst (asm) echo_write_loop.simps) (auto split: sum.splits if_splits option.splits bool.splits)
    with fr x show ?thesis by auto
  next
    case True
    then obtain n where n: "q = Inr n" "again n = Some False" by blast
    have step: "echo_write_loop (ctx\<lparr>ec_write_pos := ec_write_pos ctx + the (bytes n)\<rparr>) (c1, s1) = (r, ctx', y)"
      using less.prems(1) q n True unfolding x by (subst (asm) echo_write_loop.simps) simp
    have "ac_frame (c1, s1) y"
      by (rule less.hyps [OF _ step])
        (use ac_write_progress [OF q [unfolded n(1)] n(2)] ac_frame_valid [OF fr] less.prems(2) x in simp_all)
    with fr x less.prems(2) show ?thesis by (auto intro: ac_frame_trans)
  qed
qed

lemma drop_out_frame [simp]: "ac_frame x (drop_out ctx y) = ac_frame x y"
  by (cases y) (simp add: drop_out_def)

lemma echo_handleRead_frame:
  assumes "echo_handleRead ctx x = (r, ctx', y)" and "fds_valid (snd x)"
  shows "ac_frame x y"
proof -
  obtain q ctx1 c1 s1 where l: "echo_read_loop ctx x = (q, ctx1, c1, s1)" by (metis surj_pair)
  from echo_read_loop_frame [OF l assms(2)] assms(1) l show ?thesis
    by (auto simp: echo_handleRead_def split: sum.splits if_splits)
qed

lemma echo_handleWrite_frame:
  assumes "echo_handleWrite ctx x = (r, ctx', y)" and "fds_valid (snd x)"
  shows "ac_frame x y"
proof -
  obtain q ctx1 z where l: "echo_write_loop ctx x = (q, ctx1, z)" by (metis surj_pair)
  from echo_write_loop_frame [OF l assms(2)] assms(1) l show ?thesis
    by (auto simp: echo_handleWrite_def split: sum.splits)
qed

lemma echo_serve_frame:
  assumes "echo_serve events ctx x = (r, ctx', y)" and "fds_valid (snd x)"
  shows "ac_frame x y"
proof -
  obtain q ctx1 x1 where rd: "(if contains events IN then echo_handleRead ctx x else (Inr (), ctx, x)) = (q, ctx1, x1)"
    by (metis surj_pair)
  then have fr1: "ac_frame x x1"
    using echo_handleRead_frame [OF _ assms(2)] by (cases x) (auto split: if_splits)
  obtain p ctx2 x2 where wr: "(if contains events OUT then echo_handleWrite ctx1 x1 else (Inr (), ctx1, x1)) = (p, ctx2, x2)"
    by (metis surj_pair)
  then have "ac_frame x1 x2"
    using echo_handleWrite_frame ac_frame_valid [OF fr1 assms(2)] by (cases x1) (auto split: if_splits)
  with fr1 assms(2) have "ac_frame x x2" by (blast intro: ac_frame_trans)
  with fr1 assms(1) rd wr show ?thesis by (auto simp: echo_serve_def split: sum.splits)
qed

lemma echo_handler_frame:
  assumes "echo_handler c events (h, s) = (r, c', h', s')" and "fds_valid s"
  shows "ac_frame (c, s) (c', s')"
proof (cases "contains events ERR")
  case True
  with assms(1) show ?thesis by (auto simp: echo_handler_def split: prod.splits intro: ac_close_frame)
next
  case False
  obtain q ctx c1 s1 where e: "echo_serve events (echo_context c h) (c, s) = (q, ctx, c1, s1)" by (metis surj_pair)
  with assms(1) False have "c' = c1" "s' = s1" by (simp_all add: echo_handler_def)
  with echo_serve_frame [OF e] assms(2) show ?thesis by simp
qed

interpretation echo: async_callback echo_handler
  by unfold_locales (rule echo_handler_frame)

end
