(* ===== verification/Async_Echo_Props.thy ===== *)
theory Async_Echo_Props
  imports Async_Echo
begin

text \<open>
  The echo callback sends back, in order, exactly what it has received, and waits for room
  while something is left to send; a client that stops sending can nevertheless bring the
  whole server down.
\<close>

section \<open>The context\<close>

definition echo_wf :: "EchoContext \<Rightarrow> bool" where
  "echo_wf ctx \<longleftrightarrow> ec_write_pos ctx \<le> ec_read_pos ctx \<and> ec_read_pos ctx < length (ec_read_buffer ctx)"

text \<open>Everything received so far.\<close>

definition ec_data :: "EchoContext \<Rightarrow> string" where
  "ec_data ctx = take (ec_read_pos ctx) (ec_read_buffer ctx)"

lemma echo_wf_default [simp]: "echo_wf EchoContext_default" "ec_data EchoContext_default = []"
  by (simp_all add: echo_wf_def ec_data_def EchoContext_default_def)

lemma ec_data_write_pos [simp]: "ec_data (ctx\<lparr>ec_write_pos := n\<rparr>) = ec_data ctx"
  by (simp add: ec_data_def)

lemma echo_received_spec:
  assumes "echo_wf ctx" and "length got \<le> length (ec_read_buffer ctx) - ec_read_pos ctx"
  shows "echo_wf (echo_received got ctx)" "ec_data (echo_received got ctx) = ec_data ctx @ got"
    "ec_write_pos (echo_received got ctx) = ec_write_pos ctx"
  using assms by (auto simp: echo_wf_def ec_data_def echo_received_def store_at_def echo_grow_def Let_def)

section \<open>Reading\<close>

lemma ac_read_throws:
  assumes "ac_read len (c, s) = (Inl e, c', s')" and "ac_isOpened c" and "ac_fd c \<in> set (to_open s)"
  obtains q i where "sys_read len (to_io s (ac_fd c)) = (q, i)" "q = Inr [] \<or> (\<exists>x. q = Inl x)"
    "c' = c" "to_io s' = (to_io s)(ac_fd c := i)"
proof -
  obtain q i where q: "sys_read len (to_io s (ac_fd c)) = (q, i)" by fastforce
  show thesis
    by (rule that [OF q])
      (use assms q in \<open>auto simp: ac_read_def os_read_def ac_close_def os_shutdown_def os_close_def
        split: if_splits sum.splits\<close>)
qed

lemma echo_read_loop_spec:
  assumes "echo_read_loop ctx (c, s) = (r, ctx', c', s')" and "echo_wf ctx"
    and "ac_isOpened c" and "ac_fd c \<in> set (to_open s)"
  shows "echo_wf ctx' \<and> ec_data ctx' = ec_data ctx @ pending (io_in (to_io s (ac_fd c))) \<and>
    ec_write_pos ctx' = ec_write_pos ctx \<and> ac_interest c' = ac_interest c \<and>
    io_sent (to_io s' (ac_fd c)) = io_sent (to_io s (ac_fd c)) \<and>
    io_out (to_io s' (ac_fd c)) = io_out (to_io s (ac_fd c))"
  using assms
proof (induction "in_weight (to_io s (ac_fd c))" arbitrary: ctx c s rule: less_induct)
  case less
  let ?len = "length (ec_read_buffer ctx) - ec_read_pos ctx"
  have len: "0 < ?len" using less.prems(2) by (simp add: echo_wf_def)
  obtain q x where q: "ac_read ?len (c, s) = (q, x)" by (metis surj_pair)
  obtain c1 s1 where x: "x = (c1, s1)" by fastforce
  show ?case
  proof (cases q)
    case (Inl e)
    from q x Inl have "ac_read ?len (c, s) = (Inl e, c1, s1)" by simp
    then obtain k i where k: "sys_read ?len (to_io s (ac_fd c)) = (k, i)" "k = Inr [] \<or> (\<exists>x. k = Inl x)"
      "c1 = c" "to_io s1 = (to_io s)(ac_fd c := i)"
      using less.prems(3,4) by (rule ac_read_throws)
    have "pending (io_in (to_io s (ac_fd c))) = []"
      using k(1,2) len by (auto dest: sys_read_fail sys_read_end)
    moreover have "ctx' = ctx" "c' = c1" "s' = s1"
      using less.prems(1) q x Inl by (subst (asm) echo_read_loop.simps; simp)+
    ultimately show ?thesis using less.prems(2) k(3,4) sys_read_frame [OF k(1)] by simp
  next
    case (Inr rg)
    obtain n got where rg: "rg = (n, got)" by fastforce
    from q x Inr rg have rd: "ac_read ?len (c, s) = (Inr (n, got), c1, s1)" by simp
    then show ?thesis
    proof (cases rule: ac_read_result)
      case (data i)
      then have "\<not> isEOF n" "again n \<noteq> Some True" by (simp_all add: isEOF_def again_def)
      then have step: "echo_read_loop (echo_received got ctx) (c1, s1) = (r, ctx', c', s')"
        using less.prems(1) rd by (subst (asm) echo_read_loop.simps) simp
      note rc = echo_received_spec [OF less.prems(2) sys_read_length [OF data(4)]]
      have "in_weight (to_io s1 (ac_fd c1)) < in_weight (to_io s (ac_fd c))"
        using sys_read_weight [OF data(4) len data(2)] data by simp
      note ih = less.hyps [OF this step rc(1)]
      have "ac_isOpened c1" "ac_fd c1 \<in> set (to_open s1)" using less.prems data by simp_all
      from ih [OF this] show ?thesis
        using data rc sys_read_pending [OF data(4) len] sys_read_frame [OF data(4)] by simp
    next
      case (again i)
      then have "ctx' = ctx" "c' = c1" "s' = s1"
        using less.prems(1) rd by (subst (asm) echo_read_loop.simps; simp add: again_def)+
      with again less.prems(2) sys_read_fail [OF again(4)] sys_read_frame [OF again(4)] show ?thesis by simp
    next
      case (eof i)
      then have "ctx' = ctx" "c' = c1" "s' = s1"
        using less.prems(1) rd by (subst (asm) echo_read_loop.simps; simp add: isEOF_def)+
      moreover have "pending (io_in (to_io s (ac_fd c))) = []"
        using eof(4) len by (rule sys_read_end)
      ultimately show ?thesis using eof less.prems(2) sys_read_frame [OF eof(4)] by simp
    qed
  qed
qed

text \<open>A script that ends the stream without an error before.\<close>

fun ends_eof :: "rd_item list \<Rightarrow> bool" where
  "ends_eof (RBytes bs # rest) \<longleftrightarrow> bs = [] \<or> ends_eof rest"
| "ends_eof _ \<longleftrightarrow> False"

lemma sys_read_ends_eof:
  assumes "sys_read n s = (r, s')" and "ends_eof (io_in s)" and "0 < n"
  shows "\<exists>bs. r = Inr bs \<and> (bs \<noteq> [] \<longrightarrow> ends_eof (io_in s'))"
  using assms by (auto simp: sys_read_def split: list.splits rd_item.splits if_splits)

lemma echo_read_loop_eof:
  assumes "echo_wf ctx" and "ac_isOpened c" and "ac_fd c \<in> set (to_open s)"
    and "to_connected s (ac_fd c)" and "ends_eof (io_in (to_io s (ac_fd c)))"
  shows "\<exists>ctx' s'. echo_read_loop ctx (c, s) = (Inr (), ctx', c\<lparr>ac_fd := FD_CLOSED\<rparr>, s')"
  using assms
proof (induction "in_weight (to_io s (ac_fd c))" arbitrary: ctx s rule: less_induct)
  case less
  let ?len = "length (ec_read_buffer ctx) - ec_read_pos ctx"
  have len: "0 < ?len" using less.prems(1) by (simp add: echo_wf_def)
  obtain r i where r: "sys_read ?len (to_io s (ac_fd c)) = (r, i)" by fastforce
  obtain got where got: "r = Inr got" "got \<noteq> [] \<Longrightarrow> ends_eof (io_in i)"
    using sys_read_ends_eof [OF r less.prems(5) len] by auto
  show ?case
  proof (cases "got = []")
    case True
    then show ?thesis
      using r got less.prems
      by (simp add: echo_read_loop.simps [of ctx c s] ac_read_def os_read_def ac_close_def os_shutdown_def
          os_close_def isEOF_def)
  next
    case False
    let ?s = "s\<lparr>to_io := (to_io s)(ac_fd c := i)\<rparr>"
    have "echo_read_loop ctx (c, s) = echo_read_loop (echo_received got ctx) (c, ?s)"
      using r got less.prems False
      by (simp add: echo_read_loop.simps [of ctx c s] ac_read_def os_read_def isEOF_def again_def)
    moreover have "\<exists>ctx' s'. echo_read_loop (echo_received got ctx) (c, ?s) = (Inr (), ctx', c\<lparr>ac_fd := FD_CLOSED\<rparr>, s')"
      by (rule less.hyps)
        (use less.prems got False sys_read_weight [OF r [unfolded got(1)] len False]
          echo_received_spec(1) [OF less.prems(1) sys_read_length [OF r [unfolded got(1)]]] in auto)
    ultimately show ?thesis by simp
  qed
qed

section \<open>Writing\<close>

lemma echo_write_loop_spec:
  assumes "echo_write_loop ctx (c, s) = (r, ctx', c', s')" and "echo_wf ctx"
  shows "echo_wf ctx' \<and> ec_data ctx' = ec_data ctx \<and> ec_read_pos ctx' = ec_read_pos ctx \<and>
    ec_write_pos ctx \<le> ec_write_pos ctx' \<and> c' = c \<and> to_open s' = to_open s \<and>
    io_in (to_io s' (ac_fd c)) = io_in (to_io s (ac_fd c)) \<and>
    io_sent (to_io s' (ac_fd c)) = io_sent (to_io s (ac_fd c)) @
      take (ec_write_pos ctx' - ec_write_pos ctx) (drop (ec_write_pos ctx) (ec_data ctx))"
  using assms
proof (induction "length (io_out (to_io s (ac_fd c)))" arbitrary: ctx c s rule: less_induct)
  case less
  let ?data = "take (ec_read_pos ctx - ec_write_pos ctx) (drop (ec_write_pos ctx) (ec_read_buffer ctx))"
  have data: "?data = drop (ec_write_pos ctx) (ec_data ctx)" by (simp add: ec_data_def drop_take)
  show ?case
  proof (cases "ec_write_pos ctx < ec_read_pos ctx")
    case False
    with less.prems show ?thesis by (subst (asm) echo_write_loop.simps) simp
  next
    case True
    obtain q c1 s1 where q: "ac_write ?data (c, s) = (q, c1, s1)" by (metis surj_pair)
    show ?thesis
    proof (cases q)
      case (Inl e)
      then have "c1 = c" "to_open s1 = to_open s" "io_in (to_io s1 (ac_fd c)) = io_in (to_io s (ac_fd c))"
        "io_sent (to_io s1 (ac_fd c)) = io_sent (to_io s (ac_fd c))"
        using q by (auto simp: ac_write_def os_write_def io_simps split: if_splits sum.splits prod.splits)
      moreover have "ctx' = ctx" "c' = c1" "s' = s1"
        using less.prems(1) q Inl True by (subst (asm) echo_write_loop.simps; simp)+
      ultimately show ?thesis using less.prems(2) by simp
    next
      case (Inr n)
      from q [unfolded Inr] show ?thesis
      proof (cases rule: ac_write_result)
        case (again i)
        then have "ctx' = ctx" "c' = c1" "s' = s1"
          using less.prems(1) q Inr True by (subst (asm) echo_write_loop.simps; simp add: again_def)+
        with again less.prems(2) show ?thesis by (simp add: io_simps)
      next
        case (sent k i)
        note ws = sys_write_sent(1) [OF sent(3)] and fr = sys_write_frame [OF sent(3)]
        show ?thesis
        proof (cases "k = 0")
          case k0: True
          then have "ctx' = ctx" "c' = c1" "s' = s1"
            using less.prems(1) q Inr True sent by (subst (asm) echo_write_loop.simps; simp add: again_def)+
          with sent less.prems(2) ws fr k0 show ?thesis by simp
        next
          case False
          let ?ctx = "ctx\<lparr>ec_write_pos := ec_write_pos ctx + k\<rparr>"
          have step: "echo_write_loop ?ctx (c1, s1) = (r, ctx', c', s')"
            using less.prems(1) q Inr True sent False
            by (subst (asm) echo_write_loop.simps) (simp add: again_def bytes_def)
          have "length (io_out (to_io s1 (ac_fd c1))) < length (io_out (to_io s (ac_fd c)))"
            using sys_write_shrinks [OF sent(3)] sent by simp
          moreover have "k \<le> ec_read_pos ctx - ec_write_pos ctx" using ws by simp
          then have wf: "echo_wf ?ctx" using less.prems(2) True by (simp add: echo_wf_def)
          ultimately have ih: "echo_wf ctx'" "ec_data ctx' = ec_data ctx" "ec_read_pos ctx' = ec_read_pos ctx"
            "ec_write_pos ctx + k \<le> ec_write_pos ctx'" "c' = c" "to_open s' = to_open s1"
            "io_in (to_io s' (ac_fd c)) = io_in (to_io s1 (ac_fd c))"
            "io_sent (to_io s' (ac_fd c)) = io_sent (to_io s1 (ac_fd c)) @
              take (ec_write_pos ctx' - (ec_write_pos ctx + k)) (drop (ec_write_pos ctx + k) (ec_data ctx))"
            using less.hyps [OF _ step] sent(2) by simp_all
          define a where "a = drop (ec_write_pos ctx) (ec_data ctx)"
          have "take (ec_write_pos ctx' - ec_write_pos ctx) a =
              take k a @ take (ec_write_pos ctx' - (ec_write_pos ctx + k)) (drop k a)"
            using ih(4) by (simp flip: take_add)
          moreover have "drop (ec_write_pos ctx + k) (ec_data ctx) = drop k a" by (simp add: a_def add.commute)
          ultimately show ?thesis
            using ih ws fr sent data a_def by simp
        qed
      qed
    qed
  qed
qed

section \<open>The callback\<close>

lemma echo_handleRead_spec:
  assumes "echo_handleRead ctx (c, s) = (Inr (), ctx', c', s')" and "echo_wf ctx"
    and "ac_isOpened c" and "ac_fd c \<in> set (to_open s)"
  shows "echo_wf ctx' \<and> ec_data ctx' = ec_data ctx @ pending (io_in (to_io s (ac_fd c))) \<and>
    ec_write_pos ctx' = ec_write_pos ctx \<and>
    ac_interest c' =
      (if ec_write_pos ctx' < ec_read_pos ctx' then ev_add OUT (ac_interest c) else ac_interest c) \<and>
    io_sent (to_io s' (ac_fd c)) = io_sent (to_io s (ac_fd c))"
proof -
  obtain q ctx1 c1 s1 where l: "echo_read_loop ctx (c, s) = (q, ctx1, c1, s1)" by (metis surj_pair)
  with assms(1) have "ctx' = ctx1 \<and> s' = s1 \<and>
      c' = (if ec_write_pos ctx1 < ec_read_pos ctx1 then c1\<lparr>ac_interest := ev_add OUT (ac_interest c1)\<rparr> else c1)"
    by (auto simp: echo_handleRead_def split: sum.splits)
  with echo_read_loop_spec [OF l assms(2-4)] show ?thesis by simp
qed

lemma ac_write_closed: "\<not> ac_isOpened c \<Longrightarrow> \<exists>e. ac_write data (c, s) = (Inl e, c, s)"
  by (simp add: ac_write_def)

lemma echo_handleWrite_spec:
  assumes "echo_handleWrite ctx (c, s) = (Inr (), ctx', c', s')" and "echo_wf ctx"
    and "ac_fd c = fd \<or> ac_fd c = FD_CLOSED"
  shows "echo_wf ctx' \<and> ec_data ctx' = ec_data ctx \<and> ec_read_pos ctx' = ec_read_pos ctx \<and>
    ec_write_pos ctx \<le> ec_write_pos ctx' \<and> (c', s') = drop_out ctx' (c, s') \<and>
    io_sent (to_io s' fd) = io_sent (to_io s fd) @
      take (ec_write_pos ctx' - ec_write_pos ctx) (drop (ec_write_pos ctx) (ec_data ctx'))"
proof -
  obtain q ctx1 c1 s1 where l: "echo_write_loop ctx (c, s) = (q, ctx1, c1, s1)" by (metis surj_pair)
  with assms(1) have r: "q = Inr ()" "ctx' = ctx1" "(c', s') = drop_out ctx1 (c1, s1)"
    by (auto simp: echo_handleWrite_def split: sum.splits)
  then have s: "s' = s1" by (simp add: drop_out_def)
  note sp = echo_write_loop_spec [OF l assms(2)]
  show ?thesis
  proof (cases "ac_fd c = fd")
    case True
    with sp r s show ?thesis by simp
  next
    case False
    with assms(3) have "\<not> ac_isOpened c" by (simp add: ac_isOpened_def)
    with l r(1) have "ctx1 = ctx \<and> s1 = s"
      by (subst (asm) echo_write_loop.simps) (auto simp: ac_write_def split: if_splits)
    with sp r s show ?thesis by simp
  qed
qed

text \<open>One call of the callback, started with a context that is consistent with the interest set.\<close>

lemma echo_serve_spec:
  assumes "echo_serve events ctx (c, s) = (Inr (), ctx', c', s')" and "echo_wf ctx"
    and op: "ac_isOpened c" "ac_fd c \<in> set (to_open s)" and val: "fds_valid s"
    and waits: "ec_write_pos ctx < ec_read_pos ctx \<longrightarrow> contains (ac_interest c) OUT"
  shows "echo_wf ctx' \<and>
    ec_data ctx' = ec_data ctx @ (if contains events IN then pending (io_in (to_io s (ac_fd c))) else []) \<and>
    ec_write_pos ctx \<le> ec_write_pos ctx' \<and>
    io_sent (to_io s' (ac_fd c)) = io_sent (to_io s (ac_fd c)) @
      take (ec_write_pos ctx' - ec_write_pos ctx) (drop (ec_write_pos ctx) (ec_data ctx')) \<and>
    (contains (ac_interest c') OUT \<longleftrightarrow> ec_write_pos ctx' < ec_read_pos ctx')"
proof -
  obtain q ctx1 c1 s1 where rd: "(if contains events IN then echo_handleRead ctx (c, s) else (Inr (), ctx, c, s)) =
      (q, ctx1, c1, s1)" by (metis surj_pair)
  with assms(1) have q: "q = Inr ()" by (auto simp: echo_serve_def split: sum.splits)
  have h1: "echo_wf ctx1 \<and>
    ec_data ctx1 = ec_data ctx @ (if contains events IN then pending (io_in (to_io s (ac_fd c))) else []) \<and>
    ec_write_pos ctx1 = ec_write_pos ctx \<and> io_sent (to_io s1 (ac_fd c)) = io_sent (to_io s (ac_fd c)) \<and>
    (ec_write_pos ctx1 < ec_read_pos ctx1 \<longrightarrow> contains (ac_interest c1) OUT)"
    using rd q assms(2) waits echo_handleRead_spec [OF _ assms(2) op, of ctx1 c1 s1]
    by (auto split: if_splits)
  have "ac_frame (c, s) (c1, s1)"
    using rd echo_handleRead_frame [of ctx "(c, s)" q ctx1 "(c1, s1)"] val by (auto split: if_splits)
  then have fd: "ac_fd c1 = ac_fd c \<or> ac_fd c1 = FD_CLOSED" by (auto simp: ac_frame_def)
  obtain p ctx2 c2 s2 where wr: "(if contains events OUT then echo_handleWrite ctx1 (c1, s1) else (Inr (), ctx1, c1, s1)) =
      (p, ctx2, c2, s2)" by (metis surj_pair)
  with assms(1) rd q have p: "p = Inr ()" and last: "ctx' = ctx2" "(c', s') = drop_out ctx2 (c2, s2)"
    by (auto simp: echo_serve_def split: sum.splits)
  have h2: "echo_wf ctx2 \<and> ec_data ctx2 = ec_data ctx1 \<and> ec_write_pos ctx1 \<le> ec_write_pos ctx2 \<and>
    io_sent (to_io s2 (ac_fd c)) = io_sent (to_io s1 (ac_fd c)) @
      take (ec_write_pos ctx2 - ec_write_pos ctx1) (drop (ec_write_pos ctx1) (ec_data ctx2)) \<and>
    (ec_write_pos ctx2 < ec_read_pos ctx2 \<longrightarrow> contains (ac_interest c2) OUT)"
    using wr p h1 echo_handleWrite_spec [OF _ _ fd, of ctx1 s1 ctx2 c2 s2]
    by (auto simp: drop_out_def split: if_splits)
  have "s' = s2" "contains (ac_interest c') OUT \<longleftrightarrow> ec_write_pos ctx2 < ec_read_pos ctx2"
    using last h2 by (auto simp: drop_out_def echo_wf_def split: if_splits)
  with h1 h2 last show ?thesis by simp
qed

section \<open>The properties of the callback\<close>

text \<open>A connection the server has just accepted: no context yet, and whatever interest it begins with.\<close>

lemma echo_fresh:
  assumes "map_of h (ac_id c) = None"
  shows "echo_wf (echo_context c h)"
    and "ec_write_pos (echo_context c h) < ec_read_pos (echo_context c h) \<longrightarrow> contains (ac_interest c) OUT"
    and "ec_data (echo_context c h) = []"
  using assms by (simp_all add: echo_context_def) (simp add: EchoContext_default_def)

text \<open>
  C21: What one call of the echo callback does for an event without an error, if it returns normally. On an open connection that waits
  for room if something is left to send, as a freshly accepted one does and as every such call
  leaves it, it appends to the context everything that was readable (if the event says so), sends the
  next bytes of what has been received, in order and without gaps or repetitions, and afterwards
  waits for room exactly if something is left to send.
\<close>

theorem echo_sends_what_it_receives:
  assumes "echo_handler c events (h, s) = (Inr (), c', h', s')" and "\<not> contains events ERR"
    and "echo_wf (echo_context c h)" and "ac_isOpened c" and "ac_fd c \<in> set (to_open s)" and "fds_valid s"
    and "ec_write_pos (echo_context c h) < ec_read_pos (echo_context c h) \<longrightarrow> contains (ac_interest c) OUT"
  shows "echo_wf (echo_context c' h') \<and>
    ec_data (echo_context c' h') = ec_data (echo_context c h) @
      (if contains events IN then pending (io_in (to_io s (ac_fd c))) else []) \<and>
    ec_write_pos (echo_context c h) \<le> ec_write_pos (echo_context c' h') \<and>
    io_sent (to_io s' (ac_fd c)) = io_sent (to_io s (ac_fd c)) @
      take (ec_write_pos (echo_context c' h') - ec_write_pos (echo_context c h))
        (drop (ec_write_pos (echo_context c h)) (ec_data (echo_context c' h'))) \<and>
    (contains (ac_interest c') OUT \<longleftrightarrow>
       ec_write_pos (echo_context c' h') < ec_read_pos (echo_context c' h'))"
proof -
  obtain q ctx c1 s1 where e: "echo_serve events (echo_context c h) (c, s) = (q, ctx, c1, s1)" by (metis surj_pair)
  with assms(1,2) have q: "q = Inr ()" "c' = c1" "s' = s1" "h' = AList.update (ac_id c1) ctx h"
    by (auto simp: echo_handler_def)
  then have "echo_context c' h' = ctx" by (simp add: echo_context_def update_conv')
  with echo_serve_spec [OF e [unfolded q(1)] assms(3-7)] q show ?thesis by simp
qed

lemma echo_half_closed:
  assumes "echo_wf ctx" and "ac_isOpened c" and "ac_fd c \<in> set (to_open s)"
    and "to_connected s (ac_fd c)" and "ends_eof (io_in (to_io s (ac_fd c)))" and "pending (io_in (to_io s (ac_fd c))) \<noteq> []"
    and "contains events IN" and "contains events OUT"
  shows "\<exists>e ctx' c' s'. echo_serve events ctx (c, s) = (Inl e, ctx', c', s') \<and> ac_fd c' = FD_CLOSED"
proof -
  obtain ctx1 s1 where l: "echo_read_loop ctx (c, s) = (Inr (), ctx1, c\<lparr>ac_fd := FD_CLOSED\<rparr>, s1)"
    using echo_read_loop_eof [OF assms(1-5)] by blast
  have "ec_data ctx1 = ec_data ctx @ pending (io_in (to_io s (ac_fd c)))" "echo_wf ctx1"
    "ec_write_pos ctx1 = ec_write_pos ctx"
    using echo_read_loop_spec [OF l assms(1-3)] by simp_all
  moreover from this(1,2) assms(1) have "ec_read_pos ctx < ec_read_pos ctx1"
    by (auto dest!: arg_cong [where f = length] simp: ec_data_def echo_wf_def assms(6))
  ultimately have unsent: "ec_write_pos ctx1 < ec_read_pos ctx1" using assms(1) by (simp add: echo_wf_def)
  define c1 where "c1 = c\<lparr>ac_fd := FD_CLOSED, ac_interest := ev_add OUT (ac_interest c)\<rparr>"
  have rd: "echo_handleRead ctx (c, s) = (Inr (), ctx1, c1, s1)"
    using l unsent by (simp add: echo_handleRead_def c1_def)
  have "\<not> ac_isOpened c1" by (simp add: c1_def ac_isOpened_def)
  then obtain e where w: "ac_write (take (ec_read_pos ctx1 - ec_write_pos ctx1)
      (drop (ec_write_pos ctx1) (ec_read_buffer ctx1))) (c1, s1) = (Inl e, c1, s1)"
    using ac_write_closed by blast
  then have "echo_write_loop ctx1 (c1, s1) = (Inl e, ctx1, c1, s1)"
    using unsent by (simp add: echo_write_loop.simps [of ctx1 c1 s1])
  then have "echo_serve events ctx (c, s) = (Inl e, ctx1, c1, s1)"
    using rd assms(7,8) by (simp add: echo_serve_def echo_handleWrite_def)
  then show ?thesis by (simp add: c1_def)
qed

lemma closed_close_throws: "ac_fd c = FD_CLOSED \<Longrightarrow> fds_valid s \<Longrightarrow> \<exists>e. ac_close (c, s) = (Inl e, c, s)"
  by (simp add: ac_close_def os_shutdown_def fds_valid_def)

text \<open>
  A callback that closes the connection and then throws takes the server down: the connection is
  closed a second time outside the \<^verbatim>\<open>try\<close>.
\<close>

lemma throwing_after_close:
  fixes handler :: "'h handler"
  assumes c: "as_connection v fd = Some c" and ev: "triggersOn c (EventsSet_of_mask events)"
    and h: "handler c (EventsSet_of_mask events) (as_handler_state v, as_os v) = (Inl e, c', h', s')"
    and closed: "ac_fd c' = FD_CLOSED" and val: "fds_valid s'"
  shows "\<exists>e' v'. serve_event handler (Ready fd events) v = (Inl e', v')"
proof -
  let ?v = "set_os s' (put_connection fd c' (v\<lparr>as_handler_state := h'\<rparr>))"
  have "as_handleEvent handler fd events v = (Inl e, ?v)"
    using c ev h by (simp add: as_handleEvent_def getConnection_def Let_def)
  moreover obtain x where "ac_close (c', s') = (Inl x, c', s')" using closed_close_throws [OF closed val] by blast
  ultimately show ?thesis by (simp add: closeConnection_def)
qed

text \<open>
  C36: A half-closed connection can end the echo server. If a client sends data and ends its side of the
  connection before the server reads, and one event tells the server, without an error, that it can both read and
  write (which \<^verbatim>\<open>main\<close> waits for on every new connection), then an exception leaves \<^verbatim>\<open>accept()\<close>: the
  callback reads the data, closes the connection at the end of the stream, throws when it writes to
  the closed connection, and the handler of that exception throws when it closes it again.
\<close>

theorem half_close_ends_accept:
  assumes "as_inv v" and "as_connection v fd = Some c" and "contains (ac_interest c) IN"
    and "echo_wf (echo_context c (as_handler_state v))" and "to_connected (as_os v) fd"
    and "ends_eof (io_in (to_io (as_os v) fd))" and "pending (io_in (to_io (as_os v) fd)) \<noteq> []"
    and "contains (EventsSet_of_mask events) IN" and "contains (EventsSet_of_mask events) OUT"
    and "\<not> contains (EventsSet_of_mask events) ERR"
  shows "\<exists>e v'. serve_rounds echo_handler (Inr (Ready fd events # es) # ws) v = (Inl e, v')"
proof -
  let ?ev = "EventsSet_of_mask events"
  have ok: "ac_fd c = fd" "fd \<in> set (to_open (as_os v))" "fds_valid (as_os v)" "as_isOpened v"
    using assms(1,2) as_inv_open [of v] by (auto simp: as_inv_def as_base_def entries_ok_def entry_ok_def)
  then have "ac_isOpened c" by (auto simp: ac_isOpened_def fds_valid_def)
  then obtain e ctx c1 s1 where e: "echo_serve ?ev (echo_context c (as_handler_state v)) (c, as_os v) = (Inl e, ctx, c1, s1)"
    and cl: "ac_fd c1 = FD_CLOSED"
    using echo_half_closed [OF assms(4) _ _ _ _ _ assms(8,9)] assms(5-7) ok by blast
  have val: "fds_valid s1" using ac_frame_valid [OF echo_serve_frame [OF e]] ok by simp
  have "triggersOn c ?ev"
    using assms(3,8) by (auto simp: triggersOn_def haveIntersection_def word_and_neq_0_iff contains_bit)
  moreover have "echo_handler c ?ev (as_handler_state v, as_os v) =
      (Inl e, c1, AList.update (ac_id c1) ctx (as_handler_state v), s1)"
    using e assms(10) by (simp add: echo_handler_def)
  ultimately obtain e' v' where "serve_event echo_handler (Ready fd events) v = (Inl e', v')"
    using throwing_after_close [OF assms(2) _ _ cl val] by blast
  then show ?thesis using ok(4) by simp
qed

section \<open>Instances\<close>

definition echo_con :: AsyncConnection where
  "echo_con = \<lparr>ac_id = 0, ac_fd = 5, ac_local = Sockinfo_default, ac_remote = Sockinfo_default,
     ac_interest = EventsSet_of [IN]\<rparr>"

definition echo_os :: "rd_item list \<Rightarrow> tcp_os" where
  "echo_os i = \<lparr>to_open = [3, 5], to_connected = (\<lambda>_. True), to_io = (\<lambda>_. io_init i [WRoom 1]),
     to_sndtimeo = (\<lambda>_. None), to_rcvtimeo = (\<lambda>_. None), to_local = (\<lambda>_. Inr Sockinfo_default),
     to_remote = (\<lambda>_. Inr Sockinfo_default)\<rparr>"

definition echo_registry_small :: echo_registry where
  "echo_registry_small = [(0, \<lparr>ec_read_buffer = ''....'', ec_read_pos = 0, ec_write_pos = 0\<rparr>)]"

lemmas echo_instance = echo_con_def echo_os_def echo_registry_small_def echo_context_def echo_wf_def
  ac_isOpened_def FD_CLOSED_def fds_valid_def io_init_def contains_def

definition echo_first :: AsyncConnection where
  "echo_first = echo_con\<lparr>ac_interest := EventsSet_of [IN, OUT]\<rparr>"

lemma echo_run:
  "\<exists>c' h' s'. echo_handler echo_first (EventsSet_of [IN, OUT]) ([], echo_os [RBytes ''hi'']) = (Inr (), c', h', s')"
  by (simp add: echo_first_def echo_instance echo_handler_def echo_serve_def echo_handleRead_def echo_handleWrite_def
      echo_read_loop.simps echo_write_loop.simps ac_read_def ac_write_def os_read_def os_write_def sys_read_def
      sys_write_def isEOF_def again_def bytes_def echo_received_def store_at_def note_reset_def drop_out_def
      EchoContext_default_def echo_grow_def)

theorem echo_sends_what_it_receives_witness:
  "\<exists>c' h' s'. echo_handler echo_first (EventsSet_of [IN, OUT]) ([], echo_os [RBytes ''hi'']) = (Inr (), c', h', s') \<and>
     ec_data (echo_context c' h') = ''hi'' \<and> io_sent (to_io s' 5) = take (ec_write_pos (echo_context c' h')) ''hi''"
proof -
  obtain c' h' s' where run: "echo_handler echo_first (EventsSet_of [IN, OUT]) ([], echo_os [RBytes ''hi'']) =
      (Inr (), c', h', s')"
    using echo_run by blast
  have fresh: "map_of [] (ac_id echo_first) = None" by simp
  have "ec_data (echo_context c' h') = ''hi'' \<and>
     io_sent (to_io s' 5) = take (ec_write_pos (echo_context c' h')) ''hi''"
    using echo_sends_what_it_receives [OF run _ echo_fresh(1) [OF fresh] _ _ _ echo_fresh(2) [OF fresh]]
      echo_fresh(3) [OF fresh]
    by (simp add: echo_first_def echo_con_def echo_os_def io_init_def ac_isOpened_def FD_CLOSED_def fds_valid_def
        contains_def echo_context_def EchoContext_default_def)
  with run show ?thesis by blast
qed

definition echo_server :: "echo_registry AsyncServer" where
  "echo_server = \<lparr>as_fd = 3, as_socket = Sockinfo_default,
     as_poller = \<lparr>ep_interest = [(3, 1), (5, 1)], ep_script = []\<rparr>, as_connections = [(5, echo_con)],
     as_default_interests_set = EventsSet_of [IN], as_timeout = -1, as_handler_state = echo_registry_small,
     as_next_id = 1, as_os = echo_os [RBytes ''hi'', RBytes []]\<rparr>"

theorem half_close_ends_accept_witness:
  "\<exists>e v'. serve_rounds echo_handler [Inr [Ready 5 5]] echo_server = (Inl e, v')"
proof -
  have "as_inv echo_server"
    by (auto simp: echo_server_def echo_instance as_inv_def as_base_def entries_ok_def entry_ok_def as_connection_def
        watched_def ev_data_def)
  then show ?thesis
    by (rule half_close_ends_accept [where c = echo_con])
      (simp_all add: echo_server_def echo_instance as_connection_def EventsSet_of_mask_def)
qed

end
