(* ===== verification/Async_Http.thy ===== *)
theory Async_Http
  imports Async_Invariant
begin

text \<open>
  \<^verbatim>\<open>examples/async-tcp-example/async-http-example.cpp\<close>: a callback that answers every request with
  one constant text and closes the connection.
\<close>

section \<open>The callback\<close>

record HttpContext =
  hc_read_buffer :: string
  hc_response_buffer :: string
  hc_read_pos :: nat
  hc_write_pos :: nat

definition HttpContext_default :: HttpContext where
  "HttpContext_default =
     \<lparr>hc_read_buffer = replicate 256 (CHR 0x00), hc_response_buffer = [], hc_read_pos = 0, hc_write_pos = 0\<rparr>"

type_synonym http_registry = "(nat \<times> HttpContext) list"

definition http_context :: "AsyncConnection \<Rightarrow> http_registry \<Rightarrow> HttpContext" where
  "http_context c h = (case map_of h (ac_id c) of None \<Rightarrow> HttpContext_default | Some ctx \<Rightarrow> ctx)"

definition http_response :: string where
  "http_response = ''HTTP/1.1 200 OK'' @ CRLF @ ''Connection: close'' @ CRLF @ ''Content-Length:0'' @ CRLF"

definition http_received :: "string \<Rightarrow> HttpContext \<Rightarrow> HttpContext" where
  "http_received got ctx =
     (let pos = hc_read_pos ctx
      in ctx\<lparr>hc_read_pos := pos + length got,
           hc_read_buffer := take pos (hc_read_buffer ctx) @ got @ drop (pos + length got) (hc_read_buffer ctx)\<rparr>)"

definition http_grow :: "HttpContext \<Rightarrow> HttpContext" where
  "http_grow ctx =
     (if length (hc_read_buffer ctx) = hc_read_pos ctx then
        ctx\<lparr>hc_read_buffer := hc_read_buffer ctx @ replicate (length (hc_read_buffer ctx)) (CHR 0x00)\<rparr>
      else ctx)"

function (sequential) http_handleRead :: "HttpContext \<Rightarrow> ac_state \<Rightarrow> (tcp_exn + unit) \<times> HttpContext \<times> ac_state" where
  "http_handleRead ctx (c, s) =
     (case ac_read (length (hc_read_buffer ctx) - hc_read_pos ctx) (c, s) of
        (Inl e, x) \<Rightarrow> (Inl e, ctx, x)
      | (Inr (r, got), (c', s')) \<Rightarrow>
          if isEOF r \<or> again r = Some True then (Inr (), ctx, (c', s'))
          else if find_sub CRLF2 (hc_read_buffer (http_received got ctx)) \<noteq> None then
            (Inr (), (http_received got ctx)\<lparr>hc_response_buffer := http_response\<rparr>,
             (c'\<lparr>ac_interest := ev_add OUT (ev_sub IN (ac_interest c'))\<rparr>, s'))
          else http_handleRead (http_grow (http_received got ctx)) (c', s'))"
  by pat_completeness auto
termination
  by (relation "measure (\<lambda>(ctx, c, s). in_weight (to_io s (ac_fd c)))") (auto intro: ac_read_progress [OF sym])

declare http_handleRead.simps [simp del]

text \<open>\<open>None\<close> as the context: it has been erased, and the connection closed, after the last byte.\<close>

function (sequential) http_handleWrite ::
    "HttpContext \<Rightarrow> ac_state \<Rightarrow> (tcp_exn + unit) \<times> HttpContext option \<times> ac_state" where
  "http_handleWrite ctx (c, s) =
     (case ac_write (drop (hc_write_pos ctx) (hc_response_buffer ctx)) (c, s) of
        (Inl e, x) \<Rightarrow> (Inl e, Some ctx, x)
      | (Inr r, x) \<Rightarrow>
          (case again r of
             None \<Rightarrow> (Inl (Exception ''bad optional access''), Some ctx, x)
           | Some True \<Rightarrow> (Inr (), Some ctx, x)
           | Some False \<Rightarrow>
               if hc_write_pos ctx + the (bytes r) = length (hc_response_buffer ctx) then
                 (case ac_close x of (q, x) \<Rightarrow> (q, None, x))
               else http_handleWrite (ctx\<lparr>hc_write_pos := hc_write_pos ctx + the (bytes r)\<rparr>) x))"
  by pat_completeness auto
termination
  by (relation "measure (\<lambda>(ctx, c, s). length (io_out (to_io s (ac_fd c))))") (auto intro: ac_write_progress [OF sym])

declare http_handleWrite.simps [simp del]

definition http_serve :: "EventsSet \<Rightarrow> HttpContext \<Rightarrow> ac_state \<Rightarrow> (tcp_exn + unit) \<times> HttpContext option \<times> ac_state" where
  "http_serve events ctx x =
     (case (if contains events IN then http_handleRead ctx x else (Inr (), ctx, x)) of
        (Inl e, ctx, x) \<Rightarrow> (Inl e, Some ctx, x)
      | (Inr _, ctx, x) \<Rightarrow>
          (case (if contains events OUT then http_handleWrite ctx x else (Inr (), Some ctx, x)) of
             (Inl e, ctx, x) \<Rightarrow> (Inl e, ctx, x)
           | (Inr _, ctx, x) \<Rightarrow>
               if ev_empty (ev_diff events (EventsSet_of [IN, OUT])) then
                 (case ac_close x of (q, x) \<Rightarrow> (q, None, x))
               else (Inr (), ctx, x)))"

definition http_handler :: "http_registry handler" where
  "http_handler c events hs =
     (case hs of (h, s) \<Rightarrow>
        if contains events ERR then
          (case ac_close (c, s) of (r, c, s) \<Rightarrow> (r, c, AList.delete (ac_id c) h, s))
        else
          (case http_serve events (http_context c h) (c, s) of
             (r, ctx, (c, s)) \<Rightarrow>
               (r, c, (case ctx of None \<Rightarrow> AList.delete (ac_id c) h | Some ctx \<Rightarrow> AList.update (ac_id c) ctx h), s)))"

text \<open>The text it sends has no empty line: its header is never complete.\<close>

lemma http_response_unfinished: "find_sub CRLF2 http_response = None"
  by (simp add: http_response_def CRLF2_def CRLF_def)

section \<open>The callback's frame\<close>

lemma http_handleRead_frame:
  "http_handleRead ctx x = (r, ctx', y) \<Longrightarrow> fds_valid (snd x) \<Longrightarrow> ac_frame x y"
proof (induction "in_weight (to_io (snd x) (ac_fd (fst x)))" arbitrary: ctx x rule: less_induct)
  case less
  obtain c s where x: "x = (c, s)" by fastforce
  obtain q c1 s1 where q: "ac_read (length (hc_read_buffer ctx) - hc_read_pos ctx) (c, s) = (q, c1, s1)"
    by (metis surj_pair)
  note fr = ac_read_frame [OF q]
  show ?case
  proof (cases "\<exists>n got. q = Inr (n, got) \<and> \<not> (isEOF n \<or> again n = Some True) \<and>
      find_sub CRLF2 (hc_read_buffer (http_received got ctx)) = None")
    case False
    then have "y = (c1, s1) \<or> y = (c1\<lparr>ac_interest := ev_add OUT (ev_sub IN (ac_interest c1))\<rparr>, s1)"
      using less.prems(1) q unfolding x
      by (subst (asm) http_handleRead.simps) (auto split: sum.splits if_splits)
    with fr x show ?thesis by auto
  next
    case True
    then obtain n got where n: "q = Inr (n, got)" "\<not> isEOF n" "again n \<noteq> Some True"
      "find_sub CRLF2 (hc_read_buffer (http_received got ctx)) = None" by blast
    have step: "http_handleRead (http_grow (http_received got ctx)) (c1, s1) = (r, ctx', y)"
      using less.prems(1) q n unfolding x by (subst (asm) http_handleRead.simps) simp
    have "ac_frame (c1, s1) y"
      by (rule less.hyps [OF _ step])
        (use ac_read_progress [OF q [unfolded n(1)] n(2,3)] ac_frame_valid [OF fr] less.prems(2) x in simp_all)
    with fr x less.prems(2) show ?thesis by (auto intro: ac_frame_trans)
  qed
qed

lemma http_handleWrite_frame:
  "http_handleWrite ctx x = (r, ctx', y) \<Longrightarrow> fds_valid (snd x) \<Longrightarrow> ac_frame x y"
proof (induction "length (io_out (to_io (snd x) (ac_fd (fst x))))" arbitrary: ctx x rule: less_induct)
  case less
  obtain c s where x: "x = (c, s)" by fastforce
  obtain q c1 s1 where q: "ac_write (drop (hc_write_pos ctx) (hc_response_buffer ctx)) (c, s) = (q, c1, s1)"
    by (metis surj_pair)
  note fr = ac_write_frame [OF q]
  have valid: "fds_valid s1" using ac_frame_valid [OF fr] less.prems(2) x by simp
  show ?case
  proof (cases "\<exists>n. q = Inr n \<and> again n = Some False")
    case False
    then have "y = (c1, s1)"
      using less.prems(1) q unfolding x
      by (subst (asm) http_handleWrite.simps) (auto split: sum.splits option.splits bool.splits)
    with fr x show ?thesis by simp
  next
    case True
    then obtain n where n: "q = Inr n" "again n = Some False" by blast
    have "ac_frame (c1, s1) y"
    proof (cases "hc_write_pos ctx + the (bytes n) = length (hc_response_buffer ctx)")
      case True
      then have "(r, y) = ac_close (c1, s1)"
        using less.prems(1) q n unfolding x by (subst (asm) http_handleWrite.simps) (auto split: prod.splits)
      then show ?thesis by (metis ac_close_frame)
    next
      case False
      then have step: "http_handleWrite (ctx\<lparr>hc_write_pos := hc_write_pos ctx + the (bytes n)\<rparr>) (c1, s1) = (r, ctx', y)"
        using less.prems(1) q n unfolding x by (subst (asm) http_handleWrite.simps) simp
      show ?thesis
        by (rule less.hyps [OF _ step])
          (use ac_write_progress [OF q [unfolded n(1)] n(2)] valid x in simp_all)
    qed
    with fr x less.prems(2) show ?thesis by (auto intro: ac_frame_trans)
  qed
qed

lemma http_serve_frame:
  assumes "http_serve events ctx x = (r, ctx', y)" and "fds_valid (snd x)"
  shows "ac_frame x y"
proof -
  obtain q ctx1 x1 where rd: "(if contains events IN then http_handleRead ctx x else (Inr (), ctx, x)) = (q, ctx1, x1)"
    by (metis surj_pair)
  then have fr1: "ac_frame x x1"
    using http_handleRead_frame [OF _ assms(2)] by (cases x) (auto split: if_splits)
  obtain p ctx2 x2 where wr: "(if contains events OUT then http_handleWrite ctx1 x1 else (Inr (), Some ctx1, x1)) = (p, ctx2, x2)"
    by (metis surj_pair)
  then have "ac_frame x1 x2"
    using http_handleWrite_frame ac_frame_valid [OF fr1 assms(2)] by (cases x1) (auto split: if_splits)
  with fr1 assms(2) have fr2: "ac_frame x x2" by (blast intro: ac_frame_trans)
  obtain k z where k: "ac_close x2 = (k, z)" by (metis surj_pair)
  have "ac_frame x z" by (rule ac_frame_trans [OF fr2 ac_close_frame [OF k] assms(2)])
  with fr1 fr2 assms(1) rd wr k show ?thesis by (auto simp: http_serve_def split: sum.splits if_splits)
qed

lemma http_handler_frame:
  assumes "http_handler c events (h, s) = (r, c', h', s')" and "fds_valid s"
  shows "ac_frame (c, s) (c', s')"
proof (cases "contains events ERR")
  case True
  with assms(1) show ?thesis by (auto simp: http_handler_def split: prod.splits intro: ac_close_frame)
next
  case False
  obtain q ctx c1 s1 where e: "http_serve events (http_context c h) (c, s) = (q, ctx, c1, s1)" by (metis surj_pair)
  with assms(1) False have "c' = c1" "s' = s1" by (simp_all add: http_handler_def)
  with http_serve_frame [OF e] assms(2) show ?thesis by simp
qed

interpretation http: async_callback http_handler
  by unfold_locales (rule http_handler_frame)

end
