(* ===== verification/Async_Props.thy ===== *)
theory Async_Props
  imports Async_Echo_Props Async_Http
begin

text \<open>
  The asynchronous server as a whole: what holds while \<^verbatim>\<open>accept\<close> is running with either of the
  example callbacks, and how a client that resets its connection early ends it.
\<close>

lemma AsyncServer_new_fields:
  assumes "AsyncServer_new gai hostname port h ints t ctl s = (Inr v, s')" and "fds_valid s"
  shows "fds_valid (as_os v) \<and> as_fd v \<in> set (to_open (as_os v)) \<and> as_connections v = []"
proof -
  obtain script where k: "ctl = Some script"
    using assms(1) by (cases ctl) (simp_all add: AsyncServer_new_None)
  obtain addrs where g: "resolve_ipv4_tcp gai hostname port = Inr addrs"
    using assms(1) by (cases "resolve_ipv4_tcp gai hostname port") (simp_all add: k AsyncServer_new_Some)
  obtain r s1 where l: "listen_loop addrs s = (r, s1)" by fastforce
  obtain fd info where r: "r = Some (fd, info)"
    using assms(1) g l by (cases r) (auto simp: k AsyncServer_new_Some)
  have v: "as_os v = s1" "as_fd v = fd" "as_connections v = []"
    using assms(1) g l r by (auto simp: k AsyncServer_new_Some)
  then show ?thesis
    using listen_loop_fds [OF l] r assms(2) by (auto simp: fds_valid_def FD_CLOSED_def)
qed

lemma as_inv_watched:
  "as_inv v \<Longrightarrow> as_isOpened v \<and>
     (as_connection v fd = Some c \<longrightarrow> ac_fd c = fd \<and> fd \<in> set (to_open (as_os v)) \<and>
        watched (as_poller v) fd = Some (ev_data (getInterestSet c)))"
  using as_inv_open [of v] by (auto simp: as_inv_def entries_ok_def entry_ok_def getInterestSet_def)

text \<open>
  C22: Whatever clients do, as long as no exception has left \<^verbatim>\<open>accept()\<close> of a freshly constructed
  server with the echo callback: the server is open, and every connection in its table is open under
  the descriptor it is filed under and registered with epoll for exactly its current interest set.
\<close>

theorem echo_connections_watched:
  assumes "AsyncServer_new gai hostname port [] ints t ctl s = (Inr v, s')" and "fds_valid s"
    and "as_accept echo_handler waits v = (Inr u, v')"
  shows "as_isOpened v' \<and>
    (as_connection v' fd = Some c \<longrightarrow> ac_fd c = fd \<and> fd \<in> set (to_open (as_os v')) \<and>
       watched (as_poller v') fd = Some (ev_data (getInterestSet c)))"
  using echo.as_accept_inv [OF assms(3)] AsyncServer_new_fields [OF assms(1,2)] as_inv_watched by blast

text \<open>The same for the HTTP callback.\<close>

lemma http_connections_watched:
  assumes "AsyncServer_new gai hostname port [] ints t ctl s = (Inr v, s')" and "fds_valid s"
    and "as_accept http_handler waits v = (Inr u, v')"
  shows "as_isOpened v' \<and>
    (as_connection v' fd = Some c \<longrightarrow> ac_fd c = fd \<and> fd \<in> set (to_open (as_os v')) \<and>
       watched (as_poller v') fd = Some (ev_data (getInterestSet c)))"
  using http.as_accept_inv [OF assms(3)] AsyncServer_new_fields [OF assms(1,2)] as_inv_watched by blast

text \<open>
  If a client has reset its connection before the server has accepted it, so that the kernel no
  longer knows the peer's address, then the exception of the connection's constructor leaves
  \<^verbatim>\<open>accept()\<close>, and the accepted descriptor stays open without an owner.
\<close>

theorem reset_client_ends_accept:
  assumes "as_isOpened v" and "ad_local a = Inr l" and "ad_remote a = Inl e"
  shows "\<exists>m v'. serve_rounds handler (Inr (Incoming (Inr a # rest) # es) # ws) v = (Inl (Exception m), v') \<and>
    to_open (as_os v') = fresh_fd (to_open (as_os v)) # to_open (as_os v) \<and> as_connection v' = as_connection v"
  using assms
  by (simp add: os_accept_def Let_def registerConnection_def AsyncConnection_new_def get_local_sockaddr_def
      get_remote_sockaddr_def)

section \<open>Instances\<close>

definition good_addr :: addr where
  "good_addr = \<lparr>ad_info = Sockinfo_default, ad_socket = True, ad_connect = True, ad_bind = True, ad_listen = True,
     ad_local = Inr Sockinfo_default, ad_remote = Inr Sockinfo_default\<rparr>"

definition first_os :: tcp_os where
  "first_os = (echo_os [RBytes ''hi''])\<lparr>to_open := []\<rparr>"

lemma started_server:
  "\<exists>v s' v'. AsyncServer_new (\<lambda>_ _. Inr [good_addr]) ''localhost'' 80 [] (EventsSet_of [IN]) (-1) (Some []) first_os = (Inr v, s') \<and>
     as_accept echo_handler [Inr [Incoming [Inr good_addr]]] v = (Inr (), v') \<and> as_connections v' \<noteq> []"
  by (simp add: AsyncServer_new_Some resolve_ipv4_tcp_def os_socket_def first_os_def echo_os_def fresh_fd_def
      good_addr_def as_accept_def add_def epoll_allowed_def Let_def as_isOpened_def FD_CLOSED_def set_poller_def
      os_accept_def set_os_def registerConnection_def AsyncConnection_new_def get_local_sockaddr_def
      get_remote_sockaddr_def setInterestsSet_def getInterestSet_def put_connection_def ev_data_def upt_rec)

theorem echo_connections_watched_witness:
  "\<exists>v s' v' fd c. AsyncServer_new (\<lambda>_ _. Inr [good_addr]) ''localhost'' 80 [] (EventsSet_of [IN]) (-1) (Some []) first_os = (Inr v, s') \<and>
     as_accept echo_handler [Inr [Incoming [Inr good_addr]]] v = (Inr (), v') \<and> as_connection v' fd = Some c \<and>
     watched (as_poller v') fd = Some (ev_data (getInterestSet c))"
proof -
  obtain v s' v' where new: "AsyncServer_new (\<lambda>_ _. Inr [good_addr]) ''localhost'' 80 [] (EventsSet_of [IN]) (-1) (Some []) first_os = (Inr v, s')"
    and acc: "as_accept echo_handler [Inr [Incoming [Inr good_addr]]] v = (Inr (), v')" and ne: "as_connections v' \<noteq> []"
    using started_server by blast
  from ne obtain fd c rest where "as_connections v' = (fd, c) # rest" by (metis list.exhaust surj_pair)
  then have c: "as_connection v' fd = Some c" by (simp add: as_connection_def)
  have "fds_valid first_os" by (simp add: fds_valid_def first_os_def)
  from echo_connections_watched [OF new this acc, of fd c] new acc c show ?thesis by blast
qed

theorem reset_client_ends_accept_witness:
  "\<exists>m v'. serve_rounds echo_handler [Inr [Incoming [Inr (good_addr\<lparr>ad_remote := Inl ENOTCONN\<rparr>)]]] echo_server =
     (Inl (Exception m), v') \<and> to_open (as_os v') = [0, 3, 5]"
proof -
  have "as_isOpened echo_server" by (simp add: as_isOpened_def echo_server_def FD_CLOSED_def)
  moreover have "fresh_fd (to_open (as_os echo_server)) = 0" "to_open (as_os echo_server) = [3, 5]"
    by (simp_all add: echo_server_def echo_os_def fresh_fd_def upt_rec)
  ultimately show ?thesis
    using reset_client_ends_accept [of echo_server "good_addr\<lparr>ad_remote := Inl ENOTCONN\<rparr>" Sockinfo_default ENOTCONN
        echo_handler "[]" "[]" "[]"]
    by (auto simp: good_addr_def)
qed

end
