(* ===== verification/Process.thy ===== *)
theory Process
  imports Exact_IO Tcp_Socket "HOL-Library.AList"
begin

text \<open>
  \<^verbatim>\<open>include/process\<close> and \<^verbatim>\<open>lib/process\<close>: descriptors that own a number, pipes, and a child process
  that is started with its standard input and output connected to the parent. Every process has
  its own table from numbers to open files; a fork copies it.
\<close>

section \<open>Descriptor tables\<close>

text \<open>An open file is an end of a pipe or something the process was started with.\<close>

datatype fd_obj = PipeReader nat | PipeWriter nat | Inherited nat

record proc_os =
  po_fds :: "(int \<times> fd_obj) list"
  po_next :: nat
  po_pipe_ok :: "bool list"
  po_io :: "fd_obj \<Rightarrow> io"

definition fd_table :: "proc_os \<Rightarrow> int \<rightharpoonup> fd_obj" where
  "fd_table s = map_of (po_fds s)"

definition po_close :: "int \<Rightarrow> proc_os \<Rightarrow> (errno + unit) \<times> proc_os" where
  "po_close fd s =
     (if fd_table s fd = None then (Inl EBADF, s)
      else (Inr (), s\<lparr>po_fds := AList.delete fd (po_fds s)\<rparr>))"

definition po_dup2 :: "int \<Rightarrow> int \<Rightarrow> proc_os \<Rightarrow> (errno + unit) \<times> proc_os" where
  "po_dup2 fd new_fd s =
     (case fd_table s fd of
        None \<Rightarrow> (Inl EBADF, s)
      | Some obj \<Rightarrow> (Inr (), s\<lparr>po_fds := AList.update new_fd obj (po_fds s)\<rparr>))"

definition po_fcntl :: "int \<Rightarrow> proc_os \<Rightarrow> errno + unit" where
  "po_fcntl fd s = (if fd_table s fd = None then Inl EBADF else Inr ())"

text \<open>\<^verbatim>\<open>pipe\<close> takes the two lowest free numbers.\<close>

definition po_pipe :: "proc_os \<Rightarrow> (errno + int \<times> int) \<times> proc_os" where
  "po_pipe s =
     (if po_pipe_ok s \<noteq> [] \<and> \<not> hd (po_pipe_ok s) then (Inl EMFILE, s\<lparr>po_pipe_ok := tl (po_pipe_ok s)\<rparr>)
      else let r = fresh_fd (map fst (po_fds s));
               w = fresh_fd (r # map fst (po_fds s))
           in (Inr (r, w),
               s\<lparr>po_fds := (w, PipeWriter (po_next s)) # (r, PipeReader (po_next s)) # po_fds s,
                 po_next := Suc (po_next s), po_pipe_ok := tl (po_pipe_ok s)\<rparr>))"

section \<open>Descriptor\<close>

text \<open>
  The object is its \<^verbatim>\<open>fd_\<close>, which the operations return; \<^verbatim>\<open>std::runtime_error\<close> is its message.
\<close>

definition fd_string :: "int \<Rightarrow> string" where
  "fd_string fd = (if fd < 0 then ''-'' @ to_dec (nat (- fd)) else to_dec (nat fd))"

definition desc_close :: "int \<Rightarrow> proc_os \<Rightarrow> (string + int) \<times> proc_os" where
  "desc_close fd s =
     (if fd = FD_CLOSED then (Inr fd, s)
      else (case po_close fd s of
              (Inl e, s) \<Rightarrow>
                (Inl (''unable to close descriptor in Descriptor::close: '' @ fd_string fd @ '' '' @ strerror e), s)
            | (Inr _, s) \<Rightarrow> (Inr FD_CLOSED, s)))"

definition desc_dtor :: "int \<Rightarrow> proc_os \<Rightarrow> proc_os" where
  "desc_dtor fd s = snd (desc_close fd s)"

definition desc_move :: "int \<Rightarrow> int \<times> int" where
  "desc_move other = (other, FD_CLOSED)"

definition desc_bind :: "int \<Rightarrow> int \<Rightarrow> proc_os \<Rightarrow> (string + unit) \<times> proc_os" where
  "desc_bind fd new_fd s =
     (if fd = FD_CLOSED then
        (Inl ''unable to bind file descriptor to closed file descriptor in Descriptor::bind'', s)
      else (case po_dup2 fd new_fd s of
              (Inl e, s) \<Rightarrow>
                (Inl (''fail to perform dup2() syscall in Descriptor::bind on :'' @ fd_string new_fd @ '': '' @
                   strerror e), s)
            | (Inr _, s) \<Rightarrow> (Inr (), s)))"

text \<open>
  The move assignment is \<^verbatim>\<open>noexcept\<close>: if it cannot close what it held, the program terminates
  (\<open>None\<close>).
\<close>

definition desc_assign :: "int \<Rightarrow> int \<Rightarrow> proc_os \<Rightarrow> (int \<times> int) option \<times> proc_os" where
  "desc_assign this other s =
     (case desc_close this s of
        (Inl e, s) \<Rightarrow> (None, s)
      | (Inr _, s) \<Rightarrow> (Some (other, FD_CLOSED), s))"

definition desc_isClosed :: "int \<Rightarrow> proc_os \<Rightarrow> string + bool" where
  "desc_isClosed fd s =
     (if fd = FD_CLOSED then Inr True
      else (case po_fcntl fd s of
              Inl e \<Rightarrow>
                if e = EBADF then Inr True
                else Inl (''failed fcntl() syscall in Descriptor::isClosed: '' @ strerror e)
            | Inr _ \<Rightarrow> Inr False))"

section \<open>Pipes\<close>

record Pipe =
  pipe_reader :: int
  pipe_writer :: int

definition make_pipe :: "proc_os \<Rightarrow> (string + Pipe) \<times> proc_os" where
  "make_pipe s =
     (case po_pipe s of
        (Inl e, s) \<Rightarrow> (Inl (''pipe() syscall failed in make_pipe(): '' @ strerror e), s)
      | (Inr (r, w), s) \<Rightarrow> (Inr \<lparr>pipe_reader = r, pipe_writer = w\<rparr>, s))"

section \<open>Starting a process\<close>

record Process =
  pr_child_pid :: int
  pr_reader :: int
  pr_writer :: int

text \<open>The child's side of the constructor, on its copy of the table, up to \<^verbatim>\<open>execv\<close>.\<close>

definition child_side :: "int \<Rightarrow> int \<Rightarrow> int \<Rightarrow> int \<Rightarrow> proc_os \<Rightarrow> (string + unit) \<times> proc_os" where
  "child_side child_read parent_write parent_read child_write s =
     and_then (desc_close parent_write s) (\<lambda>parent_write s.
     and_then (desc_close parent_read s) (\<lambda>parent_read s.
     and_then (desc_bind child_read 0 s) (\<lambda>_ s.
     and_then (desc_bind child_write 1 s) (\<lambda>_ s.
     and_then (desc_close child_read s) (\<lambda>child_read s.
     and_then (desc_close child_write s) (\<lambda>child_write s. (Inr (), s)))))))"

text \<open>
  The argument vector: \<open>argv0\<close> is whatever stands where the destroyed temporary
  \<^verbatim>\<open>std::filesystem::path\<close> kept its text.
\<close>

definition exec_args :: "string \<Rightarrow> string list \<Rightarrow> string list" where
  "exec_args argv0 args = argv0 # map c_str args"

datatype child =
    Running string "string list" proc_os
  | Exited proc_os
  | Threw string proc_os

definition child_process ::
    "bool \<Rightarrow> string \<Rightarrow> string \<Rightarrow> string list \<Rightarrow> int \<Rightarrow> int \<Rightarrow> int \<Rightarrow> int \<Rightarrow> proc_os \<Rightarrow> child" where
  "child_process exec_ok argv0 path args child_read parent_write parent_read child_write s =
     (case child_side child_read parent_write parent_read child_write s of
        (Inl e, s) \<Rightarrow> Threw e s
      | (Inr _, s) \<Rightarrow> if exec_ok then Running (c_str path) (exec_args argv0 args) s else Exited s)"

definition desc_dtors :: "int list \<Rightarrow> proc_os \<Rightarrow> proc_os" where
  "desc_dtors fds s = fold desc_dtor fds s"

text \<open>
  The parent's side: the new \<^verbatim>\<open>reader_\<close> and \<^verbatim>\<open>writer_\<close>, which held nothing. The locals are destroyed
  on every way out.
\<close>

definition parent_side :: "int \<Rightarrow> int \<Rightarrow> int \<Rightarrow> int \<Rightarrow> proc_os \<Rightarrow> (string + int \<times> int) \<times> proc_os" where
  "parent_side child_read parent_write parent_read child_write s =
     (case desc_close child_read s of
        (Inl e, s) \<Rightarrow> (Inl e, desc_dtors [child_write, parent_read, parent_write, child_read] s)
      | (Inr child_read, s) \<Rightarrow>
          (case desc_close child_write s of
             (Inl e, s) \<Rightarrow> (Inl e, desc_dtors [child_write, parent_read, parent_write, child_read] s)
           | (Inr child_write, s) \<Rightarrow>
               (case desc_assign FD_CLOSED parent_read s of
                  (None, s) \<Rightarrow> (Inl ''terminate'', s)
                | (Some (reader, parent_read), s) \<Rightarrow>
                    (case desc_assign FD_CLOSED parent_write s of
                       (None, s) \<Rightarrow> (Inl ''terminate'', s)
                     | (Some (writer, parent_write), s) \<Rightarrow>
                         (Inr (reader, writer),
                          desc_dtors [child_write, parent_read, parent_write, child_read] s)))))"

text \<open>
  The constructor, with the outcome of \<^verbatim>\<open>fork\<close> (the child's number) and of \<^verbatim>\<open>execv\<close>: the parent's
  object and the child.
\<close>

definition Process_new ::
    "errno + int \<Rightarrow> bool \<Rightarrow> string \<Rightarrow> string \<Rightarrow> string list \<Rightarrow> proc_os \<Rightarrow> (string + Process \<times> child) \<times> proc_os" where
  "Process_new forked exec_ok argv0 path args s =
     (case make_pipe s of
        (Inl e, s) \<Rightarrow> (Inl e, s)
      | (Inr to_child, s) \<Rightarrow>
          (case make_pipe s of
             (Inl e, s) \<Rightarrow> (Inl e, desc_dtors [pipe_writer to_child, pipe_reader to_child] s)
           | (Inr from_child, s) \<Rightarrow>
               let child_read = pipe_reader to_child; parent_write = pipe_writer to_child;
                   parent_read = pipe_reader from_child; child_write = pipe_writer from_child
               in (case forked of
                     Inl e \<Rightarrow>
                       (Inl (''failed fork() syscall in Process constructor: '' @ strerror e),
                        desc_dtors [child_write, parent_read, parent_write, child_read] s)
                   | Inr child_pid \<Rightarrow>
                       let child = child_process exec_ok argv0 path args child_read parent_write parent_read child_write s
                       in (case parent_side child_read parent_write parent_read child_write s of
                             (Inl e, s) \<Rightarrow> (Inl e, s)
                           | (Inr (reader, writer), s) \<Rightarrow>
                               (Inr (\<lparr>pr_child_pid = child_pid, pr_reader = reader, pr_writer = writer\<rparr>, child), s)))))"

section \<open>Operations\<close>

type_synonym proc_state = "Process \<times> proc_os"

definition po_read :: "int \<Rightarrow> nat \<Rightarrow> proc_os \<Rightarrow> (errno + string) \<times> proc_os" where
  "po_read fd n s =
     (case fd_table s fd of
        None \<Rightarrow> (Inl EBADF, s)
      | Some obj \<Rightarrow> (case sys_read n (po_io s obj) of (r, i) \<Rightarrow> (r, s\<lparr>po_io := (po_io s)(obj := i)\<rparr>)))"

definition po_write :: "int \<Rightarrow> string \<Rightarrow> proc_os \<Rightarrow> (errno + nat) \<times> proc_os" where
  "po_write fd bs s =
     (case fd_table s fd of
        None \<Rightarrow> (Inl EBADF, s)
      | Some obj \<Rightarrow> (case sys_write bs (po_io s obj) of (r, i) \<Rightarrow> (r, s\<lparr>po_io := (po_io s)(obj := i)\<rparr>)))"

definition Process_read :: "nat \<Rightarrow> proc_state \<Rightarrow> (string + string) \<times> proc_state" where
  "Process_read len x =
     (case x of (p, s) \<Rightarrow>
        case po_read (pr_reader p) len s of
          (Inl e, s) \<Rightarrow> (Inl (''unable to perform Process::read '' @ strerror e), p, s)
        | (Inr got, s) \<Rightarrow> (Inr got, p, s))"

definition Process_write :: "string \<Rightarrow> proc_state \<Rightarrow> (string + nat) \<times> proc_state" where
  "Process_write data x =
     (case x of (p, s) \<Rightarrow>
        case po_write (pr_writer p) data s of
          (Inl e, s) \<Rightarrow> (Inl (''fail to perform write() syscall in Process::write '' @ strerror e), p, s)
        | (Inr sent, s) \<Rightarrow> (Inr sent, p, s))"

definition Process_readExact :: "nat \<Rightarrow> proc_state \<Rightarrow> (string + unit) \<times> string \<times> proc_state" where
  "Process_readExact len =
     read_exact Process_read
       (\<lambda>tot _. ''EOF encountered in readExact method, read '' @ to_dec tot @ '' bytes'') len []"

definition Process_writeExact :: "string \<Rightarrow> proc_state \<Rightarrow> (string + unit) \<times> nat \<times> proc_state" where
  "Process_writeExact data =
     write_exact Process_write
       (\<lambda>tot _. ''EOF encountered in writeExact method, wrote '' @ to_dec tot @ '' bytes'') data 0"

definition Process_closeStdin :: "proc_state \<Rightarrow> (string + unit) \<times> proc_state" where
  "Process_closeStdin x =
     (case x of (p, s) \<Rightarrow>
        case desc_close (pr_writer p) s of
          (Inl e, s) \<Rightarrow> (Inl e, p, s)
        | (Inr fd, s) \<Rightarrow> (Inr (), p\<lparr>pr_writer := fd\<rparr>, s))"

definition Process_close :: "proc_state \<Rightarrow> (string + unit) \<times> proc_state" where
  "Process_close x =
     and_then (Process_closeStdin x) (\<lambda>_ x.
       case x of (p, s) \<Rightarrow>
         case desc_close (pr_reader p) s of
           (Inl e, s) \<Rightarrow> (Inl e, p, s)
         | (Inr fd, s) \<Rightarrow> (Inr (), p\<lparr>pr_reader := fd\<rparr>, s))"

definition Process_isReadable :: "proc_state \<Rightarrow> string + bool" where
  "Process_isReadable x =
     (case x of (p, s) \<Rightarrow>
        case desc_isClosed (pr_reader p) s of Inl e \<Rightarrow> Inl e | Inr b \<Rightarrow> Inr (\<not> b))"

text \<open>
  The destructor's loop on what the successive calls of \<^verbatim>\<open>waitpid\<close> return, with \<^verbatim>\<open>errno\<close> as a
  number (\<^verbatim>\<open>EINTR\<close> is 4); \<open>None\<close> is "still waiting".
\<close>

fun wait_loop :: "int \<Rightarrow> (int \<times> u32) list \<Rightarrow> unit option" where
  "wait_loop child_pid [] = None"
| "wait_loop child_pid ((ret, err) # rest) =
     (if ret = child_pid \<or> (ret = -1 \<and> (err AND 4) = 0) then Some () else wait_loop child_pid rest)"

definition Process_dtor :: "(int \<times> u32) list \<Rightarrow> proc_state \<Rightarrow> proc_os option" where
  "Process_dtor waits x =
     (case snd (Process_close x) of (p, s) \<Rightarrow>
        case wait_loop (pr_child_pid p) waits of
          None \<Rightarrow> None
        | Some _ \<Rightarrow> Some (desc_dtors [pr_writer p, pr_reader p] s))"

end
