(* ===== verification/Process_Props.thy ===== *)
theory Process_Props
  imports Process
begin

text \<open>
  Where the ends of the pipes are after a start, what a failed start leaves behind, and that the
  object transfers exactly (by the interface \<open>byte_stream\<close>).
\<close>

section \<open>Tables\<close>

lemma fd_table_simps [simp]:
  "fd_table (s\<lparr>po_fds := AList.delete fd (po_fds s)\<rparr>) = (fd_table s)(fd := None)"
  "fd_table (s\<lparr>po_fds := AList.update fd obj (po_fds s)\<rparr>) = (fd_table s)(fd \<mapsto> obj)"
  "fd_table (s\<lparr>po_io := io\<rparr>) = fd_table s"
  "fd_table (s\<lparr>po_next := n\<rparr>) = fd_table s"
  "fd_table (s\<lparr>po_pipe_ok := oks\<rparr>) = fd_table s"
  by (simp_all add: fd_table_def delete_conv' update_conv')

definition closed_fd :: "int \<Rightarrow> proc_os \<Rightarrow> proc_os" where
  "closed_fd fd s = s\<lparr>po_fds := AList.delete fd (po_fds s)\<rparr>"

definition bound_fd :: "int \<Rightarrow> fd_obj \<Rightarrow> proc_os \<Rightarrow> proc_os" where
  "bound_fd fd obj s = s\<lparr>po_fds := AList.update fd obj (po_fds s)\<rparr>"

lemma fd_table_moves [simp]:
  "fd_table (closed_fd fd s) = (fd_table s)(fd := None)"
  "fd_table (bound_fd fd obj s) = (fd_table s)(fd \<mapsto> obj)"
  by (simp_all add: closed_fd_def bound_fd_def)

lemma desc_close_open:
  "fd \<noteq> FD_CLOSED \<Longrightarrow> fd_table s fd \<noteq> None \<Longrightarrow> desc_close fd s = (Inr FD_CLOSED, closed_fd fd s)"
  by (simp add: desc_close_def po_close_def closed_fd_def)

lemma desc_close_closed [simp]: "desc_close FD_CLOSED s = (Inr FD_CLOSED, s)"
  by (simp add: desc_close_def)

lemma desc_bind_open:
  "fd \<noteq> FD_CLOSED \<Longrightarrow> fd_table s fd = Some obj \<Longrightarrow> desc_bind fd new_fd s = (Inr (), bound_fd new_fd obj s)"
  by (simp add: desc_bind_def po_dup2_def bound_fd_def)

lemma desc_dtor_open:
  "fd \<noteq> FD_CLOSED \<Longrightarrow> fd_table s fd \<noteq> None \<Longrightarrow> desc_dtor fd s = closed_fd fd s"
  by (simp add: desc_dtor_def desc_close_open)

lemma desc_dtor_closed [simp]: "desc_dtor FD_CLOSED s = s"
  by (simp add: desc_dtor_def)

lemma desc_assign_fresh [simp]: "desc_assign FD_CLOSED other s = (Some (other, FD_CLOSED), s)"
  by (simp add: desc_assign_def)

lemmas desc_moves = desc_close_open desc_bind_open desc_dtor_open

lemma fresh_fd_open: "fd_table s (fresh_fd (map fst (po_fds s))) = None"
  using fresh_fd(1) [of "map fst (po_fds s)"] by (simp add: fd_table_def map_of_eq_None_iff)

lemma fresh_fd_second:
  "fd_table s (fresh_fd (r # map fst (po_fds s))) = None \<and> fresh_fd (r # map fst (po_fds s)) \<noteq> r"
  using fresh_fd(1) [of "r # map fst (po_fds s)"] by (simp add: fd_table_def map_of_eq_None_iff)

lemma fresh_fd_zero: "0 \<notin> set fds \<Longrightarrow> fresh_fd fds = 0"
  by (simp add: fresh_fd_def upt_conv_Cons del: upt_Suc)

lemma make_pipe_cases:
  obtains (ok) r w s' where
      "make_pipe s = (Inr \<lparr>pipe_reader = r, pipe_writer = w\<rparr>, s')"
      "fd_table s r = None" "fd_table s w = None" "r \<noteq> w" "0 \<le> r" "0 \<le> w"
      "fd_table s' = (fd_table s)(r \<mapsto> PipeReader (po_next s), w \<mapsto> PipeWriter (po_next s))"
      "po_next s' = Suc (po_next s)" "fd_table s 0 = None \<Longrightarrow> r = 0"
    | (failed) e s' where "make_pipe s = (Inl e, s')" "fd_table s' = fd_table s"
proof -
  let ?r = "fresh_fd (map fst (po_fds s))"
  let ?w = "fresh_fd (?r # map fst (po_fds s))"
  show thesis
  proof (cases "po_pipe_ok s \<noteq> [] \<and> \<not> hd (po_pipe_ok s)")
    case True
    then have "make_pipe s = (Inl (''pipe() syscall failed in make_pipe(): '' @ strerror EMFILE),
        s\<lparr>po_pipe_ok := tl (po_pipe_ok s)\<rparr>)"
      by (simp add: make_pipe_def po_pipe_def)
    then show thesis by (rule failed) simp
  next
    case False
    let ?s = "s\<lparr>po_fds := (?w, PipeWriter (po_next s)) # (?r, PipeReader (po_next s)) # po_fds s,
      po_next := Suc (po_next s), po_pipe_ok := tl (po_pipe_ok s)\<rparr>"
    have "fd_table ?s = (fd_table s)(?r \<mapsto> PipeReader (po_next s), ?w \<mapsto> PipeWriter (po_next s))"
      by (simp add: fd_table_def)
    moreover have "fd_table s 0 = None \<Longrightarrow> ?r = 0"
      by (rule fresh_fd_zero) (simp add: fd_table_def map_of_eq_None_iff)
    moreover have "make_pipe s = (Inr \<lparr>pipe_reader = ?r, pipe_writer = ?w\<rparr>, ?s)"
      using False by (auto simp: make_pipe_def po_pipe_def Let_def)
    ultimately show thesis
      using fresh_fd_open [of s] fresh_fd_second [of s ?r] fresh_fd(2) by (intro ok [of ?r ?w ?s]) auto
  qed
qed

section \<open>Starting\<close>

text \<open>The two sides, for four distinct new descriptors on a table \<open>T\<close>.\<close>

definition four_new :: "(int \<rightharpoonup> fd_obj) \<Rightarrow> int \<Rightarrow> int \<Rightarrow> int \<Rightarrow> int \<Rightarrow> bool" where
  "four_new T cr pw pr cw \<longleftrightarrow>
     distinct [cr, pw, pr, cw] \<and> (\<forall>fd \<in> {cr, pw, pr, cw}. 0 \<le> fd \<and> T fd = None)"

definition with_pipes :: "nat \<Rightarrow> (int \<rightharpoonup> fd_obj) \<Rightarrow> int \<Rightarrow> int \<Rightarrow> int \<Rightarrow> int \<Rightarrow> (int \<rightharpoonup> fd_obj)" where
  "with_pipes n T cr pw pr cw =
     T(cr \<mapsto> PipeReader n, pw \<mapsto> PipeWriter n, pr \<mapsto> PipeReader (Suc n), cw \<mapsto> PipeWriter (Suc n))"

lemma four_new_valid:
  "four_new T cr pw pr cw \<Longrightarrow> cr \<noteq> FD_CLOSED \<and> pw \<noteq> FD_CLOSED \<and> pr \<noteq> FD_CLOSED \<and> cw \<noteq> FD_CLOSED"
  by (auto simp: four_new_def FD_CLOSED_def)

lemma parent_side_spec:
  assumes "four_new T cr pw pr cw" and "fd_table s = with_pipes n T cr pw pr cw"
  shows "\<exists>s'. parent_side cr pw pr cw s = (Inr (pr, pw), s') \<and>
    fd_table s' = T(pr \<mapsto> PipeReader (Suc n), pw \<mapsto> PipeWriter n)"
proof -
  note nv = four_new_valid [OF assms(1)]
  have d: "desc_close cr s = (Inr FD_CLOSED, closed_fd cr s)"
    using assms nv by (intro desc_close_open) (auto simp: with_pipes_def)
  have d': "desc_close cw (closed_fd cr s) = (Inr FD_CLOSED, closed_fd cw (closed_fd cr s))"
    using assms nv by (intro desc_close_open) (auto simp: with_pipes_def four_new_def)
  have "parent_side cr pw pr cw s = (Inr (pr, pw), closed_fd cw (closed_fd cr s))"
    by (simp add: parent_side_def d d' desc_dtors_def)
  moreover have "fd_table (closed_fd cw (closed_fd cr s)) = T(pr \<mapsto> PipeReader (Suc n), pw \<mapsto> PipeWriter n)"
    using assms by (auto simp: with_pipes_def four_new_def fun_eq_iff)
  ultimately show ?thesis by blast
qed

lemma four_dtors:
  assumes "four_new T cr pw pr cw" and "fd_table s = with_pipes n T cr pw pr cw"
  shows "fd_table (desc_dtors [cw, pr, pw, cr] s) = T"
proof -
  note nv = four_new_valid [OF assms(1)]
  have "desc_dtors [cw, pr, pw, cr] s = closed_fd cr (closed_fd pw (closed_fd pr (closed_fd cw s)))"
    using assms nv by (simp add: desc_dtors_def desc_dtor_open with_pipes_def four_new_def)
  then show ?thesis using assms by (auto simp: with_pipes_def four_new_def fun_eq_iff)
qed

lemma child_side_spec:
  assumes "four_new T cr pw pr cw" and "fd_table s = with_pipes n T cr pw pr cw"
    and "T 0 \<noteq> None" and "T 1 \<noteq> None"
  shows "\<exists>s'. child_side cr pw pr cw s = (Inr (), s') \<and> fd_table s' = T(0 \<mapsto> PipeReader n, 1 \<mapsto> PipeWriter (Suc n))"
proof -
  note nv = four_new_valid [OF assms(1)]
  have std: "cr \<noteq> 0" "cr \<noteq> 1" "cw \<noteq> 0" "cw \<noteq> 1" "pr \<noteq> 0" "pr \<noteq> 1" "pw \<noteq> 0" "pw \<noteq> 1"
    using assms(1,3,4) by (auto simp: four_new_def)
  define s1 s2 where "s1 = closed_fd pw s" and "s2 = closed_fd pr s1"
  define s3 s4 where "s3 = bound_fd 0 (PipeReader n) s2" and "s4 = bound_fd 1 (PipeWriter (Suc n)) s3"
  define s5 s6 where "s5 = closed_fd cr s4" and "s6 = closed_fd cw s5"
  note defs = s1_def s2_def s3_def s4_def s5_def s6_def
  have dist: "cr \<noteq> pw" "cr \<noteq> pr" "cr \<noteq> cw" "pw \<noteq> pr" "pw \<noteq> cw" "pr \<noteq> cw"
    using assms(1) by (simp_all add: four_new_def)
  have tab: "fd_table s = with_pipes n T cr pw pr cw" by (rule assms(2))
  have "desc_close pw s = (Inr FD_CLOSED, s1)" "desc_close pr s1 = (Inr FD_CLOSED, s2)"
    "desc_bind cr 0 s2 = (Inr (), s3)" "desc_bind cw 1 s3 = (Inr (), s4)"
    "desc_close cr s4 = (Inr FD_CLOSED, s5)" "desc_close cw s5 = (Inr FD_CLOSED, s6)"
    unfolding defs using nv dist std
    by (intro desc_close_open desc_bind_open; auto simp: tab with_pipes_def)+
  then have "child_side cr pw pr cw s = (Inr (), s6)" by (simp add: child_side_def)
  moreover have "fd_table s6 = T(0 \<mapsto> PipeReader n, 1 \<mapsto> PipeWriter (Suc n))"
    using assms(1) std dist unfolding defs by (auto simp: tab with_pipes_def four_new_def fun_eq_iff)
  ultimately show ?thesis by blast
qed

lemma both_pipes:
  assumes "make_pipe s = (Inr P, s1)" and "make_pipe s1 = (Inr Q, s2)"
  shows "four_new (fd_table s) (pipe_reader P) (pipe_writer P) (pipe_reader Q) (pipe_writer Q) \<and>
    fd_table s2 = with_pipes (po_next s) (fd_table s) (pipe_reader P) (pipe_writer P) (pipe_reader Q) (pipe_writer Q) \<and>
    (fd_table s 0 = None \<longrightarrow> pipe_reader P = 0)"
proof (cases rule: make_pipe_cases [of s])
  case (failed e t)
  with assms(1) show ?thesis by simp
next
  case p: (ok r w t)
  then have P: "P = \<lparr>pipe_reader = r, pipe_writer = w\<rparr>" "t = s1" using assms(1) by simp_all
  show ?thesis
  proof (cases rule: make_pipe_cases [of s1])
    case (failed e t)
    with assms(2) show ?thesis by simp
  next
    case q: (ok r' w' t')
    then have Q: "Q = \<lparr>pipe_reader = r', pipe_writer = w'\<rparr>" "t' = s2" using assms(2) by simp_all
    have tab: "fd_table s1 = (fd_table s)(r \<mapsto> PipeReader (po_next s), w \<mapsto> PipeWriter (po_next s))"
      "po_next s1 = Suc (po_next s)" using p(7,8) P(2) by simp_all
    have new: "r' \<noteq> w \<and> r' \<noteq> r \<and> fd_table s r' = None" "w' \<noteq> w \<and> w' \<noteq> r \<and> fd_table s w' = None"
      using q(2,3) unfolding tab by (simp_all split: if_splits)
    have "four_new (fd_table s) r w r' w'" using p(2-6) q(4-6) new by (simp add: four_new_def)
    moreover have "fd_table s2 = with_pipes (po_next s) (fd_table s) r w r' w'"
      using q(7) Q(2) by (simp add: tab with_pipes_def)
    ultimately show ?thesis using P Q p(9) by simp
  qed
qed

lemma Process_new_success:
  assumes "Process_new forked exec_ok argv0 path args s = (Inr (p, child), s')"
  obtains pid P Q s1 s2 where "forked = Inr pid" "make_pipe s = (Inr P, s1)" "make_pipe s1 = (Inr Q, s2)"
    "p = \<lparr>pr_child_pid = pid, pr_reader = pipe_reader Q, pr_writer = pipe_writer P\<rparr>"
    "child = child_process exec_ok argv0 path args (pipe_reader P) (pipe_writer P) (pipe_reader Q) (pipe_writer Q) s2"
    "fd_table s' = (fd_table s)(pipe_reader Q \<mapsto> PipeReader (Suc (po_next s)), pipe_writer P \<mapsto> PipeWriter (po_next s))"
proof -
  obtain q1 s1 where p1: "make_pipe s = (q1, s1)" by fastforce
  with assms obtain P where P: "q1 = Inr P" by (auto simp: Process_new_def split: sum.splits)
  obtain q2 s2 where p2: "make_pipe s1 = (q2, s2)" by fastforce
  with assms p1 P obtain Q where Q: "q2 = Inr Q" by (auto simp: Process_new_def split: sum.splits)
  with assms p1 p2 P obtain pid where pid: "forked = Inr pid"
    by (auto simp: Process_new_def Let_def split: sum.splits)
  note b = both_pipes [OF p1 [unfolded P] p2 [unfolded Q]]
  obtain t where "parent_side (pipe_reader P) (pipe_writer P) (pipe_reader Q) (pipe_writer Q) s2 =
      (Inr (pipe_reader Q, pipe_writer P), t)"
    "fd_table t = (fd_table s)(pipe_reader Q \<mapsto> PipeReader (Suc (po_next s)), pipe_writer P \<mapsto> PipeWriter (po_next s))"
    using parent_side_spec b by blast
  with that [OF pid p1 [unfolded P] p2 [unfolded Q]] assms p1 p2 P Q pid show thesis
    by (simp add: Process_new_def Let_def)
qed

text \<open>The table of the child when it runs the program, or has failed to.\<close>

fun child_os :: "child \<Rightarrow> proc_os" where
  "child_os (Running path args s) = s"
| "child_os (Exited s) = s"
| "child_os (Threw e s) = s"

text \<open>
  C25: If a process with its standard input and output open starts a child, then the child runs the
  program with exactly its parent's descriptors, except that 0 reads from the first pipe and 1
  writes to the second; and the parent has gained exactly two descriptors, the reading end of the
  second pipe and the writing end of the first, which are those of the object.
\<close>

theorem pipes_connected:
  assumes "Process_new (Inr pid) True argv0 path args s = (Inr (p, child), s')"
    and "fd_table s 0 \<noteq> None" and "fd_table s 1 \<noteq> None"
  shows "child = Running (c_str path) (argv0 # map c_str args) (child_os child) \<and>
    fd_table (child_os child) = (fd_table s)(0 \<mapsto> PipeReader (po_next s), 1 \<mapsto> PipeWriter (Suc (po_next s))) \<and>
    fd_table s' = (fd_table s)(pr_reader p \<mapsto> PipeReader (Suc (po_next s)), pr_writer p \<mapsto> PipeWriter (po_next s)) \<and>
    fd_table s (pr_reader p) = None \<and> fd_table s (pr_writer p) = None \<and> pr_reader p \<noteq> pr_writer p \<and>
    pr_child_pid p = pid"
  using assms(1)
proof (cases rule: Process_new_success)
  case (1 k P Q s1 s2)
  note b = both_pipes [OF 1(2,3)]
  obtain t where t: "child_side (pipe_reader P) (pipe_writer P) (pipe_reader Q) (pipe_writer Q) s2 = (Inr (), t)"
    "fd_table t = (fd_table s)(0 \<mapsto> PipeReader (po_next s), 1 \<mapsto> PipeWriter (Suc (po_next s)))"
    using child_side_spec b assms(2,3) by blast
  then have "child = Running (c_str path) (argv0 # map c_str args) t"
    using 1(5) by (simp add: child_process_def exec_args_def)
  moreover have "pr_reader p = pipe_reader Q" "pr_writer p = pipe_writer P" "pr_child_pid p = pid"
    using 1(1,4) by simp_all
  ultimately show ?thesis using t(2) b 1(6) by (auto simp: four_new_def)
qed

text \<open>
  C26: If no process holds an end of the new pipes before, then after \<^verbatim>\<open>closeStdin\<close> no descriptor of
  the parent or of the child writes to the child's standard input: the child will read the end of
  its input.
\<close>

theorem closeStdin_ends_input:
  assumes "Process_new (Inr pid) True argv0 path args s = (Inr (p, child), s')"
    and "fd_table s 0 \<noteq> None" and "fd_table s 1 \<noteq> None"
    and "PipeWriter (po_next s) \<notin> ran (fd_table s)"
  shows "\<exists>t. Process_closeStdin (p, s') = (Inr (), p\<lparr>pr_writer := FD_CLOSED\<rparr>, t) \<and>
    PipeWriter (po_next s) \<notin> ran (fd_table t) \<and> PipeWriter (po_next s) \<notin> ran (fd_table (child_os child))"
  using assms(1)
proof (cases rule: Process_new_success)
  case (1 k P Q s1 s2)
  note b = both_pipes [OF 1(2,3)]
  obtain t where t: "child_side (pipe_reader P) (pipe_writer P) (pipe_reader Q) (pipe_writer Q) s2 = (Inr (), t)"
    "fd_table t = (fd_table s)(0 \<mapsto> PipeReader (po_next s), 1 \<mapsto> PipeWriter (Suc (po_next s)))"
    using child_side_spec b assms(2,3) by blast
  have c: "child_os child = t" using 1(5) t by (simp add: child_process_def)
  have w: "pr_writer p = pipe_writer P" "pipe_writer P \<noteq> FD_CLOSED" "pipe_writer P \<noteq> pipe_reader Q"
    using 1(4) four_new_valid [OF b [THEN conjunct1]] b by (simp_all add: four_new_def)
  have "desc_close (pr_writer p) s' = (Inr FD_CLOSED, closed_fd (pr_writer p) s')"
    using w 1(6) by (intro desc_close_open) auto
  moreover have "PipeWriter (po_next s) \<notin> ran (fd_table (closed_fd (pr_writer p) s'))"
    using assms(4) w 1(6) by (auto simp: ran_def split: if_splits)
  moreover have "PipeWriter (po_next s) \<notin> ran (fd_table t)"
    using assms(4) t(2) by (auto simp: ran_def split: if_splits)
  ultimately show ?thesis using c by (simp add: Process_closeStdin_def)
qed

text \<open>
  A start that fails, because there is no pipe or no process to be had, leaves the parent's
  descriptors exactly as they were.
\<close>

theorem failed_start_restores:
  assumes "Process_new forked exec_ok argv0 path args s = (Inl e, s')"
  shows "fd_table s' = fd_table s"
proof (cases rule: make_pipe_cases [of s])
  case (failed x t)
  with assms show ?thesis by (simp add: Process_new_def)
next
  case p: (ok r w s1)
  show ?thesis
  proof (cases rule: make_pipe_cases [of s1])
    case (failed x t)
    have "desc_dtors [w, r] t = closed_fd r (closed_fd w t)"
      using p failed by (simp add: desc_dtors_def desc_dtor_open FD_CLOSED_def)
    with assms p failed have "s' = closed_fd r (closed_fd w t)" by (simp add: Process_new_def)
    with p failed show ?thesis by (auto simp: fun_eq_iff)
  next
    case q: (ok r' w' s2)
    note b = both_pipes [OF p(1) q(1)]
    show ?thesis
    proof (cases forked)
      case (Inl x)
      with assms p q have "s' = desc_dtors [w', r', w, r] s2" by (simp add: Process_new_def)
      with four_dtors b show ?thesis by simp
    next
      case (Inr pid)
      obtain t where "parent_side r w r' w' s2 = (Inr (r', w), t)"
        using parent_side_spec b by fastforce
      with assms p q Inr show ?thesis by (simp add: Process_new_def Let_def)
    qed
  qed
qed

text \<open>
  If the parent's standard input is closed, the child is started without one: the reading end
  of the first pipe is already descriptor 0, binding it changes nothing, and then it is closed.
\<close>

theorem closed_stdin_is_lost:
  assumes "Process_new (Inr pid) exec_ok argv0 path args s = (Inr (p, child), s')" and "fd_table s 0 = None"
  shows "fd_table (child_os child) 0 = None"
  using assms(1)
proof (cases rule: Process_new_success)
  case (1 k P Q s1 s2)
  let ?pw = "pipe_writer P" and ?pr = "pipe_reader Q" and ?cw = "pipe_writer Q" and ?n = "po_next s"
  note b = both_pipes [OF 1(2,3)]
  then have cr: "pipe_reader P = 0" using assms(2) by simp
  then have d: "0 \<noteq> ?pw" "0 \<noteq> ?pr" "0 \<noteq> ?cw" "?pw \<noteq> ?pr" "?pw \<noteq> ?cw" "?pr \<noteq> ?cw"
    using b by (simp_all add: four_new_def)
  note nv = four_new_valid [OF b [THEN conjunct1]]
  define t1 t2 where "t1 = closed_fd ?pw s2" and "t2 = closed_fd ?pr t1"
  define t3 t4 where "t3 = bound_fd 0 (PipeReader ?n) t2" and "t4 = bound_fd 1 (PipeWriter (Suc ?n)) t3"
  define t5 t6 where "t5 = closed_fd 0 t4" and "t6 = closed_fd ?cw t5"
  note defs = t1_def t2_def t3_def t4_def t5_def t6_def
  have tab: "fd_table s2 = with_pipes ?n (fd_table s) 0 ?pw ?pr ?cw" using b cr by simp
  have "desc_close ?pw s2 = (Inr FD_CLOSED, t1)" "desc_close ?pr t1 = (Inr FD_CLOSED, t2)"
    "desc_bind 0 0 t2 = (Inr (), t3)" "desc_bind ?cw 1 t3 = (Inr (), t4)"
    "desc_close 0 t4 = (Inr FD_CLOSED, t5)" "desc_close ?cw t5 = (Inr FD_CLOSED, t6)"
    unfolding defs using nv d cr
    by (intro desc_close_open desc_bind_open; auto simp: tab with_pipes_def)+
  then have "child_side 0 ?pw ?pr ?cw s2 = (Inr (), t6)" by (simp add: child_side_def)
  then have "child_os child = t6" using 1(5) cr by (simp add: child_process_def)
  then show ?thesis using d unfolding defs by simp
qed

section \<open>Transfers\<close>

definition proc_incoming :: "proc_state \<Rightarrow> string" where
  "proc_incoming x =
     (case x of (p, s) \<Rightarrow>
        case fd_table s (pr_reader p) of None \<Rightarrow> [] | Some obj \<Rightarrow> pending (io_in (po_io s obj)))"

definition proc_sent :: "proc_state \<Rightarrow> string" where
  "proc_sent x =
     (case x of (p, s) \<Rightarrow>
        case fd_table s (pr_writer p) of None \<Rightarrow> [] | Some obj \<Rightarrow> io_sent (po_io s obj))"

interpretation proc: byte_stream Process_read Process_write proc_incoming proc_sent
proof unfold_locales
  fix n bs and x x' :: proc_state
  assume rd: "Process_read n x = (Inr bs, x')" and n: "0 < n"
  obtain p s where x: "x = (p, s)" by fastforce
  obtain obj where obj: "fd_table s (pr_reader p) = Some obj"
    using rd x by (cases "fd_table s (pr_reader p)") (simp_all add: Process_read_def po_read_def)
  obtain r i where r: "sys_read n (po_io s obj) = (r, i)" by fastforce
  have x': "r = Inr bs" "x' = (p, s\<lparr>po_io := (po_io s)(obj := i)\<rparr>)"
    using rd x obj r by (auto simp: Process_read_def po_read_def split: sum.splits)
  show "proc_incoming x = bs @ proc_incoming x' \<and> length bs \<le> n"
    using sys_read_pending [OF r [unfolded x'(1)] n] sys_read_length [OF r [unfolded x'(1)]]
    by (simp add: x x'(2) proc_incoming_def obj)
next
  fix n :: nat and x :: proc_state
  assume n: "0 < n" and ne: "proc_incoming x \<noteq> []"
  obtain p s where x: "x = (p, s)" by fastforce
  obtain obj where obj: "fd_table s (pr_reader p) = Some obj" "pending (io_in (po_io s obj)) \<noteq> []"
    using ne x by (cases "fd_table s (pr_reader p)") (simp_all add: proc_incoming_def)
  from sys_read_progress [OF obj(2) n] obj(1) show "\<exists>bs x'. Process_read n x = (Inr bs, x') \<and> bs \<noteq> []"
    by (auto simp: x Process_read_def po_read_def)
next
  fix bs n and x x' :: proc_state
  assume wr: "Process_write bs x = (Inr n, x')"
  obtain p s where x: "x = (p, s)" by fastforce
  obtain obj where obj: "fd_table s (pr_writer p) = Some obj"
    using wr x by (cases "fd_table s (pr_writer p)") (simp_all add: Process_write_def po_write_def)
  obtain r i where r: "sys_write bs (po_io s obj) = (r, i)" by fastforce
  have x': "r = Inr n" "x' = (p, s\<lparr>po_io := (po_io s)(obj := i)\<rparr>)"
    using wr x obj r by (auto simp: Process_write_def po_write_def split: sum.splits)
  show "n \<le> length bs \<and> proc_sent x' = proc_sent x @ take n bs"
    using sys_write_sent(1) [OF r [unfolded x'(1)]] by (simp add: x x'(2) proc_sent_def obj)
next
  fix bs e and x x' :: proc_state
  assume wr: "Process_write bs x = (Inl e, x')"
  obtain p s where x: "x = (p, s)" by fastforce
  show "proc_sent x' = proc_sent x"
  proof (cases "fd_table s (pr_writer p)")
    case None
    with wr x show ?thesis by (auto simp: Process_write_def po_write_def)
  next
    case (Some obj)
    obtain r i where r: "sys_write bs (po_io s obj) = (r, i)" by fastforce
    obtain k where x': "r = Inl k" "x' = (p, s\<lparr>po_io := (po_io s)(obj := i)\<rparr>)"
      using wr x Some r by (auto simp: Process_write_def po_write_def split: sum.splits)
    with sys_write_sent(2) [OF r [unfolded x'(1)]] show ?thesis by (simp add: x proc_sent_def Some)
  qed
qed

text \<open>
  \<^verbatim>\<open>Process::readExact\<close> ends for every behaviour of the pipe; what it stores is the first bytes of
  what the child sends before an error or the end, at most as many as asked for, and it succeeds
  exactly if there are that many, leaving the rest for later reads.
\<close>

theorem process_readExact:
  "case Process_readExact len x of
     (r, data, x') \<Rightarrow>
       data = take len (proc_incoming x) \<and> (r = Inr () \<longleftrightarrow> len \<le> length (proc_incoming x)) \<and>
       (r \<noteq> Inr () \<or> proc_incoming x = data @ proc_incoming x')"
proof -
  obtain r data x' where run: "Process_readExact len x = (r, data, x')" by (metis surj_pair)
  note sp = proc.read_exact_spec [OF run [unfolded Process_readExact_def], simplified]
  show ?thesis unfolding run prod.case using sp by blast
qed

text \<open>The destructor closes both ends, whatever the waits return before they end the loop.\<close>

lemma process_dtor_closes:
  assumes "Process_dtor waits (p, s) = Some s'" and "pr_reader p \<noteq> pr_writer p"
    and "pr_reader p \<noteq> FD_CLOSED" and "pr_writer p \<noteq> FD_CLOSED"
    and "fd_table s (pr_reader p) \<noteq> None" and "fd_table s (pr_writer p) \<noteq> None"
  shows "fd_table s' = (fd_table s)(pr_writer p := None, pr_reader p := None)"
proof -
  have w: "desc_close (pr_writer p) s = (Inr FD_CLOSED, closed_fd (pr_writer p) s)"
    using assms by (intro desc_close_open)
  have r: "desc_close (pr_reader p) (closed_fd (pr_writer p) s) =
      (Inr FD_CLOSED, closed_fd (pr_reader p) (closed_fd (pr_writer p) s))"
    using assms by (intro desc_close_open) simp_all
  have "s' = closed_fd (pr_reader p) (closed_fd (pr_writer p) s)"
    using assms(1) w r
    by (simp add: Process_dtor_def Process_close_def Process_closeStdin_def desc_dtors_def split: option.splits)
  then show ?thesis by simp
qed

section \<open>Instances\<close>

definition shell_os :: "int list \<Rightarrow> bool list \<Rightarrow> proc_os" where
  "shell_os fds oks =
     \<lparr>po_fds = map (\<lambda>fd. (fd, Inherited 0)) fds, po_next = 7, po_pipe_ok = oks,
      po_io = (\<lambda>_. io_init [] [])\<rparr>"

lemma make_pipe_allowed:
  "po_pipe_ok s = [] \<Longrightarrow> \<exists>P s'. make_pipe s = (Inr P, s') \<and> po_pipe_ok s' = []"
  by (simp add: make_pipe_def po_pipe_def Let_def)

lemma Process_new_starts:
  assumes "po_pipe_ok s = []"
  shows "\<exists>p child s'. Process_new (Inr pid) exec_ok argv0 path args s = (Inr (p, child), s')"
proof -
  obtain P s1 where p: "make_pipe s = (Inr P, s1)" "po_pipe_ok s1 = []" using make_pipe_allowed assms by blast
  obtain Q s2 where q: "make_pipe s1 = (Inr Q, s2)" using make_pipe_allowed p(2) by blast
  obtain t where "parent_side (pipe_reader P) (pipe_writer P) (pipe_reader Q) (pipe_writer Q) s2 =
      (Inr (pipe_reader Q, pipe_writer P), t)"
    using parent_side_spec both_pipes [OF p(1) q] by blast
  with p q show ?thesis by (simp add: Process_new_def Let_def)
qed

lemma shell_starts:
  "\<exists>p child s'. Process_new (Inr 42) True ''cat'' ''/bin/cat'' args (shell_os fds []) = (Inr (p, child), s')"
  by (rule Process_new_starts) (simp add: shell_os_def)

lemma shell_table: "fd_table (shell_os [0, 1, 2] []) = [0 \<mapsto> Inherited 0, 1 \<mapsto> Inherited 0, 2 \<mapsto> Inherited 0]"
  by (simp add: fd_table_def shell_os_def fun_eq_iff)

theorem pipes_connected_witness:
  "\<exists>p child s'. Process_new (Inr 42) True ''cat'' ''/bin/cat'' [''-u''] (shell_os [0, 1, 2] []) = (Inr (p, child), s') \<and>
     fd_table (child_os child) 0 = Some (PipeReader 7) \<and> fd_table s' (pr_writer p) = Some (PipeWriter 7)"
proof -
  obtain p child s' where run: "Process_new (Inr 42) True ''cat'' ''/bin/cat'' [''-u''] (shell_os [0, 1, 2] []) =
      (Inr (p, child), s')" using shell_starts by blast
  from pipes_connected [OF run] have "fd_table (child_os child) 0 = Some (PipeReader 7) \<and>
      fd_table s' (pr_writer p) = Some (PipeWriter 7)"
    by (simp add: shell_table) (simp add: shell_os_def)
  with run show ?thesis by blast
qed

theorem closeStdin_ends_input_witness:
  "\<exists>p child s' t. Process_closeStdin (p, s') = (Inr (), p\<lparr>pr_writer := FD_CLOSED\<rparr>, t) \<and>
     pr_child_pid p = 42 \<and> PipeWriter 7 \<notin> ran (fd_table (child_os child))"
proof -
  obtain p child s' where run: "Process_new (Inr 42) True ''cat'' ''/bin/cat'' [''-u''] (shell_os [0, 1, 2] []) =
      (Inr (p, child), s')" using shell_starts by blast
  have "po_next (shell_os [0, 1, 2] []) = 7" by (simp add: shell_os_def)
  moreover have "pr_child_pid p = 42" by (rule Process_new_success [OF run]) simp
  ultimately show ?thesis
    using closeStdin_ends_input [OF run] by (fastforce simp: shell_table)
qed

lemma shell_fails: "po_pipe_ok s = [False] \<Longrightarrow>
    \<exists>e s'. Process_new forked exec_ok argv0 path args s = (Inl e, s')"
  by (simp add: Process_new_def make_pipe_def po_pipe_def)

theorem failed_start_restores_witness:
  "\<exists>e s'. Process_new (Inr 42) True ''cat'' ''/bin/cat'' [] (shell_os [0, 1, 2] [False]) = (Inl e, s') \<and>
     fd_table s' = fd_table (shell_os [0, 1, 2] [False])"
proof -
  have "\<exists>e s'. Process_new (Inr 42) True ''cat'' ''/bin/cat'' [] (shell_os [0, 1, 2] [False]) = (Inl e, s')"
    by (rule shell_fails) (simp add: shell_os_def)
  with failed_start_restores show ?thesis by blast
qed

theorem closed_stdin_is_lost_witness:
  "\<exists>p child s'. Process_new (Inr 42) True ''cat'' ''/bin/cat'' [] (shell_os [1, 2] []) = (Inr (p, child), s') \<and>
     fd_table (child_os child) 0 = None"
proof -
  have "fd_table (shell_os [1, 2] []) 0 = None" by (simp add: fd_table_def shell_os_def)
  with shell_starts [of "[]" "[1, 2]"] closed_stdin_is_lost show ?thesis by blast
qed

end
