(* ===== verification/Shm_Region.thy ===== *)
theory Shm_Region
  imports Posix_IO "HOL-Library.Signed_Division"
begin

text \<open>
  \<^verbatim>\<open>include/shmem\<close> and \<^verbatim>\<open>lib/shmem\<close> without the map: a shared mapping that begins with its own
  bookkeeping and a semaphore, an allocator that hands out the rest of it, and mutexes placed there.
  Addresses are 64-bit words; sizes are those of the x86-64 Linux ABI.
\<close>

section \<open>Exceptions\<close>

datatype shm_exn = BadAlloc | ShmErrno string errno | MutexException string errno

fun shm_what :: "shm_exn \<Rightarrow> string" where
  "shm_what BadAlloc = ''std::bad_alloc''"
| "shm_what (ShmErrno m e) = m"
| "shm_what (MutexException m e) = m"

fun shm_getErrno :: "shm_exn \<Rightarrow> errno option" where
  "shm_getErrno BadAlloc = None"
| "shm_getErrno (ShmErrno m e) = Some e"
| "shm_getErrno (MutexException m e) = Some e"

text \<open>A call returns, throws, waits for a semaphore, or ends the program by an exception in a destructor.\<close>

datatype 'a shm_result = Done 'a | Throws shm_exn | Blocks | Ends_program

section \<open>Regions\<close>

record SharedRegionView =
  rv_begin :: u64
  rv_end :: u64
  rv_semaphore :: u64

text \<open>What is shared: the view, and the values of the initialised semaphores by address.\<close>

record shm =
  shm_view :: SharedRegionView
  shm_sems :: "u64 \<Rightarrow> nat option"

record SharedRegion =
  sr_size :: u64
  sr_mem :: u64

definition sizeof_View :: u64 where "sizeof_View = 24"
definition sizeof_sem :: u64 where "sizeof_sem = 32"

definition region_layout :: "u64 \<Rightarrow> u64 \<Rightarrow> SharedRegionView" where
  "region_layout region_begin n =
     (let free_mem_begin = region_begin + sizeof_View + sizeof_sem
      in \<lparr>rv_begin = free_mem_begin, rv_end = free_mem_begin + n, rv_semaphore = region_begin + sizeof_View\<rparr>)"

text \<open>The outcome of \<^verbatim>\<open>mmap\<close> (the address) and of \<^verbatim>\<open>sem_init\<close> are arguments.\<close>

definition SharedRegion_new :: "u64 option \<Rightarrow> errno + unit \<Rightarrow> u64 \<Rightarrow> shm_exn + SharedRegion \<times> shm" where
  "SharedRegion_new mapped initialised n =
     (case mapped of
        None \<Rightarrow> Inl BadAlloc
      | Some region_begin \<Rightarrow>
          let view = region_layout region_begin n
          in (case initialised of
                Inl e \<Rightarrow> Inl (ShmErrno ''unable to initialize semaphore in shared region'' e)
              | Inr _ \<Rightarrow>
                  Inr (\<lparr>sr_size = n, sr_mem = region_begin\<rparr>,
                       \<lparr>shm_view = view, shm_sems = [rv_semaphore view \<mapsto> 1]\<rparr>)))"

definition SharedRegion_dtor :: "SharedRegion \<Rightarrow> shm \<Rightarrow> shm" where
  "SharedRegion_dtor r s =
     (if sr_mem r = 0 then s
      else s\<lparr>shm_sems := (shm_sems s)(rv_semaphore (shm_view s) := None)\<rparr>)"

definition SharedRegion_move :: "SharedRegion \<Rightarrow> SharedRegion \<times> SharedRegion" where
  "SharedRegion_move other = (other, \<lparr>sr_size = 0, sr_mem = 0\<rparr>)"

definition SharedRegion_swap :: "SharedRegion \<Rightarrow> SharedRegion \<Rightarrow> SharedRegion \<times> SharedRegion" where
  "SharedRegion_swap this other =
     (this\<lparr>sr_mem := sr_mem other, sr_size := sr_size other\<rparr>,
      other\<lparr>sr_mem := sr_mem this, sr_size := sr_size this\<rparr>)"

text \<open>The assignment's temporary ends with what the target held: \<open>s\<close> is that region's memory.\<close>

definition SharedRegion_assign :: "SharedRegion \<Rightarrow> SharedRegion \<Rightarrow> shm \<Rightarrow> SharedRegion \<times> SharedRegion \<times> shm" where
  "SharedRegion_assign this other s =
     (case SharedRegion_move other of
        (tmp, other) \<Rightarrow>
          (case SharedRegion_swap this tmp of (this, tmp) \<Rightarrow> (this, other, SharedRegion_dtor tmp s)))"

section \<open>Semaphores\<close>

text \<open>
  A \<^verbatim>\<open>LockableSem\<close> is an address, 0 for none. \<open>interrupted\<close> says that a signal ends the wait.
\<close>

definition sem_lock :: "bool \<Rightarrow> u64 \<Rightarrow> shm \<Rightarrow> shm shm_result" where
  "sem_lock interrupted sem s =
     (case shm_sems s sem of
        None \<Rightarrow> Throws (MutexException ''unable to lock'' EINVAL)
      | Some 0 \<Rightarrow> if interrupted then Throws (MutexException ''unable to lock'' EINTR) else Blocks
      | Some (Suc k) \<Rightarrow> Done (s\<lparr>shm_sems := (shm_sems s)(sem \<mapsto> k)\<rparr>))"

definition sem_unlock :: "u64 \<Rightarrow> shm \<Rightarrow> shm shm_result" where
  "sem_unlock sem s =
     (case shm_sems s sem of
        None \<Rightarrow> Throws (MutexException ''unable to unlock'' EINVAL)
      | Some k \<Rightarrow> Done (s\<lparr>shm_sems := (shm_sems s)(sem \<mapsto> Suc k)\<rparr>))"

definition sem_unwrap :: "u64 \<Rightarrow> u64 \<times> u64" where
  "sem_unwrap sem = (sem, 0)"

definition sem_isEmpty :: "u64 \<Rightarrow> bool" where
  "sem_isEmpty sem \<longleftrightarrow> sem = 0"

section \<open>The allocator\<close>

text \<open>
  For elements of \<open>sz\<close> bytes. The difference of two pointers is a signed number of elements; it is
  compared with an unsigned number and so converted. (C++ gives it a meaning only if the number of
  bytes is a multiple of \<open>sz\<close>.)
\<close>

definition ptr_diff :: "u64 \<Rightarrow> u64 \<Rightarrow> u64 \<Rightarrow> int" where
  "ptr_diff sz p q = sint (p - q) sdiv uint sz"

definition refuses :: "u64 \<Rightarrow> u64 \<Rightarrow> SharedRegionView \<Rightarrow> bool" where
  "refuses sz n v \<longleftrightarrow> (word_of_int (ptr_diff sz (rv_begin v) (rv_end v)) :: u64) < n"

text \<open>
  A \<^verbatim>\<open>lock_guard\<close> around a body that does not wait. An unlock that fails throws out of the guard's
  destructor, which ends the program.
\<close>

definition guarded :: "u64 \<Rightarrow> (shm \<Rightarrow> (shm_exn + 'a) \<times> shm) \<Rightarrow> shm \<Rightarrow> 'a shm_result \<times> shm" where
  "guarded sem body s =
     (case sem_lock False sem s of
        Blocks \<Rightarrow> (Blocks, s)
      | Ends_program \<Rightarrow> (Ends_program, s)
      | Throws e \<Rightarrow> (Throws e, s)
      | Done s \<Rightarrow>
          (case body s of
             (r, s) \<Rightarrow>
               (case sem_unlock sem s of
                  Done s \<Rightarrow> (case r of Inl e \<Rightarrow> (Throws e, s) | Inr a \<Rightarrow> (Done a, s))
                | _ \<Rightarrow> (Ends_program, s))))"

definition allocate :: "u64 \<Rightarrow> u64 \<Rightarrow> shm \<Rightarrow> u64 shm_result \<times> shm" where
  "allocate sz n s =
     guarded (rv_semaphore (shm_view s))
       (\<lambda>s. if refuses sz n (shm_view s) then (Inl BadAlloc, s)
            else (Inr (rv_begin (shm_view s)),
                  s\<lparr>shm_view := (shm_view s)\<lparr>rv_begin := rv_begin (shm_view s) + n * sz\<rparr>\<rparr>)) s"

definition deallocate :: "u64 \<Rightarrow> u64 \<Rightarrow> u64 \<Rightarrow> shm \<Rightarrow> unit shm_result \<times> shm" where
  "deallocate sz p n s =
     guarded (rv_semaphore (shm_view s))
       (\<lambda>s. if rv_end (shm_view s) - n * sz = p then
              (Inr (), s\<lparr>shm_view := (shm_view s)\<lparr>rv_begin := rv_begin (shm_view s) - n * sz\<rparr>\<rparr>)
            else (Inr (), s)) s"

text \<open>
  The object: the address of the region's view and of its semaphore. It converts to allocators of
  other types, and two are equal if they belong to the same region.
\<close>

record ShmAllocator =
  al_state :: u64
  al_lock :: u64

definition ShmAllocator_new :: "u64 \<Rightarrow> SharedRegionView \<Rightarrow> ShmAllocator" where
  "ShmAllocator_new region v = \<lparr>al_state = region, al_lock = rv_semaphore v\<rparr>"

definition ShmAllocator_convert :: "ShmAllocator \<Rightarrow> ShmAllocator" where
  "ShmAllocator_convert other = \<lparr>al_state = al_state other, al_lock = al_lock other\<rparr>"

definition allocator_eq :: "ShmAllocator \<Rightarrow> ShmAllocator \<Rightarrow> bool" where
  "allocator_eq a b \<longleftrightarrow> al_state a = al_state b"

definition allocator_neq :: "ShmAllocator \<Rightarrow> ShmAllocator \<Rightarrow> bool" where
  "allocator_neq a b \<longleftrightarrow> \<not> allocator_eq a b"

lemma allocators_of_region:
  "allocator_eq (ShmAllocator_convert (ShmAllocator_new r v)) b \<longleftrightarrow> al_state b = r"
  "al_lock (ShmAllocator_convert (ShmAllocator_new r v)) = rv_semaphore v"
  by (auto simp: allocator_eq_def ShmAllocator_convert_def ShmAllocator_new_def)

section \<open>Mutexes\<close>

text \<open>A mutex is the address of its semaphore; the outcome of \<^verbatim>\<open>sem_init\<close> is an argument.\<close>

definition ShMutex_new :: "errno + unit \<Rightarrow> shm \<Rightarrow> u64 shm_result \<times> shm" where
  "ShMutex_new initialised s =
     (case allocate sizeof_sem 1 s of
        (Done sem, s') \<Rightarrow>
          (case initialised of
             Inl e \<Rightarrow> (Throws (MutexException ''unable to initialize semaphore'' e), s')
           | Inr _ \<Rightarrow>
               let s' = s'\<lparr>shm_sems := (shm_sems s')(sem \<mapsto> 1)\<rparr> in (Done sem, s'))
      | (Throws e, s') \<Rightarrow> (Throws e, s')
      | (Blocks, s') \<Rightarrow> (Blocks, s')
      | (Ends_program, s') \<Rightarrow> (Ends_program, s'))"

definition ShMutex_dtor :: "u64 \<Rightarrow> shm \<Rightarrow> shm" where
  "ShMutex_dtor sem s =
     (if sem_isEmpty sem then s
      else snd (deallocate sizeof_sem sem 1 (s\<lparr>shm_sems := (shm_sems s)(sem := None)\<rparr>)))"

definition ShMutex_move :: "u64 \<Rightarrow> u64 \<times> u64" where
  "ShMutex_move other = sem_unwrap other"

definition ShMutex_swap :: "u64 \<Rightarrow> u64 \<Rightarrow> u64 \<times> u64" where
  "ShMutex_swap this other = (other, this)"

definition ShMutex_assign :: "u64 \<Rightarrow> u64 \<Rightarrow> shm \<Rightarrow> u64 \<times> u64 \<times> shm" where
  "ShMutex_assign this other s =
     (case ShMutex_move other of
        (tmp, other) \<Rightarrow> (case ShMutex_swap this tmp of (this, tmp) \<Rightarrow> (this, other, ShMutex_dtor tmp s)))"

section \<open>Guards\<close>

lemma guarded_taken: "shm_sems s sem = Some 0 \<Longrightarrow> guarded sem body s = (Blocks, s)"
  by (simp add: guarded_def sem_lock_def)

lemma sems_restored: "f sem = Some (Suc k) \<Longrightarrow> f(sem \<mapsto> k, sem \<mapsto> Suc k) = f"
  by (simp add: fun_upd_idem)

text \<open>With the region's semaphore free, the allocator either moves \<open>begin\<close> or refuses.\<close>

lemma allocate_free:
  assumes "shm_sems s (rv_semaphore (shm_view s)) = Some (Suc k)"
  shows "allocate sz n s =
    (if refuses sz n (shm_view s) then (Throws BadAlloc, s)
     else (Done (rv_begin (shm_view s)),
           s\<lparr>shm_view := (shm_view s)\<lparr>rv_begin := rv_begin (shm_view s) + n * sz\<rparr>\<rparr>))"
  using assms by (simp add: allocate_def guarded_def sem_lock_def sem_unlock_def fun_upd_idem)

lemma deallocate_free:
  assumes "shm_sems s (rv_semaphore (shm_view s)) = Some (Suc k)"
  shows "deallocate sz p n s =
    (Done (), if rv_end (shm_view s) - n * sz = p
       then s\<lparr>shm_view := (shm_view s)\<lparr>rv_begin := rv_begin (shm_view s) - n * sz\<rparr>\<rparr> else s)"
  using assms by (simp add: deallocate_def guarded_def sem_lock_def sem_unlock_def fun_upd_idem)

lemma allocate_sems: "allocate sz n s = (Done p, s') \<Longrightarrow> shm_sems s' = shm_sems s"
  by (auto simp: allocate_def guarded_def sem_lock_def sem_unlock_def fun_upd_idem
      split: option.splits nat.splits shm_result.splits if_splits)

end
