(* ===== verification/Shm_Props.thy ===== *)
theory Shm_Props
  imports Shm_Region
begin

text \<open>
  The allocator of a shared region refuses nothing while it has anything left, and the region ends
  behind its mapping.
\<close>

lemma uint_bound: "unat (d :: u64) < 2 ^ k \<Longrightarrow> uint d < 2 ^ k"
proof -
  assume "unat d < 2 ^ k"
  then have "int (unat d) < int (2 ^ k)" by (simp only: of_nat_less_iff)
  then show ?thesis by simp
qed

lemma sint_minus:
  assumes "unat (d :: u64) < 2 ^ 63"
  shows "sint (- d) = - int (unat d)"
proof -
  have "- d = word_of_int (- uint d)" by simp
  then have "sint (- d) = signed_take_bit 63 (- uint d)"
    by (simp only: sint_sbintrunc') simp
  also have "\<dots> = - uint d"
    using uint_bound [OF assms] uint_ge_0 [of d]
    by (intro signed_take_bit_int_eq_self) linarith+
  finally show ?thesis by simp
qed

lemma sdiv_back: "0 < n \<Longrightarrow> (- int (q * n)) sdiv int n = - int q"
  by (cases "q = 0") (simp_all add: signed_divide_int_def sgn_mult)

lemma ptr_diff_back:
  assumes "unat d = q * unat sz" and "0 < unat sz" and "unat d < 2 ^ 63"
  shows "ptr_diff sz p (p + d) = - int q"
proof -
  have "p - (p + d) = - d" by simp
  then have "ptr_diff sz p (p + d) = (- int (unat d)) sdiv uint sz"
    by (simp only: ptr_diff_def sint_minus [OF assms(3)])
  also have "uint sz = int (unat sz)" by simp
  finally show ?thesis unfolding assms(1) by (simp only: sdiv_back [OF assms(2)])
qed

lemma allocator_grants:
  assumes "rv_end v = rv_begin v + d" and "unat d = q * unat sz" and "0 < unat sz" and "0 < q"
    and "unat d < 2 ^ 63" and "unat n < 2 ^ 63"
  shows "\<not> refuses sz n v"
proof -
  have q: "q < 2 ^ 63" using assms(2,3,5) by (metis mult_le_mono2 mult.right_neutral le_less_trans Suc_leI One_nat_def)
  have "uint (word_of_int (- int q) :: u64) = (- int q) mod 2 ^ 64"
    by (simp only: uint_word_of_int) simp
  also have "\<dots> = 2 ^ 64 - int q"
    using q assms(4) by (simp add: zmod_zminus1_eq_if)
  finally have u: "uint (word_of_int (- int q) :: u64) = 2 ^ 64 - int q" .
  have "uint n < 2 ^ 63" by (rule uint_bound [OF assms(6)])
  moreover have "int q < 2 ^ 63" using q by simp
  ultimately have "\<not> uint (word_of_int (- int q) :: u64) < uint n" unfolding u by simp
  then have "\<not> (word_of_int (- int q) :: u64) < n" unfolding word_less_alt .
  then show ?thesis
    using ptr_diff_back [OF assms(2,3,5), of "rv_begin v"] assms(1) by (simp add: refuses_def)
qed

text \<open>A region that is exactly full refuses every request; one that is overfull by \<open>k\<close> elements grants
  requests of at most \<open>k\<close>.\<close>

lemma full_refuses: "rv_end v = rv_begin v \<Longrightarrow> n \<noteq> 0 \<Longrightarrow> refuses sz n v"
  by (simp add: refuses_def ptr_diff_def signed_divide_int_def word_neq_0_conv)

text \<open>
  What is given back is compared with the end of the region instead of the end of what is handed out:
  a freed block stays where it is, and the next request gets another one.
\<close>

lemma freed_block_not_reused:
  assumes "shm_sems s (rv_semaphore (shm_view s)) = Some (Suc k)" and "allocate sz n s = (Done p, s1)"
    and "p + n * sz \<noteq> rv_end (shm_view s)"
  shows "p = rv_begin (shm_view s) \<and> deallocate sz p n s1 = (Done (), s1) \<and>
    (allocate sz n s1 = (Done q, s2) \<longrightarrow> q = p + n * sz)"
proof -
  have s1: "p = rv_begin (shm_view s)"
    "s1 = s\<lparr>shm_view := (shm_view s)\<lparr>rv_begin := rv_begin (shm_view s) + n * sz\<rparr>\<rparr>"
    using assms(2) unfolding allocate_free [OF assms(1)] by (auto split: if_splits)
  have free: "shm_sems s1 (rv_semaphore (shm_view s1)) = Some (Suc k)" using assms(1) by (simp add: s1)
  have "rv_end (shm_view s1) - n * sz \<noteq> p" using assms(3) by (auto simp: s1(2) algebra_simps)
  then have "deallocate sz p n s1 = (Done (), s1)" by (simp add: deallocate_free [OF free])
  moreover have "q = p + n * sz" if "allocate sz n s1 = (Done q, s2)"
    using that unfolding allocate_free [OF free] by (simp add: s1 split: if_splits)
  ultimately show ?thesis using s1(1) by blast
qed

text \<open>
  C37: A fresh region of \<open>n\<close> bytes that its mapping cannot hold: a request for \<open>m\<close> elements that
  together with the region's own bookkeeping needs more than the \<open>n\<close> mapped bytes is granted
  nevertheless, and the block it returns reaches beyond the end of the mapping.
\<close>

theorem allocator_overruns_mapping:
  assumes "SharedRegion_new (Some a) (Inr ()) n = Inr (r, s)"
    and "unat n = q * unat sz" and "0 < q" and "0 < unat sz" and "unat n < 2 ^ 62"
    and "unat n < unat m * unat sz + 56" and "unat a + 56 + unat m * unat sz < 2 ^ 62"
  shows "\<exists>s'. allocate sz m s = (Done (rv_begin (shm_view s)), s') \<and>
    unat (rv_begin (shm_view s)) = unat a + 56 \<and>
    unat (rv_begin (shm_view s')) = unat a + 56 + unat m * unat sz \<and>
    unat a + unat n < unat (rv_begin (shm_view s'))"
proof -
  let ?v = "region_layout a n"
  have s: "shm_view s = ?v" "shm_sems s = [rv_semaphore ?v \<mapsto> 1]"
    using assms(1) by (auto simp: SharedRegion_new_def Let_def)
  have v: "rv_begin ?v = a + 56" "rv_end ?v = rv_begin ?v + n"
    by (simp_all add: region_layout_def Let_def sizeof_View_def sizeof_sem_def)
  have m: "unat m < 2 ^ 63" using assms(4,7) by (cases "unat sz") auto
  have nr: "\<not> refuses sz m ?v"
    by (rule allocator_grants [OF v(2) assms(2,4,3)]) (use assms(5) m in auto)
  have free: "shm_sems s (rv_semaphore (shm_view s)) = Some (Suc 0)" by (simp add: s)
  let ?s = "s\<lparr>shm_view := ?v\<lparr>rv_begin := rv_begin ?v + m * sz\<rparr>\<rparr>"
  have al: "allocate sz m s = (Done (rv_begin ?v), ?s)"
    using allocate_free [OF free, of sz m] nr by (simp add: s)
  have b: "unat (rv_begin ?v) = unat a + 56"
    using assms(7) unfolding v(1) by (subst unat_add_lem [THEN iffD1]) simp_all
  have ms: "unat (m * sz) = unat m * unat sz"
    using assms(7) by (subst unat_mult_lem [THEN iffD1]) simp_all
  have "unat (rv_begin ?v + m * sz) = unat a + 56 + unat m * unat sz"
    using assms(7) by (subst unat_add_lem [THEN iffD1]) (simp_all add: b ms)
  then show ?thesis using al b assms(6) by (simp add: s)
qed

theorem allocator_overruns_mapping_witness:
  "\<exists>r s s'. SharedRegion_new (Some 4096) (Inr ()) 4096 = Inr (r, s) \<and>
     allocate 8 506 s = (Done (rv_begin (shm_view s)), s') \<and> unat (rv_begin (shm_view s')) = 8200"
proof -
  obtain r s where new: "SharedRegion_new (Some 4096) (Inr ()) 4096 = Inr (r, s)"
    by (auto simp: SharedRegion_new_def Let_def)
  from allocator_overruns_mapping [OF new, of 512 8 506] new show ?thesis by auto
qed

end
