(* ===== verification/Shm_Map.thy ===== *)
theory Shm_Map
  imports Shm_Region
begin

text \<open>
  \<^verbatim>\<open>include/shmem/shmap.hpp\<close>: a map in shared memory whose operations hold a mutex that lives there
  too. Processes take turns at the level of acquiring the mutex, looking up the key, changing the
  map, and releasing the mutex; between any two of these steps any other process may run. The
  \<^verbatim>\<open>std::map\<close> inside is a finite map together with the addresses of its nodes, which come from the
  allocator.
\<close>

section \<open>Operations\<close>

datatype ('k, 'v) map_op = Insert 'k 'v | Erase 'k | Find 'k

datatype 'v map_res = Inserted bool 'v | Erased nat | Found "'v option" | Raised shm_exn

fun op_key :: "('k, 'v) map_op \<Rightarrow> 'k" where
  "op_key (Insert k v) = k"
| "op_key (Erase k) = k"
| "op_key (Find k) = k"

text \<open>Where a process is.\<close>

datatype ('k, 'v) map_pc =
    Outside
  | Inside "('k, 'v) map_op"
  | Looked "('k, 'v) map_op" "'v option"
  | Leaving "'v map_res"

record ('k, 'v) ShMap =
  mp_shm :: shm
  mp_mutex :: u64
  mp_container :: u64
  mp_constructed :: bool
  mp_map :: "'k \<rightharpoonup> 'v"
  mp_nodes :: "'k \<rightharpoonup> u64"
  mp_pc :: "nat \<Rightarrow> ('k, 'v) map_pc"
  mp_hist :: "(('k, 'v) map_op \<times> 'v map_res) list"

section \<open>Construction and destruction\<close>

text \<open>
  \<open>cs\<close> is the size of the container, \<open>constructed\<close> says whether its constructor returns. If it does
  not, the memory is given back and \<^verbatim>\<open>container_\<close> points to it all the same, which makes every use
  of the map undefined behaviour; \<open>mp_constructed\<close> records it. (The constructor of an empty
  \<^verbatim>\<open>std::map\<close> allocates nothing in the implementation that the node sizes are taken from.)
\<close>

definition ShMap_new :: "u64 \<Rightarrow> errno + unit \<Rightarrow> bool \<Rightarrow> shm \<Rightarrow> ('k, 'v) ShMap shm_result \<times> shm" where
  "ShMap_new cs initialised constructed s =
     (case ShMutex_new initialised s of
        (Throws e, s) \<Rightarrow> (Throws e, s)
      | (Blocks, s) \<Rightarrow> (Blocks, s)
      | (Ends_program, s) \<Rightarrow> (Ends_program, s)
      | (Done mutex, s) \<Rightarrow>
          (case allocate cs 1 s of
             (Throws e, s) \<Rightarrow> (Throws e, ShMutex_dtor mutex s)
           | (Blocks, s) \<Rightarrow> (Blocks, s)
           | (Ends_program, s) \<Rightarrow> (Ends_program, s)
           | (Done container, s) \<Rightarrow>
               let s = (if constructed then s else snd (deallocate cs container 1 s))
               in (Done \<lparr>mp_shm = s, mp_mutex = mutex, mp_container = container, mp_constructed = constructed,
                     mp_map = Map.empty, mp_nodes = Map.empty, mp_pc = (\<lambda>_. Outside), mp_hist = []\<rparr>, s)))"

text \<open>The container's destructor, which frees the nodes \<open>nodes\<close> of size \<open>ns\<close>, then the members.\<close>

definition ShMap_dtor :: "u64 \<Rightarrow> u64 \<Rightarrow> u64 list \<Rightarrow> ('k, 'v) ShMap \<Rightarrow> shm" where
  "ShMap_dtor cs ns nodes m =
     (let s = fold (\<lambda>a s. snd (deallocate ns a 1 s)) nodes (mp_shm m);
          s = snd (deallocate cs (mp_container m) 1 s)
      in ShMutex_dtor (mp_mutex m) s)"

section \<open>Steps\<close>

text \<open>
  What a process does to the map when it has looked up the key; \<open>None\<close> if it has to wait for memory (or
  ends the program, which it does not as long as the region's semaphore is there).
\<close>

fun map_act :: "u64 \<Rightarrow> ('k, 'v) map_op \<Rightarrow> 'v option \<Rightarrow> ('k, 'v) ShMap \<Rightarrow> ('v map_res \<times> ('k, 'v) ShMap) option" where
  "map_act ns (Insert k v) (Some w) m = Some (Inserted False w, m)"
| "map_act ns (Insert k v) None m =
     (case allocate ns 1 (mp_shm m) of
        (Done a, s) \<Rightarrow>
          Some (Inserted True v, m\<lparr>mp_shm := s, mp_map := (mp_map m)(k \<mapsto> v), mp_nodes := (mp_nodes m)(k \<mapsto> a)\<rparr>)
      | (Throws e, s) \<Rightarrow> Some (Raised e, m\<lparr>mp_shm := s\<rparr>)
      | (_, s) \<Rightarrow> None)"
| "map_act ns (Erase k) None m = Some (Erased 0, m)"
| "map_act ns (Erase k) (Some w) m =
     (case mp_nodes m k of
        None \<Rightarrow> Some (Erased 1, m\<lparr>mp_map := (mp_map m)(k := None)\<rparr>)
      | Some a \<Rightarrow>
          (case deallocate ns a 1 (mp_shm m) of
             (Done _, s) \<Rightarrow>
               Some (Erased 1, m\<lparr>mp_shm := s, mp_map := (mp_map m)(k := None), mp_nodes := (mp_nodes m)(k := None)\<rparr>)
           | (_, s) \<Rightarrow> None))"
| "map_act ns (Find k) r m = Some (Found r, m)"

text \<open>
  The last rule is whatever others do to the region, its bookkeeping and its other semaphores. A
  wait for the mutex that a signal interrupts throws \<open>MutexException\<close> and changes nothing; it is
  among the steps of that rule, and the operation it was to begin does not take place.
\<close>

inductive map_step :: "u64 \<Rightarrow> ('k, 'v) ShMap \<Rightarrow> ('k, 'v) ShMap \<Rightarrow> bool" for ns where
  enter: "mp_pc m p = Outside \<Longrightarrow> sem_lock False (mp_mutex m) (mp_shm m) = Done s \<Longrightarrow>
    map_step ns m (m\<lparr>mp_shm := s, mp_pc := (mp_pc m)(p := Inside op)\<rparr>)"
| look: "mp_pc m p = Inside op \<Longrightarrow>
    map_step ns m (m\<lparr>mp_pc := (mp_pc m)(p := Looked op (mp_map m (op_key op)))\<rparr>)"
| act: "mp_pc m p = Looked op found \<Longrightarrow> map_act ns op found m = Some (r, m') \<Longrightarrow>
    map_step ns m (m'\<lparr>mp_pc := (mp_pc m)(p := Leaving r), mp_hist := mp_hist m @ [(op, r)]\<rparr>)"
| leave: "mp_pc m p = Leaving r \<Longrightarrow> sem_unlock (mp_mutex m) (mp_shm m) = Done s \<Longrightarrow>
    map_step ns m (m\<lparr>mp_shm := s, mp_pc := (mp_pc m)(p := Outside)\<rparr>)"
| others: "shm_sems s (mp_mutex m) = shm_sems (mp_shm m) (mp_mutex m) \<Longrightarrow>
    map_step ns m (m\<lparr>mp_shm := s\<rparr>)"

inductive map_reach :: "u64 \<Rightarrow> ('k, 'v) ShMap \<Rightarrow> ('k, 'v) ShMap \<Rightarrow> bool" for ns m where
  start: "map_reach ns m m"
| step: "map_reach ns m m' \<Longrightarrow> map_step ns m' m'' \<Longrightarrow> map_reach ns m m''"

section \<open>The sequential map\<close>

text \<open>What an operation with a given result makes of a map; \<open>None\<close> if it cannot have that result.\<close>

fun seq_op :: "('k, 'v) map_op \<Rightarrow> 'v map_res \<Rightarrow> ('k \<rightharpoonup> 'v) \<Rightarrow> ('k \<rightharpoonup> 'v) option" where
  "seq_op (Insert k v) (Inserted fresh w) m =
     (case m k of
        None \<Rightarrow> if fresh \<and> w = v then Some (m(k \<mapsto> v)) else None
      | Some x \<Rightarrow> if \<not> fresh \<and> w = x then Some m else None)"
| "seq_op (Insert k v) (Raised e) m = (if m k = None then Some m else None)"
| "seq_op (Erase k) (Erased n) m = (if n = (if m k = None then 0 else 1) then Some (m(k := None)) else None)"
| "seq_op (Find k) (Found r) m = (if r = m k then Some m else None)"
| "seq_op _ _ m = None"

fun seq_run :: "(('k, 'v) map_op \<times> 'v map_res) list \<Rightarrow> ('k \<rightharpoonup> 'v) \<Rightarrow> ('k \<rightharpoonup> 'v) option" where
  "seq_run [] m = Some m"
| "seq_run ((op, r) # h) m = Option.bind (seq_op op r m) (seq_run h)"

lemma seq_run_append: "seq_run (h @ h') m = Option.bind (seq_run h m) (seq_run h')"
proof (induction h arbitrary: m)
  case (Cons x h)
  then show ?case by (cases x; cases "seq_op (fst x) (snd x) m") simp_all
qed simp

section \<open>The invariant\<close>

lemma allocate_keeps_sems: "allocate sz n s = (r, s') \<Longrightarrow> shm_sems s' = shm_sems s"
  by (auto simp: allocate_def guarded_def sem_lock_def sem_unlock_def fun_upd_idem
      split: option.splits nat.splits if_splits)

lemma deallocate_keeps_sems: "deallocate sz p n s = (r, s') \<Longrightarrow> shm_sems s' = shm_sems s"
  by (auto simp: deallocate_def guarded_def sem_lock_def sem_unlock_def fun_upd_idem
      split: option.splits nat.splits if_splits)

definition mutex_ok :: "('k, 'v) ShMap \<Rightarrow> bool" where
  "mutex_ok m \<longleftrightarrow>
     (if \<forall>p. mp_pc m p = Outside then shm_sems (mp_shm m) (mp_mutex m) = Some 1
      else shm_sems (mp_shm m) (mp_mutex m) = Some 0 \<and>
        (\<exists>p. \<forall>q. mp_pc m q \<noteq> Outside \<longleftrightarrow> q = p))"

definition looked_ok :: "('k, 'v) ShMap \<Rightarrow> bool" where
  "looked_ok m \<longleftrightarrow> (\<forall>p op r. mp_pc m p = Looked op r \<longrightarrow> r = mp_map m (op_key op))"

lemma map_act_spec:
  assumes "map_act ns op found m = Some (r, m')" and "found = mp_map m (op_key op)"
  shows "mp_mutex m' = mp_mutex m \<and> shm_sems (mp_shm m') = shm_sems (mp_shm m) \<and>
    seq_op op r (mp_map m) = Some (mp_map m')"
  using assms
  apply (cases "(ns, op, found, m)" rule: map_act.cases;
      auto split: prod.splits shm_result.splits option.splits)
  subgoal by (drule allocate_keeps_sems) simp
  subgoal by (drule allocate_keeps_sems) simp
  subgoal by (simp add: fun_upd_idem)
  subgoal by (drule deallocate_keeps_sems) simp
  done

text \<open>The mutex is free exactly if no process is between \<open>enter\<close> and \<open>leave\<close>, and then at most one enters.\<close>

definition map_inv :: "('k \<rightharpoonup> 'v) \<Rightarrow> ('k, 'v) ShMap \<Rightarrow> bool" where
  "map_inv m0 m \<longleftrightarrow> mutex_ok m \<and> looked_ok m \<and> seq_run (mp_hist m) m0 = Some (mp_map m)"

lemma mutex_ok_owner: "mutex_ok m \<Longrightarrow> mp_pc m p \<noteq> Outside \<Longrightarrow>
    shm_sems (mp_shm m) (mp_mutex m) = Some 0 \<and> (\<forall>q. mp_pc m q \<noteq> Outside \<longleftrightarrow> q = p)"
  by (auto simp: mutex_ok_def split: if_splits)

lemma mutex_ok_free: "\<forall>q. mp_pc m q = Outside \<Longrightarrow> shm_sems (mp_shm m) (mp_mutex m) = Some 1 \<Longrightarrow> mutex_ok m"
  by (simp add: mutex_ok_def)

lemma mutex_ok_owned: "\<forall>q. mp_pc m q \<noteq> Outside \<longleftrightarrow> q = p \<Longrightarrow>
    shm_sems (mp_shm m) (mp_mutex m) = Some 0 \<Longrightarrow> mutex_ok m"
proof -
  assume a: "\<forall>q. mp_pc m q \<noteq> Outside \<longleftrightarrow> q = p" and s: "shm_sems (mp_shm m) (mp_mutex m) = Some 0"
  have "\<not> (\<forall>p. mp_pc m p = Outside)" using a by blast
  moreover have "\<exists>p. \<forall>q. mp_pc m q \<noteq> Outside \<longleftrightarrow> q = p" using a by (rule exI)
  ultimately show ?thesis using s by (simp only: mutex_ok_def if_False)
qed

lemma mutex_ok_move:
  assumes "mutex_ok m" and "mp_pc m p \<noteq> Outside" and "x \<noteq> Outside"
    and "mp_mutex m' = mp_mutex m" and "shm_sems (mp_shm m') = shm_sems (mp_shm m)" and "mp_pc m' = (mp_pc m)(p := x)"
  shows "mutex_ok m'"
proof -
  note o = mutex_ok_owner [OF assms(1,2)]
  then have "\<forall>q. mp_pc m' q \<noteq> Outside \<longleftrightarrow> q = p" using assms(3,6) by simp
  then show ?thesis by (rule mutex_ok_owned) (use o assms(4,5) in simp)
qed

lemma map_step_inv:
  assumes "map_step ns m m'" and "map_inv m0 m"
  shows "map_inv m0 m'"
  using assms
proof cases
  case (enter p s op)
  from enter(3) obtain k where k: "shm_sems (mp_shm m) (mp_mutex m) = Some (Suc k)"
    "s = (mp_shm m)\<lparr>shm_sems := (shm_sems (mp_shm m))(mp_mutex m \<mapsto> k)\<rparr>"
    by (auto simp: sem_lock_def split: option.splits nat.splits)
  have ok: "mutex_ok m" using assms(2) by (simp add: map_inv_def)
  have out: "mp_pc m q = Outside" for q
    using mutex_ok_owner [OF ok, of q] k(1) by auto
  then have k0: "k = 0" using ok k(1) by (simp add: mutex_ok_def)
  have "mutex_ok m'" by (rule mutex_ok_owned [of _ p]) (use out k(2) k0 enter(1) in simp_all)
  moreover have "looked_ok m'" by (simp add: enter(1) looked_ok_def out)
  ultimately show ?thesis using assms(2) by (simp add: map_inv_def enter(1))
next
  case (look p op)
  have ok: "mutex_ok m" using assms(2) by (simp add: map_inv_def)
  have "mutex_ok m'"
    by (rule mutex_ok_move [OF ok, of p "Looked op (mp_map m (op_key op))"]) (simp_all add: look)
  moreover have "looked_ok m'" using assms(2) unfolding look(1) by (auto simp: map_inv_def looked_ok_def)
  ultimately show ?thesis using assms(2) by (simp add: map_inv_def look(1))
next
  case (act p op found r m1)
  have "found = mp_map m (op_key op)" using assms(2) act(2) by (auto simp: map_inv_def looked_ok_def)
  note sp = map_act_spec [OF act(3) this]
  have own: "\<forall>q. mp_pc m q \<noteq> Outside \<longleftrightarrow> q = p"
    using mutex_ok_owner [of m p] assms(2) act(2) by (simp add: map_inv_def)
  have ok: "mutex_ok m" using assms(2) by (simp add: map_inv_def)
  have "mutex_ok m'"
    by (rule mutex_ok_move [OF ok, of p "Leaving r"]) (simp_all add: act(1,2) sp)
  moreover have "looked_ok m'"
    unfolding looked_ok_def
  proof (intro allI impI)
    fix q op' x assume "mp_pc m' q = Looked op' x"
    then have "q \<noteq> p" "mp_pc m q \<noteq> Outside" by (auto simp: act(1) split: if_splits)
    with own show "x = mp_map m' (op_key op')" by blast
  qed
  moreover have "seq_run (mp_hist m @ [(op, r)]) m0 = Some (mp_map m1)"
    using assms(2) sp by (simp add: map_inv_def seq_run_append)
  ultimately show ?thesis by (simp add: map_inv_def act(1))
next
  case (leave p r s)
  note o = mutex_ok_owner [of m p]
  have s: "s = (mp_shm m)\<lparr>shm_sems := (shm_sems (mp_shm m))(mp_mutex m \<mapsto> 1)\<rparr>"
    using leave(2,3) assms(2) o by (simp add: map_inv_def sem_unlock_def)
  have "\<forall>q. mp_pc m q \<noteq> Outside \<longleftrightarrow> q = p" using leave(2) assms(2) o by (simp add: map_inv_def)
  then have out: "\<forall>q. mp_pc m' q = Outside" by (auto simp: leave(1))
  then have "mutex_ok m'" by (rule mutex_ok_free) (simp add: leave(1) s)
  moreover have "looked_ok m'" using out by (simp add: looked_ok_def)
  ultimately show ?thesis using assms(2) by (simp add: map_inv_def leave(1))
next
  case (others s)
  show ?thesis using assms(2) unfolding others(1) by (simp add: map_inv_def mutex_ok_def looked_ok_def others(2))
qed

lemma map_reach_inv: "map_reach ns m m' \<Longrightarrow> map_inv m0 m \<Longrightarrow> map_inv m0 m'"
  by (induction rule: map_reach.induct) (auto intro: map_step_inv)

lemma ShMap_new_inv:
  assumes "ShMap_new cs initialised constructed s = (Done m, s')"
  shows "map_inv Map.empty m"
proof -
  obtain sem s1 where n: "ShMutex_new initialised s = (Done sem, s1)"
    using assms by (auto simp: ShMap_new_def split: prod.splits shm_result.splits)
  then have sem: "shm_sems s1 sem = Some 1"
    by (auto simp: ShMutex_new_def Let_def split: prod.splits shm_result.splits sum.splits)
  obtain a s2 where a: "allocate cs 1 s1 = (Done a, s2)"
    using assms n by (auto simp: ShMap_new_def split: prod.splits shm_result.splits)
  note s2 = allocate_keeps_sems [OF a]
  obtain q s3 where d: "deallocate cs a 1 s2 = (q, s3)" by fastforce
  note s3 = deallocate_keeps_sems [OF d]
  show ?thesis
    using assms n a d s2 s3 sem
    by (auto simp: ShMap_new_def Let_def map_inv_def mutex_ok_def looked_ok_def split: if_splits)
qed

text \<open>
  C28: Under every interleaving of any number of processes, and of other users of the region, the
  operations of a map in shared memory behave as if each were executed alone, in the order in which
  they held the mutex: running the operations done so far on the empty map, one after the other, gives
  the same results and the present contents; and at most one process is inside an operation.
\<close>

theorem shared_map_refines_sequential:
  assumes "ShMap_new cs initialised constructed s = (Done m, s')" and "map_reach ns m m'"
  shows "seq_run (mp_hist m') Map.empty = Some (mp_map m') \<and>
    (mp_pc m' p \<noteq> Outside \<and> mp_pc m' q \<noteq> Outside \<longrightarrow> p = q)"
proof -
  have inv: "map_inv Map.empty m'" by (rule map_reach_inv [OF assms(2) ShMap_new_inv [OF assms(1)]])
  then have "mp_pc m' p \<noteq> Outside \<and> mp_pc m' q \<noteq> Outside \<Longrightarrow> p = q"
    using mutex_ok_owner [of m' p] by (auto simp: map_inv_def)
  then show ?thesis using inv by (auto simp: map_inv_def)
qed

section \<open>An instance\<close>

definition demo_shm :: shm where
  "demo_shm = \<lparr>shm_view = \<lparr>rv_begin = 4152, rv_end = 8248, rv_semaphore = 4120\<rparr>, shm_sems = [4120 \<mapsto> 1]\<rparr>"

lemma demo_map: "\<exists>m s'. ShMap_new 48 (Inr ()) True demo_shm = (Done (m :: ('k, 'v) ShMap), s') \<and>
    shm_sems (mp_shm m) (mp_mutex m) = Some 1 \<and> mp_pc m = (\<lambda>_. Outside) \<and> mp_map m = Map.empty \<and> mp_hist m = [] \<and>
    shm_sems (mp_shm m) (rv_semaphore (shm_view (mp_shm m))) = Some 1"
proof -
  have a1: "allocate sizeof_sem 1 demo_shm = (Done 4152, demo_shm\<lparr>shm_view := (shm_view demo_shm)\<lparr>rv_begin := 4184\<rparr>\<rparr>)"
    by (subst allocate_free [of _ 0])
      (simp_all add: demo_shm_def refuses_def ptr_diff_def sizeof_sem_def signed_divide_int_def)
  let ?s = "demo_shm\<lparr>shm_view := (shm_view demo_shm)\<lparr>rv_begin := 4184\<rparr>,
    shm_sems := (shm_sems demo_shm)(4152 \<mapsto> 1)\<rparr>"
  have "\<exists>t. allocate 48 1 ?s = (Done 4184, t) \<and> rv_semaphore (shm_view t) = 4120"
    by (subst allocate_free [of _ 0])
      (simp_all add: demo_shm_def refuses_def ptr_diff_def signed_divide_int_def)
  then obtain t where t: "allocate 48 1 ?s = (Done 4184, t)" "rv_semaphore (shm_view t) = 4120" by blast
  then have "shm_sems t 4152 = Some 1" "shm_sems t 4120 = Some 1"
    using allocate_keeps_sems [OF t(1)] by (simp_all add: demo_shm_def)
  with t show ?thesis by (simp add: ShMap_new_def ShMutex_new_def a1 Let_def)
qed

theorem shared_map_refines_sequential_witness:
  "\<exists>m s' m'. ShMap_new 48 (Inr ()) True demo_shm = (Done (m :: (nat, nat) ShMap), s') \<and> map_reach 48 m m' \<and>
     mp_hist m' = [(Find 3, Found None)] \<and> seq_run (mp_hist m') Map.empty = Some (mp_map m')"
proof -
  let ?op = "Find 3 :: (nat, nat) map_op"
  obtain m s' where new: "ShMap_new 48 (Inr ()) True demo_shm = (Done (m :: (nat, nat) ShMap), s')"
    and m: "shm_sems (mp_shm m) (mp_mutex m) = Some 1" "mp_pc m = (\<lambda>_. Outside)" "mp_map m = Map.empty" "mp_hist m = []"
    using demo_map [where 'k = nat and 'v = nat] by blast
  define s1 where "s1 = (mp_shm m)\<lparr>shm_sems := (shm_sems (mp_shm m))(mp_mutex m \<mapsto> 0)\<rparr>"
  define m1 where "m1 = m\<lparr>mp_shm := s1, mp_pc := (mp_pc m)(0 := Inside ?op)\<rparr>"
  define m2 where "m2 = m1\<lparr>mp_pc := (mp_pc m1)(0 := Looked ?op (mp_map m1 (op_key ?op)))\<rparr>"
  define m3 where "m3 = m2\<lparr>mp_pc := (mp_pc m2)(0 := Leaving (Found None)), mp_hist := mp_hist m2 @ [(?op, Found None)]\<rparr>"
  have "map_step 48 m m1"
    unfolding m1_def by (rule map_step.enter) (simp_all add: m s1_def sem_lock_def)
  moreover have "map_step 48 m1 m2" unfolding m2_def by (rule map_step.look) (simp add: m1_def)
  moreover have "map_step 48 m2 m3"
    unfolding m3_def by (rule map_step.act [where found = None]) (simp_all add: m2_def m1_def m)
  ultimately have reach: "map_reach 48 m m3" by (blast intro: map_reach.intros)
  have "mp_hist m3 = [(?op, Found None)]" by (simp add: m3_def m2_def m1_def m)
  with new reach shared_map_refines_sequential [OF new reach] show ?thesis by blast
qed

end
