(* ===== verification/Owners.thy ===== *)
theory Owners
  imports Tcp_Connection Async_Connection Shm_Region "HOL-Library.Multiset"
begin

text \<open>
  The classes that own a descriptor or a semaphore: \<^verbatim>\<open>Epoller\<close>, \<^verbatim>\<open>Connection\<close>, \<^verbatim>\<open>Server\<close>,
  \<^verbatim>\<open>AsyncConnection\<close> and \<^verbatim>\<open>ShMutex\<close> can be moved but not copied, and assign by moving into a temporary
  that is swapped with the target and destroyed. The interface \<open>move_only\<close> states what that idiom
  promises, its extension \<open>owner\<close> what constructors and the kernel add to it; here they are shown for
  these classes, and what they mean for any program that constructs, moves, assigns and destroys.
\<close>

section \<open>The poller as an object\<close>

text \<open>
  \<^verbatim>\<open>epoll_fd_\<close> and the length of the buffer \<^verbatim>\<open>events_\<close>; the interest set lives in the kernel. The
  destructor closes whatever it holds, \<open>-1\<close> included.
\<close>

record Epoller =
  epo_fd :: int
  epo_events :: nat

text \<open>\<open>created\<close> says whether \<^verbatim>\<open>epoll_create1\<close> succeeds; it takes a free descriptor like every other call.\<close>

definition Epoller_ctor :: "bool \<Rightarrow> nat \<Rightarrow> tcp_os \<Rightarrow> (tcp_exn + Epoller) \<times> tcp_os" where
  "Epoller_ctor created events_size s =
     (if created then
        let fd = fresh_fd (to_open s)
        in (Inr \<lparr>epo_fd = fd, epo_events = events_size\<rparr>, s\<lparr>to_open := fd # to_open s\<rparr>)
      else (Inl (Exception ''unable to create epoll''), s))"

definition Epoller_move :: "Epoller \<Rightarrow> Epoller \<times> Epoller" where
  "Epoller_move other = (other, \<lparr>epo_fd = -1, epo_events = 0\<rparr>)"

definition Epoller_swap :: "Epoller \<Rightarrow> Epoller \<Rightarrow> Epoller \<times> Epoller" where
  "Epoller_swap this other =
     (this\<lparr>epo_fd := epo_fd other, epo_events := epo_events other\<rparr>,
      other\<lparr>epo_fd := epo_fd this, epo_events := epo_events this\<rparr>)"

definition Epoller_dtor :: "Epoller \<Rightarrow> tcp_os \<Rightarrow> tcp_os" where
  "Epoller_dtor e s = snd (os_close (epo_fd e) s)"

definition Epoller_assign :: "Epoller \<Rightarrow> Epoller \<Rightarrow> tcp_os \<Rightarrow> Epoller \<times> Epoller \<times> tcp_os" where
  "Epoller_assign this other s =
     (case Epoller_move other of
        (tmp, other) \<Rightarrow> (case Epoller_swap this tmp of (this, tmp) \<Rightarrow> (this, other, Epoller_dtor tmp s)))"

section \<open>Lists of addresses\<close>

text \<open>
  \<^verbatim>\<open>SmartPtr\<close> of \<^verbatim>\<open>include/tcp/utils.hpp\<close>, a \<^verbatim>\<open>unique_ptr\<close> with its deleter: an address or null. The
  state is the list of what \<^verbatim>\<open>freeaddrinfo\<close> has been called with.
\<close>

type_synonym 'p smart_ptr = "'p option"

definition SmartPtr_null :: "'p smart_ptr" where
  "SmartPtr_null = None"

definition SmartPtr_of :: "'p option \<Rightarrow> 'p smart_ptr" where
  "SmartPtr_of v = v"

definition smart_free :: "'p \<Rightarrow> 'p list \<Rightarrow> 'p list" where
  "smart_free v freed = freed @ [v]"

definition SmartPtr_dtor :: "'p smart_ptr \<Rightarrow> 'p list \<Rightarrow> 'p list" where
  "SmartPtr_dtor p freed = (case p of None \<Rightarrow> freed | Some v \<Rightarrow> smart_free v freed)"

definition SmartPtr_reset :: "'p option \<Rightarrow> 'p smart_ptr \<Rightarrow> 'p list \<Rightarrow> 'p smart_ptr \<times> 'p list" where
  "SmartPtr_reset v p freed = (SmartPtr_of v, SmartPtr_dtor p freed)"

definition SmartPtr_get :: "'p smart_ptr \<Rightarrow> 'p option" where
  "SmartPtr_get p = p"

definition SmartPtr_move :: "'p smart_ptr \<Rightarrow> 'p smart_ptr \<times> 'p smart_ptr" where
  "SmartPtr_move other = (other, SmartPtr_null)"

definition SmartPtr_assign :: "'p smart_ptr \<Rightarrow> 'p smart_ptr \<Rightarrow> 'p list \<Rightarrow> 'p smart_ptr \<times> 'p smart_ptr \<times> 'p list" where
  "SmartPtr_assign this other freed =
     (case SmartPtr_move other of
        (tmp, other) \<Rightarrow> (case SmartPtr_reset tmp this freed of (this, freed) \<Rightarrow> (this, other, freed)))"

section \<open>Programs over owners\<close>

text \<open>
  The objects of one class that a program has, by position: a new one is constructed by moving from
  another, one is assigned from another, one is destroyed. (Assigned from itself an object comes out
  as it was: the temporary takes what it held and gives it back.)
\<close>

datatype owner_op = MoveNew nat | Assign nat nat | Destroy nat

fun own_step ::
    "('o \<Rightarrow> 'o \<times> 'o) \<Rightarrow> ('o \<Rightarrow> 'o \<Rightarrow> 's \<Rightarrow> 'o \<times> 'o \<times> 's) \<Rightarrow> ('o \<Rightarrow> 's \<Rightarrow> 's) \<Rightarrow>
     owner_op \<Rightarrow> 'o list \<times> 's \<Rightarrow> 'o list \<times> 's" where
  "own_step move assign destroy (MoveNew i) (os, s) =
     (if i < length os then (case move (os ! i) of (a, b) \<Rightarrow> (os[i := b] @ [a], s)) else (os, s))"
| "own_step move assign destroy (Assign i j) (os, s) =
     (if i < length os \<and> j < length os \<and> i \<noteq> j then
        (case assign (os ! i) (os ! j) s of (a, b, s) \<Rightarrow> (os[i := a, j := b], s))
      else (os, s))"
| "own_step move assign destroy (Destroy i) (os, s) =
     (if i < length os then (take i os @ drop (Suc i) os, destroy (os ! i) s) else (os, s))"

text \<open>Whatever is left at the end of the program is destroyed.\<close>

fun own_run ::
    "('o \<Rightarrow> 'o \<times> 'o) \<Rightarrow> ('o \<Rightarrow> 'o \<Rightarrow> 's \<Rightarrow> 'o \<times> 'o \<times> 's) \<Rightarrow> ('o \<Rightarrow> 's \<Rightarrow> 's) \<Rightarrow>
     owner_op list \<Rightarrow> 'o list \<times> 's \<Rightarrow> 's" where
  "own_run move assign destroy [] (os, s) = fold destroy os s"
| "own_run move assign destroy (op # ops) x = own_run move assign destroy ops (own_step move assign destroy op x)"

text \<open>With constructions: \<open>create\<close> is given what the constructor meets, and fails or makes one more object.\<close>

datatype 'e life_op = Create 'e | Use owner_op

fun life_step ::
    "('e \<Rightarrow> 's \<Rightarrow> 'o option \<times> 's) \<Rightarrow> ('o \<Rightarrow> 'o \<times> 'o) \<Rightarrow> ('o \<Rightarrow> 'o \<Rightarrow> 's \<Rightarrow> 'o \<times> 'o \<times> 's) \<Rightarrow>
     ('o \<Rightarrow> 's \<Rightarrow> 's) \<Rightarrow> 'e life_op \<Rightarrow> 'o list \<times> 's \<Rightarrow> 'o list \<times> 's" where
  "life_step create move assign destroy (Create e) (os, s) =
     (case create e s of (None, s) \<Rightarrow> (os, s) | (Some x, s) \<Rightarrow> (os @ [x], s))"
| "life_step create move assign destroy (Use op) x = own_step move assign destroy op x"

definition life ::
    "('e \<Rightarrow> 's \<Rightarrow> 'o option \<times> 's) \<Rightarrow> ('o \<Rightarrow> 'o \<times> 'o) \<Rightarrow> ('o \<Rightarrow> 'o \<Rightarrow> 's \<Rightarrow> 'o \<times> 'o \<times> 's) \<Rightarrow>
     ('o \<Rightarrow> 's \<Rightarrow> 's) \<Rightarrow> 'e life_op list \<Rightarrow> 'o list \<times> 's \<Rightarrow> 'o list \<times> 's" where
  "life create move assign destroy ops x = fold (life_step create move assign destroy) ops x"

definition owned :: "('o \<Rightarrow> 'r option) \<Rightarrow> 'o list \<Rightarrow> 'r multiset" where
  "owned held os = (\<Sum>x\<leftarrow>os. case held x of None \<Rightarrow> {#} | Some r \<Rightarrow> {#r#})"

lemma owned_simps [simp]:
  "owned held [] = {#}"
  "owned held (x # os) = (case held x of None \<Rightarrow> {#} | Some r \<Rightarrow> {#r#}) + owned held os"
  "owned held (os @ os') = owned held os + owned held os'"
  by (simp_all add: owned_def)

lemma owned_update:
  "i < length os \<Longrightarrow> owned held (os[i := x]) + owned held [os ! i] = owned held os + owned held [x]"
  by (induction os arbitrary: i) (auto simp: less_Suc_eq_0_disj ac_simps)

lemma owned_without:
  "i < length os \<Longrightarrow> owned held os = owned held [os ! i] + owned held (take i os @ drop (Suc i) os)"
  by (induction os arbitrary: i) (auto simp: less_Suc_eq_0_disj ac_simps)

text \<open>A state reached from \<open>s\<close> by releasing exactly \<open>R\<close>, one after the other.\<close>

definition released :: "('r \<Rightarrow> 's \<Rightarrow> 's) \<Rightarrow> 'r multiset \<Rightarrow> 's \<Rightarrow> 's \<Rightarrow> bool" where
  "released release R s s' \<longleftrightarrow> (\<exists>rs. mset rs = R \<and> s' = fold release rs s)"

lemma releasedI: "s' = fold release rs s \<Longrightarrow> R = mset rs \<Longrightarrow> released release R s s'"
  by (auto simp: released_def)

lemma released_trans:
  assumes "released release R s s'" and "released release R' s' s''"
  shows "released release (R + R') s s''"
proof -
  obtain rs rs' where "mset rs = R" "s' = fold release rs s" "mset rs' = R'" "s'' = fold release rs' s'"
    using assms by (auto simp: released_def)
  then show ?thesis by (intro releasedI [where rs = "rs @ rs'"]) simp_all
qed

section \<open>The interface\<close>

locale move_only =
  fixes held :: "'o \<Rightarrow> 'r option"
    and move :: "'o \<Rightarrow> 'o \<times> 'o"
    and assign :: "'o \<Rightarrow> 'o \<Rightarrow> 's \<Rightarrow> 'o \<times> 'o \<times> 's"
    and destroy :: "'o \<Rightarrow> 's \<Rightarrow> 's"
    and release :: "'r \<Rightarrow> 's \<Rightarrow> 's"
    and ok :: "'s \<Rightarrow> bool"
  assumes move_held: "move x = (a, b) \<Longrightarrow> held a = held x \<and> held b = None"
    and assign_held: "assign x y s = (a, b, s') \<Longrightarrow> held a = held y \<and> held b = None"
    and assign_destroys: "assign x y s = (a, b, s') \<Longrightarrow> s' = destroy x s"
    and destroy_releases: "ok s \<Longrightarrow> destroy x s = (case held x of None \<Rightarrow> s | Some r \<Rightarrow> release r s)"
    and release_ok: "ok s \<Longrightarrow> ok (release r s)"
begin

lemma released_ok:
  assumes "released release R s s'" and "ok s"
  shows "ok s'"
proof -
  have "ok (fold release rs s)" for rs
    using assms(2) by (induction rs arbitrary: s) (simp_all add: release_ok)
  then show ?thesis using assms(1) by (auto simp: released_def)
qed

lemma destroy_released: "ok s \<Longrightarrow> released release (owned held [x]) s (destroy x s)"
  by (cases "held x") (auto simp: destroy_releases intro: releasedI [where rs = "[]"] releasedI [where rs = "[_]"])

lemma destroy_all_released: "ok s \<Longrightarrow> released release (owned held os) s (fold destroy os s)"
proof (induction os arbitrary: s)
  case Nil
  show ?case by (rule releasedI [where rs = "[]"]) simp_all
next
  case (Cons x os)
  note d = destroy_released [OF Cons.prems, of x]
  from released_trans [OF d Cons.IH [OF released_ok [OF d Cons.prems]]] show ?case by simp
qed

text \<open>One step: what it releases is no longer owned by any object.\<close>

lemma own_step_released:
  assumes "ok s" and "own_step move assign destroy op (os, s) = (os', s')"
  shows "\<exists>R. released release R s s' \<and> owned held os = R + owned held os'"
proof -
  have none: "released release {#} s s" by (rule releasedI [where rs = "[]"]) simp_all
  show ?thesis
  proof (cases op)
    case (MoveNew i)
    obtain a b where m: "move (os ! i) = (a, b)" by fastforce
    show ?thesis
      using assms(2) none owned_update [of i os held b] move_held [OF m]
      by (auto simp: MoveNew m split: if_splits intro!: exI [of _ "{#}"])
  next
    case (Assign i j)
    show ?thesis
    proof (cases "i < length os \<and> j < length os \<and> i \<noteq> j")
      case True
      obtain a b t where a: "assign (os ! i) (os ! j) s = (a, b, t)" by (metis prod_cases3)
      have t: "os' = os[i := a, j := b]" "s' = destroy (os ! i) s"
        using assms(2) True a assign_destroys [OF a] by (simp_all add: Assign)
      have "owned held (os[i := a, j := b]) + owned held [os ! j] = owned held (os[i := a])"
        using owned_update [of j "os[i := a]" held b] True assign_held [OF a] by simp
      moreover have "owned held (os[i := a]) + owned held [os ! i] = owned held os + owned held [os ! j]"
        using owned_update [of i os held a] True assign_held [OF a] by simp
      ultimately have "owned held os + owned held [os ! j] =
          (owned held [os ! i] + owned held os') + owned held [os ! j]"
        unfolding t by (simp only: ac_simps)
      then have "owned held os = owned held [os ! i] + owned held os'" by (rule add_right_imp_eq)
      then show ?thesis using destroy_released [OF assms(1)] unfolding t by blast
    next
      case False
      then show ?thesis using assms(2) none by (auto simp: Assign intro!: exI [of _ "{#}"])
    qed
  next
    case (Destroy i)
    show ?thesis
      using assms(2) none destroy_released [OF assms(1)] owned_without [of i os held]
      by (auto simp: Destroy split: if_splits intro!: exI [of _ "owned held [os ! i]"])
  qed
qed

text \<open>Every program releases what its objects held at the beginning, each once, and nothing else.\<close>

lemma own_run_released: "ok s \<Longrightarrow> released release (owned held os) s (own_run move assign destroy ops (os, s))"
proof (induction ops arbitrary: os s)
  case Nil
  then show ?case by (simp add: destroy_all_released)
next
  case (Cons op ops)
  obtain os' s' where step: "own_step move assign destroy op (os, s) = (os', s')" by fastforce
  obtain R where R: "released release R s s'" "owned held os = R + owned held os'"
    using own_step_released [OF Cons.prems step] by blast
  from released_trans [OF R(1) Cons.IH [OF released_ok [OF R(1) Cons.prems]]] R(2)
  show ?case by (simp add: step)
qed

end

text \<open>
  What the kernel keeps, \<open>res\<close>, in which a constructor that succeeds adds one resource, and from
  which a release takes a resource that is there and can still be released (\<open>live\<close>).
\<close>

locale owner = move_only +
  fixes create :: "'e \<Rightarrow> 'b \<Rightarrow> 'a option \<times> 'b"
    and res :: "'b \<Rightarrow> 'c multiset"
    and live :: "'b \<Rightarrow> 'c \<Rightarrow> bool"
  assumes create_Some: "ok s \<Longrightarrow> create e s = (Some x, s') \<Longrightarrow>
      ok s' \<and> (\<exists>r. held x = Some r \<and> live s' r \<and> res s' = res s + {#r#})"
    and create_None: "ok s \<Longrightarrow> create e s = (None, s') \<Longrightarrow> ok s' \<and> res s' = res s"
    and create_live: "ok s \<Longrightarrow> create e s = (y, s') \<Longrightarrow> q \<in># res s \<Longrightarrow> live s q \<Longrightarrow> live s' q"
    and release_res: "ok s \<Longrightarrow> live s r \<Longrightarrow> r \<in># res s \<Longrightarrow> res (release r s) = res s - {#r#}"
    and release_live: "live s q \<Longrightarrow> live (release r s) q"
begin

lemma released_res:
  assumes "released release R s s'" and "ok s" and "R \<subseteq># res s" and "\<forall>r\<in>#R. live s r"
  shows "res s' = res s - R \<and> (\<forall>q. live s q \<longrightarrow> live s' q)"
proof -
  have "res (fold release rs s) = res s - mset rs \<and> (\<forall>q. live s q \<longrightarrow> live (fold release rs s) q)"
    if "mset rs \<subseteq># res s" "\<forall>r\<in>set rs. live s r" for rs
    using assms(2) that
  proof (induction rs arbitrary: s)
    case (Cons r rs)
    have r: "r \<in># res s" "live s r" using Cons.prems by (auto dest: mset_subset_eqD)
    note one = release_res [OF Cons.prems(1) r(2,1)]
    have "mset rs \<subseteq># res (release r s)"
      unfolding one using Cons.prems(2) by (simp add: insert_subset_eq_iff)
    then have "res (fold release rs (release r s)) = res (release r s) - mset rs \<and>
        (\<forall>q. live (release r s) q \<longrightarrow> live (fold release rs (release r s)) q)"
      by (intro Cons.IH) (use Cons.prems release_ok release_live in auto)
    with one release_live show ?case by simp
  qed simp
  with assms show ?thesis by (auto simp: released_def)
qed

text \<open>The account: what the kernel keeps is what was there before and what the objects hold.\<close>

definition balanced :: "'c multiset \<Rightarrow> 'a list \<times> 'b \<Rightarrow> bool" where
  "balanced F x \<longleftrightarrow>
     ok (snd x) \<and> res (snd x) = F + owned held (fst x) \<and> (\<forall>r\<in>#owned held (fst x). live (snd x) r)"

lemma life_step_balanced:
  assumes "balanced F x"
  shows "balanced F (life_step create move assign destroy op x)"
proof -
  obtain os s where x: "x = (os, s)" by fastforce
  have b: "ok s" "res s = F + owned held os" "\<forall>r\<in>#owned held os. live s r"
    using assms by (simp_all add: balanced_def x)
  show ?thesis
  proof (cases op)
    case (Create e)
    obtain y s' where y: "create e s = (y, s')" by fastforce
    have kept: "\<forall>r\<in>#owned held os. live s' r" using create_live [OF b(1) y] b(2,3) by auto
    show ?thesis
    proof (cases y)
      case None
      with create_None [OF b(1)] y b(2) kept show ?thesis by (simp add: Create x balanced_def)
    next
      case (Some z)
      with create_Some [OF b(1)] y obtain r where "ok s'" "held z = Some r" "live s' r" "res s' = res s + {#r#}"
        by blast
      with b(2) kept Some y show ?thesis by (simp add: Create x balanced_def)
    qed
  next
    case (Use op')
    obtain os' s' where step: "own_step move assign destroy op' (os, s) = (os', s')" by fastforce
    obtain R where R: "released release R s s'" "owned held os = R + owned held os'"
      using own_step_released [OF b(1) step] by blast
    have "R \<subseteq># res s" "\<forall>r\<in>#R. live s r" using b(2,3) R(2) by (auto simp: ac_simps)
    note rr = released_res [OF R(1) b(1) this]
    have "ok s'" by (rule released_ok [OF R(1) b(1)])
    with rr R(2) b(2,3) show ?thesis by (simp add: Use x step balanced_def ac_simps)
  qed
qed

lemma life_balanced:
  assumes "ok s"
  shows "balanced (res s) (life create move assign destroy ops ([], s))"
proof -
  have "balanced F x \<Longrightarrow> balanced F (fold (life_step create move assign destroy) ops x)" for F x
    by (induction ops arbitrary: x) (simp_all add: life_step_balanced)
  then show ?thesis using assms by (simp add: life_def balanced_def)
qed

text \<open>And when the objects that are left are destroyed, only what was there before is left.\<close>

lemma balanced_destroyed:
  assumes "balanced F (os, s)"
  shows "res (fold destroy os s) = F"
proof -
  have b: "ok s" "res s = F + owned held os" "\<forall>r\<in>#owned held os. live s r"
    using assms by (simp_all add: balanced_def)
  from released_res [OF destroy_all_released [OF b(1)] b(1), of os] b(2,3) show ?thesis by simp
qed

end

section \<open>The classes\<close>

definition fd_held :: "int \<Rightarrow> int option" where
  "fd_held fd = (if fd = FD_CLOSED then None else Some fd)"

abbreviation close_fd :: "int \<Rightarrow> tcp_os \<Rightarrow> tcp_os" where
  "close_fd fd s \<equiv> snd (os_close fd s)"

text \<open>\<^verbatim>\<open>shutdown\<close> and \<^verbatim>\<open>close\<close>; if the first fails there is no second.\<close>

definition close_socket :: "int \<Rightarrow> tcp_os \<Rightarrow> tcp_os" where
  "close_socket fd s = (case os_shutdown fd s of (Inl _, s) \<Rightarrow> s | (Inr _, s) \<Rightarrow> close_fd fd s)"

definition fds_ok :: "tcp_os \<Rightarrow> bool" where
  "fds_ok s \<longleftrightarrow> FD_CLOSED \<notin> set (to_open s) \<and> distinct (to_open s)"

lemma close_fd_open: "to_open (close_fd fd s) = removeAll fd (to_open s)"
  by (simp add: os_close_def)

lemma close_socket_open:
  "to_open (close_socket fd s) = (if to_connected s fd then removeAll fd (to_open s) else to_open s)"
  by (auto simp: close_socket_def os_shutdown_def os_close_def)

lemma close_socket_connected [simp]: "to_connected (close_socket fd s) = to_connected s"
  by (auto simp: close_socket_def os_shutdown_def os_close_def)

lemma fds_ok_close: "fds_ok s \<Longrightarrow> fds_ok (close_fd fd s)"
  by (simp add: fds_ok_def close_fd_open distinct_removeAll)

lemma fds_ok_close_socket: "fds_ok s \<Longrightarrow> fds_ok (close_socket fd s)"
  by (simp add: fds_ok_def close_socket_open distinct_removeAll)

lemma Connection_dtor_close: "Connection_dtor (c, s) = (case fd_held (con_fd c) of None \<Rightarrow> s | Some fd \<Rightarrow> close_socket fd s)"
  by (auto simp: Connection_dtor_def Connection_close_def fd_held_def close_socket_def os_close_def os_shutdown_def)

lemma ac_dtor_close:
  "fds_ok s \<Longrightarrow> ac_dtor (c, s) = (case fd_held (ac_fd c) of None \<Rightarrow> s | Some fd \<Rightarrow> close_socket fd s)"
  by (auto simp: ac_dtor_def ac_close_def fd_held_def close_socket_def os_close_def os_shutdown_def fds_ok_def)

lemma ac_dtor_id [simp]: "ac_dtor (c\<lparr>ac_id := n\<rparr>, s) = ac_dtor (c, s)"
  by (auto simp: ac_dtor_def ac_close_def split: sum.splits prod.splits)

lemma Server_dtor_close: "Server_dtor (v, s) = (case fd_held (srv_fd v) of None \<Rightarrow> s | Some fd \<Rightarrow> close_fd fd s)"
  by (auto simp: Server_dtor_def Server_close_def Server_isOpened_def fd_held_def os_close_def)

lemma Epoller_dtor_close:
  "fds_ok s \<Longrightarrow> Epoller_dtor e s = (case fd_held (epo_fd e) of None \<Rightarrow> s | Some fd \<Rightarrow> close_fd fd s)"
  by (auto simp: Epoller_dtor_def fd_held_def os_close_def fds_ok_def)

interpretation epollers: move_only "\<lambda>e. fd_held (epo_fd e)" Epoller_move Epoller_assign Epoller_dtor close_fd fds_ok
  by unfold_locales
     (auto simp: Epoller_move_def Epoller_assign_def Epoller_swap_def Epoller_dtor_close fds_ok_close,
      auto simp: Epoller_dtor_def fd_held_def FD_CLOSED_def)

interpretation connections: move_only "\<lambda>c. fd_held (con_fd c)" Connection_move Connection_assign
    "\<lambda>c s. Connection_dtor (c, s)" close_socket fds_ok
  by unfold_locales
     (auto simp: Connection_move_def Connection_assign_def Connection_swap_def closed_connection_def fd_held_def
        Connection_dtor_close fds_ok_close_socket)

interpretation servers: move_only "\<lambda>v. fd_held (srv_fd v)" Server_move Server_assign
    "\<lambda>v s. Server_dtor (v, s)" close_fd fds_ok
  by unfold_locales
     (auto simp: Server_move_def Server_assign_def Server_swap_def fd_held_def Server_dtor_close fds_ok_close)

interpretation asyncs: move_only "\<lambda>c. fd_held (ac_fd c)" ac_move ac_assign
    "\<lambda>c s. ac_dtor (c, s)" close_socket fds_ok
  by unfold_locales
     (auto simp: ac_move_def ac_assign_def ac_swap_def fd_held_def ac_dtor_close fds_ok_close_socket)

definition free_sem :: "u64 \<Rightarrow> shm \<Rightarrow> shm" where
  "free_sem sem s = snd (deallocate sizeof_sem sem 1 (s\<lparr>shm_sems := (shm_sems s)(sem := None)\<rparr>))"

interpretation mutexes: move_only "\<lambda>sem. if sem = 0 then None else Some sem" ShMutex_move ShMutex_assign ShMutex_dtor
    free_sem "\<lambda>_. True"
  by unfold_locales
     (auto simp: ShMutex_move_def ShMutex_assign_def ShMutex_swap_def ShMutex_dtor_def sem_unwrap_def sem_isEmpty_def
        free_sem_def)

interpretation pointers: move_only SmartPtr_get SmartPtr_move SmartPtr_assign SmartPtr_dtor smart_free "\<lambda>_. True"
  by unfold_locales
     (auto simp: SmartPtr_get_def SmartPtr_move_def SmartPtr_assign_def SmartPtr_reset_def SmartPtr_of_def
        SmartPtr_null_def SmartPtr_dtor_def)

text \<open>Every list of addresses that a program of smart pointers holds is freed, once.\<close>

lemma pointers_free_once:
  "mset (own_run SmartPtr_move SmartPtr_assign SmartPtr_dtor ops (ps, [])) = owned SmartPtr_get ps"
proof -
  have "mset (fold smart_free rs freed) = mset freed + mset rs" for rs freed :: "'a list"
    by (induction rs arbitrary: freed) (simp_all add: smart_free_def)
  then show ?thesis
    using pointers.own_run_released [where s = "[]" and os = ps and ops = ops] by (auto simp: released_def)
qed

section \<open>Constructing them\<close>

definition made :: "(tcp_exn + 'o) \<times> 's \<Rightarrow> 'o option \<times> 's" where
  "made x = (case x of (Inl e, s) \<Rightarrow> (None, s) | (Inr c, s) \<Rightarrow> (Some c, s))"

text \<open>An incoming connection whose two addresses can be read.\<close>

definition peer :: "Sockinfo \<times> Sockinfo \<Rightarrow> addr" where
  "peer x =
     \<lparr>ad_info = snd x, ad_socket = True, ad_connect = True, ad_bind = True, ad_listen = True,
      ad_local = Inr (fst x), ad_remote = Inr (snd x)\<rparr>"

definition new_epoller :: "bool \<times> nat \<Rightarrow> tcp_os \<Rightarrow> Epoller option \<times> tcp_os" where
  "new_epoller e s = made (Epoller_ctor (fst e) (snd e) s)"

definition new_server :: "resolver \<times> string \<times> u16 \<Rightarrow> tcp_os \<Rightarrow> Server option \<times> tcp_os" where
  "new_server e s = made (Server_new (fst e) (fst (snd e)) (snd (snd e)) s)"

definition new_connection :: "Server \<times> Sockinfo \<times> Sockinfo \<Rightarrow> tcp_os \<Rightarrow> Connection option \<times> tcp_os" where
  "new_connection e s = made (Server_accept (Inr (peer (snd e))) (fst e) s)"

definition new_async :: "nat \<times> Sockinfo \<times> Sockinfo \<Rightarrow> tcp_os \<Rightarrow> AsyncConnection option \<times> tcp_os" where
  "new_async e s =
     (case os_accept (Inr (peer (snd e))) s of
        (Inl _, s) \<Rightarrow> (None, s)
      | (Inr fd, s) \<Rightarrow> made (AsyncConnection_new (fst e) fd s, s))"

lemmas new_simps = new_epoller_def new_server_def new_connection_def new_async_def made_def peer_def
  Epoller_ctor_def Server_accept_def os_accept_def Connection_of_fd_def AsyncConnection_new_def
  get_local_sockaddr_def get_remote_sockaddr_def Let_def

lemma fresh_fd_closed [simp]: "fresh_fd fds \<noteq> FD_CLOSED" "FD_CLOSED \<noteq> fresh_fd fds"
  using fresh_fd(2) [of fds] by (simp_all add: FD_CLOSED_def)

lemma close_fd_mset:
  "fds_ok s \<Longrightarrow> mset (to_open (close_fd fd s)) = mset (to_open s) - {#fd#}"
  by (simp add: fds_ok_def close_fd_open distinct_remove1_removeAll [symmetric])

lemma close_socket_mset:
  "fds_ok s \<Longrightarrow> to_connected s fd \<Longrightarrow> mset (to_open (close_socket fd s)) = mset (to_open s) - {#fd#}"
  by (simp add: fds_ok_def close_socket_open distinct_remove1_removeAll [symmetric])

interpretation epoller_lives: owner "\<lambda>e. fd_held (epo_fd e)" Epoller_move Epoller_assign Epoller_dtor close_fd fds_ok
    new_epoller "\<lambda>s. mset (to_open s)" "\<lambda>_ _. True"
  by unfold_locales
     (use fresh_fd(1) in \<open>auto simp: new_simps fds_ok_def fd_held_def close_fd_mset split: if_splits\<close>)

lemma new_server_open:
  assumes "new_server e s = (y, s')"
  shows "case y of None \<Rightarrow> to_open s' = to_open s
    | Some v \<Rightarrow> to_open s' = srv_fd v # to_open s \<and> srv_fd v \<notin> set (to_open s) \<and> 0 \<le> srv_fd v"
proof (cases "resolve_ipv4_tcp (fst e) (fst (snd e)) (snd (snd e))")
  case (Inl x)
  with assms show ?thesis by (auto simp: new_server_def made_def Server_new_def)
next
  case (Inr addrs)
  obtain r t where l: "listen_loop addrs s = (r, t)" by fastforce
  from listen_loop_fds [OF l] assms show ?thesis
    by (cases r) (auto simp: new_server_def made_def Server_new_def Inr l)
qed

interpretation server_lives: owner "\<lambda>v. fd_held (srv_fd v)" Server_move Server_assign
    "\<lambda>v s. Server_dtor (v, s)" close_fd fds_ok new_server "\<lambda>s. mset (to_open s)" "\<lambda>_ _. True"
proof unfold_locales
  fix s e x s' assume "fds_ok s" and c: "new_server e s = (Some x, s')"
  with new_server_open [OF c] show "fds_ok s' \<and> (\<exists>r. fd_held (srv_fd x) = Some r \<and> True \<and>
      mset (to_open s') = mset (to_open s) + {#r#})"
    by (auto simp: fds_ok_def fd_held_def FD_CLOSED_def)
next
  fix s e s' assume "fds_ok s" and c: "new_server e s = (None, s')"
  with new_server_open [OF c] show "fds_ok s' \<and> mset (to_open s') = mset (to_open s)" by (simp add: fds_ok_def)
qed (simp_all add: close_fd_mset)

interpretation connection_lives: owner "\<lambda>c. fd_held (con_fd c)" Connection_move Connection_assign
    "\<lambda>c s. Connection_dtor (c, s)" close_socket fds_ok new_connection "\<lambda>s. mset (to_open s)" to_connected
  by unfold_locales
     (use fresh_fd(1) in \<open>auto simp: new_simps fds_ok_def fd_held_def close_socket_mset split: if_splits\<close>)

interpretation async_lives: owner "\<lambda>c. fd_held (ac_fd c)" ac_move ac_assign
    "\<lambda>c s. ac_dtor (c, s)" close_socket fds_ok new_async "\<lambda>s. mset (to_open s)" to_connected
  by unfold_locales
     (use fresh_fd(1) in \<open>auto simp: new_simps fds_ok_def fd_held_def close_socket_mset split: if_splits\<close>)

section \<open>Programs over the classes\<close>

text \<open>
  The account of the descriptors in the state \<open>x\<close> of a program that began in \<open>s\<close> without objects:
  open are those that were open before and, each once, those that the objects hold; and if all
  objects are destroyed now, those that were open before.
\<close>

definition accounted :: "('o \<Rightarrow> int) \<Rightarrow> ('o \<Rightarrow> tcp_os \<Rightarrow> tcp_os) \<Rightarrow> tcp_os \<Rightarrow> 'o list \<times> tcp_os \<Rightarrow> bool" where
  "accounted fd destroy s x \<longleftrightarrow>
     distinct (to_open (snd x)) \<and>
     mset (to_open (snd x)) = mset (to_open s) + owned (\<lambda>c. fd_held (fd c)) (fst x) \<and>
     mset (to_open (fold destroy (fst x) (snd x))) = mset (to_open s)"

text \<open>
  C31: The classes that own a descriptor never lose one, share one or close one that they do not own.
  Take any program of constructions, move constructions, move assignments and destructions over
  pollers, listening servers, accepted connections or asynchronous connections, in which
  constructors may fail and closed descriptors are reused. Then at every point of it the open
  descriptors are exactly those that were open before it and those that its objects hold, each held
  by one object only; and destroying the objects that are left leaves those that were open before. (No
  connection is reset by its peer, and the addresses of every incoming connection can be read.)
\<close>

theorem owners_close_what_they_hold:
  assumes "distinct (to_open s)" and "FD_CLOSED \<notin> set (to_open s)"
  shows "accounted epo_fd Epoller_dtor s (life new_epoller Epoller_move Epoller_assign Epoller_dtor pops ([], s)) \<and>
    accounted srv_fd (\<lambda>v s. Server_dtor (v, s)) s
      (life new_server Server_move Server_assign (\<lambda>v s. Server_dtor (v, s)) sops ([], s)) \<and>
    accounted con_fd (\<lambda>c s. Connection_dtor (c, s)) s
      (life new_connection Connection_move Connection_assign (\<lambda>c s. Connection_dtor (c, s)) cops ([], s)) \<and>
    accounted ac_fd (\<lambda>c s. ac_dtor (c, s)) s
      (life new_async ac_move ac_assign (\<lambda>c s. ac_dtor (c, s)) aops ([], s))"
proof -
  have ok: "fds_ok s" using assms by (simp add: fds_ok_def)
  show ?thesis
    using epoller_lives.life_balanced [OF ok, of pops] server_lives.life_balanced [OF ok, of sops]
      connection_lives.life_balanced [OF ok, of cops] async_lives.life_balanced [OF ok, of aops]
      epoller_lives.balanced_destroyed server_lives.balanced_destroyed
      connection_lives.balanced_destroyed async_lives.balanced_destroyed
    unfolding accounted_def epoller_lives.balanced_def server_lives.balanced_def
      connection_lives.balanced_def async_lives.balanced_def fds_ok_def
    by auto
qed

definition three_sockets :: tcp_os where
  "three_sockets =
     \<lparr>to_open = [5, 4, 3], to_connected = \<lambda>fd. fd \<noteq> 4, to_io = \<lambda>_. io_init [] [], to_sndtimeo = \<lambda>_. None,
      to_rcvtimeo = \<lambda>_. None, to_local = \<lambda>_. Inr Sockinfo_default, to_remote = \<lambda>_. Inr Sockinfo_default\<rparr>"

theorem owners_close_what_they_hold_witness:
  "accounted epo_fd Epoller_dtor three_sockets
     (life new_epoller Epoller_move Epoller_assign Epoller_dtor
       [Create (True, 8), Use (MoveNew 0), Use (Destroy 0), Create (True, 4), Create (False, 1), Use (Assign 0 1)]
       ([], three_sockets)) \<and>
   accounted con_fd (\<lambda>c s. Connection_dtor (c, s)) three_sockets
     (life new_connection Connection_move Connection_assign (\<lambda>c s. Connection_dtor (c, s))
       [Create (\<lparr>srv_fd = 3, srv_socket = Sockinfo_default\<rparr>, Sockinfo_default, Sockinfo_default), Use (MoveNew 0)]
       ([], three_sockets))"
proof -
  have "distinct (to_open three_sockets)" "FD_CLOSED \<notin> set (to_open three_sockets)"
    by (simp_all add: three_sockets_def FD_CLOSED_def)
  from owners_close_what_they_hold [OF this] show ?thesis by blast
qed

end
