(* ===== verification/Logger_Example.thy ===== *)
theory Logger_Example
  imports Cli
begin

text \<open>
  \<^verbatim>\<open>examples/logger-example/main.cpp\<close>: options in the short and the long form, a logger made from
  them, and four messages through the global logger.
\<close>

section \<open>getopt\_long\<close>

datatype has_arg = no_argument | required_argument

record long_option =
  lo_name :: string
  lo_has_arg :: has_arg
  lo_val :: char

text \<open>An exact name counts first, then an abbreviation that fits one option only.\<close>

definition find_long :: "long_option list \<Rightarrow> string \<Rightarrow> long_option option" where
  "find_long longs name =
     (case filter (\<lambda>x. lo_name x = name) longs of
        l # _ \<Rightarrow> Some l
      | [] \<Rightarrow> (case filter (\<lambda>x. prefix name (lo_name x)) longs of [l] \<Rightarrow> Some l | _ \<Rightarrow> None))"

text \<open>One long option, behind its dashes; \<open>rest\<close> are the arguments that follow it.\<close>

definition long_opt :: "long_option list \<Rightarrow> string \<Rightarrow> string list \<Rightarrow> (char \<times> string option) \<times> string list" where
  "long_opt longs a rest =
     (let name = takeWhile (\<lambda>c. c \<noteq> CHR ''='') a;
          value = (if CHR ''='' \<in> set a then Some (drop (length name + 1) a) else None)
      in case find_long longs name of
           None \<Rightarrow> ((CHR ''?'', None), rest)
         | Some l \<Rightarrow>
             (case lo_has_arg l of
                no_argument \<Rightarrow> (if value = None then (lo_val l, None) else (CHR ''?'', None), rest)
              | required_argument \<Rightarrow>
                  (case value of
                     Some v \<Rightarrow> ((lo_val l, Some v), rest)
                   | None \<Rightarrow>
                       (case rest of
                          [] \<Rightarrow> ((CHR ''?'', None), [])
                        | v # rest \<Rightarrow> ((lo_val l, Some v), rest)))))"

lemma long_opt_length: "length (snd (long_opt longs a rest)) \<le> length rest"
  by (auto simp: long_opt_def Let_def split: option.splits has_arg.splits list.splits)

lemma long_opt_shorter: "((x, y), r) = long_opt longs a rest \<Longrightarrow> length r < Suc (length rest)"
  using long_opt_length [of longs a rest] by (metis le_imp_less_Suc snd_conv)

function getopt_long :: "string \<Rightarrow> long_option list \<Rightarrow> string list \<Rightarrow> (char \<times> string option) list" where
  "getopt_long spec longs [] = []"
| "getopt_long spec longs (a # rest) =
     (if a = ''--'' then []
      else if prefix ''--'' a then
        (case long_opt longs (drop 2 a) rest of (x, r) \<Rightarrow> x # getopt_long spec longs r)
      else if 1 < length a \<and> hd a = CHR ''-'' then
        (case opt_cluster spec (tl a) rest of (os, r) \<Rightarrow> os @ getopt_long spec longs r)
      else getopt_long spec longs rest)"
  by pat_completeness auto
termination
  by (relation "measure (\<lambda>(spec, longs, args). length args)")
     (auto dest: opt_cluster_shorter long_opt_shorter)

section \<open>The program\<close>

record LoggerConfig =
  lc_log_level :: Level
  lc_logfile :: "string option"

definition LoggerConfig_init :: LoggerConfig where
  "LoggerConfig_init = \<lparr>lc_log_level = INFO, lc_logfile = None\<rparr>"

definition long_options :: "long_option list" where
  "long_options =
     [\<lparr>lo_name = ''debug'', lo_has_arg = no_argument, lo_val = CHR ''d''\<rparr>,
      \<lparr>lo_name = ''info'', lo_has_arg = no_argument, lo_val = CHR ''i''\<rparr>,
      \<lparr>lo_name = ''warn'', lo_has_arg = no_argument, lo_val = CHR ''w''\<rparr>,
      \<lparr>lo_name = ''error'', lo_has_arg = no_argument, lo_val = CHR ''e''\<rparr>,
      \<lparr>lo_name = ''logfile'', lo_has_arg = required_argument, lo_val = CHR ''l''\<rparr>]"

text \<open>\<open>optarg\<close> is a C string; \<^verbatim>\<open>l\<close> never comes without one.\<close>

fun logger_opt :: "char \<times> string option \<Rightarrow> LoggerConfig \<Rightarrow> LoggerConfig" where
  "logger_opt (opt, optarg) c =
     (if opt = CHR ''d'' then c\<lparr>lc_log_level := DEBUG\<rparr>
      else if opt = CHR ''e'' then c\<lparr>lc_log_level := ERROR\<rparr>
      else if opt = CHR ''w'' then c\<lparr>lc_log_level := WARN\<rparr>
      else if opt = CHR ''i'' then c\<lparr>lc_log_level := INFO\<rparr>
      else if opt = CHR ''l'' then c\<lparr>lc_logfile := map_option c_str optarg\<rparr>
      else c)"

definition parse_logger_opts :: "string list \<Rightarrow> LoggerConfig" where
  "parse_logger_opts args = fold logger_opt (getopt_long ''diwel:'' long_options args) LoggerConfig_init"

definition example_messages :: "(Level \<times> string) list" where
  "example_messages =
     [(DEBUG, ''this is debug message''), (INFO, ''this is info message''),
      (WARN, ''this is warn message''), (ERROR, ''this is error message'')]"

text \<open>\<open>opens\<close> is what \<^verbatim>\<open>std::ofstream\<close> makes of a path. Nothing catches an exception of the loggers.\<close>

definition logger_main ::
    "(string \<Rightarrow> ostream option) \<Rightarrow> string list \<Rightarrow> ostream \<Rightarrow> ostream \<Rightarrow> (log_exn + unit) \<times> Logger" where
  "logger_main opens args cout cerr =
     (let config = parse_logger_opts args;
          s = Logger_new cout cerr
      in case (case lc_logfile config of
                 Some path \<Rightarrow> create_file_logger path (opens path)
               | None \<Rightarrow> Inr create_stdout_logger) of
           Inl e \<Rightarrow> (Inl e, s)
         | Inr logger \<Rightarrow>
             and_then (set_global_logger (Some (any_set_level (lc_log_level config) logger)) s)
               (\<lambda>_. log_all global_log example_messages))"

section \<open>What it prints\<close>

text \<open>The spellings of an option for a level: the letter, the name, or an abbreviation of the name.\<close>

fun level_name :: "Level \<Rightarrow> string" where
  "level_name DEBUG = ''debug''"
| "level_name INFO = ''info''"
| "level_name WARN = ''warn''"
| "level_name ERROR = ''error''"

definition spells :: "Level \<Rightarrow> string \<Rightarrow> bool" where
  "spells l a \<longleftrightarrow>
     a = [CHR ''-'', hd (level_name l)] \<or> (\<exists>p. p \<noteq> [] \<and> prefix p (level_name l) \<and> a = ''--'' @ p)"

lemma getopt_long_spelled:
  assumes "spells l a"
  shows "getopt_long ''diwel:'' long_options (a # rest) =
    (hd (level_name l), None) # getopt_long ''diwel:'' long_options rest"
proof -
  consider "a = [CHR ''-'', hd (level_name l)]" | p where "p \<noteq> []" "prefix p (level_name l)" "a = ''--'' @ p"
    using assms by (auto simp: spells_def)
  then show ?thesis
  proof cases
    case 1
    then show ?thesis by (cases l) simp_all
  next
    case 2
    then have "long_opt long_options p rest = ((hd (level_name l), None), rest)"
      by (cases l) (auto simp: prefix_Cons long_opt_def find_long_def long_options_def)
    with 2 show ?thesis by (cases l) (auto simp: prefix_Cons)
  qed
qed

lemma parse_spelled:
  "list_all2 spells ls args \<Longrightarrow>
     fold logger_opt (getopt_long ''diwel:'' long_options (args @ rest)) c =
     fold logger_opt (getopt_long ''diwel:'' long_options rest) (c\<lparr>lc_log_level := last (lc_log_level c # ls)\<rparr>)"
proof (induction ls args arbitrary: c rule: list_all2_induct)
  case (Cons l ls a args)
  have "logger_opt (hd (level_name l), None) c = c\<lparr>lc_log_level := l\<rparr>" by (cases l) simp_all
  with Cons.IH [of "c\<lparr>lc_log_level := l\<rparr>"] show ?case
    by (simp add: getopt_long_spelled [OF Cons.hyps(1)] del: logger_opt.simps getopt_long.simps)
qed simp

definition opens_file :: "string \<Rightarrow> string list \<Rightarrow> bool" where
  "opens_file f args \<longleftrightarrow> args = [''-l'', f] \<or> args = [''--logfile'', f] \<or> args = [''--logfile='' @ f]"

lemma parse_logfile:
  assumes "opens_file f args"
  shows "fold logger_opt (getopt_long ''diwel:'' long_options args) c = c\<lparr>lc_logfile := Some (c_str f)\<rparr>"
  using assms
  by (auto simp: opens_file_def long_opt_def find_long_def long_options_def)

text \<open>With enough room nothing fails.\<close>

lemma put_line_room:
  "os_good out \<Longrightarrow> length (log_line level m) \<le> os_room out \<Longrightarrow>
     os_good (put_line level m out) \<and> os_room (put_line level m out) = os_room out - length (log_line level m)"
  by (simp add: put_line_def put_def log_line_def)

definition total_length :: "(Level \<times> string) list \<Rightarrow> nat" where
  "total_length ms = sum_list (map (\<lambda>(level, m). length (log_line level m)) ms)"

lemma global_log_room:
  assumes "os_good (global_sink s)" and "length (log_line level m) \<le> os_room (global_sink s)"
  shows "\<exists>s'. global_log m level s = (Inr (), s') \<and> os_good (global_sink s') \<and>
    os_room (global_sink s) - length (log_line level m) \<le> os_room (global_sink s')"
  using assms put_line_room
  by (auto simp: global_log_def global_sink_def file_log_def stderr_log_def stdout_log_def Let_def
      split: any_logger.splits prod.splits)

lemma log_all_room:
  "os_good (global_sink s) \<Longrightarrow> total_length ms \<le> os_room (global_sink s) \<Longrightarrow>
     \<exists>s'. log_all global_log ms s = (Inr (), s')"
proof (induction ms arbitrary: s)
  case (Cons x ms)
  obtain level m where x: "x = (level, m)" by fastforce
  obtain s1 where s1: "global_log m level s = (Inr (), s1)" "os_good (global_sink s1)"
      "os_room (global_sink s) - length (log_line level m) \<le> os_room (global_sink s1)"
    using global_log_room [of s level m] Cons.prems by (auto simp: x total_length_def)
  then show ?case using Cons.IH [of s1] Cons.prems by (simp add: x total_length_def)
qed simp

text \<open>Which sink a logger writes to; the others are left alone.\<close>

fun same_sink :: "any_logger \<Rightarrow> any_logger \<Rightarrow> bool" where
  "same_sink (File_Logger l) (File_Logger l') \<longleftrightarrow> fl_logfile l' = fl_logfile l"
| "same_sink (Stderr_Logger _) (Stderr_Logger _) \<longleftrightarrow> True"
| "same_sink (Stdout_Logger _) (Stdout_Logger _) \<longleftrightarrow> True"
| "same_sink _ _ \<longleftrightarrow> False"

definition other_sinks :: "Logger \<Rightarrow> Logger \<Rightarrow> bool" where
  "other_sinks s s' \<longleftrightarrow>
     same_sink (gl_global_logger s) (gl_global_logger s') \<and>
     (gl_cout s' = gl_cout s \<or> (\<exists>b. gl_global_logger s = Stdout_Logger b)) \<and>
     (gl_cerr s' = gl_cerr s \<or> (\<exists>b. gl_global_logger s = Stderr_Logger b))"

lemma other_sinks_refl [simp]: "other_sinks s s"
  by (cases "gl_global_logger s") (simp_all add: other_sinks_def)

lemma other_sinks_trans: "other_sinks a b \<Longrightarrow> other_sinks b c \<Longrightarrow> other_sinks a c"
  by (cases "gl_global_logger a"; cases "gl_global_logger b"; cases "gl_global_logger c")
     (auto simp: other_sinks_def)

lemma global_log_sinks: "global_log m level s = (r, s') \<Longrightarrow> other_sinks s s'"
  by (auto simp: global_log_def other_sinks_def file_log_def Let_def
      split: any_logger.splits prod.splits if_splits)

lemma log_all_sinks: "log_all global_log ms s = (r, s') \<Longrightarrow> other_sinks s s'"
proof (induction ms arbitrary: s)
  case (Cons x ms)
  obtain level m where x: "x = (level, m)" by fastforce
  obtain q s1 where q: "global_log m level s = (q, s1)" by fastforce
  show ?case
  proof (cases q)
    case (Inl e)
    with Cons.prems q global_log_sinks [OF q] show ?thesis by (simp add: x)
  next
    case (Inr u)
    with Cons.prems q have "log_all global_log ms s1 = (r, s')" by (simp add: x)
    from other_sinks_trans [OF global_log_sinks [OF q] Cons.IH [OF this]] show ?thesis .
  qed
qed simp

text \<open>Both kinds of runs: the options give the logger, and its sink has room.\<close>

lemma logger_main_prints:
  assumes "parse_logger_opts args = c"
    and "(case lc_logfile c of Some path \<Rightarrow> create_file_logger path (opens path)
      | None \<Rightarrow> Inr create_stdout_logger) = Inr l"
    and "s = (Logger_new cout cerr)\<lparr>gl_global_logger := any_set_level (lc_log_level c) l\<rparr>"
    and "os_good (global_sink s)" and "total_length example_messages \<le> os_room (global_sink s)"
  shows "\<exists>s'. logger_main opens args cout cerr = (Inr (), s') \<and> other_sinks s s' \<and>
    os_text (global_sink s') = os_text (global_sink s) @ lines_upto (lc_log_level c) example_messages"
proof -
  obtain s' where s': "log_all global_log example_messages s = (Inr (), s')"
    using log_all_room [OF assms(4,5)] by blast
  have "global_level s = lc_log_level c"
    by (cases l) (simp_all add: assms(3) any_set_level_def set_level_def global_level_def)
  with glog.log_all_lines [OF s'] log_all_sinks [OF s'] s' assms(1,2,3) show ?thesis
    by (simp add: logger_main_def Let_def set_global_logger_def)
qed

lemma logger_main_stdout:
  assumes p: "parse_logger_opts args = \<lparr>lc_log_level = level, lc_logfile = None\<rparr>"
    and room: "os_good cout" "total_length example_messages \<le> os_room cout"
  shows "\<exists>s. logger_main opens args cout cerr = (Inr (), s) \<and> gl_cerr s = cerr \<and>
      os_text (gl_cout s) = os_text cout @ lines_upto level example_messages"
proof -
  let ?s1 = "(Logger_new cout cerr)\<lparr>gl_global_logger := any_set_level level create_stdout_logger\<rparr>"
  have s1: "global_sink ?s1 = cout" "gl_cerr ?s1 = cerr" "gl_global_logger ?s1 = Stdout_Logger \<lparr>bl_level = level\<rparr>"
    by (simp_all add: Logger_new_def create_stdout_logger_def any_set_level_def global_sink_def
        BaseLogger_new_def set_level_def)
  have "os_good (global_sink ?s1)" "total_length example_messages \<le> os_room (global_sink ?s1)"
    using room s1 by simp_all
  from logger_main_prints [OF p _ _ this, where opens = opens and l = create_stdout_logger]
  obtain s where s: "logger_main opens args cout cerr = (Inr (), s)" "other_sinks ?s1 s"
      "os_text (global_sink s) = os_text (global_sink ?s1) @ lines_upto level example_messages"
    by auto
  then have "gl_cerr s = cerr" "global_sink s = gl_cout s"
    using s1 by (auto simp: other_sinks_def global_sink_def split: any_logger.splits)
  with s(1,3) s1 show ?thesis by auto
qed

lemma logger_main_file:
  assumes p: "parse_logger_opts args = \<lparr>lc_log_level = level, lc_logfile = Some path\<rparr>"
    and opened: "opens path = Some sink"
    and room: "os_good sink" "total_length example_messages \<le> os_room sink"
  shows "\<exists>s l. logger_main opens args cout cerr = (Inr (), s) \<and> gl_cerr s = cerr \<and>
      gl_cout s = cout \<and> gl_global_logger s = File_Logger l \<and> fl_logfile l = path \<and>
      os_text (fl_sink l) = os_text sink @ lines_upto level example_messages"
proof -
  let ?l = "\<lparr>bl_level = ERROR, fl_sink = sink, fl_logfile = path\<rparr>"
  let ?s2 = "(Logger_new cout cerr)\<lparr>gl_global_logger := any_set_level level (File_Logger ?l)\<rparr>"
  have s2: "global_sink ?s2 = sink" "gl_cerr ?s2 = cerr" "gl_cout ?s2 = cout"
    "gl_global_logger ?s2 = File_Logger (?l\<lparr>bl_level := level\<rparr>)"
    by (simp_all add: Logger_new_def any_set_level_def global_sink_def set_level_def)
  have open_: "create_file_logger path (opens path) = Inr (File_Logger ?l)"
    by (simp add: create_file_logger_def FileLogger_new_def opened)
  have "os_good (global_sink ?s2)" "total_length example_messages \<le> os_room (global_sink ?s2)"
    using room s2 by simp_all
  from logger_main_prints [OF p _ _ this, where opens = opens and l = "File_Logger ?l"] open_
  obtain s where s: "logger_main opens args cout cerr = (Inr (), s)" "other_sinks ?s2 s"
      "os_text (global_sink s) = os_text (global_sink ?s2) @ lines_upto level example_messages"
    by auto
  then obtain l where "gl_global_logger s = File_Logger l" "fl_logfile l = path" "gl_cerr s = cerr" "gl_cout s = cout"
    using s2 by (cases "gl_global_logger s") (auto simp: other_sinks_def)
  with s(1,3) s2(1) show ?thesis by (auto simp: global_sink_def)
qed

text \<open>
  The logger example prints exactly what its options admit. Given any number of level options,
  each as a letter, a long name or an abbreviation of it, and then possibly a log file in any of
  the three ways to name one: the program writes, to that file or else to standard output, one line
  for each of its four messages whose level the last level option admits (INFO if there was none),
  in order, and leaves the other streams alone, as long as there is room for all four lines.
\<close>
theorem logger_example_prints:
  assumes "list_all2 spells ls args" and "os_good cout" and "total_length example_messages \<le> os_room cout"
    and "opens_file f file_args" and "opens (c_str f) = Some sink" and "os_good sink"
    and "total_length example_messages \<le> os_room sink"
  shows "(\<exists>s. logger_main opens args cout cerr = (Inr (), s) \<and> gl_cerr s = cerr \<and>
      os_text (gl_cout s) = os_text cout @ lines_upto (last (INFO # ls)) example_messages) \<and>
    (\<exists>s l. logger_main opens (args @ file_args) cout cerr = (Inr (), s) \<and> gl_cerr s = cerr \<and>
      gl_cout s = cout \<and> gl_global_logger s = File_Logger l \<and> fl_logfile l = c_str f \<and>
      os_text (fl_sink l) = os_text sink @ lines_upto (last (INFO # ls)) example_messages)"
proof
  have "parse_logger_opts args = \<lparr>lc_log_level = last (INFO # ls), lc_logfile = None\<rparr>"
    using parse_spelled [OF assms(1), of "[]"] by (simp add: parse_logger_opts_def LoggerConfig_init_def)
  from logger_main_stdout [OF this assms(2,3)]
  show "\<exists>s. logger_main opens args cout cerr = (Inr (), s) \<and> gl_cerr s = cerr \<and>
      os_text (gl_cout s) = os_text cout @ lines_upto (last (INFO # ls)) example_messages" .
  have "parse_logger_opts (args @ file_args) = \<lparr>lc_log_level = last (INFO # ls), lc_logfile = Some (c_str f)\<rparr>"
    using parse_spelled [OF assms(1), of file_args] parse_logfile [OF assms(4)]
    by (simp add: parse_logger_opts_def LoggerConfig_init_def)
  from logger_main_file [where opens = opens, OF this assms(5-7)]
  show "\<exists>s l. logger_main opens (args @ file_args) cout cerr = (Inr (), s) \<and> gl_cerr s = cerr \<and>
      gl_cout s = cout \<and> gl_global_logger s = File_Logger l \<and> fl_logfile l = c_str f \<and>
      os_text (fl_sink l) = os_text sink @ lines_upto (last (INFO # ls)) example_messages" .
qed

definition wide_stream :: ostream where
  "wide_stream = \<lparr>os_text = [], os_room = 200, os_good = True\<rparr>"

theorem logger_example_prints_witness:
  "\<exists>s. logger_main (\<lambda>_. Some wide_stream) [''-d'', ''--wa''] wide_stream wide_stream = (Inr (), s) \<and>
     os_text (gl_cout s) =
       ''[WARN]: this is warn message'' @ [LF] @ ''[ERROR]: this is error message'' @ [LF]"
proof -
  have sp: "list_all2 spells [DEBUG, WARN] [''-d'', ''--wa'']"
    by (simp add: spells_def)
  have room: "os_good wide_stream" "total_length example_messages \<le> os_room wide_stream"
    by (simp_all add: wide_stream_def total_length_def example_messages_def log_line_def show_message_def)
  have file_arg: "opens_file ''f'' [''-l'', ''f'']" by (simp add: opens_file_def)
  have lines: "lines_upto WARN example_messages =
      ''[WARN]: this is warn message'' @ [LF] @ ''[ERROR]: this is error message'' @ [LF]"
    by (simp add: lines_upto_def example_messages_def less_eq_Level_def log_line_def show_message_def)
  have "os_text wide_stream = []" by (simp add: wide_stream_def)
  with conjunct1 [OF logger_example_prints [where opens = "\<lambda>_. Some wide_stream" and cerr = wide_stream,
      OF sp room file_arg refl room]]
  obtain s where "logger_main (\<lambda>_. Some wide_stream) [''-d'', ''--wa''] wide_stream wide_stream = (Inr (), s)"
      "os_text (gl_cout s) = lines_upto WARN example_messages" by auto
  with lines show ?thesis by (intro exI [of _ s]) simp
qed

end
