(* ===== verification/Tcp_Example.thy ===== *)
theory Tcp_Example
  imports Tcp_Props
begin

text \<open>
  \<^verbatim>\<open>examples/tcp-example\<close>: the main loops of the blocking echo client and the blocking echo server.
  Both run on scripted sockets; the client's standard input is a stream with its two state bits.
\<close>

section \<open>Reading lines\<close>

record istream =
  is_rest :: string
  is_eof :: bool
  is_fail :: bool

definition istream_of :: "string \<Rightarrow> istream" where
  "istream_of s = \<lparr>is_rest = s, is_eof = False, is_fail = False\<rparr>"

text \<open>
  \<^verbatim>\<open>std::getline(in, str)\<close>: a stream that is at its end already leaves \<^verbatim>\<open>str\<close> as it is and fails; one
  that ends while nothing has been extracted fails as well.
\<close>

definition getline :: "istream \<Rightarrow> string \<Rightarrow> string \<times> istream" where
  "getline s str =
     (if is_eof s \<or> is_fail s then (str, s\<lparr>is_fail := True\<rparr>)
      else
        let line = takeWhile (\<lambda>c. c \<noteq> LF) (is_rest s);
            rest = drop (length line) (is_rest s)
        in if rest = [] then (line, s\<lparr>is_rest := [], is_eof := True, is_fail := (line = [])\<rparr>)
           else (line, s\<lparr>is_rest := tl rest\<rparr>))"

definition lines_left :: "istream \<Rightarrow> nat" where
  "lines_left s = (if is_fail s then 0 else if is_eof s then 1 else Suc (Suc (length (is_rest s))))"

lemma getline_progress: "\<not> is_fail s \<Longrightarrow> getline s str = (line, s') \<Longrightarrow> lines_left s' < lines_left s"
  by (auto simp: getline_def lines_left_def Let_def split: if_splits)

section \<open>The client\<close>

text \<open>
  The \<^verbatim>\<open>while (std::cin)\<close> of \<^verbatim>\<open>echo-client.cpp\<close>, with what has been printed. An exception of the
  connection ends the program.
\<close>

function (sequential) client_loop ::
    "istream \<Rightarrow> string \<Rightarrow> con_state \<Rightarrow> string \<Rightarrow> (tcp_exn + unit) \<times> con_state \<times> string" where
  "client_loop cin out_buffer con cout =
     (if is_fail cin then (Inr (), con, cout)
      else
        (case getline cin out_buffer of
           (out_buffer, cin') \<Rightarrow>
             (case Connection_writeExact out_buffer con of
                (Inl e, _, con) \<Rightarrow> (Inl e, con, cout)
              | (Inr _, _, con) \<Rightarrow>
                  (case Connection_readExact (length out_buffer) con of
                     (Inl e, _, con) \<Rightarrow> (Inl e, con, cout)
                   | (Inr _, in_buffer, con) \<Rightarrow>
                       client_loop cin' out_buffer con (cout @ ''Read: '' @ in_buffer @ [LF])))))"
  by pat_completeness auto
termination
  by (relation "measure (\<lambda>(cin, out_buffer, con, cout). lines_left cin)") (auto dest: getline_progress [OF _ sym])

declare client_loop.simps [simp del]

text \<open>The time-out of the connection is 0 by default: none.\<close>

definition client_main ::
    "resolver \<Rightarrow> string \<Rightarrow> u16 \<Rightarrow> string \<Rightarrow> tcp_os \<Rightarrow> (tcp_exn + unit) \<times> string" where
  "client_main gai hostname port input s =
     (case Connection_new gai hostname port 0 s of
        (Inl e, s) \<Rightarrow> (Inl e, [])
      | (Inr con, s) \<Rightarrow>
          (case client_loop (istream_of input) [] (con, s) [] of (r, _, cout) \<Rightarrow> (r, cout)))"

section \<open>The server\<close>

definition server_buffer :: nat where
  "server_buffer = 257"

record echo_server =
  es_server :: Server
  es_con :: Connection
  es_buff :: string
  es_cerr :: string

text \<open>
  A round of \<^verbatim>\<open>echo-server.cpp\<close>. \<open>incoming\<close> is what \<^verbatim>\<open>accept\<close> returns if it is called in this round; the
  accepted connection is move-assigned over the one that has ended. The buffer is printed as a C
  string, which ends at its first zero byte.
\<close>

definition server_round ::
    "errno + addr \<Rightarrow> echo_server \<Rightarrow> tcp_os \<Rightarrow> (tcp_exn + unit) \<times> echo_server \<times> tcp_os" where
  "server_round incoming v s =
     (case Connection_read (length (es_buff v) - 1) (es_con v, s) of
        (Inl e, con, s) \<Rightarrow> (Inl e, v\<lparr>es_con := con\<rparr>, s)
      | (Inr got, con, s) \<Rightarrow>
          let v = v\<lparr>es_con := con, es_buff := got @ drop (length got) (es_buff v)\<rparr>
          in case (if got = [] then
                     (case Server_accept incoming (es_server v) s of
                        (Inl e, s) \<Rightarrow> (Inl e, v, s)
                      | (Inr accepted, s) \<Rightarrow>
                          (case Connection_assign con accepted s of (con, _, s) \<Rightarrow> (Inr (), v\<lparr>es_con := con\<rparr>, s)))
                   else (Inr (), v, s)) of
               (Inl e, v, s) \<Rightarrow> (Inl e, v, s)
             | (Inr _, v, s) \<Rightarrow>
                 let v = v\<lparr>es_cerr := es_cerr v @ ''Read: '' @ c_str (es_buff v) @ [LF]\<rparr>
                 in case Connection_writeExact (take (length got) (es_buff v)) (es_con v, s) of
                      (Inl e, _, con, s) \<Rightarrow> (Inl e, v\<lparr>es_con := con\<rparr>, s)
                    | (Inr _, _, con, s) \<Rightarrow> (Inr (), v\<lparr>es_con := con\<rparr>, s))"

fun server_rounds ::
    "(errno + addr) list \<Rightarrow> echo_server \<Rightarrow> tcp_os \<Rightarrow> (tcp_exn + unit) \<times> echo_server \<times> tcp_os" where
  "server_rounds [] v s = (Inr (), v, s)"
| "server_rounds (a # as) v s =
     (if \<not> Server_isOpened (es_server v) then (Inr (), v, s)
      else (case server_round a v s of
              (Inl e, v, s) \<Rightarrow> (Inl e, v, s)
            | (Inr _, v, s) \<Rightarrow> server_rounds as v s))"

definition server_main ::
    "resolver \<Rightarrow> string \<Rightarrow> u16 \<Rightarrow> errno + addr \<Rightarrow> (errno + addr) list \<Rightarrow> tcp_os \<Rightarrow> (tcp_exn + unit) \<times> string \<times> tcp_os" where
  "server_main gai hostname port first incoming s =
     (case Server_new gai hostname port s of
        (Inl e, s) \<Rightarrow> (Inl e, [], s)
      | (Inr server, s) \<Rightarrow>
          (case Server_accept first server s of
             (Inl e, s) \<Rightarrow> (Inl e, [], s)
           | (Inr con, s) \<Rightarrow>
               (case server_rounds incoming
                   \<lparr>es_server = server, es_con = con, es_buff = replicate server_buffer NUL, es_cerr = []\<rparr> s of
                  (r, v, s) \<Rightarrow> (r, es_cerr v, s))))"

section \<open>Transfers that succeed\<close>

text \<open>An open connection whose peer takes at least \<open>n\<close> more pieces.\<close>

definition alive :: "nat \<Rightarrow> con_state \<Rightarrow> bool" where
  "alive n x \<longleftrightarrow>
     isOpened (fst x) \<and> con_fd (fst x) \<in> set (to_open (snd x)) \<and>
     (\<exists>ks. io_out (to_io (snd x) (con_fd (fst x))) = map WRoom ks \<and> 0 \<notin> set ks \<and> n \<le> length ks)"

lemma Connection_write_alive:
  assumes "alive (Suc n) x" and "bs \<noteq> []"
  shows "\<exists>j x'. Connection_write bs x = (Inr j, x') \<and> 0 < j \<and> j \<le> length bs \<and> alive n x' \<and>
    con_incoming x' = con_incoming x \<and> con_sent x' = con_sent x @ take j bs \<and> fst x' = fst x"
proof -
  obtain c s where x: "x = (c, s)" by fastforce
  obtain k ks where io: "io_out (to_io s (con_fd c)) = WRoom k # map WRoom ks" "k \<noteq> 0" "0 \<notin> set ks" "n \<le> length ks"
    and op: "isOpened c" "con_fd c \<in> set (to_open s)"
    using assms(1) by (auto simp: alive_def x Suc_le_length_iff)
  let ?i = "(to_io s (con_fd c))\<lparr>io_out := map WRoom ks, io_sent := io_sent (to_io s (con_fd c)) @ take k bs\<rparr>"
  have "Connection_write bs x = (Inr (min k (length bs)), c, s\<lparr>to_io := (to_io s)(con_fd c := ?i)\<rparr>)"
    by (simp add: x Connection_write_def os_write_def sys_write_def op io(1))
  with io op assms(2) show ?thesis
    by (auto simp: alive_def x con_incoming_def con_sent_def min_def)
qed

lemma write_exact_alive:
  "alive (length data - tot + n) x \<Longrightarrow> tot \<le> length data \<Longrightarrow>
     \<exists>x'. write_exact Connection_write eof data tot x = (Inr (), length data, x') \<and> alive n x' \<and>
       con_incoming x' = con_incoming x \<and> con_sent x' = con_sent x @ drop tot data \<and> fst x' = fst x"
proof (induction "length data - tot" arbitrary: tot x rule: less_induct)
  case less
  show ?case
  proof (cases "tot < length data")
    case False
    with less.prems show ?thesis by (intro exI [of _ x]) (simp add: write_exact.simps [of _ _ data])
  next
    case True
    then have "Suc (length data - tot - 1 + n) = length data - tot + n" by simp
    with less.prems(1) True have "alive (Suc (length data - tot - 1 + n)) x" "drop tot data \<noteq> []"
      by (simp_all only: drop_eq_Nil not_le)
    from Connection_write_alive [OF this] obtain j x1 where w: "Connection_write (drop tot data) x = (Inr j, x1)"
        "0 < j" "j \<le> length data - tot" "alive (length data - tot - 1 + n) x1" "con_incoming x1 = con_incoming x"
        "con_sent x1 = con_sent x @ take j (drop tot data)" "fst x1 = fst x"
      by auto
    have "alive (length data - (tot + j) + n) x1"
      using w(2,4) by (auto simp: alive_def intro: le_trans [rotated])
    moreover have "length data - (tot + j) < length data - tot" "tot + j \<le> length data" using w(2,3) True by auto
    ultimately obtain x' where "write_exact Connection_write eof data (tot + j) x1 = (Inr (), length data, x')"
        "alive n x'" "con_incoming x' = con_incoming x1" "con_sent x' = con_sent x1 @ drop (tot + j) data" "fst x' = fst x1"
      using less.hyps by blast
    moreover have "take j (drop tot data) @ drop (tot + j) data = drop tot data"
      by (metis add.commute append_take_drop_id drop_drop)
    ultimately show ?thesis
      using w True by (subst write_exact.simps) (simp del: append_assoc add: append_assoc [symmetric], simp)
  qed
qed

lemma Connection_read_alive:
  assumes "alive n x" and "0 < len" and "con_incoming x \<noteq> []"
  shows "\<exists>bs x'. Connection_read len x = (Inr bs, x') \<and> bs \<noteq> [] \<and> length bs \<le> len \<and> alive n x' \<and>
    con_incoming x = bs @ con_incoming x' \<and> con_sent x' = con_sent x \<and> fst x' = fst x"
proof -
  obtain bs x' where r: "Connection_read len x = (Inr bs, x')" "bs \<noteq> []"
    using Connection_read_progress [OF assms(2,3)] by blast
  obtain c s where x: "x = (c, s)" by fastforce
  have op: "isOpened c" "con_fd c \<in> set (to_open s)" using assms(1) by (simp_all add: alive_def x)
  obtain i where i: "sys_read len (to_io s (con_fd c)) = (Inr bs, i)" "x' = (c, s\<lparr>to_io := (to_io s)(con_fd c := i)\<rparr>)"
    using r op by (auto simp: Connection_read_def x os_read_def split: prod.splits sum.splits if_splits)
  from r Connection_read_ok [OF r(1) assms(2)] i sys_read_frame [OF i(1)] assms(1) show ?thesis
    by (auto simp: alive_def x con_sent_def)
qed

lemma read_exact_alive:
  "alive n x \<Longrightarrow> length data \<le> len \<Longrightarrow> len - length data \<le> length (con_incoming x) \<Longrightarrow>
     \<exists>x'. read_exact Connection_read eof len data x = (Inr (), data @ take (len - length data) (con_incoming x), x') \<and>
       alive n x' \<and> con_incoming x' = drop (len - length data) (con_incoming x) \<and> con_sent x' = con_sent x \<and> fst x' = fst x"
proof (induction "len - length data" arbitrary: data x rule: less_induct)
  case less
  show ?case
  proof (cases "length data < len")
    case False
    with less.prems show ?thesis by (intro exI [of _ x]) (simp add: read_exact.simps [of _ _ len])
  next
    case True
    then have "0 < len - length data" "con_incoming x \<noteq> []" using less.prems(3) by auto
    from Connection_read_alive [OF less.prems(1) this] obtain bs x1 where
      r: "Connection_read (len - length data) x = (Inr bs, x1)" "bs \<noteq> []" "length bs \<le> len - length data"
        "alive n x1" "con_incoming x = bs @ con_incoming x1" "con_sent x1 = con_sent x" "fst x1 = fst x" by blast
    have "len - length (data @ bs) < len - length data" "length (data @ bs) \<le> len"
      "len - length (data @ bs) \<le> length (con_incoming x1)"
      using r(2,3,5) True less.prems(3) by (cases bs; auto)+
    from less.hyps [OF this(1) r(4) this(2,3)] r True show ?thesis
      by (subst read_exact.simps) (auto simp: diff_diff_left)
  qed
qed

lemma writeExact_alive:
  assumes "alive (length data + n) x"
  shows "\<exists>x'. Connection_writeExact data x = (Inr (), length data, x') \<and> alive n x' \<and>
    con_incoming x' = con_incoming x \<and> con_sent x' = con_sent x @ data \<and> fst x' = fst x"
  using write_exact_alive [of data 0 n x] assms by (simp add: Connection_writeExact_def)

lemma readExact_alive:
  assumes "alive n x" and "len \<le> length (con_incoming x)"
  shows "\<exists>x'. Connection_readExact len x = (Inr (), take len (con_incoming x), x') \<and> alive n x' \<and>
    con_incoming x' = drop len (con_incoming x) \<and> con_sent x' = con_sent x \<and> fst x' = fst x"
  using read_exact_alive [of n x "[]" len] assms by (simp add: Connection_readExact_def)

section \<open>What the client sends\<close>

text \<open>The contents of \<^verbatim>\<open>out_buffer\<close> in the rounds of the client.\<close>

function (sequential) sent_lines :: "istream \<Rightarrow> string \<Rightarrow> string list" where
  "sent_lines cin str =
     (if is_fail cin then [] else case getline cin str of (line, cin') \<Rightarrow> line # sent_lines cin' line)"
  by pat_completeness auto
termination
  by (relation "measure (\<lambda>(cin, str). lines_left cin)") (auto dest: getline_progress [OF _ sym])

declare sent_lines.simps [simp del]

lemma getline_line:
  assumes "LF \<notin> set l"
  shows "getline (istream_of (l @ LF # rest)) str = (l, istream_of rest)"
proof -
  have "takeWhile (\<lambda>c. c \<noteq> LF) (l @ LF # rest) = l" using assms by (induction l) auto
  then show ?thesis by (simp add: getline_def istream_of_def)
qed

lemma sent_lines_steps:
  "is_fail cin \<Longrightarrow> sent_lines cin str = []"
  "\<not> is_fail cin \<Longrightarrow> getline cin str = (line, cin') \<Longrightarrow> sent_lines cin str = line # sent_lines cin' line"
  by (subst sent_lines.simps, simp)+

lemma sent_lines_last:
  assumes "LF \<notin> set r"
  shows "sent_lines (istream_of r) str = (if r = [] then [[]] else [r, r])"
proof -
  have t: "takeWhile (\<lambda>c. c \<noteq> LF) r = r" using assms by (induction r) auto
  let ?fin = "\<lparr>is_rest = [], is_eof = True, is_fail = (r = [])\<rparr>"
  have "sent_lines (istream_of r) str = r # sent_lines ?fin r"
    by (rule sent_lines_steps(2)) (simp_all add: istream_of_def getline_def Let_def t)
  moreover have "sent_lines ?fin r = r # sent_lines (?fin\<lparr>is_fail := True\<rparr>) r" if "r \<noteq> []"
    by (rule sent_lines_steps(2)) (simp_all add: getline_def that)
  ultimately show ?thesis by (simp add: sent_lines_steps(1))
qed

definition unix_lines :: "string list \<Rightarrow> string" where
  "unix_lines ls = concat (map (\<lambda>l. l @ [LF]) ls)"

lemma sent_lines_text:
  "\<forall>l\<in>set ls. LF \<notin> set l \<Longrightarrow> LF \<notin> set r \<Longrightarrow>
     sent_lines (istream_of (unix_lines ls @ r)) str = ls @ (if r = [] then [[]] else [r, r])"
proof (induction ls arbitrary: str)
  case Nil
  then show ?case by (simp add: unix_lines_def sent_lines_last)
next
  case (Cons l ls)
  have "sent_lines (istream_of (unix_lines (l # ls) @ r)) str = l # sent_lines (istream_of (unix_lines ls @ r)) l"
    by (rule sent_lines_steps(2))
       (use getline_line [of l "unix_lines ls @ r"] Cons.prems in \<open>simp_all add: unix_lines_def, simp add: istream_of_def\<close>)
  with Cons show ?case by simp
qed

section \<open>Echo\<close>

definition read_lines :: "string list \<Rightarrow> string" where
  "read_lines ls = concat (map (\<lambda>l. ''Read: '' @ l @ [LF]) ls)"

text \<open>The client against a peer that answers with what it was sent.\<close>

lemma client_loop_echo:
  "alive (length (concat (sent_lines cin str))) x \<Longrightarrow>
   con_incoming x = concat (sent_lines cin str) @ rest \<Longrightarrow>
     \<exists>x'. client_loop cin str x cout = (Inr (), x', cout @ read_lines (sent_lines cin str)) \<and>
       con_sent x' = con_sent x @ concat (sent_lines cin str) \<and> con_incoming x' = rest"
proof (induction "lines_left cin" arbitrary: cin str x cout rule: less_induct)
  case less
  show ?case
  proof (cases "is_fail cin")
    case True
    with less.prems show ?thesis by (simp add: client_loop.simps sent_lines_steps(1) read_lines_def)
  next
    case False
    obtain l cin' where g: "getline cin str = (l, cin')" by fastforce
    note sl = sent_lines_steps(2) [OF False g]
    obtain x1 where w: "Connection_writeExact l x = (Inr (), length l, x1)" "alive (length (concat (sent_lines cin' l))) x1"
        "con_incoming x1 = con_incoming x" "con_sent x1 = con_sent x @ l"
      using writeExact_alive [of l "length (concat (sent_lines cin' l))" x] less.prems(1) by (auto simp: sl)
    obtain x2 where r: "Connection_readExact (length l) x1 = (Inr (), l, x2)" "alive (length (concat (sent_lines cin' l))) x2"
        "con_incoming x2 = concat (sent_lines cin' l) @ rest" "con_sent x2 = con_sent x1"
      using readExact_alive [OF w(2), of "length l"] less.prems(2) w(3) by (auto simp: sl)
    have "client_loop cin str x cout = client_loop cin' l x2 (cout @ ''Read: '' @ l @ [LF])"
      using False g w(1) r(1) by (subst client_loop.simps) simp
    with less.hyps [OF getline_progress [OF False g] r(2,3), of "cout @ ''Read: '' @ l @ [LF]"] w(4) r(4)
    show ?thesis by (auto simp: sl read_lines_def)
  qed
qed

text \<open>
  What the server prints for the pieces it reads: each of them lies over the beginning of what was in
  the buffer before, and the print goes on to the first zero byte.
\<close>

fun shown :: "string \<Rightarrow> string list \<Rightarrow> string list" where
  "shown buff [] = []"
| "shown buff (c # cs) = (let buff = c @ drop (length c) buff in c_str buff # shown buff cs)"

lemma Connection_read_piece:
  assumes "alive n (c, s)" and "io_in (to_io s (con_fd c)) = RBytes bs # rest" and "bs \<noteq> []" and "length bs \<le> len"
  shows "Connection_read len (c, s) =
    (Inr bs, c, s\<lparr>to_io := (to_io s)(con_fd c := (to_io s (con_fd c))\<lparr>io_in := rest\<rparr>)\<rparr>)"
  using assms by (simp add: alive_def Connection_read_def os_read_def sys_read_def)

lemma Connection_write_in:
  "Connection_write bs (c, s) = (r, c', s') \<Longrightarrow> c' = c \<and> io_in (to_io s' (con_fd c)) = io_in (to_io s (con_fd c))"
  using sys_write_frame [of bs "to_io s (con_fd c)"]
  by (auto simp: Connection_write_def os_write_def split: if_splits prod.splits sum.splits)

lemma write_exact_in:
  "write_exact Connection_write eof data tot (c, s) = (r, k, c', s') \<Longrightarrow>
     io_in (to_io s' (con_fd c)) = io_in (to_io s (con_fd c))"
proof (induction "length data - tot" arbitrary: tot s rule: less_induct)
  case less
  obtain q s1 where w: "Connection_write (drop tot data) (c, s) = (q, c, s1)"
    and i: "io_in (to_io s1 (con_fd c)) = io_in (to_io s (con_fd c))"
    using Connection_write_in by (metis prod_cases3)
  show ?case
  proof (cases "tot < length data \<and> (\<exists>j. q = Inr j \<and> j \<noteq> 0)")
    case True
    then obtain j where j: "q = Inr j" "j \<noteq> 0" "tot < length data" by blast
    with less.prems w have "write_exact Connection_write eof data (tot + j) (c, s1) = (r, k, c', s')"
      by (subst (asm) write_exact.simps) simp
    from less.hyps [OF _ this] j i show ?thesis by simp
  next
    case False
    with less.prems w i show ?thesis
      by (subst (asm) write_exact.simps) (auto split: if_splits sum.splits)
  qed
qed

lemma server_round_echo:
  assumes "alive (length bs + n) (es_con v, s)" and "length (es_buff v) = server_buffer"
    and "io_in (to_io s (con_fd (es_con v))) = RBytes bs # rest" and "bs \<noteq> []" and "length bs < server_buffer"
  defines "buff \<equiv> bs @ drop (length bs) (es_buff v)"
  shows "\<exists>s'. server_round a v s =
      (Inr (), v\<lparr>es_buff := buff, es_cerr := es_cerr v @ ''Read: '' @ c_str buff @ [LF]\<rparr>, s') \<and>
    alive n (es_con v, s') \<and> con_sent (es_con v, s') = con_sent (es_con v, s) @ bs \<and>
    io_in (to_io s' (con_fd (es_con v))) = rest"
proof -
  let ?c = "es_con v"
  define s1 where "s1 = s\<lparr>to_io := (to_io s)(con_fd ?c := (to_io s (con_fd ?c))\<lparr>io_in := rest\<rparr>)\<rparr>"
  have "Connection_read (length (es_buff v) - 1) (?c, s) = (Inr bs, ?c, s1)"
    unfolding s1_def by (rule Connection_read_piece [OF assms(1,3,4)]) (use assms(2,5) in simp)
  moreover have al: "alive (length bs + n) (?c, s1)" "con_sent (?c, s1) = con_sent (?c, s)"
    using assms(1) by (simp_all add: s1_def alive_def con_sent_def)
  from writeExact_alive [OF al(1)] obtain s2 where w: "Connection_writeExact bs (?c, s1) = (Inr (), length bs, ?c, s2)"
      "alive n (?c, s2)" "con_sent (?c, s2) = con_sent (?c, s1) @ bs" by force
  moreover have "io_in (to_io s2 (con_fd ?c)) = rest"
    using write_exact_in [OF w(1) [unfolded Connection_writeExact_def]] by (simp add: s1_def)
  ultimately show ?thesis
    using assms(4) al(2) by (simp add: server_round_def buff_def)
qed

lemma server_rounds_echo:
  "alive (length (concat cs)) (es_con v, s) \<Longrightarrow> length (es_buff v) = server_buffer \<Longrightarrow>
   io_in (to_io s (con_fd (es_con v))) = map RBytes cs \<Longrightarrow> [] \<notin> set cs \<Longrightarrow>
   \<forall>c\<in>set cs. length c < server_buffer \<Longrightarrow> length as = length cs \<Longrightarrow> Server_isOpened (es_server v) \<Longrightarrow>
     \<exists>v' s'. server_rounds as v s = (Inr (), v', s') \<and> es_con v' = es_con v \<and>
       con_sent (es_con v, s') = con_sent (es_con v, s) @ concat cs \<and>
       es_cerr v' = es_cerr v @ read_lines (shown (es_buff v) cs)"
proof (induction cs arbitrary: v s as)
  case Nil
  then show ?case by (simp add: read_lines_def)
next
  case (Cons c cs)
  obtain a as' where as: "as = a # as'" "length as' = length cs" using Cons.prems(6) by (cases as) auto
  let ?buff = "c @ drop (length c) (es_buff v)"
  let ?v = "v\<lparr>es_buff := ?buff, es_cerr := es_cerr v @ ''Read: '' @ c_str ?buff @ [LF]\<rparr>"
  obtain s1 where s1: "server_round a v s = (Inr (), ?v, s1)" "alive (length (concat cs)) (es_con v, s1)"
      "con_sent (es_con v, s1) = con_sent (es_con v, s) @ c" "io_in (to_io s1 (con_fd (es_con v))) = map RBytes cs"
    using server_round_echo [of c "length (concat cs)" v s "map RBytes cs" a] Cons.prems(1-5) by auto
  have "length ?buff = server_buffer" using Cons.prems(2,5) by simp
  with Cons.IH [of ?v s1 as'] s1 Cons.prems(4,5,7) as obtain v' s' where
    "server_rounds as' ?v s1 = (Inr (), v', s')" "es_con v' = es_con v"
    "con_sent (es_con v, s') = con_sent (es_con v, s1) @ concat cs"
    "es_cerr v' = es_cerr ?v @ read_lines (shown ?buff cs)" by auto
  with s1 Cons.prems(7) as show ?case
    by (auto simp: read_lines_def Let_def)
qed

text \<open>
  A shorter message is printed with the end of a longer one before it.
\<close>

lemma shown_stale:
  assumes "NUL \<notin> set a" and "NUL \<notin> set b" and "length b < length a" and "length a < server_buffer"
  shows "shown (replicate server_buffer NUL) [a, b] = [a, b @ drop (length b) a]"
proof -
  have pre: "c_str (x @ replicate (Suc k) NUL) = x" if "NUL \<notin> set x" for x k
    using that by (induction x) (auto simp: c_str_def)
  obtain k where k: "server_buffer - length a = Suc k" using assms(4) by (metis Suc_diff_Suc)
  have "NUL \<notin> set (b @ drop (length b) a)" using assms(1,2) by (auto dest: in_set_dropD)
  from pre [OF this, of k] pre [OF assms(1), of k] assms(3) show ?thesis
    by (simp add: k Let_def)
qed

text \<open>
  C24: The blocking echo client and the blocking echo server work together. For any input of whole
  lines \<open>ls\<close> and possibly a last line \<open>r\<close> without its end: the bytes that the client sends, arriving at
  the server in any pieces that fit its buffer, are sent back by it unchanged; and with those bytes
  arriving in any pieces, the client prints every line it has read and then ends. But since it looks
  at its stream before it reads, it makes one round too many: an unfinished last line is sent and
  printed twice, and otherwise an empty line is printed that was not in the input. What the server
  prints is not what it has read, but that over the beginning of what it had read before.
\<close>
theorem tcp_echo_example:
  assumes "\<forall>l\<in>set ls. LF \<notin> set l" and "LF \<notin> set r"
    and "sends = ls @ (if r = [] then [[]] else [r, r])"
    and "alive (length (concat sends)) (es_con v, s)" and "Server_isOpened (es_server v)"
    and "length (es_buff v) = server_buffer" and "io_in (to_io s (con_fd (es_con v))) = map RBytes cs"
    and "concat cs = concat sends" and "[] \<notin> set cs" and "\<forall>c\<in>set cs. length c < server_buffer"
    and "length as = length cs"
    and "alive (length (concat sends)) x" and "con_incoming x = concat sends"
  shows "(\<exists>v' s'. server_rounds as v s = (Inr (), v', s') \<and>
      con_sent (es_con v', s') = con_sent (es_con v, s) @ concat sends \<and>
      es_cerr v' = es_cerr v @ read_lines (shown (es_buff v) cs)) \<and>
    (\<exists>x'. client_loop (istream_of (unix_lines ls @ r)) [] x [] = (Inr (), x', read_lines sends) \<and>
      con_sent x' = con_sent x @ concat sends)"
proof
  show "\<exists>v' s'. server_rounds as v s = (Inr (), v', s') \<and>
      con_sent (es_con v', s') = con_sent (es_con v, s) @ concat sends \<and>
      es_cerr v' = es_cerr v @ read_lines (shown (es_buff v) cs)"
    using server_rounds_echo [of cs v s as] assms(4-11) by auto
  have sl: "sent_lines (istream_of (unix_lines ls @ r)) [] = sends"
    using sent_lines_text [OF assms(1,2)] assms(3) by simp
  show "\<exists>x'. client_loop (istream_of (unix_lines ls @ r)) [] x [] = (Inr (), x', read_lines sends) \<and>
      con_sent x' = con_sent x @ concat sends"
    using client_loop_echo [of "istream_of (unix_lines ls @ r)" "[]" x "[]" "[]"] assms(12,13)
    by (auto simp: sl)
qed

section \<open>An instance\<close>

definition echo_os :: "string list \<Rightarrow> tcp_os" where
  "echo_os cs = (sample_os [])\<lparr>to_io := (\<lambda>_. io_init (map RBytes cs) (replicate 4 (WRoom 9)))\<rparr>"

definition echo_start :: echo_server where
  "echo_start = \<lparr>es_server = \<lparr>srv_fd = 4, srv_socket = Sockinfo_default\<rparr>, es_con = sample_con,
     es_buff = replicate server_buffer NUL, es_cerr = []\<rparr>"

lemma echo_os_alive: "alive 4 (sample_con, echo_os cs)"
  by (auto simp: alive_def isOpened_def FD_CLOSED_def sample_con_def echo_os_def sample_os_def io_init_def
      intro: exI [of _ "replicate 4 9"])

theorem tcp_echo_example_witness:
  "\<exists>x'. client_loop (istream_of (''ab'' @ [LF] @ ''c'')) [] (sample_con, echo_os [''a'', ''bcc'']) [] =
     (Inr (), x', read_lines [''ab'', ''c'', ''c''])"
proof -
  let ?sends = "[''ab''] @ (if ''c'' = [] then [[]] else [''c'', ''c''])"
  have al: "alive (length (concat ?sends)) (es_con echo_start, echo_os cs)"
    "alive (length (concat ?sends)) (sample_con, echo_os cs)" for cs
    using echo_os_alive by (simp_all add: echo_start_def eval_nat_numeral)
  have lines: "\<forall>l\<in>set [''ab'']. LF \<notin> set l" "LF \<notin> set ''c''" by simp_all
  have "Server_isOpened (es_server echo_start)" "length (es_buff echo_start) = server_buffer"
    by (simp_all add: echo_start_def Server_isOpened_def FD_CLOSED_def)
  moreover have "io_in (to_io (echo_os [''abc'', ''c'']) (con_fd (es_con echo_start))) = map RBytes [''abc'', ''c'']"
    by (simp add: echo_os_def io_init_def)
  moreover have "con_incoming (sample_con, echo_os [''a'', ''bcc'']) = concat ?sends"
    by (simp add: con_incoming_def isOpened_def FD_CLOSED_def sample_con_def echo_os_def sample_os_def io_init_def)
  ultimately show ?thesis
    using tcp_echo_example [OF lines refl al(1) [of "[''abc'', ''c'']"] _ _ _ _ _ _ _ al(2) [of "[''a'', ''bcc'']"],
        where as = "[Inl EBADF, Inl EBADF]" and cs = "[''abc'', ''c'']"]
    by (simp add: unix_lines_def server_buffer_def del: server_rounds.simps shown.simps) blast
qed

end
