(* ===== verification/Process_Echo.thy ===== *)
theory Process_Echo
  imports Process_Props
begin

text \<open>
  \<^verbatim>\<open>examples/process-echo/main.cpp\<close> and its child \<^verbatim>\<open>examples/echo/main.cpp\<close> running side by side. The
  two pipes hold at most \<open>cap\<close> bytes, and a system call that would block is a step that is not
  enabled. A step of the parent is one system call of the members of \<open>Process\<close> that it calls; a
  step of the child is a system call of its standard streams or a return of \<^verbatim>\<open>fread\<close> with the
  \<^verbatim>\<open>fwrite\<close> behind it.
\<close>

section \<open>The two programs\<close>

text \<open>
  The parent in \<^verbatim>\<open>writeExact\<close> with what it has still to write, in \<^verbatim>\<open>readExact\<close> with what it has got,
  with its buffer filled, or ended by the exception of \<^verbatim>\<open>readExact\<close>. The child in \<^verbatim>\<open>fread\<close>, behind the
  loop, or ended.
\<close>

datatype parent_pc = Writing string | Reading string | Filled string | Ended

datatype child_pc = In_fread | Leaving_main | Exited_main

record echo_run =
  er_parent :: parent_pc
  er_in :: string
  er_in_open :: bool
  er_child :: child_pc
  er_stdin :: string
  er_stdout :: string
  er_out :: string

definition echo_start :: "string \<Rightarrow> echo_run" where
  "echo_start sendbuf =
     \<lparr>er_parent = Writing sendbuf, er_in = [], er_in_open = True, er_child = In_fread, er_stdin = [],
      er_stdout = [], er_out = []\<rparr>"

text \<open>\<open>want\<close> is the size of both buffers of the parent.\<close>

inductive parent_step :: "nat \<Rightarrow> nat \<Rightarrow> echo_run \<Rightarrow> echo_run \<Rightarrow> bool" for cap want where
  send: "er_parent s = Writing rest \<Longrightarrow> 0 < k \<Longrightarrow> k \<le> length rest \<Longrightarrow> length (er_in s) + k \<le> cap \<Longrightarrow>
    parent_step cap want s (s\<lparr>er_parent := Writing (drop k rest), er_in := er_in s @ take k rest\<rparr>)"
| close_stdin: "er_parent s = Writing [] \<Longrightarrow>
    parent_step cap want s (s\<lparr>er_parent := Reading [], er_in_open := False\<rparr>)"
| read: "er_parent s = Reading got \<Longrightarrow> 0 < k \<Longrightarrow> k \<le> length (er_out s) \<Longrightarrow> length got + k \<le> want \<Longrightarrow>
    parent_step cap want s (s\<lparr>er_parent := Reading (got @ take k (er_out s)), er_out := drop k (er_out s)\<rparr>)"
| read_end: "er_parent s = Reading got \<Longrightarrow> length got < want \<Longrightarrow> er_out s = [] \<Longrightarrow> er_child s = Exited_main \<Longrightarrow>
    parent_step cap want s (s\<lparr>er_parent := Ended\<rparr>)"
| filled: "er_parent s = Reading got \<Longrightarrow> length got = want \<Longrightarrow>
    parent_step cap want s (s\<lparr>er_parent := Filled got\<rparr>)"

definition fread_size :: nat where "fread_size = 256"
definition BUFSIZ :: nat where "BUFSIZ = 4096"

text \<open>
  \<^verbatim>\<open>fread\<close> waits for 256 bytes or the end of its input; it refills the buffer of the standard input when
  less is left. What \<^verbatim>\<open>fwrite\<close> takes must fit the buffer of the
  standard output, which may be flushed at any time and is flushed by the return from \<^verbatim>\<open>main\<close>.
\<close>

inductive child_step :: "nat \<Rightarrow> echo_run \<Rightarrow> echo_run \<Rightarrow> bool" for cap where
  fill: "er_child s = In_fread \<Longrightarrow> length (er_stdin s) < fread_size \<Longrightarrow> 0 < k \<Longrightarrow> k \<le> length (er_in s) \<Longrightarrow> k \<le> BUFSIZ \<Longrightarrow>
    child_step cap s (s\<lparr>er_stdin := er_stdin s @ take k (er_in s), er_in := drop k (er_in s)\<rparr>)"
| copy: "er_child s = In_fread \<Longrightarrow> fread_size \<le> length (er_stdin s) \<Longrightarrow>
    length (er_stdout s) + fread_size \<le> BUFSIZ \<Longrightarrow>
    child_step cap s (s\<lparr>er_stdout := er_stdout s @ take fread_size (er_stdin s),
      er_stdin := drop fread_size (er_stdin s)\<rparr>)"
| copy_last: "er_child s = In_fread \<Longrightarrow> length (er_stdin s) < fread_size \<Longrightarrow> er_in s = [] \<Longrightarrow> \<not> er_in_open s \<Longrightarrow>
    length (er_stdout s) + length (er_stdin s) \<le> BUFSIZ \<Longrightarrow>
    child_step cap s (s\<lparr>er_stdout := er_stdout s @ er_stdin s, er_stdin := [], er_child := Leaving_main\<rparr>)"
| flush: "0 < k \<Longrightarrow> k \<le> length (er_stdout s) \<Longrightarrow> length (er_out s) + k \<le> cap \<Longrightarrow>
    child_step cap s (s\<lparr>er_out := er_out s @ take k (er_stdout s), er_stdout := drop k (er_stdout s)\<rparr>)"
| exit_main: "er_child s = Leaving_main \<Longrightarrow> er_stdout s = [] \<Longrightarrow>
    child_step cap s (s\<lparr>er_child := Exited_main\<rparr>)"

definition echo_step :: "nat \<Rightarrow> nat \<Rightarrow> echo_run \<Rightarrow> echo_run \<Rightarrow> bool" where
  "echo_step cap want s s' \<longleftrightarrow> parent_step cap want s s' \<or> child_step cap s s'"

inductive echo_reach :: "nat \<Rightarrow> string \<Rightarrow> echo_run \<Rightarrow> bool" for cap sendbuf where
  start: "echo_reach cap sendbuf (echo_start sendbuf)"
| step: "echo_reach cap sendbuf s \<Longrightarrow> echo_step cap (length sendbuf) s s' \<Longrightarrow> echo_reach cap sendbuf s'"

section \<open>Nothing is lost on the way\<close>

fun received :: "parent_pc \<Rightarrow> string" where
  "received (Reading got) = got"
| "received (Filled got) = got"
| "received _ = []"

fun unsent :: "parent_pc \<Rightarrow> string" where
  "unsent (Writing rest) = rest"
| "unsent _ = []"

text \<open>Where the bytes of the parent's buffer are: received, or in order on the way, or not sent yet.\<close>

definition on_the_way :: "echo_run \<Rightarrow> string" where
  "on_the_way s =
     received (er_parent s) @ er_out s @ er_stdout s @ er_stdin s @ er_in s @ unsent (er_parent s)"

definition echo_inv :: "string \<Rightarrow> echo_run \<Rightarrow> bool" where
  "echo_inv sendbuf s \<longleftrightarrow>
     on_the_way s = sendbuf \<and> er_parent s \<noteq> Ended \<and>
     (er_in_open s \<longleftrightarrow> (\<exists>rest. er_parent s = Writing rest)) \<and>
     (\<forall>got. er_parent s = Filled got \<longrightarrow> length got = length sendbuf) \<and>
     (er_child s \<noteq> In_fread \<longrightarrow> er_stdin s = [] \<and> er_in s = [] \<and> \<not> er_in_open s) \<and>
     (er_child s = Exited_main \<longrightarrow> er_stdout s = [])"

lemma echo_inv_start: "echo_inv sendbuf (echo_start sendbuf)"
  by (simp add: echo_inv_def echo_start_def on_the_way_def)

lemma take_drop_join: "take k xs @ drop k xs @ ys = xs @ ys"
  by (metis append.assoc append_take_drop_id)

lemma parent_step_inv:
  assumes "parent_step cap (length sendbuf) s s'" and "echo_inv sendbuf s"
  shows "echo_inv sendbuf s'"
  using assms(1)
proof cases
  case (read_end got)
  then show ?thesis using assms(2) by (auto simp: echo_inv_def on_the_way_def)
qed (use assms(2) in \<open>simp add: echo_inv_def on_the_way_def take_drop_join; blast?\<close>)+

lemma child_step_inv:
  assumes "child_step cap s s'" and "echo_inv sendbuf s"
  shows "echo_inv sendbuf s'"
  using assms(1)
  by cases (use assms(2) in \<open>simp add: echo_inv_def on_the_way_def take_drop_join; (blast | auto)?\<close>)+

lemma echo_reach_inv: "echo_reach cap sendbuf s \<Longrightarrow> echo_inv sendbuf s"
  by (induction rule: echo_reach.induct)
     (auto simp: echo_step_def intro: echo_inv_start parent_step_inv child_step_inv)

section \<open>Every step is progress\<close>

fun parent_rank :: "parent_pc \<Rightarrow> nat" where
  "parent_rank (Writing _) = 2"
| "parent_rank (Reading _) = 1"
| "parent_rank _ = 0"

fun child_rank :: "child_pc \<Rightarrow> nat" where
  "child_rank In_fread = 2"
| "child_rank Leaving_main = 1"
| "child_rank Exited_main = 0"

definition distance :: "echo_run \<Rightarrow> nat" where
  "distance s =
     5 * length (unsent (er_parent s)) + 4 * length (er_in s) + 3 * length (er_stdin s) +
     2 * length (er_stdout s) + length (er_out s) + parent_rank (er_parent s) + child_rank (er_child s)"

lemma parent_step_distance: "parent_step cap want s s' \<Longrightarrow> distance s' < distance s"
  by (cases rule: parent_step.cases) (auto simp: distance_def)

lemma child_step_distance: "child_step cap s s' \<Longrightarrow> distance s' < distance s"
  by (cases rule: child_step.cases) (auto simp: distance_def fread_size_def)

lemma echo_step_distance: "echo_step cap want s s' \<Longrightarrow> distance s' < distance s"
  by (auto simp: echo_step_def intro: parent_step_distance child_step_distance)

section \<open>No deadlock while the buffer fits a pipe\<close>

text \<open>One byte at a time is always a step, where any number is.\<close>

lemma can_send: "er_parent s = Writing rest \<Longrightarrow> rest \<noteq> [] \<Longrightarrow> length (er_in s) < cap \<Longrightarrow> \<exists>s'. echo_step cap want s s'"
  by (auto simp: echo_step_def Suc_le_eq intro!: exI parent_step.send[where k = 1])

lemma can_read: "er_parent s = Reading got \<Longrightarrow> er_out s \<noteq> [] \<Longrightarrow> length got < want \<Longrightarrow> \<exists>s'. echo_step cap want s s'"
  by (auto simp: echo_step_def Suc_le_eq intro!: exI parent_step.read[where k = 1])

lemma can_fill: "er_child s = In_fread \<Longrightarrow> length (er_stdin s) < fread_size \<Longrightarrow> er_in s \<noteq> [] \<Longrightarrow> \<exists>s'. echo_step cap want s s'"
  by (auto simp: echo_step_def Suc_le_eq BUFSIZ_def intro!: exI child_step.fill[where k = 1])

lemma can_flush: "er_stdout s \<noteq> [] \<Longrightarrow> length (er_out s) < cap \<Longrightarrow> \<exists>s'. echo_step cap want s s'"
  by (auto simp: echo_step_def Suc_le_eq intro!: exI child_step.flush[where k = 1])

lemma length_on_the_way:
  "echo_inv sendbuf s \<Longrightarrow>
   length (received (er_parent s)) + length (er_out s) + length (er_stdout s) + length (er_stdin s) +
     length (er_in s) + length (unsent (er_parent s)) = length sendbuf"
  by (auto simp: echo_inv_def on_the_way_def)

lemma child_can_move:
  assumes "echo_inv sendbuf s" and "length sendbuf \<le> cap" and "\<not> er_in_open s"
    and "er_child s \<noteq> Exited_main"
  shows "\<exists>s'. echo_step cap want s s'"
proof (cases "er_stdout s = []")
  case False
  then show ?thesis
    using can_flush length_on_the_way[OF assms(1)] assms(2) by (cases "er_stdout s") fastforce+
next
  case stdout: True
  consider "er_child s = Leaving_main" | "er_child s = In_fread"
    using assms(4) by (cases "er_child s") auto
  then show ?thesis
  proof cases
    case 1
    then show ?thesis using stdout child_step.exit_main by (auto simp: echo_step_def)
  next
    case fread: 2
    consider "fread_size \<le> length (er_stdin s)" | "length (er_stdin s) < fread_size" "er_in s \<noteq> []"
      | "length (er_stdin s) < fread_size" "er_in s = []"
      by linarith
    then show ?thesis
    proof cases
      case 1
      then show ?thesis
        using stdout fread child_step.copy by (force simp: echo_step_def BUFSIZ_def fread_size_def)
    next
      case 2
      then show ?thesis using fread can_fill by blast
    next
      case 3
      then show ?thesis
        using stdout fread assms(3) child_step.copy_last
        by (force simp: echo_step_def BUFSIZ_def fread_size_def)
    qed
  qed
qed

lemma parent_can_write:
  assumes "echo_inv sendbuf s" and "length sendbuf \<le> cap" and "er_in_open s"
  shows "\<exists>s'. echo_step cap want s s'"
proof -
  obtain rest where rest: "er_parent s = Writing rest" using assms(1,3) by (auto simp: echo_inv_def)
  show ?thesis
  proof (cases "rest = []")
    case True
    then show ?thesis using rest parent_step.close_stdin unfolding echo_step_def by blast
  next
    case False
    then have "length (er_in s) < cap"
      using length_on_the_way[OF assms(1)] assms(2) rest by (cases rest) simp_all
    then show ?thesis using can_send[OF rest False] by blast
  qed
qed

lemma parent_can_read:
  assumes inv: "echo_inv sendbuf s" and "\<not> er_in_open s" and "er_child s = Exited_main"
  shows "(\<exists>s'. echo_step cap (length sendbuf) s s') \<or> (\<exists>got. er_parent s = Filled got)"
proof (cases "er_parent s")
  case (Reading got)
  have len: "length got + length (er_out s) = length sendbuf"
    using inv assms(2,3) Reading length_on_the_way[OF inv] by (simp add: echo_inv_def)
  show ?thesis
  proof (cases "er_out s = []")
    case True
    then show ?thesis using len parent_step.filled[OF Reading] unfolding echo_step_def by auto
  next
    case False
    then have "length got < length sendbuf" using len by (cases "er_out s") simp_all
    then show ?thesis using can_read[OF Reading False] by blast
  qed
qed (use inv assms(2) in \<open>simp_all add: echo_inv_def\<close>)

lemma filled_with_all: "echo_inv sendbuf s \<Longrightarrow> er_parent s = Filled got \<Longrightarrow> got = sendbuf"
  by (auto simp: echo_inv_def on_the_way_def)

lemma echo_can_move:
  assumes "echo_inv sendbuf s" and "length sendbuf \<le> cap"
  shows "(\<exists>s'. echo_step cap (length sendbuf) s s') \<or> er_parent s = Filled sendbuf \<and> er_child s = Exited_main"
  using parent_can_write[OF assms] child_can_move[OF assms] parent_can_read[OF assms(1)]
    filled_with_all[OF assms(1)]
  by blast

text \<open>
  C27: One round of the loop of \<^verbatim>\<open>process-echo\<close> returns while its buffer fits a pipe (16 KiB and 64 KiB): in
  every state that it can reach, \<^verbatim>\<open>readExact\<close> has not thrown, every step of either program brings the
  end nearer, and one of the two programs can go on unless the parent has got back exactly the bytes
  of \<^verbatim>\<open>sendbuf\<close> and the child has returned from \<^verbatim>\<open>main\<close> (so that the destructor can collect it).
\<close>

theorem process_echo_returns:
  assumes "echo_reach cap sendbuf s" and "length sendbuf \<le> cap"
  shows "er_parent s \<noteq> Ended \<and>
    {s'. echo_step cap (length sendbuf) s s'} \<subseteq> {s'. distance s' < distance s} \<and>
    ((\<exists>s'. echo_step cap (length sendbuf) s s') \<or>
     er_parent s = Filled sendbuf \<and> er_child s = Exited_main)"
proof -
  have inv: "echo_inv sendbuf s" by (rule echo_reach_inv[OF assms(1)])
  show ?thesis
    using inv echo_can_move[OF inv assms(2)] echo_step_distance by (auto simp: echo_inv_def)
qed

theorem process_echo_returns_witness:
  "\<exists>s'. echo_step 65536 16384 (echo_start (replicate 16384 CHR ''a'')) s'"
  using process_echo_returns[OF echo_reach.start, of "replicate 16384 CHR ''a''" 65536]
  by (simp add: echo_start_def)

section \<open>A buffer that fits nowhere\<close>

text \<open>The parent reads nothing before it has written all, so a large buffer stops both programs.\<close>

definition within_capacity :: "nat \<Rightarrow> echo_run \<Rightarrow> bool" where
  "within_capacity cap s \<longleftrightarrow>
     length (er_in s) \<le> cap \<and> length (er_stdin s) < fread_size + BUFSIZ \<and>
     length (er_stdout s) \<le> BUFSIZ \<and> length (er_out s) \<le> cap"

lemma echo_step_capacity:
  assumes "echo_step cap want s s'" and "within_capacity cap s"
  shows "within_capacity cap s'"
  using assms(1) unfolding echo_step_def
proof
  assume "parent_step cap want s s'"
  then show ?thesis using assms(2) by cases (auto simp: within_capacity_def)
next
  assume "child_step cap s s'"
  then show ?thesis using assms(2) by cases (auto simp: within_capacity_def fread_size_def)
qed

lemma echo_reach_capacity: "echo_reach cap sendbuf s \<Longrightarrow> within_capacity cap s"
proof (induction rule: echo_reach.induct)
  case start
  show ?case by (simp add: echo_start_def within_capacity_def fread_size_def)
qed (rule echo_step_capacity)

lemma echo_step_writing:
  "echo_step cap want s s' \<Longrightarrow> er_parent s = Writing rest \<Longrightarrow> rest \<noteq> [] \<Longrightarrow> \<exists>rest'. er_parent s' = Writing rest'"
  unfolding echo_step_def by (elim disjE parent_step.cases child_step.cases) auto

lemma large_buffer_never_sent:
  assumes "echo_reach cap sendbuf s" and "2 * cap + 2 * BUFSIZ + fread_size \<le> length sendbuf"
  shows "\<exists>rest. er_parent s = Writing rest \<and> rest \<noteq> []"
  using assms(1)
proof (induction rule: echo_reach.induct)
  case start
  then show ?case using assms(2) by (auto simp: echo_start_def BUFSIZ_def)
next
  case (step s s')
  have reach: "echo_reach cap sendbuf s'" using step(1,2) by (rule echo_reach.step)
  obtain rest where rest: "er_parent s' = Writing rest" using step echo_step_writing by blast
  have "rest \<noteq> []"
    using length_on_the_way[OF echo_reach_inv[OF reach]] echo_reach_capacity[OF reach] rest assms(2)
    by (auto simp: within_capacity_def)
  then show ?case using rest by blast
qed

section \<open>Behind close\<close>

text \<open>The last block of \<^verbatim>\<open>main\<close>: after \<^verbatim>\<open>close\<close> has returned, \<^verbatim>\<open>isReadable\<close> is false.\<close>

lemma closed_not_readable: "Process_close x = (Inr (), y) \<Longrightarrow> Process_isReadable y = Inr False"
  by (auto simp: Process_close_def Process_closeStdin_def Process_isReadable_def desc_close_def desc_isClosed_def
      split: prod.splits sum.splits if_splits)

end
