(* ===== verification/Shm_Example.thy ===== *)
theory Shm_Example
  imports Shm_Map
begin

text \<open>
  \<^verbatim>\<open>examples/shmem-example/main.cpp\<close>: a child and its parent insert two keys each into one map in
  shared memory and look up all four. Here the processes of \<open>Shm_Map\<close> run programs: a process
  enters the map only with its next operation, and stops when an operation throws. The log
  records who did what with which result.
\<close>

section \<open>Processes that run programs\<close>

record ('k, 'v) procs =
  ex_map :: "('k, 'v) ShMap"
  ex_todo :: "nat \<Rightarrow> ('k, 'v) map_op list"
  ex_log :: "(nat \<times> ('k, 'v) map_op \<times> 'v map_res) list"

fun raised :: "'v map_res \<Rightarrow> bool" where
  "raised (Raised _) = True"
| "raised _ = False"

inductive ex_step :: "u64 \<Rightarrow> ('k, 'v) procs \<Rightarrow> ('k, 'v) procs \<Rightarrow> bool" for ns where
  enter: "m = ex_map s \<Longrightarrow> mp_pc m p = Outside \<Longrightarrow> ex_todo s p = op # rest \<Longrightarrow>
    sem_lock False (mp_mutex m) (mp_shm m) = Done t \<Longrightarrow>
    ex_step ns s (s\<lparr>ex_map := m\<lparr>mp_shm := t, mp_pc := (mp_pc m)(p := Inside op)\<rparr>,
      ex_todo := (ex_todo s)(p := rest)\<rparr>)"
| look: "m = ex_map s \<Longrightarrow> mp_pc m p = Inside op \<Longrightarrow>
    ex_step ns s (s\<lparr>ex_map := m\<lparr>mp_pc := (mp_pc m)(p := Looked op (mp_map m (op_key op)))\<rparr>\<rparr>)"
| act: "m = ex_map s \<Longrightarrow> mp_pc m p = Looked op found \<Longrightarrow> map_act ns op found m = Some (r, m') \<Longrightarrow>
    ex_step ns s (s\<lparr>ex_map := m'\<lparr>mp_pc := (mp_pc m)(p := Leaving r), mp_hist := mp_hist m @ [(op, r)]\<rparr>,
      ex_todo := (if raised r then (ex_todo s)(p := []) else ex_todo s), ex_log := ex_log s @ [(p, op, r)]\<rparr>)"
| leave: "m = ex_map s \<Longrightarrow> mp_pc m p = Leaving r \<Longrightarrow> sem_unlock (mp_mutex m) (mp_shm m) = Done t \<Longrightarrow>
    ex_step ns s (s\<lparr>ex_map := m\<lparr>mp_shm := t, mp_pc := (mp_pc m)(p := Outside)\<rparr>\<rparr>)"
| others: "m = ex_map s \<Longrightarrow> shm_sems t (mp_mutex m) = shm_sems (mp_shm m) (mp_mutex m) \<Longrightarrow>
    ex_step ns s (s\<lparr>ex_map := m\<lparr>mp_shm := t\<rparr>\<rparr>)"

inductive ex_reach :: "u64 \<Rightarrow> ('k, 'v) procs \<Rightarrow> ('k, 'v) procs \<Rightarrow> bool" for ns s where
  start: "ex_reach ns s s"
| step: "ex_reach ns s s' \<Longrightarrow> ex_step ns s' s'' \<Longrightarrow> ex_reach ns s s''"

definition ex_start :: "(nat \<Rightarrow> ('k, 'v) map_op list) \<Rightarrow> ('k, 'v) ShMap \<Rightarrow> ('k, 'v) procs" where
  "ex_start ops m = \<lparr>ex_map = m, ex_todo = ops, ex_log = []\<rparr>"

text \<open>What a process has done, what it is doing, and when it is through without an exception.\<close>

definition done_by :: "nat \<Rightarrow> (nat \<times> 'a) list \<Rightarrow> 'a list" where
  "done_by p l = map snd (filter (\<lambda>x. fst x = p) l)"

definition doing :: "nat \<Rightarrow> ('k, 'v) procs \<Rightarrow> ('k, 'v) map_op list" where
  "doing p s = (case mp_pc (ex_map s) p of Inside op \<Rightarrow> [op] | Looked op _ \<Rightarrow> [op] | _ \<Rightarrow> [])"

definition returned :: "nat \<Rightarrow> ('k, 'v) procs \<Rightarrow> bool" where
  "returned p s \<longleftrightarrow> ex_todo s p = [] \<and> mp_pc (ex_map s) p = Outside \<and>
     list_all (\<lambda>(op, r). \<not> raised r) (done_by p (ex_log s))"

section \<open>The processes refine the map, and keep their program's order\<close>

lemma ex_step_map: "ex_step ns s s' \<Longrightarrow> map_step ns (ex_map s) (ex_map s')"
  by (cases rule: ex_step.cases) (auto intro: map_step.intros)

lemma ex_reach_map: "ex_reach ns s s' \<Longrightarrow> map_reach ns (ex_map s) (ex_map s')"
  by (induction rule: ex_reach.induct) (auto intro: map_reach.intros ex_step_map)

text \<open>What a process is doing and has still to do.\<close>

definition plan :: "nat \<Rightarrow> ('k, 'v) procs \<Rightarrow> ('k, 'v) map_op list" where
  "plan p s = doing p s @ ex_todo s p"

lemma ex_step_plan:
  assumes "ex_step ns s s'"
  obtains (silent) "ex_log s' = ex_log s" and "mp_hist (ex_map s') = mp_hist (ex_map s)"
      and "\<And>q. plan q s' = plan q s"
    | (acts) p op r rest where "ex_log s' = ex_log s @ [(p, op, r)]"
      and "mp_hist (ex_map s') = mp_hist (ex_map s) @ [(op, r)]"
      and "plan p s = op # rest" and "plan p s' = (if raised r then [] else rest)"
      and "\<And>q. q \<noteq> p \<Longrightarrow> plan q s' = plan q s"
  using assms
proof cases
  case (act m p op found r m')
  then show thesis by (intro acts [of p op r "ex_todo s p"]) (auto simp: plan_def doing_def)
qed (rule silent; auto simp: plan_def doing_def)+

definition in_order :: "(nat \<Rightarrow> ('k, 'v) map_op list) \<Rightarrow> ('k, 'v) procs \<Rightarrow> bool" where
  "in_order ops s \<longleftrightarrow>
     mp_hist (ex_map s) = map snd (ex_log s) \<and>
     (\<forall>p. prefix (map fst (done_by p (ex_log s)) @ plan p s) (ops p) \<and>
        (list_all (\<lambda>(op, r). \<not> raised r) (done_by p (ex_log s)) \<longrightarrow>
           map fst (done_by p (ex_log s)) @ plan p s = ops p))"

lemma done_by_snoc [simp]:
  "done_by p (l @ [(q, x)]) = (if q = p then done_by p l @ [x] else done_by p l)"
  by (simp add: done_by_def)

lemma in_orderD:
  assumes "in_order ops s"
  shows "mp_hist (ex_map s) = map snd (ex_log s)"
    and "prefix (map fst (done_by p (ex_log s)) @ plan p s) (ops p)"
    and "list_all (\<lambda>(op, r). \<not> raised r) (done_by p (ex_log s)) \<Longrightarrow>
      map fst (done_by p (ex_log s)) @ plan p s = ops p"
  using assms by (auto simp: in_order_def)

lemma ex_step_in_order:
  assumes "ex_step ns s s'" and "in_order ops s"
  shows "in_order ops s'"
  using assms(1)
proof (cases rule: ex_step_plan)
  case silent
  then show ?thesis using assms(2) by (simp add: in_order_def)
next
  case (acts p op r rest)
  note o = in_orderD [OF assms(2)]
  have "prefix (map fst (done_by p (ex_log s)) @ [op]) (ops p)"
    using o(2) [of p] acts(3) by (metis append.assoc append_Cons append_Nil append_prefixD)
  moreover have "prefix (map fst (done_by q (ex_log s')) @ plan q s') (ops q) \<and>
      (list_all (\<lambda>(op, r). \<not> raised r) (done_by q (ex_log s')) \<longrightarrow>
         map fst (done_by q (ex_log s')) @ plan q s' = ops q)" if "q \<noteq> p" for q
    using o(2,3) [of q] acts(1) acts(5) [OF that] that by simp
  ultimately show ?thesis
    unfolding in_order_def using o(1) o(2,3) [of p] acts by (auto simp: all_conj_distrib)
qed

lemma ex_reach_in_order: "ex_reach ns (ex_start ops m) s \<Longrightarrow> mp_hist m = [] \<Longrightarrow>
    \<forall>p. mp_pc m p = Outside \<Longrightarrow> in_order ops s"
proof (induction rule: ex_reach.induct)
  case start
  then show ?case by (simp add: in_order_def ex_start_def done_by_def plan_def doing_def)
qed (auto intro: ex_step_in_order)

section \<open>Maps that only grow\<close>

definition contents :: "(nat \<times> ('k, 'v) map_op \<times> 'v map_res) list \<Rightarrow> ('k \<rightharpoonup> 'v) option" where
  "contents l = seq_run (map snd l) Map.empty"

definition never_erases :: "(nat \<times> ('k, 'v) map_op \<times> 'v map_res) list \<Rightarrow> bool" where
  "never_erases l \<longleftrightarrow> (\<forall>p k r. (p, Erase k, r) \<notin> set l)"

lemma never_erases_simps [simp]:
  "never_erases []"
  "never_erases ((p, op, r) # l) \<longleftrightarrow> (\<forall>k. op \<noteq> Erase k) \<and> never_erases l"
  "never_erases (l @ l') \<longleftrightarrow> never_erases l \<and> never_erases l'"
  by (auto simp: never_erases_def)

lemma seq_op_grows:
  assumes "seq_op op r m = Some m'" and "\<forall>k. op \<noteq> Erase k"
  shows "m \<subseteq>\<^sub>m m'" and "m' k = Some v \<Longrightarrow> m k = Some v \<or> op = Insert k v"
  using assms by (induction op r m rule: seq_op.induct) (auto simp: map_le_def split: option.splits if_splits)

lemma seq_op_insert:
  "seq_op (Insert k v) r m = Some m' \<Longrightarrow> \<not> raised r \<Longrightarrow> m' k \<noteq> None \<and> (m k = None \<longrightarrow> r = Inserted True v)"
  by (cases r) (auto split: option.splits if_splits)

lemma seq_op_find: "seq_op (Find k) r m = Some m' \<Longrightarrow> r = Found (m k) \<and> m' = m"
  by (cases r) (auto split: if_splits)

lemma seq_run_grows:
  "seq_run (map snd l) m = Some m' \<Longrightarrow> never_erases l \<Longrightarrow> m \<subseteq>\<^sub>m m'"
proof (induction l arbitrary: m)
  case (Cons x l)
  obtain p op r where x: "x = (p, op, r)" by (rule prod_cases3)
  with Cons.prems(1) obtain m1 where m1: "seq_op op r m = Some m1" "seq_run (map snd l) m1 = Some m'"
    by (auto simp: bind_eq_Some_conv)
  have "m \<subseteq>\<^sub>m m1" using seq_op_grows(1) [OF m1(1)] Cons.prems(2) x by simp
  also have "m1 \<subseteq>\<^sub>m m'" using Cons.IH [OF m1(2)] Cons.prems(2) x by simp
  finally (map_le_trans) show ?case .
qed simp

lemma contents_snoc:
  "contents (l @ [(p, op, r)]) = Option.bind (contents l) (seq_op op r)"
  by (cases "contents l"; cases "Option.bind (contents l) (seq_op op r)")
     (auto simp: contents_def seq_run_append bind_eq_Some_conv)

lemma contents_value:
  "contents l = Some m \<Longrightarrow> never_erases l \<Longrightarrow> m k = Some v \<Longrightarrow> \<exists>p r. (p, Insert k v, r) \<in> set l"
proof (induction l arbitrary: m rule: rev_induct)
  case (snoc x l)
  obtain p op r where x: "x = (p, op, r)" by (rule prod_cases3)
  with snoc.prems(1) obtain m1 where m1: "contents l = Some m1" "seq_op op r m1 = Some m"
    by (auto simp: contents_snoc bind_eq_Some_conv)
  from seq_op_grows(2) [OF m1(2) _ snoc.prems(3)] snoc.IH [OF m1(1)] snoc.prems(2)
  show ?case by (auto simp: x)
qed (simp add: contents_def)

lemma contents_split:
  assumes "contents (a @ (p, op, r) # b) = Some m"
  obtains ma mb where "contents a = Some ma" and "seq_op op r ma = Some mb"
    and "seq_run (map snd b) mb = Some m"
  using assms by (auto simp: contents_def seq_run_append bind_eq_Some_conv)

lemma contents_append:
  assumes "contents (a @ b) = Some m"
  obtains ma where "contents a = Some ma"
  using assms by (auto simp: contents_def seq_run_append bind_eq_Some_conv)

lemma inserted_present:
  assumes "contents l = Some m" and "never_erases l" and "(q, Insert k v, r) \<in> set l" and "\<not> raised r"
  shows "m k \<noteq> None"
proof -
  obtain a b where l: "l = a @ (q, Insert k v, r) # b" using assms(3) by (meson split_list)
  obtain ma mb where m: "seq_op (Insert k v) r ma = Some mb" "seq_run (map snd b) mb = Some m"
    using assms(1) unfolding l by (rule contents_split)
  have "mb \<subseteq>\<^sub>m m" using seq_run_grows [OF m(2)] assms(2) l by simp
  with seq_op_insert [OF m(1) assms(4)] show ?thesis by (force simp: map_le_def)
qed

section \<open>What a process has seen\<close>

lemma done_by_append [simp]: "done_by p (a @ b) = done_by p a @ done_by p b"
  by (simp add: done_by_def)

lemma done_by_in: "x \<in> set (done_by p l) \<longleftrightarrow> (p, x) \<in> set l"
  by (force simp: done_by_def)

lemma done_by_Cons [simp]: "done_by p ((q, x) # l) = (if q = p then x # done_by p l else done_by p l)"
  by (simp add: done_by_def)

lemma done_by_split_ex:
  "done_by p l = xs @ x # ys \<Longrightarrow> \<exists>a b. l = a @ (p, x) # b \<and> done_by p a = xs \<and> done_by p b = ys"
proof (induction l arbitrary: xs)
  case Nil
  then show ?case by (simp add: done_by_def)
next
  case (Cons y l)
  obtain q z where y: "y = (q, z)" by fastforce
  show ?case
  proof (cases "q = p \<and> xs = []")
    case True
    with Cons.prems y show ?thesis by (intro exI [of _ "[]"] exI [of _ l]) (simp add: done_by_def)
  next
    case False
    define xs' where "xs' = (if q = p then tl xs else xs)"
    have "done_by p l = xs' @ x # ys" using Cons.prems False by (cases xs) (auto simp: y xs'_def split: if_splits)
    from Cons.IH [OF this] obtain a b where "l = a @ (p, x) # b" "done_by p a = xs'" "done_by p b = ys" by blast
    moreover have "q = p \<Longrightarrow> z # xs' = xs" using Cons.prems False by (cases xs) (auto simp: y xs'_def)
    ultimately show ?thesis
      by (intro exI [of _ "y # a"] exI [of _ b]) (auto simp: y xs'_def)
  qed
qed

lemma done_by_split:
  assumes "done_by p l = xs @ x # ys"
  obtains a b where "l = a @ (p, x) # b" and "done_by p a = xs" and "done_by p b = ys"
  using done_by_split_ex [OF assms] by blast

text \<open>
  A look-up finds what any process had put there before; if it finds nothing at a moment, the process
  that inserts the key had not got that far.
\<close>

lemma look_up:
  assumes "contents l = Some m" and "done_by p l = xs @ (Find k, f) # ys"
  obtains a b ma where "l = a @ (p, Find k, f) # b" and "done_by p a = xs" and "contents a = Some ma"
    and "f = Found (ma k)"
proof -
  obtain a b where l: "l = a @ (p, Find k, f) # b" "done_by p a = xs"
    using assms(2) by (rule done_by_split)
  obtain ma mb where m: "contents a = Some ma" "seq_op (Find k) f ma = Some mb"
    using assms(1) unfolding l(1) by (rule contents_split)
  from that [OF l m(1)] seq_op_find [OF m(2)] show thesis by simp
qed

lemma sees_inserted:
  assumes c: "contents l = Some m" "never_erases l" and l: "l = a @ b"
    and ins: "(q, Insert k v, r) \<in> set a" "\<not> raised r"
    and d: "done_by p l = xs @ (Find k, f) # ys" and le: "length (done_by p a) \<le> length xs"
  shows "\<exists>w. f = Found (Some w)"
proof -
  have "done_by p b = drop (length (done_by p a)) (xs @ (Find k, f) # ys)"
    using d l by (metis append_eq_conv_conj done_by_append)
  then have "done_by p b = drop (length (done_by p a)) xs @ (Find k, f) # ys" using le by simp
  then obtain b1 b2 where b: "b = b1 @ (p, Find k, f) # b2" by (rule done_by_split)
  obtain ma mb where m: "contents (a @ b1) = Some ma" "seq_op (Find k) f ma = Some mb"
    using c(1) unfolding l b append_assoc [symmetric] by (rule contents_split)
  have "ma k \<noteq> None"
    by (rule inserted_present [OF m(1)]) (use c(2) l b ins in auto)
  with seq_op_find [OF m(2)] show ?thesis by auto
qed

lemma not_yet_inserted:
  assumes c: "contents a = Some ma" "never_erases a" "ma k = None"
    and d: "done_by p (a @ b) = xs @ (Insert k v, r) # ys" and r: "\<not> raised r"
  shows "length (done_by p a) \<le> length xs"
proof (rule ccontr)
  assume "\<not> length (done_by p a) \<le> length xs"
  then have "(done_by p a @ done_by p b) ! length xs = done_by p a ! length xs"
    and lt: "length xs < length (done_by p a)" by (simp_all add: nth_append)
  then have "(Insert k v, r) = done_by p a ! length xs" using d by simp
  then have "(Insert k v, r) \<in> set (done_by p a)" using lt by (metis nth_mem)
  then have "(p, Insert k v, r) \<in> set a" by (simp add: done_by_in)
  with inserted_present [OF c(1,2) _ r] c(3) show False by blast
qed

section \<open>The example\<close>

definition key_1 :: string where "key_1 = ''long_long_long_string_1''"
definition key_2 :: string where "key_2 = ''long_long_long_string_2''"
definition key_3 :: string where "key_3 = ''long_long_long_string_3''"
definition key_4 :: string where "key_4 = ''long_long_long_string_4''"

lemma keys_differ [simp]:
  "key_1 \<noteq> key_2" "key_1 \<noteq> key_3" "key_1 \<noteq> key_4" "key_2 \<noteq> key_3" "key_2 \<noteq> key_4" "key_3 \<noteq> key_4"
  "key_2 \<noteq> key_1" "key_3 \<noteq> key_1" "key_4 \<noteq> key_1" "key_3 \<noteq> key_2" "key_4 \<noteq> key_2" "key_4 \<noteq> key_3"
  by (simp_all add: key_1_def key_2_def key_3_def key_4_def)

definition look_ups :: "(string, int) map_op list" where
  "look_ups = map Find [key_1, key_2, key_3, key_4]"

definition child_ops :: "(string, int) map_op list" where
  "child_ops = [Insert key_1 1, Insert key_3 3] @ look_ups"

definition parent_ops :: "(string, int) map_op list" where
  "parent_ops = [Insert key_2 2, Insert key_4 4] @ look_ups"

definition CHILD :: nat where "CHILD = 0"
definition PARENT :: nat where "PARENT = 1"

definition example_ops :: "nat \<Rightarrow> (string, int) map_op list" where
  "example_ops p = (if p = CHILD then child_ops else if p = PARENT then parent_ops else [])"

lemma example_ops_simps [simp]:
  "example_ops CHILD = child_ops" "example_ops PARENT = parent_ops" "CHILD \<noteq> PARENT"
  by (simp_all add: example_ops_def CHILD_def PARENT_def)

text \<open>
  What a process prints about its look-ups. The child leaves by \<^verbatim>\<open>_exit\<close>, which does not flush: what it
  has printed gets out only if standard output is a terminal, where every line is flushed.
\<close>

definition show_value :: "int \<Rightarrow> string" where
  "show_value v = (if v < 0 then ''-'' @ to_dec (nat (- v)) else to_dec (nat v))"

fun print_result :: "string \<Rightarrow> (string, int) map_op \<times> int map_res \<Rightarrow> string" where
  "print_result who (Find k, Found None) = who @ ''no '' @ k @ [LF]"
| "print_result who (Find k, Found (Some v)) = who @ k @ '' : '' @ show_value v @ [LF]"
| "print_result who _ = []"

definition child_output :: "bool \<Rightarrow> ((string, int) map_op \<times> int map_res) list \<Rightarrow> string" where
  "child_output terminal rs = (if terminal then concat (map (print_result ''[child]: '') rs) else [])"

definition parent_output :: "((string, int) map_op \<times> int map_res) list \<Rightarrow> string" where
  "parent_output rs = concat (map (print_result ''[parent]: '') rs)"

text \<open>
  How \<^verbatim>\<open>main\<close> of the parent goes on behind a return of \<^verbatim>\<open>waitpid\<close>: \<open>Inl\<close> is \<^verbatim>\<open>-1\<close> with the number of the
  error, \<open>None\<close> another round of its loop. The error is tested with a bitwise and.
\<close>

datatype main_end = Exit_success | Uncaught int

definition EINTR_number :: int where "EINTR_number = 4"

definition after_waitpid :: "int \<Rightarrow> int + int \<Rightarrow> main_end option" where
  "after_waitpid pid result =
     (case result of
        Inr r \<Rightarrow> if r = pid then Some Exit_success else None
      | Inl e \<Rightarrow> if and e EINTR_number = 0 then Some Exit_success else Some (Uncaught e))"

text \<open>A signal during the wait is not waited out: it ends the program with an exception.\<close>

lemma interrupted_wait_throws: "after_waitpid pid (Inl EINTR_number) = Some (Uncaught EINTR_number)"
  by (simp add: after_waitpid_def EINTR_number_def)

section \<open>The outcome\<close>

definition value_of :: "string \<rightharpoonup> int" where
  "value_of = [key_1 \<mapsto> 1, key_2 \<mapsto> 2, key_3 \<mapsto> 3, key_4 \<mapsto> 4]"

lemma example_op_cases:
  assumes "op \<in> set (example_ops p)"
  shows "(\<forall>k. op \<noteq> Erase k) \<and> (\<forall>k v. op = Insert k v \<longrightarrow> value_of k = Some v)"
  using assms
  by (auto simp: example_ops_def child_ops_def parent_ops_def look_ups_def value_of_def split: if_splits)

definition legal :: "(nat \<times> (string, int) map_op \<times> int map_res) list \<Rightarrow> bool" where
  "legal l \<longleftrightarrow> (\<forall>p op r. (p, op, r) \<in> set l \<longrightarrow> op \<in> set (example_ops p))"

lemma legal_append [simp]: "legal (a @ b) \<longleftrightarrow> legal a \<and> legal b"
  by (simp add: legal_def) blast

lemma in_order_legal:
  assumes "in_order example_ops s"
  shows "legal (ex_log s)"
  unfolding legal_def
proof clarify
  fix p op r assume "(p, op, r) \<in> set (ex_log s)"
  then have "(op, r) \<in> set (done_by p (ex_log s))" by (simp add: done_by_in)
  then have "op \<in> set (map fst (done_by p (ex_log s)) @ plan p s)" by (force intro: rev_image_eqI)
  then show "op \<in> set (example_ops p)"
    using set_mono_prefix [OF in_orderD(2) [OF assms, of p]] by (rule rev_subsetD)
qed

lemma legal_never_erases: "legal l \<Longrightarrow> never_erases l"
  using example_op_cases by (fastforce simp: legal_def never_erases_def)

lemma legal_value:
  assumes "contents l = Some m" and "legal l"
  shows "m k \<in> {None, value_of k}"
proof (cases "m k")
  case (Some v)
  then obtain p r where "(p, Insert k v, r) \<in> set l"
    using contents_value [OF assms(1) legal_never_erases [OF assms(2)]] by blast
  then have "Insert k v \<in> set (example_ops p)" using assms(2) by (auto simp: legal_def)
  from example_op_cases [OF this] Some show ?thesis by simp
qed simp

text \<open>
  A process that has returned has the results of its whole program, and what it inserted was new:
  nobody else inserts its keys.
\<close>

lemma returned_ops:
  assumes "in_order example_ops s" and "returned p s"
  shows "map fst (done_by p (ex_log s)) = example_ops p"
    and "(op, r) \<in> set (done_by p (ex_log s)) \<Longrightarrow> \<not> raised r"
proof -
  have "plan p s = []" using assms(2) by (simp add: returned_def plan_def doing_def)
  then show "map fst (done_by p (ex_log s)) = example_ops p"
    using in_orderD(3) [OF assms(1), of p] assms(2) by (simp add: returned_def)
  show "(op, r) \<in> set (done_by p (ex_log s)) \<Longrightarrow> \<not> raised r"
    using assms(2) by (auto simp: returned_def list_all_iff)
qed

lemma inserts_anew:
  assumes c: "contents l = Some m" "legal l"
    and d: "done_by p l = xs @ (Insert k v, r) # ys" and r: "\<not> raised r"
    and own: "\<And>q w. Insert k w \<in> set (example_ops q) \<Longrightarrow> q = p" "\<forall>w x. (Insert k w, x) \<notin> set xs"
  shows "r = Inserted True v"
proof -
  obtain a b where l: "l = a @ (p, Insert k v, r) # b" "done_by p a = xs" using d by (rule done_by_split)
  obtain ma mb where m: "contents a = Some ma" "seq_op (Insert k v) r ma = Some mb"
    using c(1) unfolding l(1) by (rule contents_split)
  have "legal a" using c(2) l by simp
  have "ma k = None"
  proof (rule ccontr)
    assume "ma k \<noteq> None"
    then obtain w q x where i: "(q, Insert k w, x) \<in> set a"
      using contents_value [OF m(1) legal_never_erases [OF \<open>legal a\<close>]] by blast
    then have "q = p" using \<open>legal a\<close> own(1) by (auto simp: legal_def)
    with i have "(Insert k w, x) \<in> set xs" using l(2) by (auto simp: done_by_in [symmetric])
    with own(2) show False by blast
  qed
  with seq_op_insert [OF m(2) r] show ?thesis by simp
qed

text \<open>A look-up of a key: the own ones are found, the others may be.\<close>

lemma finds_own:
  assumes c: "contents l = Some m" "legal l"
    and d: "done_by p l = xs @ (Find k, f) # ys" and i: "(Insert k v, r) \<in> set xs" "\<not> raised r"
  shows "f = Found (value_of k)"
proof -
  obtain a b ma where l: "l = a @ (p, Find k, f) # b" "done_by p a = xs" "contents a = Some ma" "f = Found (ma k)"
    by (rule look_up [OF c(1) d])
  have "legal a" using c(2) l(1) by simp
  moreover have "(p, Insert k v, r) \<in> set a" using i(1) l(2) by (simp add: done_by_in [symmetric])
  ultimately have "ma k \<noteq> None"
    using inserted_present [OF l(3) legal_never_erases _ i(2)] by blast
  with legal_value [OF l(3) \<open>legal a\<close>, of k] l(4) show ?thesis by auto
qed

lemma finds_any:
  assumes c: "contents l = Some m" "legal l" and d: "done_by p l = xs @ (Find k, f) # ys"
  shows "f = Found None \<or> f = Found (value_of k)"
proof -
  obtain a b ma where l: "l = a @ (p, Find k, f) # b" "contents a = Some ma" "f = Found (ma k)"
    by (rule look_up [OF c(1) d])
  with legal_value [OF l(2), of k] c(2) show ?thesis by auto
qed

text \<open>
  If \<open>p\<close> looks for a key that \<open>q\<close> inserts and misses it, then \<open>q\<close>, which looks for the keys of \<open>p\<close> only
  after its own insertions, finds them all.
\<close>

lemma not_both_miss:
  assumes c: "contents l = Some m" "legal l"
    and p: "done_by p l = xs @ (Find k, Found None) # ys" "(Insert g v, r) \<in> set xs" "\<not> raised r"
    and q: "done_by q l = us @ (Insert k w, t) # vs" "\<not> raised t"
      "done_by q l = us' @ (Find g, f) # vs'" "length us \<le> length us'"
  shows "f = Found (value_of g)"
proof -
  obtain a b ma where l: "l = a @ (p, Find k, Found None) # b" "done_by p a = xs" "contents a = Some ma"
      "ma k = None"
    using look_up [OF c(1) p(1)] by (metis map_res.inject(3))
  have "legal a" using c(2) l(1) by simp
  note ne = legal_never_erases [OF c(2)] legal_never_erases [OF this]
  have "length (done_by q a) \<le> length us"
    by (rule not_yet_inserted [OF l(3) ne(2) l(4) q(1) [unfolded l(1)] q(2)])
  then have le: "length (done_by q a) \<le> length us'" using q(4) by simp
  have "(p, Insert g v, r) \<in> set a" using p(2) l(2) by (simp add: done_by_in [symmetric])
  from sees_inserted [OF c(1) ne(1) l(1) this p(3) q(3) le] finds_any [OF c q(3)] show ?thesis by auto
qed

text \<open>The results of the two programs, each of them in its order.\<close>

lemma example_log:
  assumes c: "contents l = Some m" "legal l"
    and dc: "done_by CHILD l = [(Insert key_1 1, a1), (Insert key_3 3, a3),
      (Find key_1, f1), (Find key_2, f2), (Find key_3, f3), (Find key_4, f4)]"
    and dp: "done_by PARENT l = [(Insert key_2 2, b2), (Insert key_4 4, b4),
      (Find key_1, g1), (Find key_2, g2), (Find key_3, g3), (Find key_4, g4)]"
    and ok: "\<not> raised a1" "\<not> raised a3" "\<not> raised b2" "\<not> raised b4"
  shows "a1 = Inserted True 1" "a3 = Inserted True 3" "b2 = Inserted True 2" "b4 = Inserted True 4"
    and "f1 = Found (Some 1)" "f3 = Found (Some 3)" "g2 = Found (Some 2)" "g4 = Found (Some 4)"
    and "f2 \<in> {Found None, Found (Some 2)}" "f4 \<in> {Found None, Found (Some 4)}"
    and "g1 \<in> {Found None, Found (Some 1)}" "g3 \<in> {Found None, Found (Some 3)}"
    and "f2 = Found None \<or> f4 = Found None \<Longrightarrow> g1 = Found (Some 1) \<and> g3 = Found (Some 3)"
proof -
  let ?C = "done_by CHILD l" and ?P = "done_by PARENT l"
  have own_c: "q = CHILD" if "Insert k w \<in> set (example_ops q)" "k \<in> {key_1, key_3}" for q k w
    using that by (auto simp: example_ops_def parent_ops_def look_ups_def split: if_splits)
  have own_p: "q = PARENT" if "Insert k w \<in> set (example_ops q)" "k \<in> {key_2, key_4}" for q k w
    using that by (auto simp: example_ops_def child_ops_def look_ups_def split: if_splits)
  show "a1 = Inserted True 1" "a3 = Inserted True 3" "b2 = Inserted True 2" "b4 = Inserted True 4"
    using inserts_anew [OF c, of CHILD "take 0 ?C" key_1 1 a1 "drop 1 ?C"]
      inserts_anew [OF c, of CHILD "take 1 ?C" key_3 3 a3 "drop 2 ?C"]
      inserts_anew [OF c, of PARENT "take 0 ?P" key_2 2 b2 "drop 1 ?P"]
      inserts_anew [OF c, of PARENT "take 1 ?P" key_4 4 b4 "drop 2 ?P"] own_c own_p ok
    by (auto simp: dc dp)
  show "f1 = Found (Some 1)" "f3 = Found (Some 3)" "g2 = Found (Some 2)" "g4 = Found (Some 4)"
    using finds_own [OF c, of CHILD "take 2 ?C" key_1 f1 "drop 3 ?C" 1 a1]
      finds_own [OF c, of CHILD "take 4 ?C" key_3 f3 "drop 5 ?C" 3 a3]
      finds_own [OF c, of PARENT "take 3 ?P" key_2 g2 "drop 4 ?P" 2 b2]
      finds_own [OF c, of PARENT "take 5 ?P" key_4 g4 "drop 6 ?P" 4 b4] ok
    by (simp_all add: dc dp value_of_def)
  show "f2 \<in> {Found None, Found (Some 2)}" "f4 \<in> {Found None, Found (Some 4)}"
    "g1 \<in> {Found None, Found (Some 1)}" "g3 \<in> {Found None, Found (Some 3)}"
    using finds_any [OF c, of CHILD "take 3 ?C" key_2 f2 "drop 4 ?C"]
      finds_any [OF c, of CHILD "take 5 ?C" key_4 f4 "drop 6 ?C"]
      finds_any [OF c, of PARENT "take 2 ?P" key_1 g1 "drop 3 ?P"]
      finds_any [OF c, of PARENT "take 4 ?P" key_3 g3 "drop 5 ?P"]
    by (simp_all add: dc dp value_of_def)
  show "g1 = Found (Some 1) \<and> g3 = Found (Some 3)" if "f2 = Found None \<or> f4 = Found None"
    using that not_both_miss [OF c, of CHILD "take 3 ?C" key_2 "drop 4 ?C" key_1 1 a1 PARENT
        "take 0 ?P" 2 b2 "drop 1 ?P" "take 2 ?P" g1 "drop 3 ?P"]
      not_both_miss [OF c, of CHILD "take 3 ?C" key_2 "drop 4 ?C" key_3 3 a3 PARENT
        "take 0 ?P" 2 b2 "drop 1 ?P" "take 4 ?P" g3 "drop 5 ?P"]
      not_both_miss [OF c, of CHILD "take 5 ?C" key_4 "drop 6 ?C" key_1 1 a1 PARENT
        "take 1 ?P" 4 b4 "drop 2 ?P" "take 2 ?P" g1 "drop 3 ?P"]
      not_both_miss [OF c, of CHILD "take 5 ?C" key_4 "drop 6 ?C" key_3 3 a3 PARENT
        "take 1 ?P" 4 b4 "drop 2 ?P" "take 4 ?P" g3 "drop 5 ?P"] ok
    by (auto simp: dc dp value_of_def)
qed

text \<open>The map at the end.\<close>

lemma example_contents:
  assumes c: "contents l = Some m" "legal l"
    and ins: "(CHILD, Insert key_1 1, a1) \<in> set l" "(CHILD, Insert key_3 3, a3) \<in> set l"
      "(PARENT, Insert key_2 2, b2) \<in> set l" "(PARENT, Insert key_4 4, b4) \<in> set l"
    and ok: "\<not> raised a1" "\<not> raised a3" "\<not> raised b2" "\<not> raised b4"
  shows "m = value_of"
proof
  fix k
  show "m k = value_of k"
  proof (cases "k \<in> {key_1, key_2, key_3, key_4}")
    case True
    then have "m k \<noteq> None"
      using ins ok inserted_present [OF c(1) legal_never_erases [OF c(2)]] by blast
    with legal_value [OF c, of k] show ?thesis by auto
  next
    case False
    then have "value_of k = None" by (simp add: value_of_def)
    with legal_value [OF c, of k] show ?thesis by simp
  qed
qed

definition done_of :: "(string \<times> int) list \<Rightarrow> int option list \<Rightarrow> ((string, int) map_op \<times> int map_res) list" where
  "done_of inserted found =
     map (\<lambda>(k, v). (Insert k v, Inserted True v)) inserted @ zip look_ups (map Found found)"

text \<open>
  C29: The shared-memory example, whatever the interleaving. When both processes have returned
  without an exception, the map holds all four keys; each process has inserted its own two, which
  were new, and has found them; of the other's keys it has found the value or nothing, as the
  comments of the program say. But they cannot both have missed something: either the child has
  seen both keys of the parent or the parent both keys of the child.
\<close>
theorem shm_example_outcome:
  assumes "ShMap_new cs initialised constructed s0 = (Done m, s1)"
    and "ex_reach ns (ex_start example_ops m) s" and "returned CHILD s" and "returned PARENT s"
  shows "mp_map (ex_map s) = [key_1 \<mapsto> 1, key_2 \<mapsto> 2, key_3 \<mapsto> 3, key_4 \<mapsto> 4] \<and>
    (\<exists>c2 c4 p1 p3.
       done_by CHILD (ex_log s) = done_of [(key_1, 1), (key_3, 3)] [Some 1, c2, Some 3, c4] \<and>
       done_by PARENT (ex_log s) = done_of [(key_2, 2), (key_4, 4)] [p1, Some 2, p3, Some 4] \<and>
       c2 \<in> {None, Some 2} \<and> c4 \<in> {None, Some 4} \<and> p1 \<in> {None, Some 1} \<and> p3 \<in> {None, Some 3} \<and>
       (c2 = Some 2 \<and> c4 = Some 4 \<or> p1 = Some 1 \<and> p3 = Some 3))"
proof -
  let ?l = "ex_log s"
  have m: "mp_hist m = []" "\<forall>p. mp_pc m p = Outside"
    using assms(1) by (auto simp: ShMap_new_def Let_def split: prod.splits shm_result.splits)
  have o: "in_order example_ops s" by (rule ex_reach_in_order [OF assms(2) m])
  have inv: "map_inv Map.empty (ex_map s)"
    using map_reach_inv [OF ex_reach_map [OF assms(2)] ShMap_new_inv] assms(1) by (simp add: ex_start_def)
  then have c: "contents ?l = Some (mp_map (ex_map s))" "legal ?l"
    using in_orderD(1) [OF o] in_order_legal [OF o] by (simp_all add: contents_def map_inv_def)
  note C = returned_ops [OF o assms(3)] and P = returned_ops [OF o assms(4)]
  obtain a1 a3 f1 f2 f3 f4 where dc: "done_by CHILD ?l = [(Insert key_1 1, a1), (Insert key_3 3, a3),
      (Find key_1, f1), (Find key_2, f2), (Find key_3, f3), (Find key_4, f4)]"
    using C(1) by (auto simp: child_ops_def look_ups_def map_eq_Cons_conv)
  obtain b2 b4 g1 g2 g3 g4 where dp: "done_by PARENT ?l = [(Insert key_2 2, b2), (Insert key_4 4, b4),
      (Find key_1, g1), (Find key_2, g2), (Find key_3, g3), (Find key_4, g4)]"
    using P(1) by (auto simp: parent_ops_def look_ups_def map_eq_Cons_conv)
  have ok: "\<not> raised a1" "\<not> raised a3" "\<not> raised b2" "\<not> raised b4"
    using C(2) P(2) by (auto simp: dc dp)
  note res = example_log [OF c dc dp ok]
  have "\<exists>x. f2 = Found x" "\<exists>x. f4 = Found x" "\<exists>x. g1 = Found x" "\<exists>x. g3 = Found x"
    using res(9-12) by blast+
  then obtain c2 c4 p1 p3 where f: "f2 = Found c2" "f4 = Found c4" "g1 = Found p1" "g3 = Found p3" by blast
  have "c2 \<in> {None, Some 2}" "c4 \<in> {None, Some 4}" "p1 \<in> {None, Some 1}" "p3 \<in> {None, Some 3}"
    "c2 = Some 2 \<and> c4 = Some 4 \<or> p1 = Some 1 \<and> p3 = Some 3"
    using res(9-13) by (auto simp: f)
  moreover have "done_by CHILD ?l = done_of [(key_1, 1), (key_3, 3)] [Some 1, c2, Some 3, c4]"
    "done_by PARENT ?l = done_of [(key_2, 2), (key_4, 4)] [p1, Some 2, p3, Some 4]"
    by (simp_all add: dc dp done_of_def look_ups_def res(1-8) f)
  moreover have "mp_map (ex_map s) = value_of"
    by (rule example_contents [OF c _ _ _ _ ok]) (simp_all add: done_by_in [symmetric] dc dp)
  ultimately show ?thesis unfolding value_of_def by blast
qed

section \<open>Progress\<close>

definition steps_left :: "nat \<Rightarrow> ('k, 'v) procs \<Rightarrow> nat" where
  "steps_left p s =
     4 * length (ex_todo s p) +
     (case mp_pc (ex_map s) p of Outside \<Rightarrow> 0 | Inside _ \<Rightarrow> 3 | Looked _ _ \<Rightarrow> 2 | Leaving _ \<Rightarrow> 1)"

text \<open>With the allocator's semaphore free, no operation has to wait once it holds the mutex.\<close>

lemma map_act_total:
  assumes "shm_sems (mp_shm m) (rv_semaphore (shm_view (mp_shm m))) = Some (Suc k)"
  shows "map_act ns op found m \<noteq> None"
  using assms
  by (cases "(ns, op, found, m)" rule: map_act.cases)
     (auto simp: allocate_free deallocate_free split: option.splits prod.splits shm_result.splits if_splits)

lemma process_step:
  assumes "map_inv m0 (ex_map s)"
    and "shm_sems (mp_shm (ex_map s)) (rv_semaphore (shm_view (mp_shm (ex_map s)))) = Some (Suc k)"
    and "steps_left p s \<noteq> 0"
  shows "\<exists>s' q. ex_step ns s s' \<and> steps_left q s' < steps_left q s \<and>
    (\<forall>g. g \<noteq> q \<longrightarrow> steps_left g s' = steps_left g s)"
proof -
  let ?m = "ex_map s"
  have mx: "mutex_ok ?m" using assms(1) by (simp add: map_inv_def)
  have "\<exists>q. mp_pc ?m q \<noteq> Outside \<or> (\<forall>g. mp_pc ?m g = Outside) \<and> ex_todo s q \<noteq> []"
    using assms(3) by (cases "mp_pc ?m p = Outside") (auto simp: steps_left_def)
  then obtain q where q: "mp_pc ?m q \<noteq> Outside \<or> (\<forall>g. mp_pc ?m g = Outside) \<and> ex_todo s q \<noteq> []" ..
  have out: "\<exists>s'. ex_step ns s s' \<and> steps_left q s' < steps_left q s \<and>
      (\<forall>g. g \<noteq> q \<longrightarrow> steps_left g s' = steps_left g s)"
  proof (cases "mp_pc ?m q")
    case Outside
    with q have "\<forall>g. mp_pc ?m g = Outside" "ex_todo s q \<noteq> []" by auto
    moreover from this mx have "shm_sems (mp_shm ?m) (mp_mutex ?m) = Some 1" by (simp add: mutex_ok_def)
    ultimately obtain op rest t where e: "ex_todo s q = op # rest"
        "sem_lock False (mp_mutex ?m) (mp_shm ?m) = Done t"
      by (cases "ex_todo s q") (auto simp: sem_lock_def)
    from ex_step.enter [OF refl Outside e, of ns] show ?thesis
      by - (rule exI, rule conjI, assumption, simp add: steps_left_def e(1) Outside)
  next
    case (Inside op)
    from ex_step.look [OF refl this, of ns] show ?thesis
      by - (rule exI, rule conjI, assumption, simp add: steps_left_def Inside)
  next
    case (Looked op found)
    obtain r m' where a: "map_act ns op found ?m = Some (r, m')" using map_act_total [OF assms(2)] by force
    from ex_step.act [OF refl Looked a] show ?thesis
      by - (rule exI, rule conjI, assumption, simp add: steps_left_def Looked)
  next
    case (Leaving r)
    have "shm_sems (mp_shm ?m) (mp_mutex ?m) = Some 0" using mutex_ok_owner [OF mx, of q] Leaving by simp
    then obtain t where u: "sem_unlock (mp_mutex ?m) (mp_shm ?m) = Done t" by (simp add: sem_unlock_def)
    from ex_step.leave [OF refl Leaving u, of ns] show ?thesis
      by - (rule exI, rule conjI, assumption, simp add: steps_left_def Leaving)
  qed
  then show ?thesis by blast
qed

text \<open>
  C30: The example never gets stuck. In every state that the two processes can reach, as long as one of
  them has something left to do and nobody is inside the allocator, some process can take its next
  step, and that step brings it nearer to its end without setting another one back: the mutex of
  the map is never held by nobody, and what it guards never waits. So the two programs end after
  at most 48 steps of their own.
\<close>
theorem shm_example_never_stuck:
  assumes "ShMap_new cs initialised constructed s0 = (Done m, s1)"
    and "ex_reach ns (ex_start example_ops m) s"
    and "shm_sems (mp_shm (ex_map s)) (rv_semaphore (shm_view (mp_shm (ex_map s)))) = Some (Suc k)"
    and "steps_left p s \<noteq> 0"
  shows "\<exists>s' q. ex_step ns s s' \<and> steps_left q s' < steps_left q s \<and>
    (\<forall>g. g \<noteq> q \<longrightarrow> steps_left g s' = steps_left g s)"
proof (rule process_step [OF _ assms(3,4)])
  show "map_inv Map.empty (ex_map s)"
    using map_reach_inv [OF ex_reach_map [OF assms(2)] ShMap_new_inv] assms(1) by (simp add: ex_start_def)
qed

section \<open>An instance\<close>

theorem shm_example_never_stuck_witness:
  "\<exists>m s1. ShMap_new 48 (Inr ()) True demo_shm = (Done m, s1) \<and>
     (\<exists>s' q. ex_step 48 (ex_start example_ops m) s' \<and>
        steps_left q s' < steps_left q (ex_start example_ops m))"
proof -
  obtain m s1 where m: "ShMap_new 48 (Inr ()) True demo_shm = (Done (m :: (string, int) ShMap), s1)"
    "shm_sems (mp_shm m) (rv_semaphore (shm_view (mp_shm m))) = Some (Suc 0)"
    using demo_map [where 'k = string and 'v = int] by auto
  have "steps_left CHILD (ex_start example_ops m) \<noteq> 0"
    by (simp add: steps_left_def ex_start_def child_ops_def)
  with shm_example_never_stuck [OF m(1) ex_reach.start, where ns = 48 and k = 0 and p = CHILD] m show ?thesis
    by (simp add: ex_start_def) blast
qed

text \<open>Nobody is in the map, and some memory of the region can be had.\<close>

definition quiet :: "('k, 'v) procs \<Rightarrow> bool" where
  "quiet s \<longleftrightarrow> (\<forall>p. mp_pc (ex_map s) p = Outside) \<and> shm_sems (mp_shm (ex_map s)) (mp_mutex (ex_map s)) = Some 1"

lemma ex_reach_trans: "ex_reach ns b c \<Longrightarrow> ex_reach ns a b \<Longrightarrow> ex_reach ns a c"
  by (induction rule: ex_reach.induct) (auto intro: ex_reach.intros)

lemma map_act_ok:
  assumes "\<forall>k. op \<noteq> Erase k" and "allocate ns 1 (mp_shm m) = (Done a, t)"
  shows "\<exists>r m'. map_act ns op found m = Some (r, m') \<and> \<not> raised r \<and> mp_mutex m' = mp_mutex m \<and>
    shm_sems (mp_shm m') = shm_sems (mp_shm m)"
  using assms allocate_keeps_sems [OF assms(2)]
  by (cases "(ns, op, found, m)" rule: map_act.cases) auto

definition roomy :: "u64 \<Rightarrow> shm \<Rightarrow> shm" where
  "roomy mutex s = s\<lparr>shm_view := \<lparr>rv_begin = 4152, rv_end = 8248, rv_semaphore = mutex + 1\<rparr>,
     shm_sems := (shm_sems s)(mutex + 1 \<mapsto> 1)\<rparr>"

lemma roomy_allocates: "\<exists>t. allocate 48 1 (roomy mutex s) = (Done 4152, t)"
  by (subst allocate_free [of _ 0])
    (simp_all add: roomy_def refuses_def ptr_diff_def signed_divide_int_def)

lemma run_op:
  assumes "quiet s" and "ex_todo s p = op # rest" and "\<forall>k. op \<noteq> Erase k"
  shows "\<exists>s' r. ex_reach 48 s s' \<and> quiet s' \<and> ex_todo s' = (ex_todo s)(p := rest) \<and>
    ex_log s' = ex_log s @ [(p, op, r)] \<and> \<not> raised r"
proof -
  define m0 where "m0 = ex_map s"
  define x where "x = mp_mutex m0"
  have out: "mp_pc m0 q = Outside" for q using assms(1) by (simp add: quiet_def m0_def)
  have one: "shm_sems (mp_shm m0) x = Some 1" using assms(1) by (simp add: quiet_def m0_def x_def)
  define m1 where "m1 = m0\<lparr>mp_shm := roomy x (mp_shm m0)\<rparr>"
  define s1 where "s1 = s\<lparr>ex_map := m1\<rparr>"
  have 1: "ex_step 48 s s1" unfolding s1_def m1_def m0_def
    by (rule ex_step.others [OF refl]) (simp add: roomy_def x_def m0_def [symmetric])
  define t where "t = (mp_shm m1)\<lparr>shm_sems := (shm_sems (mp_shm m1))(x \<mapsto> 0)\<rparr>"
  define m2 where "m2 = m1\<lparr>mp_shm := t, mp_pc := (mp_pc m1)(p := Inside op)\<rparr>"
  define s2 where "s2 = s1\<lparr>ex_map := m2, ex_todo := (ex_todo s1)(p := rest)\<rparr>"
  have lock: "sem_lock False (mp_mutex m1) (mp_shm m1) = Done t"
    using one by (simp add: sem_lock_def m1_def t_def x_def roomy_def)
  have 2: "ex_step 48 s1 s2" unfolding s2_def m2_def
    by (rule ex_step.enter [OF _ _ _ lock]) (simp_all add: s1_def m1_def out assms(2))
  define m3 where "m3 = m2\<lparr>mp_pc := (mp_pc m2)(p := Looked op (mp_map m2 (op_key op)))\<rparr>"
  define s3 where "s3 = s2\<lparr>ex_map := m3\<rparr>"
  have 3: "ex_step 48 s2 s3" unfolding s3_def m3_def
    by (rule ex_step.look [of m2]) (simp_all add: s2_def m2_def)
  have "mp_shm m3 = roomy x (t\<lparr>shm_sems := (shm_sems t)(x \<mapsto> 0)\<rparr>)"
    by (simp add: m3_def m2_def t_def m1_def roomy_def fun_upd_twist)
  then obtain u where u: "allocate 48 1 (mp_shm m3) = (Done 4152, u)" using roomy_allocates by auto
  then obtain r m4 where a: "map_act 48 op (mp_map m2 (op_key op)) m3 = Some (r, m4)" "\<not> raised r"
      "mp_mutex m4 = mp_mutex m3" "shm_sems (mp_shm m4) = shm_sems (mp_shm m3)"
    using map_act_ok [OF assms(3) u, of "mp_map m2 (op_key op)"] by blast
  define m5 where "m5 = m4\<lparr>mp_pc := (mp_pc m3)(p := Leaving r), mp_hist := mp_hist m3 @ [(op, r)]\<rparr>"
  define s4 where "s4 = s3\<lparr>ex_map := m5,
    ex_todo := (if raised r then (ex_todo s3)(p := []) else ex_todo s3), ex_log := ex_log s3 @ [(p, op, r)]\<rparr>"
  have 4: "ex_step 48 s3 s4" unfolding s4_def m5_def
    by (rule ex_step.act [OF _ _ a(1)]) (simp_all add: s3_def m3_def)
  have zero: "shm_sems (mp_shm m5) (mp_mutex m5) = Some 0"
    using a(3,4) by (simp add: m5_def m3_def m2_def t_def m1_def x_def)
  define v where "v = (mp_shm m5)\<lparr>shm_sems := (shm_sems (mp_shm m5))(mp_mutex m5 \<mapsto> 1)\<rparr>"
  define m6 where "m6 = m5\<lparr>mp_shm := v, mp_pc := (mp_pc m5)(p := Outside)\<rparr>"
  define s5 where "s5 = s4\<lparr>ex_map := m6\<rparr>"
  have 5: "ex_step 48 s4 s5" unfolding s5_def m6_def
    by (rule ex_step.leave [of m5]) (simp_all add: s4_def m5_def sem_unlock_def zero [unfolded m5_def, simplified] v_def)
  have "ex_reach 48 s s5" 
    by (rule ex_reach.step [OF ex_reach.step [OF ex_reach.step [OF ex_reach.step [OF
      ex_reach.step [OF ex_reach.start 1] 2] 3] 4] 5])
  moreover have "quiet s5"
    by (simp add: quiet_def s5_def m6_def v_def m5_def m3_def m2_def m1_def out)
  ultimately show ?thesis
    using a(2) by (intro exI [of _ s5] exI [of _ r]) (simp add: s5_def s4_def s3_def s2_def s1_def)
qed

lemma run_ops:
  assumes "quiet s" and "ex_todo s p = ops" and "\<forall>op\<in>set ops. \<forall>k. op \<noteq> Erase k"
  shows "\<exists>s' l. ex_reach 48 s s' \<and> quiet s' \<and> ex_todo s' = (ex_todo s)(p := []) \<and>
    ex_log s' = ex_log s @ l \<and> (\<forall>(q, op, r)\<in>set l. \<not> raised r)"
  using assms
proof (induction ops arbitrary: s)
  case Nil
  then show ?case by (intro exI [of _ s] exI [of _ "[]"]) (auto intro: ex_reach.start)
next
  case (Cons op ops)
  obtain s1 r where s1: "ex_reach 48 s s1" "quiet s1" "ex_todo s1 = (ex_todo s)(p := ops)"
      "ex_log s1 = ex_log s @ [(p, op, r)]" "\<not> raised r"
    using run_op [OF Cons.prems(1,2)] Cons.prems(3) by auto
  have ne: "\<forall>op\<in>set ops. \<forall>k. op \<noteq> Erase k" using Cons.prems(3) by simp
  have "ex_todo s1 p = ops" using s1(3) by simp
  from Cons.IH [OF s1(2) this ne]
  obtain s' l where s': "ex_reach 48 s1 s'" "quiet s'" "ex_todo s' = (ex_todo s1)(p := [])"
      "ex_log s' = ex_log s1 @ l" "\<forall>(q, op, r)\<in>set l. \<not> raised r"
    by blast
  with ex_reach_trans [OF s'(1) s1(1)] s1 show ?case
    by (intro exI [of _ s'] exI [of _ "(p, op, r) # l"]) auto
qed

theorem shm_example_outcome_witness:
  "\<exists>m s1 s. ShMap_new 48 (Inr ()) True demo_shm = (Done m, s1) \<and>
     ex_reach 48 (ex_start example_ops m) s \<and> returned CHILD s \<and> returned PARENT s \<and>
     mp_map (ex_map s) = [key_1 \<mapsto> 1, key_2 \<mapsto> 2, key_3 \<mapsto> 3, key_4 \<mapsto> 4]"
proof -
  obtain m s1 where m: "ShMap_new 48 (Inr ()) True demo_shm = (Done (m :: (string, int) ShMap), s1)"
    "shm_sems (mp_shm m) (mp_mutex m) = Some 1" "mp_pc m = (\<lambda>_. Outside)"
    using demo_map [where 'k = string and 'v = int] by blast
  let ?s0 = "ex_start example_ops m"
  have q0: "quiet ?s0" "ex_todo ?s0 = example_ops" "ex_log ?s0 = []"
    using m(2,3) by (simp_all add: quiet_def ex_start_def)
  have ne: "\<forall>op\<in>set (example_ops p). \<forall>k. op \<noteq> Erase k" for p using example_op_cases by blast
  obtain t l where t: "ex_reach 48 ?s0 t" "quiet t" "ex_todo t = example_ops(CHILD := [])"
      "ex_log t = [] @ l" "\<forall>(q, op, r)\<in>set l. \<not> raised r"
    using run_ops [OF q0(1) refl, of CHILD, unfolded q0(2,3)] ne [of CHILD] by blast
  have "\<forall>op\<in>set (ex_todo t PARENT). \<forall>k. op \<noteq> Erase k" using ne [of PARENT] t(3) by simp
  from run_ops [OF t(2) refl this]
  obtain s k where s: "ex_reach 48 t s" "quiet s" "ex_todo s = (ex_todo t)(PARENT := [])"
      "ex_log s = ex_log t @ k" "\<forall>(q, op, r)\<in>set k. \<not> raised r"
    by blast
  have ok: "\<not> raised r" if "(op, r) \<in> set (done_by p (ex_log s))" for p op r
    using that s(4,5) t(4,5) by (auto simp: done_by_in simp del: done_by_append)
  have "ex_todo s CHILD = []" "ex_todo s PARENT = []" using s(3) t(3) by simp_all
  then have "returned CHILD s" "returned PARENT s"
    using s(2) ok by (auto simp: returned_def quiet_def list_all_iff)
  moreover have r: "ex_reach 48 ?s0 s" by (rule ex_reach_trans [OF s(1) t(1)])
  ultimately show ?thesis using shm_example_outcome [OF m(1) r] m(1) by blast
qed

end
