(* ===== verification/Coroutine_Example.thy ===== *)
theory Coroutine_Example
  imports Coroutine_Pool
begin

text \<open>
  \<^verbatim>\<open>examples/coroutines-example/coro-test.cpp\<close>: a routine that counts and yields, one instance of it
  resumed by hand and a hundred started behind it.
\<close>

section \<open>The program\<close>

text \<open>The routine between two switches: the counter, the bound and the local vector.\<close>

record counter =
  ct_i :: int
  ct_max :: int
  ct_k :: "int list"

definition coro_routine :: "int \<Rightarrow> int \<Rightarrow> counter" where
  "coro_routine lo hi = \<lparr>ct_i = lo, ct_max = hi, ct_k = []\<rparr>"

definition coro_body :: "counter \<Rightarrow> unit \<Rightarrow> (counter, string) body_result \<times> unit" where
  "coro_body c s =
     (if ct_i c < ct_max c then (Yields (c\<lparr>ct_i := ct_i c + 1, ct_k := ct_k c @ [ct_i c]\<rparr>), s)
      else (Returns, s))"

type_synonym coro_table = "(counter, string) Ordinator"

fun start_routines :: "nat \<Rightarrow> coro_table \<Rightarrow> (string + unit) \<times> coro_table" where
  "start_routines 0 d = (Inr (), d)"
| "start_routines (Suc n) d =
     (case create_and_run coro_body True (Some (coro_routine 0 10)) d () of
        (Inl e, d, _) \<Rightarrow> (Inl e, d)
      | (Inr _, d, _) \<Rightarrow> start_routines n d)"

text \<open>\<^verbatim>\<open>while (!Coroutine::resume(coro_1)) {}\<close>\<close>

partial_function (option) resume_until_true :: "routine_t \<Rightarrow> coro_table \<Rightarrow> ((string + unit) \<times> coro_table) option" where
  "resume_until_true rid d =
     (case resume coro_body True rid d () of
        (Inl e, d, _) \<Rightarrow> Some (Inl e, d)
      | (Inr b, d, _) \<Rightarrow> if b then Some (Inr (), d) else resume_until_true rid d)"

definition coro_main :: "((string + unit) \<times> coro_table) option" where
  "coro_main =
     (case create (Some (coro_routine 0 10)) Ordinator_init of
        (coro_1, d) \<Rightarrow>
          (case resume coro_body True coro_1 d () of
             (Inl e, d, _) \<Rightarrow> Some (Inl e, d)
           | (Inr _, d, _) \<Rightarrow>
               (case start_routines 100 d of
                  (Inl e, d) \<Rightarrow> Some (Inl e, d)
                | (Inr _, d) \<Rightarrow> resume_until_true coro_1 d)))"

section \<open>What is left when it returns\<close>

definition suspended_at :: "int list \<Rightarrow> (counter, string) Routine" where
  "suspended_at k =
     \<lparr>rt_func = Some (coro_routine 0 10), rt_finished = False,
      rt_ctx = Suspended \<lparr>ct_i = int (length k), ct_max = 10, ct_k = k\<rparr>, rt_exception = None\<rparr>"

definition coro_table_of :: "(counter, string) Routine list \<Rightarrow> coro_table" where
  "coro_table_of rs = \<lparr>or_routines = rs, or_finished = [], or_current = 0\<rparr>"

lemmas coro_steps =
  create_def resume_def switch_to_def continuation_def yield_def update_routine_def coro_body_def
  coro_routine_def Routine_new_def suspended_at_def coro_table_of_def Let_def

lemma start_one_routine:
  "create_and_run coro_body True (Some (coro_routine 0 10)) (coro_table_of rs) () =
     (Inr True, coro_table_of (rs @ [suspended_at [0]]), ())"
  by (simp add: create_and_run_def coro_steps)

lemma start_routines_appends:
  "start_routines n (coro_table_of rs) = (Inr (), coro_table_of (rs @ replicate n (suspended_at [0])))"
  by (induction n arbitrary: rs)
     (simp_all add: start_one_routine)

lemma resume_first:
  "resume coro_body True 1 (coro_table_of (suspended_at k # rs)) () =
     (if length k < 10 then (Inr True, coro_table_of (suspended_at (k @ [int (length k)]) # rs), ())
      else (Inr False, \<lparr>or_routines = suspended_at k\<lparr>rt_finished := True\<rparr> # rs, or_finished = [1], or_current = 0\<rparr>, ()))"
  by (simp add: coro_steps entry_end_def)

text \<open>
  The coroutine example returns, and what it leaves: its last loop, \<^verbatim>\<open>while (!resume(coro_1))\<close>, stops
  at the first switch of the routine instead of running it to its end, so that \<^verbatim>\<open>coro_1\<close> is
  suspended at its second number and each of the hundred routines behind it at its first; none of the
  101 slots is free.
\<close>

theorem coroutine_example_leaves_all:
  "coro_main = Some (Inr (), coro_table_of (suspended_at [0, 1] # replicate 100 (suspended_at [0])))"
proof -
  have 1: "create (Some (coro_routine 0 10)) Ordinator_init = (1, coro_table_of [Routine_new (Some (coro_routine 0 10))])"
    by (simp add: coro_steps Ordinator_init_def)
  have 2: "resume coro_body True 1 (coro_table_of [Routine_new (Some (coro_routine 0 10))]) () =
      (Inr True, coro_table_of [suspended_at [0]], ())"
    by (simp add: coro_steps)
  show ?thesis
    using start_routines_appends [of 100 "[suspended_at [0]]"] resume_first [of "[0]"]
    by (simp add: coro_main_def 1 2 [unfolded One_nat_def] resume_until_true.simps)
qed

text \<open>Once the routine has returned, the same loop never ends: no number of its rounds does.\<close>

lemma resume_until_true_stuck:
  assumes "\<not> live d rid"
  shows "resume_until_true rid d = None"
proof -
  have dead: "resume coro_body True rid d () = (Inr False, d, ())" by (rule resume_dead [OF assms])
  have "rid' = rid \<longrightarrow> d' \<noteq> d" if "resume_until_true rid' d' = Some r" for rid' d' r
  proof (rule resume_until_true.raw_induct [where P = "\<lambda>rid' d' r. rid' = rid \<longrightarrow> d' \<noteq> d", OF _ that])
    fix f :: "routine_t \<Rightarrow> coro_table \<Rightarrow> ((string + unit) \<times> coro_table) option" and rid' d' y
    assume ih: "\<And>rid' d' y. f rid' d' = Some y \<Longrightarrow> rid' = rid \<longrightarrow> d' \<noteq> d"
      and eq: "(case resume coro_body True rid' d' () of
            (Inl e, d, _) \<Rightarrow> Some (Inl e, d)
          | (Inr b, d, _) \<Rightarrow> if b then Some (Inr (), d) else f rid' d) = Some y"
    show "rid' = rid \<longrightarrow> d' \<noteq> d"
    proof (intro impI notI)
      assume "rid' = rid" and "d' = d"
      with eq dead have "f rid d = Some y" by simp
      from ih [OF this] show False by simp
    qed
  qed
  then show ?thesis by (cases "resume_until_true rid d") auto
qed

end
