(* ===== verification/Example_Mains.thy ===== *)
theory Example_Mains
  imports KV_Server Http_Server Cli Async_Props
begin

text \<open>
  The main functions of the example servers and of the generator: the command line, the logger, the
  store and the server they build and run. An exception that leaves \<^verbatim>\<open>main\<close> ends the program.
\<close>

section \<open>How a program ends\<close>

datatype main_exn = BadOption cli_exn | LoggerFailed log_exn | StoreFailed kv_exn | ServerFailed server_exn

datatype 'a main_outcome = Uncaught main_exn | Crashed fault | Hangs | Reached 'a

text \<open>The files and the sockets of the process.\<close>

type_synonym world = "kv_os \<times> tcp_os"

section \<open>The generator\<close>

text \<open>What \<^verbatim>\<open>main\<close> puts to its standard output comes first.\<close>

definition generator_main ::
    "nat \<Rightarrow> u8 list \<Rightarrow> u8 list \<Rightarrow> string list \<Rightarrow> kv_os \<Rightarrow> string \<times> unit main_outcome \<times> kv_os" where
  "generator_main pg beyond pad args k =
     (case parse_generator_opts args of
        Inl e \<Rightarrow> ('''', Uncaught (BadOption e), k)
      | Inr cfg \<Rightarrow>
          (''generating: '' @ to_dec (unat (gc_keys_number cfg)) @ '' keys in '' @ gc_filename cfg,
           (case generate_data pg beyond pad (gc_filename cfg) (gc_keys_number cfg) (gc_keys_step cfg) k of
              (Inl e, k) \<Rightarrow> (Uncaught (StoreFailed e), k)
            | (Inr None, k) \<Rightarrow> (Hangs, k)
            | (Inr (Some (Inl f)), k) \<Rightarrow> (Crashed f, k)
            | (Inr (Some (Inr _)), k) \<Rightarrow> (Reached (), k))))"

section \<open>The HTTP servers\<close>

text \<open>
  The logger of the configuration: \<^verbatim>\<open>ThreadSafeFileLogger\<close> or \<^verbatim>\<open>ThreadSafeStdErrLogger\<close>, both made with
  the level \<open>ERROR\<close>; \<open>opens\<close> is what \<^verbatim>\<open>std::ofstream\<close> makes of a path.
\<close>

definition main_logger :: "(string \<Rightarrow> ostream option) \<Rightarrow> 'a HttpConfig_scheme \<Rightarrow> log_exn + any_logger" where
  "main_logger opens cfg =
     (case hc_logfile cfg of
        Some path \<Rightarrow> (case FileLogger_new path (opens path) ERROR of Inl e \<Rightarrow> Inl e | Inr l \<Rightarrow> Inr (File_Logger l))
      | None \<Rightarrow> Inr (Stderr_Logger (BaseLogger_new ERROR)))"

text \<open>
  \<^verbatim>\<open>http.cpp\<close>. The server's worker threads meet what \<open>env\<close> says; the server is destroyed when \<^verbatim>\<open>run\<close>
  has returned.
\<close>

definition http_main ::
    "(string \<Rightarrow> ostream option) \<Rightarrow> resolver \<Rightarrow> (nat \<Rightarrow> worker_env) \<Rightarrow> string list \<Rightarrow> tcp_os \<Rightarrow>
     (any_logger \<times> run_outcome) main_outcome \<times> tcp_os" where
  "http_main opens gai env args t =
     (case parse_http_opts args of
        Inl e \<Rightarrow> (Uncaught (BadOption e), t)
      | Inr cfg \<Rightarrow>
          (case main_logger opens cfg of
             Inl e \<Rightarrow> (Uncaught (LoggerFailed e), t)
           | Inr logger \<Rightarrow>
               let logger = any_set_level (hc_log_level cfg) logger
               in (case HttpServer_new gai (hc_hostname cfg) (hc_port cfg) (unat (hc_concurrency cfg)) (hc_timeout cfg) t of
                     (Inl e, t) \<Rightarrow> (Uncaught (ServerFailed e), t)
                   | (Inr v, t) \<Rightarrow>
                       let r = http_run (\<lambda>r. Inr (echo_serveRequest r)) env True v
                       in (Reached (logger, r), (case r of Returned v _ \<Rightarrow> HttpServer_dtor v t | _ \<Rightarrow> t)))))"

text \<open>\<^verbatim>\<open>kvstore.cpp\<close>, up to the call of \<^verbatim>\<open>run\<close>: what the server is made of.\<close>

record kv_serving =
  kv_store :: KVStore
  kv_logger :: any_logger
  kv_server :: HttpServer

definition kvstore_main ::
    "nat \<Rightarrow> u8 list \<Rightarrow> (string \<Rightarrow> ostream option) \<Rightarrow> resolver \<Rightarrow> string list \<Rightarrow> world \<Rightarrow>
     kv_serving main_outcome \<times> world" where
  "kvstore_main pg beyond opens gai args w =
     (case w of (k, t) \<Rightarrow>
        case parse_kvstore_opts args of
          Inl e \<Rightarrow> (Uncaught (BadOption e), k, t)
        | Inr cfg \<Rightarrow>
            (case main_logger opens cfg of
               Inl e \<Rightarrow> (Uncaught (LoggerFailed e), k, t)
             | Inr logger \<Rightarrow>
                 (case KVStore_new pg beyond (kc_kvstore_file cfg) (kc_kvstore_size cfg * of_nat sizeof_Data) 1024 k of
                    (Inl e, k) \<Rightarrow> (Uncaught (StoreFailed e), k, t)
                  | (Inr None, k) \<Rightarrow> (Hangs, k, t)
                  | (Inr (Some (Inl f)), k) \<Rightarrow> (Crashed f, k, t)
                  | (Inr (Some (Inr store)), k) \<Rightarrow>
                      let logger = any_set_level (hc_log_level cfg) logger
                      in (case HttpServer_new gai (hc_hostname cfg) (hc_port cfg) (unat (hc_concurrency cfg))
                                 (hc_timeout cfg) t of
                            (Inl e, t) \<Rightarrow> (Uncaught (ServerFailed e), k, t)
                          | (Inr v, t) \<Rightarrow>
                              (Reached \<lparr>kv_store = store, kv_logger = logger, kv_server = v\<rparr>, k, t)))))"

section \<open>The asynchronous servers\<close>

text \<open>\<^verbatim>\<open>async-echo.cpp\<close> and \<^verbatim>\<open>async-http-example.cpp\<close>; \<open>ctl\<close> and \<open>waits\<close> are what the poller meets.\<close>

definition async_echo_main ::
    "resolver \<Rightarrow> bool list option \<Rightarrow> (tcp_exn + async_event list) list \<Rightarrow> string list \<Rightarrow> tcp_os \<Rightarrow>
     ((tcp_exn + unit) \<times> echo_registry AsyncServer) main_outcome \<times> tcp_os" where
  "async_echo_main gai ctl waits args t =
     (case parse_tcp_opts args of
        Inl e \<Rightarrow> (Uncaught (BadOption e), t)
      | Inr cfg \<Rightarrow>
          (case AsyncServer_new gai (tc_hostname cfg) (tc_port cfg) [] (EventsSet_of [IN, OUT]) (-1) ctl t of
             (Inl e, t) \<Rightarrow> (Uncaught (ServerFailed (TcpError e)), t)
           | (Inr v, t) \<Rightarrow> (Reached (as_accept echo_handler waits v), t)))"

definition async_http_main ::
    "resolver \<Rightarrow> bool list option \<Rightarrow> (tcp_exn + async_event list) list \<Rightarrow> string list \<Rightarrow> tcp_os \<Rightarrow>
     ((tcp_exn + unit) \<times> http_registry AsyncServer) main_outcome \<times> tcp_os" where
  "async_http_main gai ctl waits args t =
     (case parse_tcp_opts args of
        Inl e \<Rightarrow> (Uncaught (BadOption e), t)
      | Inr cfg \<Rightarrow>
          (case AsyncServer_new gai (tc_hostname cfg) (tc_port cfg) [] (EventsSet_of [IN]) (-1) ctl t of
             (Inl e, t) \<Rightarrow> (Uncaught (ServerFailed (TcpError e)), t)
           | (Inr v, t) \<Rightarrow> (Reached (as_accept http_handler waits v), t)))"

section \<open>A generated database, served\<close>

lemma generator_opts_read:
  assumes "keys < 2 ^ 64" and "step < 2 ^ 64" and "NUL \<notin> set db"
  shows "parse_generator_opts [''-n'', to_dec keys, ''-s'', to_dec step, ''-k'', db] =
    Inr \<lparr>gc_filename = db, gc_keys_number = of_nat keys, gc_keys_step = of_nat step\<rparr>"
  using assms stoull_to_dec [OF assms(1)] stoull_to_dec [OF assms(2)]
  by (simp add: parse_generator_opts_def GeneratorConfig_init_def opt_number_def opt_string_def set_opt_def)

lemma kvstore_opts_size_file:
  assumes "keys < 2 ^ 64" and "NUL \<notin> set db"
  shows "parse_kvstore_opts [''-s'', to_dec keys, ''-k'', db] =
    Inr (KVStoreConfig_init\<lparr>kc_kvstore_file := db, kc_kvstore_size := of_nat keys\<rparr>)"
  using assms(2) stoull_to_dec [OF assms(1)]
  by (simp add: parse_kvstore_opts_def KVStoreConfig_init_def opt_number_def opt_string_def set_opt_def)

lemma generator_main_ok:
  assumes "0 < pg" and "length (os_fds k) + 2 \<le> os_limit k" and "length pad = 4"
    and "0 < keys" and "sizeof_Data * keys < 2 ^ 62" and "step < 2 ^ 64" and "NUL \<notin> set db"
  obtains k' rest
  where "generator_main pg beyond pad [''-n'', to_dec keys, ''-s'', to_dec step, ''-k'', db] k =
      (''generating: '' @ to_dec keys @ '' keys in '' @ db, Reached (), k')"
    and "os_disk k' db = Some (concat (map Data_bytes (generated pad (of_nat step) keys)) @ rest)"
    and "os_limit k' = os_limit k"
proof -
  have keys: "keys < 2 ^ 64" using assms(5) by (simp add: sizeof_Data_def)
  obtain k' rest where "generate_data pg beyond pad db (of_nat keys) (of_nat step) k = (Inr (Some (Inr ())), k')"
    and "os_disk k' db = Some (concat (map Data_bytes (generated pad (of_nat step) keys)) @ rest)"
    and "os_limit k' = os_limit k"
    by (rule generate_data_disk [of pg k pad keys beyond db "of_nat step"]) (use assms in auto)
  then show ?thesis
    by (intro that [of k' rest])
       (simp_all add: generator_main_def generator_opts_read [OF keys assms(6,7)] unat_of_nat_u64 [OF keys])
qed

text \<open>A new process: the disk stays, its descriptors are its own.\<close>

definition next_process :: "kv_os \<Rightarrow> kv_os" where
  "next_process k = k\<lparr>os_fds := []\<rparr>"

text \<open>What the second program has built: its store is the one the first program has written.\<close>

lemma kvstore_main_ok:
  assumes "0 < pg" and "length (os_fds k) + 2 \<le> os_limit k" and "length pad = 4"
    and "0 < keys" and "sizeof_Data * keys < 2 ^ 62" and "0 < step" and "keys * step < 2 ^ 64"
    and "NUL \<notin> set db"
    and "HttpServer_new gai ''localhost'' 8080 4 1000 t = (Inr v, t')"
  obtains k1 k2 serving
  where "generator_main pg beyond pad [''-n'', to_dec keys, ''-s'', to_dec step, ''-k'', db] k =
      (''generating: '' @ to_dec keys @ '' keys in '' @ db, Reached (), k1)"
    and "kvstore_main pg beyond' opens gai [''-s'', to_dec keys, ''-k'', db] (next_process k1, t) =
      (Reached serving, k2, t')"
    and "kv_server serving = v" and "kv_logger serving = Stderr_Logger \<lparr>bl_level = INFO\<rparr>"
    and "opened_store pad keys step 1024 (kv_store serving)"
proof -
  have keys: "keys < 2 ^ 64" using assms(5) by (simp add: sizeof_Data_def)
  have step: "step < 2 ^ 64" using assms(4,7) by (cases keys) auto
  obtain k1 rest where gen: "generator_main pg beyond pad [''-n'', to_dec keys, ''-s'', to_dec step, ''-k'', db] k =
      (''generating: '' @ to_dec keys @ '' keys in '' @ db, Reached (), k1)"
    and disk: "os_disk k1 db = Some (concat (map Data_bytes (generated pad (of_nat step) keys)) @ rest)"
    and lim: "os_limit k1 = os_limit k"
    by (rule generator_main_ok [OF assms(1-5) step assms(8)])
  have room: "length (os_fds (next_process k1)) < os_limit (next_process k1)"
    using assms(2) lim by (simp add: next_process_def)
  have kpp: "(0::nat) < 1024" "sizeof_Data * 1024 < 2 ^ 62" by (simp_all add: sizeof_Data_def)
  obtain st k2 where new: "KVStore_new pg beyond' db (of_nat (sizeof_Data * keys)) (of_nat 1024) (next_process k1) =
      (Inr (Some (Inr st)), k2)"
    and st: "opened_store pad keys step 1024 st"
    using open_database [OF assms(1) room assms(3-7) kpp, of db rest beyond'] disk by (auto simp: next_process_def)
  have "kvstore_main pg beyond' opens gai [''-s'', to_dec keys, ''-k'', db] (next_process k1, t) =
      (Reached \<lparr>kv_store = st, kv_logger = Stderr_Logger \<lparr>bl_level = INFO\<rparr>, kv_server = v\<rparr>, k2, t')"
    using new assms(9) unfolding kvstore_main_def kvstore_opts_size_file [OF keys assms(8)]
    by (simp add: KVStoreConfig_init_def main_logger_def any_set_level_def BaseLogger_new_def set_level_def mult.commute)
  with gen st show thesis by (intro that) auto
qed

text \<open>
  C18: The two programs of the key-value example together. The generator, told a number of keys, a step
  and a file on its command line, announces them and returns; the server, started afterwards as
  another process with that number and that file, builds its store, its logger with the level
  \<open>INFO\<close> and its listening server with four workers; and its \<^verbatim>\<open>serveRequest\<close> answers a request as the
  abstract database of these keys does, if the key it asks for, when there is one, is not above
  the last key, not the first key of a last index page that is not full, and not what happens to lie
  at the \<^verbatim>\<open>end()\<close> of the index. (The numbers are positive and do not overflow, the process may open
  two more files, and the listening socket can be opened.)
\<close>

theorem generator_then_kvstore:
  assumes "0 < pg" and "length (os_fds k) + 2 \<le> os_limit k" and "length pad = 4"
    and "0 < keys" and "sizeof_Data * keys < 2 ^ 62" and "0 < step" and "keys * step < 2 ^ 64"
    and "NUL \<notin> set db"
    and "HttpServer_new gai ''localhost'' 8080 4 1000 t = (Inr v, t')"
    and "case getQueryParameter request ''key'' of None \<Rightarrow> True
      | Some s \<Rightarrow> askable at_end keys step 1024 (dec_val (takeWhile is_digit s))"
  shows "\<exists>k1 k2 serving.
    generator_main pg beyond pad [''-n'', to_dec keys, ''-s'', to_dec step, ''-k'', db] k =
      (''generating: '' @ to_dec keys @ '' keys in '' @ db, Reached (), k1) \<and>
    kvstore_main pg beyond' opens gai [''-s'', to_dec keys, ''-k'', db] (next_process k1, t) =
      (Reached serving, k2, t') \<and>
    kv_server serving = v \<and> kv_logger serving = Stderr_Logger \<lparr>bl_level = INFO\<rparr> \<and>
    kv_serveRequest at_end (kv_store serving) request =
      Some (Inr (spec_response (generated_db keys step) (getQueryParameter request ''key'')))"
proof -
  obtain k1 k2 serving where programs:
    "generator_main pg beyond pad [''-n'', to_dec keys, ''-s'', to_dec step, ''-k'', db] k =
      (''generating: '' @ to_dec keys @ '' keys in '' @ db, Reached (), k1)"
    "kvstore_main pg beyond' opens gai [''-s'', to_dec keys, ''-k'', db] (next_process k1, t) =
      (Reached serving, k2, t')"
    "kv_server serving = v" "kv_logger serving = Stderr_Logger \<lparr>bl_level = INFO\<rparr>"
    and st: "opened_store pad keys step 1024 (kv_store serving)"
    by (rule kvstore_main_ok [OF assms(1-9)])
  have "kv_serveRequest at_end (kv_store serving) request =
      Some (Inr (spec_response (generated_db keys step) (getQueryParameter request ''key'')))"
    by (rule kv_serve_spec [OF st assms(6,7,4) _ _ assms(10)]) (simp_all add: sizeof_Data_def)
  with programs show ?thesis by fastforce
qed

theorem generator_then_kvstore_witness:
  "\<exists>k1 k2 serving.
    generator_main 4096 [] (zeros 4) [''-n'', to_dec 4, ''-s'', to_dec 3, ''-k'', ''db'']
      \<lparr>os_fds = [], os_limit = 1024, os_disk = \<lambda>_. None\<rparr> =
      (''generating: '' @ to_dec 4 @ '' keys in '' @ ''db'', Reached (), k1) \<and>
    fst (kvstore_main 4096 [] (\<lambda>_. None) (\<lambda>_ _. Inr [good_addr]) [''-s'', to_dec 4, ''-k'', ''db''] (next_process k1, first_os)) =
      Reached serving \<and>
    kv_serveRequest (2, 64) (kv_store serving) (mk_HttpRequest [] [(''KEY'', ''9 '')] [] ''/'' HTTP1_1 GET) =
      Some (Inr (spec_response (generated_db 4 3) (Some ''9 '')))"
proof -
  let ?gai = "\<lambda>_ _. Inr [good_addr]" and ?k = "\<lparr>os_fds = [], os_limit = 1024, os_disk = \<lambda>_. None\<rparr>"
  let ?r = "mk_HttpRequest [] [(''KEY'', ''9 '')] [] ''/'' HTTP1_1 GET"
  obtain v t' where new: "HttpServer_new ?gai ''localhost'' 8080 4 1000 first_os = (Inr v, t')"
    by (simp add: HttpServer_new_def resolve_ipv4_tcp_def os_socket_def first_os_def echo_os_def fresh_fd_def
        good_addr_def Let_def upt_rec)
  have q: "getQueryParameter ?r ''key'' = Some ''9 ''" and d: "dec_val (takeWhile is_digit ''9 '') = 9"
    by code_simp+
  have ask: "case getQueryParameter ?r ''key'' of None \<Rightarrow> True
      | Some s \<Rightarrow> askable (2, 64) 4 3 1024 (dec_val (takeWhile is_digit s))"
    unfolding q option.case d by code_simp
  obtain k1 k2 serving where "generator_main 4096 [] (zeros 4) [''-n'', to_dec 4, ''-s'', to_dec 3, ''-k'', ''db''] ?k =
      (''generating: '' @ to_dec 4 @ '' keys in '' @ ''db'', Reached (), k1)"
    and "kvstore_main 4096 [] (\<lambda>_. None) ?gai [''-s'', to_dec 4, ''-k'', ''db''] (next_process k1, first_os) =
      (Reached serving, k2, t')"
    and "kv_serveRequest (2, 64) (kv_store serving) ?r =
      Some (Inr (spec_response (generated_db 4 3) (getQueryParameter ?r ''key'')))"
    using generator_then_kvstore [where pg = 4096 and k = ?k and pad = "zeros 4" and keys = 4 and step = 3 and db = "''db''"
        and at_end = "(2, 64)" and beyond = "[]" and beyond' = "[]" and opens = "\<lambda>_. None",
        OF _ _ _ _ _ _ _ _ new ask]
    by (auto simp: zeros_def sizeof_Data_def)
  then show ?thesis unfolding q by fastforce
qed

text \<open>
  Without \<^verbatim>\<open>-s\<close> the size is 0: nothing can be mapped and the server does not start, whatever the
  generator wrote to the file they both use by default.
\<close>

lemma kvstore_default_size_refused:
  assumes "length (os_fds k) < os_limit k" and "os_disk k ''/tmp/data.db'' \<noteq> None"
  shows "fst (kvstore_main pg beyond opens gai [] (k, t)) =
    Uncaught (StoreFailed (ErrnoException ''fail to mmap file'' EINVAL))"
  using assms
  by (simp add: kvstore_main_def parse_kvstore_opts_def KVStoreConfig_init_def main_logger_def KVStore_new_def
      File_new_def sys_open_def sys_mmap_def Let_def)

section \<open>What the HTTP example leaves open\<close>

text \<open>Whatever its arguments, it is left with its listening socket only where it is still serving.\<close>

lemma HttpServer_new_fds:
  assumes "HttpServer_new gai host port pool timeout t = (r, t')"
  shows "case r of Inl _ \<Rightarrow> to_open t' = to_open t | Inr v \<Rightarrow> to_open t' = hs_fd v # to_open t \<and> hs_fd v \<notin> set (to_open t)"
  using assms listen_loop_fds
  by (auto simp: HttpServer_new_def split: sum.splits prod.splits option.splits dest!: listen_loop_fds)

lemma http_run_same_fd: "http_run f env g v = Returned v' ws \<Longrightarrow> hs_fd v' = hs_fd v"
  by (auto simp: http_run_def Let_def split: sum.splits if_splits)

lemma http_main_descriptors:
  assumes "http_main opens gai env args t = (r, t')"
  shows "case r of
      Uncaught _ \<Rightarrow> to_open t' = to_open t
    | Reached (_, Returned _ _) \<Rightarrow> to_open t' = to_open t
    | Reached _ \<Rightarrow> \<exists>fd. to_open t' = fd # to_open t
    | _ \<Rightarrow> False"
proof -
  have closed: "to_open (HttpServer_dtor v t1) = to_open t"
    if "to_open t1 = hs_fd v0 # to_open t" "hs_fd v0 \<notin> set (to_open t)" "hs_fd v = hs_fd v0" for v v0 :: HttpServer and t1
    using that by (simp add: HttpServer_dtor_def os_close_def)
  show ?thesis
    using assms http_run_same_fd
    by (auto simp: http_main_def Let_def closed dest!: HttpServer_new_fds
        split: sum.splits prod.splits run_outcome.splits)
qed

end
