(* ===== verification/KV_Over_Http.thy ===== *)
theory KV_Over_Http
  imports Worker_Conversation Example_Mains
begin

text \<open>
  The key-value example as its clients see it: the bytes that a worker of \<^verbatim>\<open>HttpKVStoreServer\<close> sends,
  from the command lines of the two programs to the connection.
\<close>

text \<open>
  \<^verbatim>\<open>serveRequest\<close> as the callback of the workers. Where it does not return a response (the store is
  asked for what it cannot answer, so the search does not end or reads outside of the file) nothing
  is known of the program.
\<close>

definition kv_callback :: "u64 \<times> u64 \<Rightarrow> KVStore \<Rightarrow> HttpRequest \<Rightarrow> http_exn + HttpResponse" where
  "kv_callback at_end st request =
     (case kv_serveRequest at_end st request of
        Some (Inr response) \<Rightarrow> Inr response
      | _ \<Rightarrow> Inl Undefined)"

text \<open>The abstract database as a callback: what the clients are promised.\<close>

definition db_callback :: "(nat \<Rightarrow> string option) \<Rightarrow> HttpRequest \<Rightarrow> http_exn + HttpResponse" where
  "db_callback db request = Inr (spec_response db (getQueryParameter request ''key''))"

definition askable_request :: "u64 \<times> u64 \<Rightarrow> nat \<Rightarrow> nat \<Rightarrow> HttpRequest \<Rightarrow> bool" where
  "askable_request at_end keys step request \<longleftrightarrow>
     (case getQueryParameter request ''key'' of
        None \<Rightarrow> True
      | Some s \<Rightarrow> askable at_end keys step 1024 (dec_val (takeWhile is_digit s)))"

lemma kv_callback_db:
  assumes "opened_store pad keys step 1024 st" and "0 < step" and "keys * step < 2 ^ 64" and "0 < keys"
    and "askable_request at_end keys step request"
  shows "kv_callback at_end st request = db_callback (generated_db keys step) request"
proof -
  have "kv_serveRequest at_end st request =
      Some (Inr (spec_response (generated_db keys step) (getQueryParameter request ''key'')))"
    by (rule kv_serve_spec [OF assms(1-4)]) (use assms(5) in \<open>simp_all add: sizeof_Data_def askable_request_def\<close>)
  then show ?thesis by (simp add: kv_callback_def db_callback_def)
qed

text \<open>Callbacks that agree on the requests asked give the same conversation.\<close>

lemma answers_cong:
  "\<forall>a\<in>set asks. cb (ask_request a) = cb' (ask_request a) \<Longrightarrow> answers cb asks = answers cb' asks"
  by (induction asks) (simp_all add: answer_def)

lemma exchange_ok_cong:
  assumes "\<forall>a\<in>set (ex_asks x). cf_callback cf (ask_request a) = cf_callback cf' (ask_request a)"
    and "cf_timeout_threshold cf = cf_timeout_threshold cf'"
  shows "exchange_ok cf fd x = exchange_ok cf' fd x"
  using assms answers_cong [OF assms(1)]
  by (simp add: exchange_ok_def served_def reports_def cong: ball_cong)

text \<open>
  C4: The key-value example answers its clients, for requests and keys within its limits. Let the generator
  have run with a number of keys, a step and a file on its command line, and after it the server, as
  another process, with that number and that file; the numbers do not overflow, and the listening
  socket can be opened. Take any reachable state of one of the server's workers and a newly accepted
  client that sends whole requests, of at most 1024 bytes each, in any number of rounds, with pieces,
  room, times and \<^verbatim>\<open>epoll_ctl\<close> as in the theorem on the worker's conversations. Let all of them ask for
  keys that the store can be asked for: not above the last key, not the first key of a last index page
  that is not full, and not what happens to lie at the \<^verbatim>\<open>end()\<close> of the index. Then the bytes the
  client gets are exactly those that the abstract database of the generated keys would send: the
  stored record as JSON for every key that is a multiple of the step, 404 for another key and 400
  without a number, in the order of the requests.
\<close>

theorem kv_clients_answered:
  assumes "0 < pg" and "length (os_fds k) + 2 \<le> os_limit k" and "length pad = 4"
    and "0 < keys" and "sizeof_Data * keys < 2 ^ 62" and "0 < step" and "keys * step < 2 ^ 64"
    and "NUL \<notin> set db" and "HttpServer_new gai ''localhost'' 8080 4 1000 t = (Inr v, t')"
    and gen: "generator_main pg beyond pad [''-n'', to_dec keys, ''-s'', to_dec step, ''-k'', db] k =
      (out, Reached (), k1)"
    and kvs: "kvstore_main pg beyond' opens gai [''-s'', to_dec keys, ''-k'', db] (next_process k1, t) =
      (Reached serving, k2, t')"
    and cf: "cf = server_config (kv_callback at_end (kv_store serving)) (kv_server serving)"
    and w: "worker_reach cf w" "fd \<noteq> hs_fd v" "watched (nt_epoll (hw_net w)) fd \<noteq> None"
      "handler_of (hw_net w) fd = None" "nt_ios (hw_net w) fd = io_init [] []"
      "False \<notin> set (ep_script (nt_epoll (hw_net w)))" "xs \<noteq> []"
    and xs: "\<forall>x\<in>set xs. exchange_ok (server_config (db_callback (generated_db keys step)) v) fd x"
    and asked: "\<forall>x\<in>set xs. \<forall>a\<in>set (ex_asks x). askable_request at_end keys step (ask_request a)"
    and closing: "\<forall>x\<in>set (butlast xs). \<not> list_ex closes (ex_asks x)"
    and fit: "exchanges_fit cf fd xs tp w"
  shows "\<exists>tp' w'. exchanges cf fd xs tp w = Inr (tp', w') \<and>
    io_sent (nt_ios (hw_net w') fd) =
      concat (concat (map (\<lambda>x. answers (db_callback (generated_db keys step)) (ex_asks x)) xs))"
proof -
  let ?db = "db_callback (generated_db keys step)"
  obtain k1' k2' serving' where
    "generator_main pg beyond pad [''-n'', to_dec keys, ''-s'', to_dec step, ''-k'', db] k =
      (''generating: '' @ to_dec keys @ '' keys in '' @ db, Reached (), k1')"
    "kvstore_main pg beyond' opens gai [''-s'', to_dec keys, ''-k'', db] (next_process k1', t) =
      (Reached serving', k2', t')"
    "kv_server serving' = v" "opened_store pad keys step 1024 (kv_store serving')"
    by (rule kvstore_main_ok [OF assms(1-9)])
  with gen kvs have st: "kv_server serving = v" "opened_store pad keys step 1024 (kv_store serving)" by auto
  have same: "cf_callback cf (ask_request a) = ?db (ask_request a)" if "x \<in> set xs" "a \<in> set (ex_asks x)" for x a
    using kv_callback_db [OF st(2) assms(6,7,4)] asked that by (simp add: cf server_config_def)
  have ok: "\<forall>x\<in>set xs. exchange_ok cf fd x"
  proof
    fix x assume x: "x \<in> set xs"
    have "exchange_ok cf fd x = exchange_ok (server_config ?db v) fd x"
      by (rule exchange_ok_cong) (use same x st(1) in \<open>auto simp: cf server_config_def\<close>)
    with xs x show "exchange_ok cf fd x" by simp
  qed
  have "idle_client cf fd w"
    by (rule new_client_idle [OF _ w(3-5,1,6)]) (use w(2) st(1) in \<open>simp add: cf server_config_def\<close>)
  from exchanges_pay [OF this ok fit closing w(7)] w(5) obtain tp' w' where w':
    "exchanges cf fd xs tp w = Inr (tp', w')"
    "io_sent (nt_ios (hw_net w') fd) = concat (concat (map (\<lambda>x. answers (cf_callback cf) (ex_asks x)) xs))"
    by (auto simp: io_init_def)
  have "map (\<lambda>x. answers (cf_callback cf) (ex_asks x)) xs = map (\<lambda>x. answers ?db (ex_asks x)) xs"
    using same by (intro map_cong refl answers_cong) simp
  with w' show ?thesis by simp
qed

text \<open>A client of the first worker asks for a key that is there and, on the same connection, for another.\<close>

definition key_ask :: "string \<Rightarrow> ask" where
  "key_ask s = \<lparr>ak_method = GET, ak_path = ''/'', ak_query = [(''key'', s)], ak_version = HTTP1_1,
     ak_headers = [(''A'', ''b'')], ak_body = []\<rparr>"

definition key_exchange :: exchange where
  "key_exchange =
     \<lparr>ex_asks = [key_ask ''9'', key_ask ''7''], ex_items = [RBytes (ask_text (key_ask ''9'')), RBytes (ask_text (key_ask ''7''))],
      ex_outs = [WRoom 200, WRoom 200], ex_others = [], ex_round = ready_round 20\<rparr>"

lemma key_asks_served:
  "served (db_callback db) (key_ask ''9'')" "served (db_callback db) (key_ask ''7'')"
proof -
  have "length (ask_text (key_ask ''9'')) \<le> 1024" "length (ask_text (key_ask ''7'')) \<le> 1024" by code_simp+
  then show "served (db_callback db) (key_ask ''9'')" "served (db_callback db) (key_ask ''7'')"
    by (simp_all add: served_def ok_ask_defs db_callback_def key_ask_def ok_request_def ok_path_def ok_header_def
        ok_param_def bodiless_def)
qed

lemma key_params:
  "getQueryParameter (ask_request (key_ask ''9'')) ''key'' = Some ''9''"
  "getQueryParameter (ask_request (key_ask ''7'')) ''key'' = Some ''7''"
  "dec_val (takeWhile is_digit ''9'') = 9" "takeWhile is_digit ''9'' \<noteq> []"
  "dec_val (takeWhile is_digit ''7'') = 7" "takeWhile is_digit ''7'' \<noteq> []"
  by code_simp+

definition key_response :: HttpResponse where
  "key_response =
     setBody (''{'' @ DQ @ ''key'' @ DQ @ '':'' @ to_dec 9 @ '','' @ DQ @ ''value'' @ DQ @ '':'' @ DQ @
         replicate 20 CHR ''x'' @ DQ @ ''}'')
       (setStatusCode OK (addHeader ''Content-Type'' ''application/json'' HttpResponse_init))"

lemma key_responses:
  "spec_response (generated_db 4 3) (Some ''9'') = key_response"
  "spec_response (generated_db 4 3) (Some ''7'') = setStatusCode NOT_FOUND HttpResponse_init"
  using key_params(3-6)
  by (simp_all add: spec_response_def Let_def generated_db_def key_response_def del: takeWhile.simps)

lemma two_fit: "n \<le> k \<Longrightarrow> m \<le> k \<Longrightarrow> enough_room [n, m] [WRoom k, WRoom k]"
  by (cases "n = 0"; cases "m = 0") simp_all

lemma key_exchange_fits:
  "feed True [key_ask ''9'', key_ask ''7''] 0 [RBytes (ask_text (key_ask ''9'')), RBytes (ask_text (key_ask ''7''))]"
  "enough_room (map length (answers (db_callback (generated_db 4 3)) [key_ask ''9'', key_ask ''7''])) [WRoom 200, WRoom 200]"
proof -
  show "feed True [key_ask ''9'', key_ask ''7''] 0 [RBytes (ask_text (key_ask ''9'')), RBytes (ask_text (key_ask ''7''))]"
    by code_simp
  have "length (dump (finish_response (ask_request (key_ask ''9'')) key_response)) \<le> 200"
    "length (dump (finish_response (ask_request (key_ask ''7'')) (setStatusCode NOT_FOUND HttpResponse_init))) \<le> 200"
    by code_simp+
  then have "length (answer (db_callback (generated_db 4 3)) (key_ask ''9'')) \<le> 200"
    "length (answer (db_callback (generated_db 4 3)) (key_ask ''7'')) \<le> 200"
    by (simp_all only: answer_def db_callback_def key_params(1,2) key_responses sum.case)
  moreover have "\<not> closes (key_ask ''9'')" by code_simp
  ultimately show "enough_room (map length (answers (db_callback (generated_db 4 3)) [key_ask ''9'', key_ask ''7'']))
      [WRoom 200, WRoom 200]"
    using two_fit by (simp only: answers.simps list.map if_False if_cancel)
qed

lemma key_asks_askable:
  "askable_request (2, 64) 4 3 (ask_request (key_ask ''9''))"
  "askable_request (2, 64) 4 3 (ask_request (key_ask ''7''))"
proof -
  have "askable (2, 64) 4 3 1024 9" "askable (2, 64) 4 3 1024 7" by code_simp+
  then show "askable_request (2, 64) 4 3 (ask_request (key_ask ''9''))"
    "askable_request (2, 64) 4 3 (ask_request (key_ask ''7''))"
    by (simp_all add: askable_request_def key_params del: takeWhile.simps)
qed

lemma key_server_new:
  "\<exists>t'. HttpServer_new (\<lambda>_ _. Inr [good_addr]) ''localhost'' 8080 4 1000 (first_os\<lparr>to_open := [0, 1, 2]\<rparr>) =
    (Inr (idle_server\<lparr>hs_thread_pool_size := 4\<rparr>), t')"
  by (simp add: HttpServer_new_def resolve_ipv4_tcp_def os_socket_def first_os_def echo_os_def fresh_fd_def
      good_addr_def Let_def upt_rec idle_server_def)

theorem kv_clients_answered_witness:
  "\<exists>cf tp' w'. exchanges cf 5 [key_exchange] 0 demo_client = Inr (tp', w') \<and>
    io_sent (nt_ios (hw_net w') 5) =
      concat (answers (db_callback (generated_db 4 3)) [key_ask ''9'', key_ask ''7''])"
proof -
  let ?gai = "\<lambda>_ _. Inr [good_addr]" and ?k = "\<lparr>os_fds = [], os_limit = 1024, os_disk = \<lambda>_. None\<rparr>"
  let ?t = "first_os\<lparr>to_open := [0, 1, 2]\<rparr>" and ?db = "db_callback (generated_db 4 3)"
  define v where "v = idle_server\<lparr>hs_thread_pool_size := 4\<rparr>"
  obtain t' where new: "HttpServer_new ?gai ''localhost'' 8080 4 1000 ?t = (Inr v, t')"
    using key_server_new unfolding v_def by blast
  have size: "(0::nat) < 4096" "length (os_fds ?k) + 2 \<le> os_limit ?k" "length (zeros 4) = 4" "(0::nat) < 4"
    "sizeof_Data * 4 < 2 ^ 62" "(0::nat) < 3" "(4::nat) * 3 < 2 ^ 64" "NUL \<notin> set ''db''"
    by (simp_all add: zeros_def sizeof_Data_def)
  obtain k1 k2 serving where
    gen: "generator_main 4096 [] (zeros 4) [''-n'', to_dec 4, ''-s'', to_dec 3, ''-k'', ''db''] ?k =
      (''generating: '' @ to_dec 4 @ '' keys in '' @ ''db'', Reached (), k1)"
    and kvs: "kvstore_main 4096 [] (\<lambda>_. None) ?gai [''-s'', to_dec 4, ''-k'', ''db''] (next_process k1, ?t) =
      (Reached serving, k2, t')" and server: "kv_server serving = v"
    by (rule kvstore_main_ok [OF size new])
  define cf where "cf = server_config (kv_callback (2, 64) (kv_store serving)) (kv_server serving)"
  have cf': "cf = demo_config\<lparr>cf_callback := kv_callback (2, 64) (kv_store serving)\<rparr>"
    by (simp add: cf_def server server_config_def v_def idle_server_def demo_config_def)
  have reach: "worker_reach cf demo_client" unfolding cf' by (rule demo_client_reach_any)
  have "reports (server_config ?db v) (ready_round 20) 5" "reports cf (ready_round 20) 5"
    by (simp_all add: reports_def ready_round_def cf' demo_config_def server_config_def v_def idle_server_def)
  with key_exchange_fits key_asks_served [of "generated_db 4 3"]
  have ok: "\<forall>x\<in>set [key_exchange]. exchange_ok (server_config ?db v) 5 x" and rep: "reports cf (ready_round 20) 5"
    by (simp_all add: exchange_ok_def key_exchange_def server_config_def)
  have asked: "\<forall>x\<in>set [key_exchange]. \<forall>a\<in>set (ex_asks x). askable_request (2, 64) 4 3 (ask_request a)"
    using key_asks_askable by (simp add: key_exchange_def)
  have "round_ok cf (ready_round 20) (arrivals 5 key_exchange demo_client)"
    using in_turn_round [of demo_client 5 key_exchange "[]" cf] demo_client_new(4,5)
    by (simp add: key_exchange_def ready_round_def cf' demo_config_def)
  then have fit: "exchanges_fit cf 5 [key_exchange] 0 demo_client"
    by (simp add: key_exchange_def split: sum.split)
  from kv_clients_answered [OF size new gen kvs cf_def reach _ demo_client_new(5,1,2) _ _ ok asked _ fit]
  have "\<exists>tp' w'. exchanges cf 5 [key_exchange] 0 demo_client = Inr (tp', w') \<and>
      io_sent (nt_ios (hw_net w') 5) = concat (concat (map (\<lambda>x. answers ?db (ex_asks x)) [key_exchange]))"
    by (simp add: v_def idle_server_def demo_client_new(3))
  moreover have "concat (map (\<lambda>x. answers ?db (ex_asks x)) [key_exchange]) = answers ?db [key_ask ''9'', key_ask ''7'']"
    by (simp add: key_exchange_def)
  ultimately show ?thesis by metis
qed

end
