(* ===== verification/Async_Http_Props.thy ===== *)
theory Async_Http_Props
  imports Async_Http
begin

text \<open>
  The constant-response callback of \<^verbatim>\<open>async-http-example.cpp\<close> over the life of a connection: the
  request arrives in pieces, one event each, and the response leaves in pieces, in one event.
\<close>

section \<open>The search in a padded buffer\<close>

lemma find_sub_pad:
  assumes "pat \<noteq> []" and "z \<notin> set pat" and "find_sub pat d = None"
  shows "find_sub pat (d @ replicate n z) = None"
  unfolding find_sub_None
proof (intro allI impI notI)
  fix j assume "prefix pat (drop j (d @ replicate n z))"
  then obtain rest where r: "drop j d @ drop (j - length d) (replicate n z) = pat @ rest"
    by (auto simp: prefix_def)
  have "length pat \<le> length (drop j d)"
  proof (rule ccontr)
    assume *: "\<not> length pat \<le> length (drop j d)"
    let ?k = "length (drop j d)"
    let ?z = "drop (j - length d) (replicate n z)"
    have "?k < length (pat @ rest)" using * by simp
    then have "0 < length ?z" unfolding r [symmetric] length_append by linarith
    then have "(pat @ rest) ! ?k = z" unfolding r [symmetric] by (simp add: nth_append)
    moreover have "?k < length pat" using * by simp
    ultimately have "z \<in> set pat" by (metis nth_append nth_mem)
    with assms(2) show False by simp
  qed
  then have "take (length pat) (drop j d) = pat" using arg_cong [OF r, of "take (length pat)"] by simp
  then have "prefix pat (drop j d)" by (metis take_is_prefix)
  moreover have "j \<le> length d" using \<open>length pat \<le> length (drop j d)\<close> assms(1) by (cases pat) auto
  ultimately show False using assms(3) by (auto simp: find_sub_None)
qed

lemma find_sub_pad_iff:
  "pat \<noteq> [] \<Longrightarrow> z \<notin> set pat \<Longrightarrow> find_sub pat (d @ replicate n z) = None \<longleftrightarrow> find_sub pat d = None"
  using find_sub_pad [of pat z d n] find_sub_extend [of pat d _ "replicate n z"]
  by (cases "find_sub pat d") auto

lemma find_sub_append_None: "find_sub pat (d @ t) = None \<Longrightarrow> find_sub pat d = None"
  using find_sub_extend [of pat d _ t] by (cases "find_sub pat d") auto

section \<open>Reading\<close>

text \<open>The context of a connection that has received \<open>d\<close>, in which no empty line has been found.\<close>

definition http_reading :: "string \<Rightarrow> HttpContext \<Rightarrow> bool" where
  "http_reading d ctx \<longleftrightarrow>
     hc_read_pos ctx = length d \<and> hc_write_pos ctx = 0 \<and> hc_response_buffer ctx = [] \<and>
     (\<exists>n>0. hc_read_buffer ctx = d @ replicate n (CHR 0x00))"

lemma http_reading_default [simp]: "http_reading [] HttpContext_default"
  by (auto simp: http_reading_def HttpContext_default_def)

lemma http_received_buffer:
  assumes "http_reading d ctx" and "length got \<le> length (hc_read_buffer ctx) - hc_read_pos ctx"
  obtains n where "http_received got ctx = ctx\<lparr>hc_read_pos := length (d @ got),
      hc_read_buffer := (d @ got) @ replicate n (CHR 0x00)\<rparr>"
  using assms by (auto simp: http_reading_def http_received_def Let_def)

lemma http_received_found:
  assumes "http_reading d ctx" and "length got \<le> length (hc_read_buffer ctx) - hc_read_pos ctx"
  shows "find_sub CRLF2 (hc_read_buffer (http_received got ctx)) = None \<longleftrightarrow> find_sub CRLF2 (d @ got) = None"
proof -
  obtain n where n: "http_received got ctx = ctx\<lparr>hc_read_pos := length (d @ got),
      hc_read_buffer := (d @ got) @ replicate n (CHR 0x00)\<rparr>"
    using assms by (rule http_received_buffer)
  have "CHR 0x00 \<notin> set CRLF2" by (simp add: CRLF2_def)
  then have "find_sub CRLF2 ((d @ got) @ replicate n (CHR 0x00)) = None \<longleftrightarrow> find_sub CRLF2 (d @ got) = None"
    by (intro find_sub_pad_iff) simp_all
  then show ?thesis unfolding n by simp
qed

lemma http_received_reading:
  assumes "http_reading d ctx" and "length got \<le> length (hc_read_buffer ctx) - hc_read_pos ctx" and "got \<noteq> []"
  shows "http_reading (d @ got) (http_grow (http_received got ctx))"
proof -
  obtain n where n: "http_received got ctx = ctx\<lparr>hc_read_pos := length (d @ got),
      hc_read_buffer := (d @ got) @ replicate n (CHR 0x00)\<rparr>"
    using assms(1,2) by (rule http_received_buffer)
  show ?thesis
    unfolding n using assms(1,3)
    by (auto simp: http_reading_def http_grow_def)
qed


text \<open>What has arrived is one piece, or nothing.\<close>

definition arrived :: "string \<Rightarrow> rd_item list" where
  "arrived p = (if p = [] then [] else [RBytes p])"

definition http_answering :: "HttpContext \<Rightarrow> bool" where
  "http_answering ctx \<longleftrightarrow> hc_write_pos ctx = 0 \<and> hc_response_buffer ctx = http_response"

text \<open>The descriptor of a connection in use, with its script of input and output.\<close>

definition talks :: "AsyncConnection \<Rightarrow> tcp_os \<Rightarrow> string \<Rightarrow> rd_item list \<Rightarrow> wr_item list \<Rightarrow> bool" where
  "talks c s sent is os \<longleftrightarrow>
     ac_isOpened c \<and> ac_fd c \<in> set (to_open s) \<and> to_connected s (ac_fd c) \<and>
     io_sent (to_io s (ac_fd c)) = sent \<and> io_in (to_io s (ac_fd c)) = is \<and> io_out (to_io s (ac_fd c)) = os"

lemma ac_read_arrived:
  assumes "talks c s sent (arrived p) os" and "0 < len"
  shows "\<exists>s'. ac_read len (c, s) = (Inr (Some (length (take len p)), take len p), c, s') \<and>
    talks c s' sent (arrived (drop len p)) os"
  using assms
  by (cases "p = []") (auto simp: talks_def arrived_def ac_read_def os_read_def sys_read_def note_reset_def)

text \<open>One turn of the loop.\<close>

lemma http_handleRead_turn:
  assumes "http_reading d ctx" and "talks c s sent (arrived p) os"
  shows "\<exists>n s'. 0 < n \<and> talks c s' sent (arrived (drop n p)) os \<and>
    (if p = [] then http_handleRead ctx (c, s) = (Inr (), ctx, c, s')
     else if find_sub CRLF2 (d @ take n p) = None then
       \<exists>ctx'. http_reading (d @ take n p) ctx' \<and> http_handleRead ctx (c, s) = http_handleRead ctx' (c, s')
     else \<exists>ctx'. http_answering ctx' \<and>
       http_handleRead ctx (c, s) = (Inr (), ctx', c\<lparr>ac_interest := ev_add OUT (ev_sub IN (ac_interest c))\<rparr>, s'))"
proof -
  define n where "n = length (hc_read_buffer ctx) - hc_read_pos ctx"
  define ctx1 where "ctx1 = http_received (take n p) ctx"
  have n: "0 < n" using assms(1) by (auto simp: http_reading_def n_def)
  obtain s1 where rd: "ac_read n (c, s) = (Inr (Some (length (take n p)), take n p), c, s1)"
    and t: "talks c s1 sent (arrived (drop n p)) os"
    using ac_read_arrived [OF assms(2) n] by blast
  have step: "http_handleRead ctx (c, s) =
      (if p = [] then (Inr (), ctx, c, s1)
       else if find_sub CRLF2 (hc_read_buffer ctx1) \<noteq> None then
         (Inr (), ctx1\<lparr>hc_response_buffer := http_response\<rparr>,
          c\<lparr>ac_interest := ev_add OUT (ev_sub IN (ac_interest c))\<rparr>, s1)
       else http_handleRead (http_grow ctx1) (c, s1))"
    unfolding http_handleRead.simps [of ctx c s] n_def [symmetric] rd
    using n by (simp add: isEOF_def again_def ctx1_def del: length_take)
  have short: "length (take n p) \<le> length (hc_read_buffer ctx) - hc_read_pos ctx" by (simp add: n_def)
  have found: "find_sub CRLF2 (hc_read_buffer ctx1) = None \<longleftrightarrow> find_sub CRLF2 (d @ take n p) = None"
    unfolding ctx1_def by (rule http_received_found [OF assms(1) short])
  have reading: "http_reading (d @ take n p) (http_grow ctx1)" if "p \<noteq> []"
    unfolding ctx1_def by (rule http_received_reading [OF assms(1) short]) (use that n in simp)
  have "http_answering (ctx1\<lparr>hc_response_buffer := http_response\<rparr>)"
    using assms(1) by (simp add: http_reading_def http_answering_def ctx1_def http_received_def Let_def)
  with n t reading show ?thesis
    unfolding step found by (intro exI [of _ n] exI [of _ s1]) auto
qed

lemma talks_interest [simp]: "talks (c\<lparr>ac_interest := i\<rparr>) s sent is os = talks c s sent is os"
  by (simp add: talks_def ac_isOpened_def)

lemma http_handleRead_arrived:
  assumes "http_reading d ctx" and "talks c s sent (arrived p) os"
  shows "\<exists>ctx' s' p'. talks c s' sent (arrived p') os \<and>
    (if find_sub CRLF2 (d @ p) = None \<or> p = [] then
       http_handleRead ctx (c, s) = (Inr (), ctx', c, s') \<and> http_reading (d @ p) ctx' \<and> p' = []
     else http_handleRead ctx (c, s) = (Inr (), ctx', c\<lparr>ac_interest := ev_add OUT (ev_sub IN (ac_interest c))\<rparr>, s') \<and>
       http_answering ctx')"
  using assms
proof (induction "length p" arbitrary: d ctx s p rule: less_induct)
  case less
  obtain n s1 where n: "0 < n" and t: "talks c s1 sent (arrived (drop n p)) os"
    and turn: "if p = [] then http_handleRead ctx (c, s) = (Inr (), ctx, c, s1)
     else if find_sub CRLF2 (d @ take n p) = None then
       \<exists>ctx'. http_reading (d @ take n p) ctx' \<and> http_handleRead ctx (c, s) = http_handleRead ctx' (c, s1)
     else \<exists>ctx'. http_answering ctx' \<and>
       http_handleRead ctx (c, s) = (Inr (), ctx', c\<lparr>ac_interest := ev_add OUT (ev_sub IN (ac_interest c))\<rparr>, s1)"
    using http_handleRead_turn [OF less.prems] by blast
  show ?case
  proof (cases "p \<noteq> [] \<and> find_sub CRLF2 (d @ take n p) = None")
    case True
    then obtain ctx1 where ctx1: "http_reading (d @ take n p) ctx1"
        "http_handleRead ctx (c, s) = http_handleRead ctx1 (c, s1)"
      using turn by auto
    have "length (drop n p) < length p" using True n by (cases p) auto
    note ih = less.hyps [OF this ctx1(1) t, folded ctx1(2), unfolded append_assoc append_take_drop_id]
    have "find_sub CRLF2 (d @ p) = None \<or> drop n p = [] \<longleftrightarrow> find_sub CRLF2 (d @ p) = None \<or> p = []"
      using True by (cases "drop n p = []") (auto simp: take_all_iff)
    with ih show ?thesis by (simp only:)
  next
    case False
    note found = this
    show ?thesis
    proof (cases "p = []")
      case True
      with turn t less.prems(1) show ?thesis by (auto intro!: exI [of _ s1])
    next
      case False
      with found
      have "find_sub CRLF2 (d @ p) \<noteq> None"
        using find_sub_append_None [of CRLF2 "d @ take n p" "drop n p"] by (auto simp del: not_None_eq)
      moreover obtain ctx' where "http_answering ctx'" "http_handleRead ctx (c, s) =
          (Inr (), ctx', c\<lparr>ac_interest := ev_add OUT (ev_sub IN (ac_interest c))\<rparr>, s1)"
        using False found turn by auto
      ultimately show ?thesis
        using False t by (intro exI [of _ ctx'] exI [of _ s1] exI [of _ "drop n p"]) (simp del: not_None_eq)
    qed
  qed
qed

section \<open>Writing\<close>

lemma http_handleWrite_room:
  assumes "talks c s sent is (map WRoom ks)" and "\<forall>k\<in>set ks. 0 < k"
    and "hc_write_pos ctx < length (hc_response_buffer ctx)"
    and "length (hc_response_buffer ctx) - hc_write_pos ctx \<le> sum_list ks"
  shows "\<exists>s'. http_handleWrite ctx (c, s) = (Inr (), None, c\<lparr>ac_fd := FD_CLOSED\<rparr>, s') \<and>
    io_sent (to_io s' (ac_fd c)) = sent @ drop (hc_write_pos ctx) (hc_response_buffer ctx) \<and>
    ac_fd c \<notin> set (to_open s')"
  using assms
proof (induction ks arbitrary: ctx s sent)
  case (Cons k ks)
  let ?w = "hc_write_pos ctx" and ?rb = "hc_response_buffer ctx"
  define m where "m = min k (length ?rb - ?w)"
  define s1 where "s1 = s\<lparr>to_io := (to_io s)(ac_fd c := (to_io s (ac_fd c))
     \<lparr>io_out := map WRoom ks, io_sent := sent @ take k (drop ?w ?rb)\<rparr>)\<rparr>"
  have m: "0 < m" "m \<le> length ?rb - ?w" using Cons.prems(2,3) by (simp_all add: m_def)
  have wr: "ac_write (drop ?w ?rb) (c, s) = (Inr (Some m), c, s1)"
    using Cons.prems(1)
    by (auto simp: talks_def ac_write_def os_write_def sys_write_def m_def s1_def)
  have tk: "take k (drop ?w ?rb) = take m (drop ?w ?rb)" by (simp add: m_def min_def)
  have t1: "talks c s1 (sent @ take m (drop ?w ?rb)) is (map WRoom ks)"
    using Cons.prems(1) tk by (simp add: talks_def s1_def)
  have step: "http_handleWrite ctx (c, s) =
      (if ?w + m = length ?rb then (case ac_close (c, s1) of (q, x) \<Rightarrow> (q, None, x))
       else http_handleWrite (ctx\<lparr>hc_write_pos := ?w + m\<rparr>) (c, s1))"
    using m(1) by (simp add: http_handleWrite.simps [of ctx c s] wr again_def bytes_def)
  show ?case
  proof (cases "?w + m = length ?rb")
    case True
    with t1 step Cons.prems(3) show ?thesis
      by (auto simp: talks_def ac_close_def os_shutdown_def os_close_def)
  next
    case False
    let ?ctx = "ctx\<lparr>hc_write_pos := ?w + m\<rparr>"
    have "m = k" using False Cons.prems(3) by (simp add: m_def min_def split: if_splits)
    then have "\<exists>s'. http_handleWrite ?ctx (c, s1) = (Inr (), None, c\<lparr>ac_fd := FD_CLOSED\<rparr>, s') \<and>
        io_sent (to_io s' (ac_fd c)) = (sent @ take m (drop ?w ?rb)) @ drop (hc_write_pos ?ctx) (hc_response_buffer ?ctx) \<and>
        ac_fd c \<notin> set (to_open s')"
      by (intro Cons.IH [OF t1]) (use Cons.prems m False in auto)
    moreover have "take m (drop ?w ?rb) @ drop (?w + m) ?rb = drop ?w ?rb"
      by (metis add.commute append_take_drop_id drop_drop)
    ultimately show ?thesis using step False by simp
  qed
qed simp

section \<open>A connection from its first byte to its last\<close>

text \<open>More input arrives, and room for output.\<close>

definition io_arrives :: "int \<Rightarrow> rd_item list \<Rightarrow> wr_item list \<Rightarrow> tcp_os \<Rightarrow> tcp_os" where
  "io_arrives fd is os s =
     s\<lparr>to_io := (to_io s)(fd := (to_io s fd)\<lparr>io_in := io_in (to_io s fd) @ is, io_out := io_out (to_io s fd) @ os\<rparr>)\<rparr>"

text \<open>The callback's calls while the request arrives, a piece at a time; the first that throws ends them.\<close>

fun http_pieces :: "string list \<Rightarrow> AsyncConnection \<Rightarrow> http_registry \<times> tcp_os \<Rightarrow>
    (tcp_exn + unit) \<times> AsyncConnection \<times> http_registry \<times> tcp_os" where
  "http_pieces [] c hs = (Inr (), c, hs)"
| "http_pieces (p # ps) c (h, s) =
     (case http_handler c (EventsSet_of [IN]) (h, io_arrives (ac_fd c) [RBytes p] [] s) of
        (Inl e, y) \<Rightarrow> (Inl e, y)
      | (Inr _, c, hs) \<Rightarrow> http_pieces ps c hs)"

lemma talks_io_arrives:
  "talks c s sent is os \<Longrightarrow> talks c (io_arrives (ac_fd c) is' os' s) sent (is @ is') (os @ os')"
  by (simp add: talks_def io_arrives_def)

lemma http_context_update [simp]:
  "http_context (c\<lparr>ac_interest := i\<rparr>) h = http_context c h"
  "http_context c (AList.update (ac_id c) ctx h) = ctx"
  by (simp_all add: http_context_def update_conv')

lemma http_handler_IN:
  assumes "http_handleRead (http_context c h) (c, s) = (Inr (), ctx, c', s')" and "ac_id c' = ac_id c"
  shows "http_handler c (EventsSet_of [IN]) (h, s) = (Inr (), c', AList.update (ac_id c) ctx h, s')"
proof -
  have "EventsSet_of [IN] \<noteq> EventsSet_of [IN, OUT]" by (simp add: EventsSet_eq_iff)
  with assms show ?thesis
    by (simp add: http_handler_def http_serve_def ev_diff_empty_iff del: EventsSet_of.simps)
qed

lemma http_handler_OUT:
  assumes "http_handleWrite (http_context c h) (c, s) = (Inr (), ctx, c', s')" and "ac_id c' = ac_id c"
  shows "http_handler c (EventsSet_of [OUT]) (h, s) = (Inr (), c',
    (case ctx of None \<Rightarrow> AList.delete (ac_id c) h | Some ctx \<Rightarrow> AList.update (ac_id c) ctx h), s')"
proof -
  have "EventsSet_of [OUT] \<noteq> EventsSet_of [IN, OUT]" by (simp add: EventsSet_eq_iff)
  with assms show ?thesis
    by (cases ctx) (simp_all add: http_handler_def http_serve_def ev_diff_empty_iff del: EventsSet_of.simps)
qed


lemma http_pieces_reading:
  assumes "\<forall>q\<in>set ps. q \<noteq> []" and "find_sub CRLF2 (d @ concat ps) = None"
    and "http_reading d (http_context c h)" and "talks c s sent [] os"
  shows "\<exists>h' s'. http_pieces ps c (h, s) = (Inr (), c, h', s') \<and> talks c s' sent [] os \<and>
    http_reading (d @ concat ps) (http_context c h') \<and> AList.delete (ac_id c) h' = AList.delete (ac_id c) h"
  using assms
proof (induction ps arbitrary: d h s)
  case (Cons p ps)
  let ?s = "io_arrives (ac_fd c) [RBytes p] [] s"
  have t: "talks c ?s sent (arrived p) os"
    using talks_io_arrives [OF Cons.prems(4), of "[RBytes p]" "[]"] Cons.prems(1) by (simp add: arrived_def)
  have "find_sub CRLF2 ((d @ p) @ concat ps) = None" using Cons.prems(2) by simp
  note none = this find_sub_append_None [OF this]
  obtain ctx s1 where ctx: "http_handleRead (http_context c h) (c, ?s) = (Inr (), ctx, c, s1)"
    "http_reading (d @ p) ctx" "talks c s1 sent [] os"
    using http_handleRead_arrived [OF Cons.prems(3) t] none(2) by (auto simp: arrived_def)
  let ?h = "AList.update (ac_id c) ctx h"
  have "\<exists>h' s'. http_pieces ps c (?h, s1) = (Inr (), c, h', s') \<and> talks c s' sent [] os \<and>
      http_reading ((d @ p) @ concat ps) (http_context c h') \<and> AList.delete (ac_id c) h' = AList.delete (ac_id c) ?h"
    by (rule Cons.IH) (use Cons.prems(1) none ctx in simp_all)
  with http_handler_IN [OF ctx(1)] show ?case by (auto simp: delete_update_same)
qed simp

lemma http_pieces_append:
  "http_pieces ps c hs = (Inr (), c', hs') \<Longrightarrow> http_pieces (ps @ qs) c hs = http_pieces qs c' hs'"
  by (induction ps c hs rule: http_pieces.induct) (auto split: sum.splits prod.splits)

text \<open>The last piece ends the header: the connection now waits for room, and has sent nothing.\<close>

lemma http_pieces_asked:
  assumes "\<forall>q\<in>set (ps @ [p]). q \<noteq> []" and "find_sub CRLF2 (concat ps) = None"
    and "find_sub CRLF2 (concat (ps @ [p])) \<noteq> None"
    and "ac_id c \<notin> fst ` set h" and "talks c s [] [] []" and "ac_interest c = only_IN"
  shows "\<exists>h' s' is. http_pieces (ps @ [p]) c (h, s) = (Inr (), c\<lparr>ac_interest := only_OUT\<rparr>, h', s') \<and>
    talks c s' [] is [] \<and> http_answering (http_context c h') \<and> AList.delete (ac_id c) h' = h"
proof -
  have "map_of h (ac_id c) = None" using assms(4) by (simp add: map_of_eq_None_iff)
  then have "http_reading [] (http_context c h)" by (simp add: http_context_def)
  then obtain h1 s1 where run: "http_pieces ps c (h, s) = (Inr (), c, h1, s1)" and t1: "talks c s1 [] [] []"
    and r1: "http_reading (concat ps) (http_context c h1)"
    and h1: "AList.delete (ac_id c) h1 = AList.delete (ac_id c) h"
    using http_pieces_reading [of ps "[]" c h s "[]" "[]"] assms(1,2,5) by auto
  let ?s = "io_arrives (ac_fd c) [RBytes p] [] s1"
  have t: "talks c ?s [] (arrived p) []"
    using talks_io_arrives [OF t1, of "[RBytes p]" "[]"] assms(1) by (simp add: arrived_def)
  have mask: "ev_add OUT (ev_sub IN (ac_interest c)) = only_OUT" by (simp add: assms(6) to_write_mask)
  obtain ctx s2 p' where ctx: "http_handleRead (http_context c h1) (c, ?s) =
      (Inr (), ctx, c\<lparr>ac_interest := only_OUT\<rparr>, s2)" "http_answering ctx" "talks c s2 [] (arrived p') []"
    using http_handleRead_arrived [OF r1 t] assms(1,3) by (auto simp: mask)
  have "AList.delete (ac_id c) h = h" using assms(4) by (simp add: delete_id)
  with http_handler_IN [OF ctx(1)] http_pieces_append [OF run, of "[p]"] ctx(2,3) h1 show ?thesis
    by (auto simp: delete_update_same)
qed

text \<open>
  C35: A request in any pieces is answered once. A fresh connection gets its request in any non-empty
  pieces, one event each, and only the last of them completes the first empty line. Then the callback
  returns every time, sends nothing yet and leaves the connection waiting for room only; when there
  is room for the response, granted in any portions, the next event sends exactly the constant
  response, closes the descriptor and forgets the connection's context.
\<close>

theorem async_http_answers:
  assumes "talks c s [] [] []" and "ac_interest c = only_IN" and "ac_id c \<notin> fst ` set h"
    and "\<forall>q\<in>set (ps @ [p]). q \<noteq> []" and "find_sub CRLF2 (concat ps) = None"
    and "find_sub CRLF2 (concat (ps @ [p])) \<noteq> None"
    and "\<forall>k\<in>set ks. 0 < k" and "length http_response \<le> sum_list ks"
  shows "\<exists>h1 s1 s2. http_pieces (ps @ [p]) c (h, s) = (Inr (), c\<lparr>ac_interest := only_OUT\<rparr>, h1, s1) \<and>
    io_sent (to_io s1 (ac_fd c)) = [] \<and>
    http_handler (c\<lparr>ac_interest := only_OUT\<rparr>) (EventsSet_of [OUT])
      (h1, io_arrives (ac_fd c) [] (map WRoom ks) s1) =
        (Inr (), c\<lparr>ac_interest := only_OUT, ac_fd := FD_CLOSED\<rparr>, h, s2) \<and>
    io_sent (to_io s2 (ac_fd c)) = http_response \<and> ac_fd c \<notin> set (to_open s2)"
proof -
  obtain h1 s1 is' where asked: "http_pieces (ps @ [p]) c (h, s) = (Inr (), c\<lparr>ac_interest := only_OUT\<rparr>, h1, s1)"
    and t1: "talks c s1 [] is' []" and ans: "http_answering (http_context c h1)"
    and h1: "AList.delete (ac_id c) h1 = h"
    using http_pieces_asked [OF assms(4-6,3,1,2)] by blast
  let ?c = "c\<lparr>ac_interest := only_OUT\<rparr>"
  have "talks ?c (io_arrives (ac_fd c) [] (map WRoom ks) s1) [] is' (map WRoom ks)"
    using talks_io_arrives [OF t1, of "[]"] by simp
  from http_handleWrite_room [OF this assms(7), of "http_context ?c h1"] ans assms(8)
  obtain s2 where s2: "http_handleWrite (http_context ?c h1) (?c, io_arrives (ac_fd c) [] (map WRoom ks) s1) =
      (Inr (), None, ?c\<lparr>ac_fd := FD_CLOSED\<rparr>, s2)"
    "io_sent (to_io s2 (ac_fd c)) = http_response" "ac_fd c \<notin> set (to_open s2)"
    by (auto simp: http_answering_def http_response_def)
  from http_handler_OUT [OF s2(1)] s2(2,3) asked t1 h1 show ?thesis by (auto simp: talks_def)
qed

text \<open>A client that ends its stream before: the connection is closed, but its context stays behind.\<close>

lemma http_end_of_stream_keeps_context:
  assumes "talks c s sent [RBytes []] os" and "http_reading d (http_context c h)"
  shows "\<exists>s'. http_handler c (EventsSet_of [IN]) (h, s) =
    (Inr (), c\<lparr>ac_fd := FD_CLOSED\<rparr>, AList.update (ac_id c) (http_context c h) h, s')"
proof -
  let ?n = "length (hc_read_buffer (http_context c h)) - hc_read_pos (http_context c h)"
  obtain s' where "ac_read ?n (c, s) = (Inr (None, []), c\<lparr>ac_fd := FD_CLOSED\<rparr>, s')"
    using assms(1)
    by (auto simp: talks_def ac_read_def os_read_def sys_read_def ac_close_def os_shutdown_def os_close_def)
  then have "http_handleRead (http_context c h) (c, s) = (Inr (), http_context c h, c\<lparr>ac_fd := FD_CLOSED\<rparr>, s')"
    by (simp add: http_handleRead.simps [of "http_context c h" c s] isEOF_def)
  from http_handler_IN [OF this] show ?thesis by simp
qed

section \<open>An instance\<close>

definition http_con :: AsyncConnection where
  "http_con = \<lparr>ac_id = 0, ac_fd = 5, ac_local = Sockinfo_default, ac_remote = Sockinfo_default,
     ac_interest = only_IN\<rparr>"

definition http_os :: tcp_os where
  "http_os = \<lparr>to_open = [3, 5], to_connected = (\<lambda>_. True), to_io = (\<lambda>_. io_init [] []),
     to_sndtimeo = (\<lambda>_. None), to_rcvtimeo = (\<lambda>_. None), to_local = (\<lambda>_. Inr Sockinfo_default),
     to_remote = (\<lambda>_. Inr Sockinfo_default)\<rparr>"

theorem async_http_answers_witness:
  "\<exists>h1 s1 s2. http_pieces [''GET / HTTP/1.1'' @ CRLF, CRLF] http_con ([], http_os) =
      (Inr (), http_con\<lparr>ac_interest := only_OUT\<rparr>, h1, s1) \<and>
    io_sent (to_io s1 5) = [] \<and>
    http_handler (http_con\<lparr>ac_interest := only_OUT\<rparr>) (EventsSet_of [OUT])
      (h1, io_arrives 5 [] [WRoom 7, WRoom 100] s1) =
        (Inr (), http_con\<lparr>ac_interest := only_OUT, ac_fd := FD_CLOSED\<rparr>, [], s2) \<and>
    io_sent (to_io s2 5) = http_response \<and> 5 \<notin> set (to_open s2)"
  using async_http_answers [of http_con http_os "[]" "[''GET / HTTP/1.1'' @ CRLF]" CRLF "[7, 100]"]
  by (simp add: talks_def http_con_def http_os_def io_init_def ac_isOpened_def FD_CLOSED_def
      CRLF_def CRLF2_def http_response_def)

end
