(* ===== verification/Spec2Isabelle.thy ===== *)
theory Spec2Isabelle
  imports Parser_Errors Handler_Defects Worker_Conversation Http_Server Logging Cli KV_Server Tcp_Props Async_Props
    Process_Props Shm_Props Shm_Map Owners Logger_Example Tcp_Example Process_Echo Shm_Example
    Coroutine_Example KV_Over_Http Async_Http_Props
begin

text \<open>
  A verification library for the C++ repository \<^verbatim>\<open>cpp-tp-advanced\<close>: an HTTP server on epoll and
  coroutines with a key-value store behind it, blocking and asynchronous TCP classes, a wrapper of
  child processes, a map in shared memory, and loggers.

  \<^bold>\<open>How the program is put together.\<close> \<^verbatim>\<open>HttpServer::run\<close> starts a pool of \<^verbatim>\<open>HttpWorker\<close>s on one
  listening socket. Each worker has its own \<^verbatim>\<open>Epoller\<close> and its own table of \<^verbatim>\<open>ConnectionHandler\<close>s;
  every handler runs in a coroutine that suspends when its socket would block, and tells the worker
  by its \<^verbatim>\<open>EventsSet\<close> what it waits for. The handler feeds what it reads to an incremental
  \<^verbatim>\<open>HttpRequestParser\<close>, calls the user's \<^verbatim>\<open>serveRequest\<close> with the \<^verbatim>\<open>HttpRequest\<close> and writes the serialised
  \<^verbatim>\<open>HttpResponse\<close>. The key-value server answers from a memory-mapped file with a sorted index.

  \<^bold>\<open>Theories and sources.\<close>
  \<^item> \<open>Prelude\<close>: results as sums, sequencing, shared lemmas. \<open>Cpp_String\<close>: searching, substrings,
    decimal numbers. \<open>Posix_IO\<close>: descriptors as scripts of what the peer and the kernel will do.
  \<^item> \<open>Events\<close>: \<^verbatim>\<open>tcp/events\<close>, the 32-bit interest mask. \<open>Epoller\<close>: \<^verbatim>\<open>tcp/epoller\<close> and \<^verbatim>\<open>tcp/exceptions\<close>.
  \<^item> \<open>Protocol\<close>, \<open>Http_Message\<close>: \<^verbatim>\<open>http/protocol\<close>, \<^verbatim>\<open>http_request\<close>, \<^verbatim>\<open>http_response\<close>, \<^verbatim>\<open>exceptions\<close> and the
    printers of \<^verbatim>\<open>utils.hpp\<close>. \<open>Http_Parser\<close>: \<^verbatim>\<open>http/parser\<close>; \<open>Parser_Resume\<close>, \<open>Parser_Roundtrip\<close>,
    \<open>Parser_Props\<close>: its properties; \<open>Parser_Errors\<close>: the first fault of a text, written down without a parser,
    and that it is what the parser throws.
  \<^item> \<open>Coroutine\<close>, \<open>Coroutine_Pool\<close>: \<^verbatim>\<open>coroutine/coroutine\<close>, the table of routines over an arbitrary
    body given by continuations.
  \<^item> \<open>Connection_Handler\<close>: \<^verbatim>\<open>http/connection_handler\<close>, cut at its yields into the continuations \<open>pc\<close>;
    \<open>Handler_Invariant\<close>, \<open>Handler_Props\<close>, \<open>Handler_Request\<close>, \<open>Handler_Defects\<close>: its properties;
    \<open>Handler_Conversation\<close>: a client's requests (\<open>ask\<close>), how they may arrive, and what the client is owed.
  \<^item> \<open>Http_Worker\<close>, \<open>Worker_Invariant\<close>, \<open>Worker_Props\<close>: \<^verbatim>\<open>http/http_worker\<close>; \<open>Worker_Serves\<close>: a client of
    the worker; \<open>Worker_Conversation\<close>: clients that stay over many rounds. \<open>Http_Server\<close>: \<^verbatim>\<open>http/http_server\<close> and what the constructors of all servers share.
  \<^item> \<open>Logging\<close>: \<^verbatim>\<open>log/\<close>. \<open>Cli\<close>: the option parsers of the examples.
  \<^item> \<open>KV_File\<close>, \<open>KV_Store\<close>, \<open>KV_Lookup\<close>, \<open>KV_Generator\<close>, \<open>KV_Server\<close>: \<^verbatim>\<open>kvstore/\<close> and the example
    server and generator on it.
  \<^item> \<open>Exact_IO\<close>: the loops \<^verbatim>\<open>readExact\<close> and \<^verbatim>\<open>writeExact\<close>. \<open>Tcp_Socket\<close>: \<^verbatim>\<open>tcp/utils\<close> and the sockets of a
    process. \<open>Tcp_Connection\<close>, \<open>Tcp_Props\<close>: \<^verbatim>\<open>tcp/connection\<close>, \<^verbatim>\<open>tcp/server\<close>.
  \<^item> \<open>Async_Connection\<close>, \<open>Async_Server\<close>, \<open>Async_Invariant\<close>: \<^verbatim>\<open>tcp/async_connection\<close>, \<^verbatim>\<open>tcp/async_server\<close>;
    \<open>Async_Echo\<close>, \<open>Async_Http\<close>: the example callbacks; \<open>Async_Echo_Props\<close>,
    \<open>Async_Http_Props\<close>, \<open>Async_Props\<close>: properties.
  \<^item> \<open>Process\<close>, \<open>Process_Props\<close>: \<^verbatim>\<open>process/\<close>. \<open>Shm_Region\<close>, \<open>Shm_Props\<close>, \<open>Shm_Map\<close>: \<^verbatim>\<open>shmem/\<close>.
  \<^item> \<open>Owners\<close>: the move-only classes (\<^verbatim>\<open>Epoller\<close>, \<^verbatim>\<open>Connection\<close>, \<^verbatim>\<open>Server\<close>, \<^verbatim>\<open>AsyncConnection\<close>, \<^verbatim>\<open>ShMutex\<close>,
    \<^verbatim>\<open>SmartPtr\<close>) and what they have in common; programs that construct, move and destroy their objects.
  \<^item> The programs under \<^verbatim>\<open>examples/\<close>: \<open>Logger_Example\<close>, \<open>Tcp_Example\<close> (client and server), \<open>Process_Echo\<close>
    (parent and child side by side), \<open>Shm_Example\<close> (two processes on one map), \<open>Coroutine_Example\<close>, and
    \<open>Example_Mains\<close>: the generator, the HTTP servers and the asynchronous servers; \<open>KV_Over_Http\<close>: the
    clients of the key-value server.

  \<^bold>\<open>How state and operations correspond.\<close> A class is a record with the source's members; a member
  function takes and returns it. Exceptions are the left side of a sum, \<^verbatim>\<open>std::optional\<close> is an
  option, sizes that wrap and masks are words. What the process shares (open descriptors, clocks,
  logs, the kernel's tables) is passed along in a record of its own. Everything the outside decides
  is an argument or a script in the state: bytes, errors and room on a descriptor, what
  \<^verbatim>\<open>epoll_wait\<close>, \<^verbatim>\<open>accept4\<close>, \<^verbatim>\<open>getaddrinfo\<close>, \<^verbatim>\<open>fork\<close> and \<^verbatim>\<open>mmap\<close> return, and the time. The user's callback is
  a parameter.

  \<^bold>\<open>Interfaces.\<close> \<open>interest_set\<close> (events), \<open>byte_stream\<close> (exact transfers; connections and processes
  provide it), \<open>async_callback\<close> (callbacks that touch only their connection; both examples provide
  it), \<open>move_only\<close> (ownership under moves and assignments; six classes provide it), \<open>owner\<close>, which extends it
  by constructors (the four classes that own a descriptor), \<open>hashed_keys\<close> (containers that hash), and those
  of the coroutine pool, the loggers and the store.

  \<^bold>\<open>What the lemmas show.\<close> Of the HTTP server: requests are parsed the same in any pieces and
  survive printing and parsing, and what is wrong with a text is thrown for its first fault; a
  well-formed request that fits the read buffer is answered with exactly the response of the
  callback, by a handler and, once its bytes have arrived, by the next round of a worker; every request of a conversation, each within the read buffer, is answered
  in order and once, with bodies, over any waits inside requests and responses, and over any number of
  rounds of a worker among its other clients, as long as the pieces are not cut where the byte that the
  parser is shown too early could complete something; the parser's
  views stay inside what it has seen; what is sent is always a sequence of whole responses and a prefix of one; a suspended
  handler is always watched for what it waits for; time-outs and shutdown end the right handlers, and a
  server that returns has drained its pool;
  coroutine slots are reused. Of the store: lookups on a generated file return the stored record
  for the keys the search is good for (the exceptions are theorems about defects),
  the server refines an abstract database, and so do the bytes its clients get over HTTP. Of the TCP classes: transfers are exact, constructors
  open one descriptor or none, connections of the asynchronous server are always watched for their
  interest set, the echo example sends what it receives, and no descriptor is lost, shared or closed by an object
  that does not own it. Of processes: after a start every pipe
  end is where it belongs, and after \<^verbatim>\<open>closeStdin\<close> nobody holds a writing end of the child's input.
  Of shared memory: the map is linearizable under any interleaving. Of the examples: what each program
  prints, sends or leaves, that the programs with two processes do not get stuck, and that the
  generator and the key-value server fit together from one command line to the other. The defects that modelling showed
  are theorems too, each with a concrete instance.

  \<^bold>\<open>Bounds and fuel.\<close> No definition uses fuel: loops on descriptors end because every round uses up
  some of a finite script, the others by their own measure. Loops that may run for ever (the search and
  the index of the store, the last loop of the coroutine example) are partial functions into options.
  Endless loops of the program (the workers, \<^verbatim>\<open>accept\<close>) are folds over what their rounds meet, for
  every such sequence. The pipes of \<open>Process_Echo\<close> hold any number of bytes that is not below the
  size of the buffer sent; with a buffer that fits nowhere both programs stop for ever.

  \<^bold>\<open>Taken for granted.\<close> The clock does not advance while a worker handles one batch of events. Different
  strings have different hashes, which matters for keys with a NUL byte only. No signal interrupts
  \<^verbatim>\<open>sem_wait\<close> in the shared-memory example. The contents of a shared map do not depend on where its nodes
  lie: the defect of its allocator is a theorem about the allocator alone. Insertions into the sink of a
  thread-safe logger do not fail. No peer resets a connection while one of the programs of \<open>Owners\<close> runs.

  \<^bold>\<open>Not modelled.\<close> Stacks and \<^verbatim>\<open>ucontext\<close> of coroutines (continuations stand for them) and nested
  resumption; \<^verbatim>\<open>JThread\<close>; \<^verbatim>\<open>SIGPIPE\<close>; byte order of addresses; node layout of
  \<^verbatim>\<open>std::map\<close> in shared memory and its \<^verbatim>\<open>insert_or_assign\<close>, which does not compile when used; the
  buffers of the standard streams, except in \<open>Process_Echo\<close>; the build files.
\<close>

end
